(* ===== verification/Prelude.thy ===== *)
theory Prelude
  imports Main "HOL-Library.Word" "HOL-Library.Multiset"
begin

text \<open>
  Shared vocabulary of the tinyCoroLab development: the machine types of the
  C++ sources, the faults a call can end in, sequencing of fallible calls, and the
  lemmas on lists, multisets and words that the component theories use.

  A \<open>std::coroutine_handle<>\<close> is the address of a coroutine frame, here a natural
  number. A call that the source may leave other than by returning is modelled with
  result type \<open>fault + 'a\<close>: \<open>Inl\<close> names the way it fails to return.
\<close>

section \<open>Types\<close>

type_synonym u8 = "8 word"
type_synonym u32 = "32 word"
type_synonym u64 = "64 word"
type_synonym i32 = "32 word"
type_synonym handle = nat

text \<open>
  The ways a call of the source ends without a result: \<open>Would_Block\<close> is a call that
  spins or sleeps until another thread acts, \<open>Assert_Failed\<close> a failed \<open>assert\<close>,
  \<open>Exit_Failure\<close> a call of \<open>std::exit(1)\<close>, \<open>Null_Deref\<close> a use of a null
  pointer, \<open>Missing_Return\<close> control flowing off the end of a value-returning
  function, \<open>Terminate\<close> a call of \<open>std::terminate\<close>, \<open>Div_Zero\<close> a remainder
  by zero, \<open>Inactive_Member\<close> a use of a union member that is not the active one,
  \<open>Out_Of_Range\<close> an access outside an array, \<open>Use_After_Free\<close> a use of a
  destroyed coroutine frame, \<open>Resumed_Done\<close> a resumption of a coroutine that is suspended
  at its end and \<open>Thrown\<close> an exception that reaches the caller.
\<close>

datatype fault =
    Would_Block
  | Assert_Failed
  | Exit_Failure
  | Null_Deref
  | Missing_Return
  | Terminate
  | Div_Zero
  | Inactive_Member
  | Out_Of_Range
  | Use_After_Free
  | Resumed_Done
  | Thrown string

type_synonym 'a res = "fault + 'a"

section \<open>Sequencing of calls\<close>

fun bindE :: "'a res \<Rightarrow> ('a \<Rightarrow> 'b res) \<Rightarrow> 'b res" where
  "bindE (Inl f) k = Inl f"
| "bindE (Inr x) k = k x"

text \<open>A range-based \<open>for\<close> loop whose body is a fallible call on the state.\<close>

fun foldE :: "('x \<Rightarrow> 's \<Rightarrow> 's res) \<Rightarrow> 'x list \<Rightarrow> 's \<Rightarrow> 's res" where
  "foldE f [] s = Inr s"
| "foldE f (x # xs) s = bindE (f x s) (foldE f xs)"

named_theorems coro_simps \<open>definitions unfolded when an operation is symbolically executed\<close>
named_theorems inv_defs \<open>definitions of the invariants of the components\<close>

lemma bindE_Inr_iff [simp]: "bindE m k = Inr y \<longleftrightarrow> (\<exists>x. m = Inr x \<and> k x = Inr y)"
  by (cases m) auto

lemma bindE_Inl_iff: "bindE m k = Inl f \<longleftrightarrow> m = Inl f \<or> (\<exists>x. m = Inr x \<and> k x = Inl f)"
  by (cases m) auto

lemma bindE_assoc: "bindE (bindE m k) l = bindE m (\<lambda>x. bindE (k x) l)"
  by (cases m) auto

lemma foldE_append: "foldE f (xs @ ys) s = bindE (foldE f xs s) (foldE f ys)"
proof (induction xs arbitrary: s)
  case (Cons x xs)
  then have "foldE f (xs @ ys) = (\<lambda>t. bindE (foldE f xs t) (foldE f ys))" by blast
  then show ?case by (simp add: bindE_assoc)
qed simp

text \<open>A relation between states that every body call keeps is kept by the loop.\<close>

lemma foldE_invariant:
  assumes step: "\<And>x s s'. f x s = Inr s' \<Longrightarrow> P s \<Longrightarrow> P s'"
    and loop: "foldE f xs s = Inr s'" and start: "P s"
  shows "P s'"
  using loop start
proof (induction xs arbitrary: s)
  case (Cons x xs)
  then obtain t where "f x s = Inr t" "foldE f xs t = Inr s'" by auto
  with Cons step show ?case by blast
qed simp

text \<open>A loop whose body always returns under a budget of calls returns within the budget.\<close>

lemma foldE_total:
  assumes step: "\<And>x s n. R (Suc n) s \<Longrightarrow> \<exists>s'. f x s = Inr s' \<and> R n s'"
    and budget: "R (length xs + n) s"
  shows "\<exists>s'. foldE f xs s = Inr s' \<and> R n s'"
  using budget
proof (induction xs arbitrary: s)
  case (Cons x xs)
  then obtain t where t: "f x s = Inr t" "R (length xs + n) t"
    using step [of "length xs + n" s x] by auto
  with Cons.IH [OF t(2)] show ?case by auto
qed simp

section \<open>Lists used as queues\<close>

lemma list_update_sum_list:
  fixes f :: "'a \<Rightarrow> 'b::cancel_comm_monoid_add"
  assumes "i < length xs"
  shows "(\<Sum>x\<leftarrow>xs[i := y]. f x) + f (xs ! i) = (\<Sum>x\<leftarrow>xs. f x) + f y"
  using assms
proof (induction xs arbitrary: i)
  case (Cons x xs)
  then show ?case by (cases i) (auto simp: ac_simps)
qed simp

lemma sum_list_update_add:
  fixes f :: "'a \<Rightarrow> 'b::cancel_comm_monoid_add"
  assumes "i < length xs" and "f y = d + f (xs ! i)"
  shows "(\<Sum>x\<leftarrow>xs[i := y]. f x) = d + (\<Sum>x\<leftarrow>xs. f x)"
proof -
  have "(\<Sum>x\<leftarrow>xs[i := y]. f x) + f (xs ! i) = (d + (\<Sum>x\<leftarrow>xs. f x)) + f (xs ! i)"
    using list_update_sum_list [OF assms(1), of f y] assms(2) by (simp add: ac_simps)
  then show ?thesis by simp
qed

lemma sum_list_update_same:
  fixes f :: "'a \<Rightarrow> 'b::cancel_comm_monoid_add"
  assumes "i < length xs" and "f y = f (xs ! i)"
  shows "(\<Sum>x\<leftarrow>xs[i := y]. f x) = (\<Sum>x\<leftarrow>xs. f x)"
  using sum_list_update_add [of i xs f y 0] assms by simp

section \<open>Words\<close>

lemma unat_of_nat_u64 [simp]: "n < 2 ^ 64 \<Longrightarrow> unat (of_nat n :: u64) = n"
  by (simp add: unat_of_nat take_bit_nat_eq_self)

lemma unat_of_nat_u32 [simp]: "n < 2 ^ 32 \<Longrightarrow> unat (of_nat n :: u32) = n"
  by (simp add: unat_of_nat take_bit_nat_eq_self)

lemma of_nat_u32_eq_0_iff: "n < 2 ^ 32 \<Longrightarrow> (of_nat n :: u32) = 0 \<longleftrightarrow> n = 0"
  using unat_of_nat_u32 [of n] by (metis unat_eq_zero)

lemma unat_dec_u64: "(x :: u64) \<noteq> 0 \<Longrightarrow> unat (x - 1) = unat x - 1"
  by (simp add: unat_minus_one)

end
