(* ===== verification/Atomic_Queue.thy ===== *)
theory Atomic_Queue
  imports Prelude
begin

unbundle bit_operations_syntax

text \<open>
  The multi-producer multi-consumer ring buffer that holds the ready coroutines of an
  engine: \<open>AtomicQueueB2\<close> of \<open>third_party/atomic_queue\<close>, instantiated by
  \<open>coro/atomic_que.hpp\<close> with \<open>MAXIMIZE_THROUGHPUT\<close> set, \<open>TOTAL_ORDER\<close> and
  \<open>SPSC\<close> unset. The theory holds the index arithmetic (\<open>remap_index\<close>,
  \<open>round_up_to_power_of_2\<close>), the operations as one call sees them when no other call
  is in progress (a slot the call would spin on is \<open>Would_Block\<close>), and the proof that
  they implement a bounded first-in first-out queue.
\<close>

section \<open>Interface: a bounded FIFO queue\<close>

fun pop_n :: "('q \<Rightarrow> ('a \<times> 'q) res) \<Rightarrow> nat \<Rightarrow> 'q \<Rightarrow> ('a list \<times> 'q) res" where
  "pop_n p 0 q = Inr ([], q)"
| "pop_n p (Suc n) q =
     bindE (p q) (\<lambda>(x, q'). bindE (pop_n p n q') (\<lambda>(xs, q''). Inr (x # xs, q'')))"

locale bounded_fifo =
  fixes push :: "'a \<Rightarrow> 'q \<Rightarrow> 'q res"
    and pop :: "'q \<Rightarrow> ('a \<times> 'q) res"
    and was_size :: "'q \<Rightarrow> nat"
    and cap :: "'q \<Rightarrow> nat"
    and items :: "'q \<Rightarrow> 'a list"
    and invar :: "'q \<Rightarrow> bool"
  assumes push_ok: "invar q \<Longrightarrow> length (items q) < cap q \<Longrightarrow>
      \<exists>q'. push x q = Inr q' \<and> invar q' \<and> items q' = items q @ [x] \<and> cap q' = cap q"
    and push_full: "invar q \<Longrightarrow> length (items q) = cap q \<Longrightarrow> push x q = Inl Would_Block"
    and pop_ok: "invar q \<Longrightarrow> items q = x # xs \<Longrightarrow>
      \<exists>q'. pop q = Inr (x, q') \<and> invar q' \<and> items q' = xs \<and> cap q' = cap q"
    and pop_empty: "invar q \<Longrightarrow> items q = [] \<Longrightarrow> pop q = Inl Would_Block"
    and was_size_items: "invar q \<Longrightarrow> was_size q = length (items q)"
    and items_cap: "invar q \<Longrightarrow> length (items q) \<le> cap q"
begin

lemma push_all:
  "invar q \<Longrightarrow> length (items q) + length xs \<le> cap q \<Longrightarrow>
     \<exists>q'. foldE push xs q = Inr q' \<and> invar q' \<and> items q' = items q @ xs \<and> cap q' = cap q"
proof (induction xs arbitrary: q)
  case (Cons x xs)
  then obtain q1 where q1: "push x q = Inr q1" "invar q1" "items q1 = items q @ [x]" "cap q1 = cap q"
    using push_ok [of q x] by auto
  with Cons.IH [of q1] Cons.prems show ?case by auto
qed simp

lemma pop_all:
  "invar q \<Longrightarrow> items q = xs @ ys \<Longrightarrow>
     \<exists>q'. pop_n pop (length xs) q = Inr (xs, q') \<and> invar q' \<and> items q' = ys \<and> cap q' = cap q"
proof (induction xs arbitrary: q)
  case (Cons x xs)
  then obtain q1 where "pop q = Inr (x, q1)" "invar q1" "items q1 = xs @ ys" "cap q1 = cap q"
    using pop_ok [of q x "xs @ ys"] by auto
  with Cons.IH [of q1] show ?case by auto
qed simp

text \<open>What is pushed comes out in the same order, behind what was there before.\<close>

lemma fifo_roundtrip:
  assumes "invar q" and "length (items q) + length xs \<le> cap q"
  shows "\<exists>q1 q2. foldE push xs q = Inr q1 \<and>
           pop_n pop (length (items q) + length xs) q1 = Inr (items q @ xs, q2) \<and> items q2 = []"
proof -
  obtain q1 where q1: "foldE push xs q = Inr q1" "invar q1" "items q1 = items q @ xs"
    using push_all [OF assms] by blast
  then show ?thesis using pop_all [of q1 "items q @ xs" "[]"] by auto
qed

end

section \<open>Index arithmetic\<close>

definition GetCacheLineIndexBits :: "nat \<Rightarrow> nat" where
  "GetCacheLineIndexBits elements_per_cache_line =
     (if elements_per_cache_line = 256 then 8
      else if elements_per_cache_line = 128 then 7
      else if elements_per_cache_line = 64 then 6
      else if elements_per_cache_line = 32 then 5
      else if elements_per_cache_line = 16 then 4
      else if elements_per_cache_line = 8 then 3
      else if elements_per_cache_line = 4 then 2
      else if elements_per_cache_line = 2 then 1
      else 0)"

definition GetIndexShuffleBits :: "bool \<Rightarrow> u32 \<Rightarrow> nat \<Rightarrow> nat" where
  "GetIndexShuffleBits minimize_contention array_size elements_per_cache_line =
     (if minimize_contention then
        let bits = GetCacheLineIndexBits elements_per_cache_line;
            min_size = (push_bit (bits * 2) 1 :: u32)
        in if array_size < min_size then 0 else bits
      else 0)"

definition remap_index :: "nat \<Rightarrow> u32 \<Rightarrow> u32" where
  "remap_index bits index =
     (if bits = 0 then index else
        let mix_mask = push_bit bits 1 - 1;
            mix = (index XOR drop_bit bits index) AND mix_mask
        in index XOR mix XOR push_bit bits mix)"

definition or_equal :: "nat \<Rightarrow> u32 \<Rightarrow> u32" where
  "or_equal u x = x OR drop_bit u x"

definition round_up_to_power_of_2 :: "u32 \<Rightarrow> u32" where
  "round_up_to_power_of_2 a =
     or_equal 16 (or_equal 8 (or_equal 4 (or_equal 2 (or_equal 1 (a - 1))))) + 1"

section \<open>The ring buffer\<close>

datatype qstate = EMPTY | STORING | STORED | LOADING

record 'a atomic_queue =
  q_head :: u32
  q_tail :: u32
  q_size :: u32
  q_states :: "u32 \<Rightarrow> qstate"
  q_elements :: "u32 \<Rightarrow> 'a"

text \<open>\<open>CACHE_LINE_SIZE / sizeof(AtomicState)\<close> is 64.\<close>

definition SHUFFLE_BITS :: nat where
  "SHUFFLE_BITS = GetCacheLineIndexBits 64"

definition aq_new :: "'a \<Rightarrow> u32 \<Rightarrow> 'a atomic_queue" where
  "aq_new dflt sz =
     \<lparr>q_head = 0, q_tail = 0,
      q_size = max (round_up_to_power_of_2 sz) (push_bit (SHUFFLE_BITS * 2) 1),
      q_states = (\<lambda>_. EMPTY), q_elements = (\<lambda>_. dflt)\<rparr>"

definition aq_slot :: "u32 \<Rightarrow> u32 \<Rightarrow> u32" where
  "aq_slot sz i = remap_index SHUFFLE_BITS (i AND (sz - 1))"

definition do_push_any :: "'a \<Rightarrow> u32 \<Rightarrow> 'a atomic_queue \<Rightarrow> 'a atomic_queue res" where
  "do_push_any element index q =
     (if q_states q index = EMPTY
      then Inr (q\<lparr>q_elements := (q_elements q)(index := element),
                  q_states := (q_states q)(index := STORED)\<rparr>)
      else Inl Would_Block)"

definition do_pop_any :: "u32 \<Rightarrow> 'a atomic_queue \<Rightarrow> ('a \<times> 'a atomic_queue) res" where
  "do_pop_any index q =
     (if q_states q index = STORED
      then Inr (q_elements q index, q\<lparr>q_states := (q_states q)(index := EMPTY)\<rparr>)
      else Inl Would_Block)"

definition do_push :: "'a \<Rightarrow> u32 \<Rightarrow> 'a atomic_queue \<Rightarrow> 'a atomic_queue res" where
  "do_push element h q = do_push_any element (aq_slot (q_size q) h) q"

definition do_pop :: "u32 \<Rightarrow> 'a atomic_queue \<Rightarrow> ('a \<times> 'a atomic_queue) res" where
  "do_pop t q = do_pop_any (aq_slot (q_size q) t) q"

definition aq_push :: "'a \<Rightarrow> 'a atomic_queue \<Rightarrow> 'a atomic_queue res" where
  "aq_push element q = (let h = q_head q in do_push element h (q\<lparr>q_head := h + 1\<rparr>))"

definition aq_pop :: "'a atomic_queue \<Rightarrow> ('a \<times> 'a atomic_queue) res" where
  "aq_pop q = (let t = q_tail q in do_pop t (q\<lparr>q_tail := t + 1\<rparr>))"

definition aq_try_push :: "'a \<Rightarrow> 'a atomic_queue \<Rightarrow> (bool \<times> 'a atomic_queue) res" where
  "aq_try_push element q =
     (let h = q_head q in
      if sint (h - q_tail q) \<ge> sint (q_size q) then Inr (False, q)
      else bindE (do_push element h (q\<lparr>q_head := h + 1\<rparr>)) (\<lambda>q'. Inr (True, q')))"

definition aq_try_pop :: "'a atomic_queue \<Rightarrow> ('a option \<times> 'a atomic_queue) res" where
  "aq_try_pop q =
     (let t = q_tail q in
      if sint (q_head q - t) \<le> 0 then Inr (None, q)
      else bindE (do_pop t (q\<lparr>q_tail := t + 1\<rparr>)) (\<lambda>(x, q'). Inr (Some x, q')))"

definition aq_was_size :: "'a atomic_queue \<Rightarrow> nat" where
  "aq_was_size q = nat (max (sint (q_head q - q_tail q)) 0)"

definition aq_was_empty :: "'a atomic_queue \<Rightarrow> bool" where
  "aq_was_empty q = (aq_was_size q = 0)"

definition aq_was_full :: "'a atomic_queue \<Rightarrow> bool" where
  "aq_was_full q = (int (aq_was_size q) \<ge> sint (q_size q))"

definition aq_capacity :: "'a atomic_queue \<Rightarrow> nat" where
  "aq_capacity q = unat (q_size q)"

section \<open>Correctness of the index arithmetic\<close>

text \<open>\<open>remap_index<BITS>\<close> swaps the lowest \<open>BITS\<close> bits with the next \<open>BITS\<close> bits.\<close>

lemma bit_remap_index:
  assumes "2 * b \<le> 32"
  shows "bit (remap_index b x) n =
          (if n < b then bit x (n + b) else if n < 2 * b then bit x (n - b) else bit x n)"
proof -
  have mask: "(2 ^ b - 1 :: u32) = mask b"
    by (simp add: mask_eq_exp_minus_1)
  define mix where "mix = (x XOR drop_bit b x) AND mask b"
  have "remap_index b x = x XOR mix XOR push_bit b mix"
    by (auto simp: remap_index_def mask Let_def mix_def)
  moreover have mix: "bit mix n \<longleftrightarrow> n < b \<and> (bit x n \<noteq> bit x (b + n))" for n
    using assms by (auto simp: mix_def bit_simps)
  moreover have "bit (push_bit b mix) n \<longleftrightarrow> b \<le> n \<and> n < 2 * b \<and> (bit x (n - b) \<noteq> bit x n)"
    using assms by (auto simp: bit_simps mix)
  ultimately have "bit (remap_index b x) n \<longleftrightarrow> (bit x n \<noteq> ((n < b \<and> (bit x n \<noteq> bit x (b + n)))
      \<noteq> (b \<le> n \<and> n < 2 * b \<and> (bit x (n - b) \<noteq> bit x n))))"
    by (simp only: bit_xor_iff)
  then show ?thesis
    by (cases "n < b"; cases "n < 2 * b") (auto simp: add.commute)
qed

lemma remap_index_involution:
  assumes "2 * b \<le> 32"
  shows "remap_index b (remap_index b x) = x"
  by (rule bit_word_eqI) (use assms in \<open>auto simp: bit_remap_index\<close>)

lemma remap_index_inj: "2 * b \<le> 32 \<Longrightarrow> inj (remap_index b)"
  by (metis injI remap_index_involution)

lemma bit_or_equal: "bit (or_equal u x) n \<longleftrightarrow> bit x n \<or> bit x (u + n)"
  by (simp add: or_equal_def bit_simps)

text \<open>
  Each \<open>or_equal\<close> doubles the window of positions a bit is copied down through, so
  the chain copies the highest set bit into every lower position.
\<close>

lemma or_equal_window:
  assumes "\<And>n. bit y n \<longleftrightarrow> (\<exists>d < k. bit x (d + n))"
  shows "bit (or_equal k y) n \<longleftrightarrow> (\<exists>d < 2 * k. bit x (d + n))"
proof -
  have "(\<exists>d < 2 * k. bit x (d + n)) \<longleftrightarrow> (\<exists>d < k. bit x (d + n)) \<or> (\<exists>d < k. bit x (d + (k + n)))"
    (is "?L \<longleftrightarrow> ?A \<or> ?B")
  proof
    assume ?L
    then obtain d where d: "d < 2 * k" "bit x (d + n)" by blast
    show "?A \<or> ?B"
    proof (cases "d < k")
      case False
      with d have "d - k < k" "bit x ((d - k) + (k + n))" by simp_all
      then show ?thesis by blast
    qed (use d in blast)
  next
    assume "?A \<or> ?B"
    then show ?L
    proof
      assume ?B
      then obtain d where "d < k" "bit x (d + (k + n))" by blast
      then have "d + k < 2 * k" "bit x ((d + k) + n)" by (simp_all add: ac_simps)
      then show ?L by blast
    qed (use trans_less_add1 mult_2 in fastforce)
  qed
  then show ?thesis by (simp add: bit_or_equal assms)
qed

definition smear :: "u32 \<Rightarrow> u32" where
  "smear x = or_equal 16 (or_equal 8 (or_equal 4 (or_equal 2 (or_equal 1 x))))"

lemma bit_smear: "bit (smear x) n \<longleftrightarrow> (\<exists>m \<ge> n. bit x m)"
proof -
  have w1: "bit (or_equal 1 x) n \<longleftrightarrow> (\<exists>d < 2. bit x (d + n))" for n
    using or_equal_window [of x 1 x n] by simp
  have w2: "bit (or_equal 2 (or_equal 1 x)) n \<longleftrightarrow> (\<exists>d < 4. bit x (d + n))" for n
    using or_equal_window [OF w1, of n] by simp
  have w3: "bit (or_equal 4 (or_equal 2 (or_equal 1 x))) n \<longleftrightarrow> (\<exists>d < 8. bit x (d + n))" for n
    using or_equal_window [OF w2, of n] by simp
  have w4: "bit (or_equal 8 (or_equal 4 (or_equal 2 (or_equal 1 x)))) n \<longleftrightarrow> (\<exists>d < 16. bit x (d + n))" for n
    using or_equal_window [OF w3, of n] by simp
  have w5: "bit (smear x) n \<longleftrightarrow> (\<exists>d < 32. bit x (d + n))"
    using or_equal_window [OF w4, of n] by (simp add: smear_def)
  have "(\<exists>d < 32. bit x (d + n)) \<longleftrightarrow> (\<exists>m \<ge> n. bit x m)"
  proof
    assume "\<exists>m \<ge> n. bit x m"
    then obtain m where m: "n \<le> m" "bit x m" by blast
    have "m < 32" using m(2) bit_imp_le_length [of x m] by simp
    with m have "m - n < 32" "bit x ((m - n) + n)" by simp_all
    then show "\<exists>d < 32. bit x (d + n)" by blast
  qed (use le_add2 in blast)
  with w5 show ?thesis by simp
qed

text \<open>
  For \<open>1 < a \<le> 2^31\<close> the result is the least power of two that is not below \<open>a\<close>.
\<close>

lemma smear_mask:
  assumes "x \<noteq> 0"
  shows "\<exists>k < 32. bit x k \<and> smear x = mask (Suc k)"
proof -
  from assms obtain j where j: "bit x j"
    using bit_word_eqI [of x 0] by auto
  have fin: "{m. bit x m} \<subseteq> {..<32}" using bit_imp_le_length [of x] by auto
  define k where "k = Max {m. bit x m}"
  have fin': "finite {m. bit x m}" using fin finite_subset by blast
  have k: "bit x k" "\<And>m. bit x m \<Longrightarrow> m \<le> k"
    using Max_in [OF fin'] Max_ge [OF fin'] j unfolding k_def by auto
  have "smear x = mask (Suc k)"
    by (rule bit_word_eqI) (use k bit_smear [of x] in \<open>auto simp: bit_mask_iff less_Suc_eq_le intro: le_trans\<close>)
  moreover have "k < 32" using k(1) fin by auto
  ultimately show ?thesis using k(1) by blast
qed

section \<open>Slots\<close>

lemma SHUFFLE_BITS_eq [simp]: "SHUFFLE_BITS = 6"
  by (simp add: SHUFFLE_BITS_def GetCacheLineIndexBits_def)

lemma aq_slot_take_bit: "k < 32 \<Longrightarrow> aq_slot (2 ^ k) i = remap_index 6 (take_bit k i)"
  by (simp add: aq_slot_def take_bit_eq_mask mask_eq_exp_minus_1 and.commute)

lemma take_bit_offset:
  fixes t :: u32
  assumes "k < 32"
  shows "unat (take_bit k (t + of_nat i)) = (unat t + i) mod 2 ^ k"
proof -
  have dvd: "(2 :: nat) ^ k dvd 2 ^ 32" by (rule le_imp_power_dvd) (use assms in simp)
  have "unat (take_bit k (t + of_nat i)) = unat (t + of_nat i) mod 2 ^ k"
    by (simp add: unsigned_take_bit_eq take_bit_nat_def)
  also have "unat (t + of_nat i) = (unat t + i) mod 2 ^ 32"
    by (simp add: unat_word_ariths unat_of_nat take_bit_nat_def mod_add_right_eq)
  also have "(unat t + i) mod 2 ^ 32 mod 2 ^ k = (unat t + i) mod 2 ^ k"
    using dvd by (rule mod_mod_cancel)
  finally show ?thesis .
qed

lemma aq_slot_eq_iff:
  fixes t :: u32
  assumes "k < 32"
  shows "aq_slot (2 ^ k) (t + of_nat i) = aq_slot (2 ^ k) (t + of_nat j) \<longleftrightarrow>
           (unat t + i) mod 2 ^ k = (unat t + j) mod 2 ^ k"
proof -
  have "aq_slot (2 ^ k) (t + of_nat i) = aq_slot (2 ^ k) (t + of_nat j) \<longleftrightarrow>
      take_bit k (t + of_nat i) = take_bit k (t + of_nat j)"
    using remap_index_inj [of 6] by (simp add: aq_slot_take_bit assms inj_eq)
  also have "\<dots> \<longleftrightarrow> unat (take_bit k (t + of_nat i)) = unat (take_bit k (t + of_nat j))"
    by (simp only: word_unat_eq_iff)
  finally show ?thesis by (simp only: take_bit_offset [OF assms])
qed

text \<open>The slots of \<open>2^k\<close> consecutive positions are pairwise different.\<close>

lemma mod_window_inj:
  assumes "(t + i) mod m = (t + j) mod m" and "i < m" and "j < (m :: nat)"
  shows "i = j"
proof -
  have "i = j" if "i \<le> j" "(t + i) mod m = (t + j) mod m" "j < m" for i j :: nat
  proof -
    have "m dvd (t + j) - (t + i)"
      using that mod_eq_dvd_iff_nat [of "t + i" "t + j" m] by (simp add: eq_commute)
    then have "m dvd j - i" by simp
    moreover have "j - i < m" using that by simp
    ultimately have "j - i = 0" by (metis dvd_imp_le leD not_gr_zero)
    with that show ?thesis by simp
  qed
  with assms show ?thesis by (metis nat_le_linear)
qed

section \<open>The queue as a list\<close>

definition aq_count :: "'a atomic_queue \<Rightarrow> nat" where
  "aq_count q = unat (q_head q - q_tail q)"

definition aq_at :: "'a atomic_queue \<Rightarrow> nat \<Rightarrow> u32" where
  "aq_at q i = aq_slot (q_size q) (q_tail q + of_nat i)"

definition aq_items :: "'a atomic_queue \<Rightarrow> 'a list" where
  "aq_items q = map (\<lambda>i. q_elements q (aq_at q i)) [0..<aq_count q]"

definition aq_inv :: "'a atomic_queue \<Rightarrow> bool" where
  "aq_inv q \<longleftrightarrow>
     (\<exists>k. 12 \<le> k \<and> k \<le> 30 \<and> q_size q = 2 ^ k) \<and>
     aq_count q \<le> unat (q_size q) \<and>
     (\<forall>i < unat (q_size q). q_states q (aq_at q i) = (if i < aq_count q then STORED else EMPTY))"

lemma unat_exp_u32:
  assumes "k < 32"
  shows "unat (2 ^ k :: u32) = 2 ^ k"
proof -
  have "(2 :: nat) ^ k < 2 ^ 32" using assms by (intro power_strict_increasing) simp_all
  from unat_of_nat_u32 [OF this] show ?thesis by simp
qed

lemma aq_inv_size:
  assumes "aq_inv q"
  obtains k where "12 \<le> k" "k \<le> 30" "q_size q = 2 ^ k" "unat (q_size q) = 2 ^ k"
proof -
  from assms obtain k where k: "12 \<le> k" "k \<le> 30" "q_size q = 2 ^ k"
    unfolding aq_inv_def by blast
  then have "unat (q_size q) = 2 ^ k" using unat_exp_u32 [of k] by simp
  with k show thesis by (rule that)
qed

lemma exp_le_30: "k \<le> 30 \<Longrightarrow> (2 :: nat) ^ k \<le> 1073741824"
  using power_increasing [of k 30 "2 :: nat"] by simp

lemma aq_at_eq_iff:
  assumes "aq_inv q" "i < unat (q_size q)" "j < unat (q_size q)"
  shows "aq_at q i = aq_at q j \<longleftrightarrow> i = j"
proof -
  from assms(1) obtain k where k: "k \<le> 30" "q_size q = 2 ^ k" "unat (q_size q) = 2 ^ k"
    by (rule aq_inv_size)
  then show ?thesis
    using assms(2,3) mod_window_inj [of "unat (q_tail q)" i "2 ^ k" j]
    by (auto simp: aq_at_def aq_slot_eq_iff)
qed

lemma aq_at_wrap: "aq_inv q \<Longrightarrow> aq_at q (unat (q_size q)) = aq_at q 0"
proof -
  assume "aq_inv q"
  then obtain k where k: "k \<le> 30" "q_size q = 2 ^ k" "unat (q_size q) = 2 ^ k"
    by (rule aq_inv_size)
  then show ?thesis
    using aq_slot_eq_iff [of k "q_tail q" "2 ^ k" 0] by (simp add: aq_at_def)
qed

lemma aq_count_small: "aq_inv q \<Longrightarrow> aq_count q \<le> 1073741824"
proof -
  assume inv: "aq_inv q"
  then obtain k where k: "k \<le> 30" "unat (q_size q) = 2 ^ k" by (rule aq_inv_size)
  have "aq_count q \<le> unat (q_size q)" using inv by (simp add: aq_inv_def)
  with k exp_le_30 [of k] show ?thesis by simp
qed

lemma q_head_eq: "q_head q = q_tail q + of_nat (aq_count q)"
  by (simp add: aq_count_def)

lemma aq_at_head: "aq_slot (q_size q) (q_head q) = aq_at q (aq_count q)"
  by (simp add: aq_at_def aq_count_def)

lemma unat_inc_u32: "unat (x :: u32) < 2 ^ 32 - 1 \<Longrightarrow> unat (x + 1) = unat x + 1"
  by (simp add: unat_word_ariths)

text \<open>A push on a queue that is not full appends; on a full queue it spins.\<close>

lemma aq_push_ok:
  assumes inv: "aq_inv q" and room: "length (aq_items q) < aq_capacity q"
  shows "\<exists>q'. aq_push x q = Inr q' \<and> aq_inv q' \<and> aq_items q' = aq_items q @ [x] \<and>
           aq_capacity q' = aq_capacity q"
proof -
  let ?n = "aq_count q"
  let ?q' = "q\<lparr>q_head := q_head q + 1,
      q_elements := (q_elements q)(aq_at q ?n := x), q_states := (q_states q)(aq_at q ?n := STORED)\<rparr>"
  have n: "?n < unat (q_size q)" using room by (simp add: aq_items_def aq_capacity_def)
  then have "q_states q (aq_at q ?n) = EMPTY" using inv by (simp add: aq_inv_def)
  then have push: "aq_push x q = Inr ?q'"
    by (simp add: aq_push_def do_push_def do_push_any_def aq_at_head Let_def)
  have "?n < 2 ^ 32 - 1" using aq_count_small [OF inv] by simp
  then have cnt: "aq_count ?q' = Suc ?n"
    using unat_inc_u32 [of "q_head q - q_tail q"] by (simp add: aq_count_def algebra_simps)
  have at: "aq_at ?q' i = aq_at q i" for i by (simp add: aq_at_def)
  have "aq_inv ?q'"
    using inv n by (auto simp: aq_inv_def cnt at aq_at_eq_iff [OF inv] less_Suc_eq)
  moreover have "aq_items ?q' = aq_items q @ [x]"
    using n by (auto simp: aq_items_def cnt at aq_at_eq_iff [OF inv])
  ultimately show ?thesis using push by (auto simp: aq_capacity_def)
qed

lemma aq_push_full:
  assumes inv: "aq_inv q" and full: "length (aq_items q) = aq_capacity q"
  shows "aq_push x q = Inl Would_Block"
proof -
  have cnt: "aq_count q = unat (q_size q)"
    using full by (simp add: aq_items_def aq_capacity_def)
  obtain k where "unat (q_size q) = 2 ^ k" using inv by (rule aq_inv_size)
  then have pos: "0 < unat (q_size q)" by simp
  then have "q_states q (aq_at q 0) = STORED" using inv cnt by (auto simp: aq_inv_def)
  then have "q_states q (aq_at q (aq_count q)) = STORED" by (simp add: cnt aq_at_wrap [OF inv])
  then show ?thesis by (simp add: aq_push_def do_push_def do_push_any_def aq_at_head Let_def)
qed

text \<open>A pop on a non-empty queue takes the oldest element; on an empty queue it spins.\<close>

lemma aq_pop_ok:
  assumes inv: "aq_inv q" and items: "aq_items q = x # xs"
  shows "\<exists>q'. aq_pop q = Inr (x, q') \<and> aq_inv q' \<and> aq_items q' = xs \<and> aq_capacity q' = aq_capacity q"
proof -
  let ?n = "aq_count q" and ?m = "unat (q_size q)"
  let ?q' = "q\<lparr>q_tail := q_tail q + 1, q_states := (q_states q)(aq_at q 0 := EMPTY)\<rparr>"
  have n: "0 < ?n" using items by (cases ?n) (auto simp: aq_items_def)
  have le: "?n \<le> ?m" using inv by (simp add: aq_inv_def)
  have x: "x = q_elements q (aq_at q 0)" and xs: "xs = map (\<lambda>i. q_elements q (aq_at q i)) [1..<?n]"
    using items n by (simp_all add: aq_items_def upt_conv_Cons)
  have "q_states q (aq_at q 0) = STORED" using inv n le by (auto simp: aq_inv_def)
  then have pop: "aq_pop q = Inr (x, ?q')"
    by (simp add: aq_pop_def do_pop_def do_pop_any_def Let_def x aq_at_def)
  have shift: "q_head q - (q_tail q + 1) = (q_head q - q_tail q) - 1" by simp
  have "q_head q - q_tail q \<noteq> 0" using n by (auto simp: aq_count_def)
  then have cnt: "aq_count ?q' = ?n - 1"
    using unat_minus_one [of "q_head q - q_tail q"] by (simp add: aq_count_def shift)
  have at: "aq_at ?q' i = aq_at q (Suc i)" for i by (simp add: aq_at_def algebra_simps)
  have "q_states ?q' (aq_at ?q' i) = (if i < ?n - 1 then STORED else EMPTY)" if i: "i < ?m" for i
  proof (cases "Suc i = ?m")
    case True
    then show ?thesis using le by (auto simp: at aq_at_wrap [OF inv])
  next
    case False
    then show ?thesis using i inv by (auto simp: at aq_at_eq_iff [OF inv] aq_inv_def)
  qed
  then have "aq_inv ?q'" using inv by (auto simp: aq_inv_def cnt)
  moreover have "aq_items ?q' = xs"
    using n by (auto simp: aq_items_def cnt at xs intro: nth_equalityI)
  ultimately show ?thesis using pop by (auto simp: aq_capacity_def)
qed

lemma aq_pop_empty:
  assumes inv: "aq_inv q" and items: "aq_items q = []"
  shows "aq_pop q = Inl Would_Block"
proof -
  have cnt: "aq_count q = 0" using items by (simp add: aq_items_def)
  obtain k where "unat (q_size q) = 2 ^ k" using inv by (rule aq_inv_size)
  then have "q_states q (aq_at q 0) = EMPTY" using inv cnt by (simp add: aq_inv_def)
  then show ?thesis by (simp add: aq_pop_def do_pop_def do_pop_any_def Let_def aq_at_def)
qed

lemma sint_small_u32: "unat (x :: u32) < 2 ^ 31 \<Longrightarrow> sint x = int (unat x)"
proof -
  assume a: "unat x < 2 ^ 31"
  then have "int (unat x) < 2 ^ 31" by (metis of_nat_less_iff of_nat_numeral of_nat_power)
  then have "signed_take_bit 31 (int (unat x)) = int (unat x)"
    using of_nat_0_le_iff [of "unat x"] by (intro signed_take_bit_int_eq_self) (linarith, assumption)
  then show ?thesis by (simp add: sint_uint)
qed

lemma aq_was_size_items: "aq_inv q \<Longrightarrow> aq_was_size q = length (aq_items q)"
  using aq_count_small [of q] sint_small_u32 [of "q_head q - q_tail q"]
  by (simp add: aq_was_size_def aq_items_def aq_count_def)

lemma aq_items_capacity: "aq_inv q \<Longrightarrow> length (aq_items q) \<le> aq_capacity q"
  by (simp add: aq_inv_def aq_items_def aq_capacity_def)

interpretation aq: bounded_fifo aq_push aq_pop aq_was_size aq_capacity aq_items aq_inv
proof (unfold_locales, goal_cases)
  case 1 then show ?case by (rule aq_push_ok)
next
  case 2 then show ?case by (rule aq_push_full)
next
  case 3 then show ?case by (rule aq_pop_ok)
next
  case 4 then show ?case by (rule aq_pop_empty)
next
  case 5 then show ?case by (rule aq_was_size_items)
next
  case 6 then show ?case by (rule aq_items_capacity)
qed

text \<open>\<open>try_push\<close> and \<open>try_pop\<close> are \<open>push\<close> and \<open>pop\<close> where those return, and
  report failure where those would spin.\<close>

lemma q_size_small: "aq_inv q \<Longrightarrow> sint (q_size q) = int (aq_capacity q)"
proof -
  assume "aq_inv q"
  then obtain k where k: "k \<le> 30" "unat (q_size q) = 2 ^ k" by (rule aq_inv_size)
  with exp_le_30 [OF k(1)] show ?thesis by (simp add: sint_small_u32 aq_capacity_def)
qed

lemma aq_diff_small: "aq_inv q \<Longrightarrow> sint (q_head q - q_tail q) = int (length (aq_items q))"
  using aq_count_small [of q] sint_small_u32 [of "q_head q - q_tail q"]
  by (simp add: aq_items_def aq_count_def)

lemma aq_try_push_eq:
  assumes "aq_inv q"
  shows "aq_try_push x q =
    (if length (aq_items q) = aq_capacity q then Inr (False, q)
     else bindE (aq_push x q) (\<lambda>q'. Inr (True, q')))"
  using assms aq_items_capacity [OF assms]
  by (auto simp: aq_try_push_def aq_push_def Let_def aq_diff_small q_size_small)

lemma aq_try_pop_eq:
  assumes "aq_inv q"
  shows "aq_try_pop q =
    (if aq_items q = [] then Inr (None, q) else bindE (aq_pop q) (\<lambda>(x, q'). Inr (Some x, q')))"
  using assms by (auto simp: aq_try_pop_def aq_pop_def Let_def aq_diff_small)

section \<open>A new queue\<close>

lemma round_up_bounds:
  assumes "1 < a" and "unat (a :: u32) \<le> 2 ^ 30"
  shows "\<exists>k \<le> 30. 0 < k \<and> round_up_to_power_of_2 a = 2 ^ k \<and> unat a \<le> 2 ^ k \<and> 2 ^ k < 2 * unat a"
proof -
  let ?x = "a - 1"
  have a1: "1 < unat a" using assms(1) by (simp add: word_less_nat_alt)
  then have "a \<noteq> 0" by auto
  then have ux: "unat ?x = unat a - 1" by (rule unat_minus_one)
  have "?x \<noteq> 0" using ux a1 by (metis unat_0 zero_less_diff less_numeral_extra(3))
  from smear_mask [OF this] obtain k where k: "k < 32" "bit ?x k" "smear ?x = mask (Suc k)" by blast
  have hi: "unat ?x < 2 ^ Suc k"
  proof -
    have "take_bit (Suc k) ?x = ?x"
    proof (rule bit_word_eqI)
      fix n
      have "bit ?x n \<Longrightarrow> n < Suc k"
        using bit_smear [of ?x n] k(3) by (auto simp: bit_mask_iff)
      then show "bit (take_bit (Suc k) ?x) n = bit ?x n" by (auto simp: bit_take_bit_iff)
    qed
    then have "unat ?x = take_bit (Suc k) (unat ?x)" by (metis unsigned_take_bit_eq)
    then show ?thesis by (metis take_bit_nat_less_exp)
  qed
  have lo: "2 ^ k \<le> unat ?x"
  proof (rule ccontr)
    assume "\<not> 2 ^ k \<le> unat ?x"
    then have "unat ?x div 2 ^ k = 0" by simp
    then have "\<not> bit (unat ?x) k" by (simp add: bit_iff_odd)
    moreover have "bit (unat ?x) k" using k by (simp add: bit_unsigned_iff)
    ultimately show False by blast
  qed
  have "2 ^ k < (2 :: nat) ^ 30" using lo ux a1 assms(2) by linarith
  then have k30: "k < 30" by (rule power_less_imp_less_exp [rotated]) simp
  have "round_up_to_power_of_2 a = mask (Suc k) + 1"
    using k(3) by (simp add: round_up_to_power_of_2_def smear_def)
  then have "round_up_to_power_of_2 a = 2 ^ Suc k" by (simp add: mask_eq_exp_minus_1)
  moreover have "unat a \<le> 2 ^ Suc k" "2 ^ Suc k < 2 * unat a" using hi lo ux a1 by simp_all
  ultimately show ?thesis using k30 by (intro exI [of _ "Suc k"]) simp
qed

lemma aq_new_inv:
  assumes "1 < sz" and "unat sz \<le> 2 ^ 30"
  shows "aq_inv (aq_new d sz)" and "aq_items (aq_new d sz) = []" and "unat sz \<le> aq_capacity (aq_new d sz)"
proof -
  obtain k where k: "k \<le> 30" "round_up_to_power_of_2 sz = 2 ^ k" "unat sz \<le> 2 ^ k"
    using round_up_bounds [OF assms] by blast
  define k' where "k' = max k 12"
  have "q_size (aq_new d sz) = max (2 ^ k) (2 ^ 12)" by (simp add: aq_new_def k(2))
  moreover have "(2 ^ k :: u32) \<le> 2 ^ 12 \<longleftrightarrow> k \<le> 12"
  proof -
    have "(2 ^ k :: u32) \<le> 2 ^ 12 \<longleftrightarrow> (2 :: nat) ^ k \<le> 2 ^ 12"
      using k(1) by (simp only: word_le_nat_alt unat_exp_u32)
    also have "\<dots> \<longleftrightarrow> k \<le> 12" by (rule power_increasing_iff) simp
    finally show ?thesis .
  qed
  then have "max (2 ^ k :: u32) (2 ^ 12) = 2 ^ k'"
    by (simp only: k'_def max_def if_distrib split: if_split) simp
  ultimately have sz: "q_size (aq_new d sz) = 2 ^ k'" by simp
  have k': "12 \<le> k'" "k' \<le> 30" "k \<le> k'" using k(1) by (simp_all add: k'_def)
  then have usz: "unat (q_size (aq_new d sz)) = 2 ^ k'" by (simp add: sz unat_exp_u32)
  have cnt: "aq_count (aq_new d sz) = 0" by (simp add: aq_count_def aq_new_def)
  then show "aq_items (aq_new d sz) = []" by (simp add: aq_items_def)
  show "aq_inv (aq_new d sz)"
    using k' sz by (auto simp: aq_inv_def aq_count_def aq_new_def)
  have "(2 :: nat) ^ k \<le> 2 ^ k'" using k'(3) by (intro power_increasing) simp_all
  with k(3) have "unat sz \<le> 2 ^ k'" by (rule le_trans)
  then show "unat sz \<le> aq_capacity (aq_new d sz)" by (simp only: aq_capacity_def usz)
qed

section \<open>Properties\<close>

text \<open>
  The ring buffer is a FIFO: whatever is pushed into a new queue, up to its capacity,
  every push returns and the same number of pops returns the same elements in the same
  order.
\<close>

theorem atomic_queue_fifo:
  assumes "1 < sz" and "unat sz \<le> 2 ^ 30" and "length xs \<le> unat sz"
  shows "\<exists>q1 q2. foldE aq_push xs (aq_new d sz) = Inr q1 \<and> pop_n aq_pop (length xs) q1 = Inr (xs, q2)"
  using aq.fifo_roundtrip [of "aq_new d sz" xs] aq_new_inv [OF assms(1,2), of d] assms(3) by auto

theorem atomic_queue_fifo_witness:
  "\<exists>q1 q2. foldE aq_push [10, 20, 30 :: nat] (aq_new 0 16384) = Inr q1 \<and>
     pop_n aq_pop (length [10, 20, 30 :: nat]) q1 = Inr ([10, 20, 30], q2)"
  by (rule atomic_queue_fifo) simp_all

text \<open>
  C10. Every push and every pop of the ring buffer refines the operation on the list of its
  elements: a push appends, or spins exactly when the queue is full; a pop takes the
  first element, or spins exactly when the queue is empty; \<open>was_size\<close> is the length.
\<close>

theorem atomic_queue_refines_list:
  assumes "aq_inv q"
  shows "(case aq_push x q of
           Inr q' \<Rightarrow> length (aq_items q) < aq_capacity q \<and> aq_inv q' \<and> aq_items q' = aq_items q @ [x]
         | Inl f \<Rightarrow> f = Would_Block \<and> length (aq_items q) = aq_capacity q) \<and>
         (case aq_pop q of
           Inr (y, q') \<Rightarrow> aq_items q = y # aq_items q' \<and> aq_inv q'
         | Inl f \<Rightarrow> f = Would_Block \<and> aq_items q = []) \<and>
         aq_was_size q = length (aq_items q)" (is "?push \<and> ?pop \<and> ?size")
proof (intro conjI)
  show ?push
    using aq.push_ok [OF assms, of x] aq.push_full [OF assms, of x] aq.items_cap [OF assms]
    by (cases "length (aq_items q) = aq_capacity q") auto
  show ?pop
    using aq.pop_ok [OF assms] aq.pop_empty [OF assms] by (cases "aq_items q") fastforce+
  show ?size by (rule aq.was_size_items [OF assms])
qed

theorem atomic_queue_refines_list_witness:
  "aq_inv (aq_new (0 :: nat) 16384) \<and>
   (case aq_push 7 (aq_new (0 :: nat) 16384) of
      Inr q' \<Rightarrow> aq_items q' = [7] | Inl f \<Rightarrow> f = Would_Block \<and> aq_capacity (aq_new (0 :: nat) 16384) = 0)"
proof -
  have new: "aq_inv (aq_new (0 :: nat) 16384)" "aq_items (aq_new (0 :: nat) 16384) = []"
    using aq_new_inv [of 16384 "0 :: nat"] by simp_all
  then show ?thesis
    using atomic_queue_refines_list [OF new(1), of 7] by (simp split: sum.splits)
qed

text \<open>
  \<open>remap_index<BITS>\<close> permutes the indices of every power-of-two array with at least
  \<open>2 * BITS\<close> index bits: it is its own inverse and never leaves the array.
\<close>

theorem remap_index_permutes:
  assumes "2 * b \<le> k" and "k \<le> 32" and "unat i < 2 ^ k"
  shows "remap_index b (remap_index b i) = i \<and> unat (remap_index b i) < 2 ^ k"
proof
  show "remap_index b (remap_index b i) = i"
    using assms by (intro remap_index_involution) simp
  have hi: "n < k" if "bit i n" for n
  proof (rule ccontr)
    assume "\<not> n < k"
    then have "(2 :: nat) ^ k \<le> 2 ^ n" by (intro power_increasing) simp_all
    with assms(3) have "unat i < 2 ^ n" by (rule less_le_trans)
    moreover have "bit (unat i) n"
      using that bit_imp_le_length [of i n] by (simp add: bit_unsigned_iff)
    ultimately show False by (simp add: bit_iff_odd)
  qed
  have "take_bit k (remap_index b i) = remap_index b i"
    by (rule bit_word_eqI) (use assms(1,2) in \<open>auto simp: bit_take_bit_iff bit_remap_index dest: hi\<close>)
  then have "unat (remap_index b i) = take_bit k (unat (remap_index b i))"
    by (metis unsigned_take_bit_eq)
  then show "unat (remap_index b i) < 2 ^ k" by (metis take_bit_nat_less_exp)
qed

theorem remap_index_permutes_witness:
  "remap_index 6 (remap_index 6 77) = 77 \<and> unat (remap_index 6 77) < 2 ^ 14"
  by (rule remap_index_permutes) simp_all

end
