(* ===== verification/Marked_Buffer.thy ===== *)
theory Marked_Buffer
  imports Prelude
begin

text \<open>
  \<open>coro/marked_buffer.hpp\<close>: a fixed array whose free indices are kept in a queue. The
  proxy of \<open>io_uring\<close> lends the registered file descriptors out of one of these. The
  array is a list whose length is the template argument \<open>length\<close>; a pointer into it is
  the index it points at.
\<close>

record item =
  item_idx :: int
  item_ptr :: "nat option"

record 'a marked_buffer =
  mb_data :: "'a list"
  mb_que :: "nat list"

definition item_valid :: "item \<Rightarrow> bool" where
  "item_valid it = (item_idx it \<ge> 0)"

definition item_set_invalid :: "item \<Rightarrow> item" where
  "item_set_invalid it = it\<lparr>item_idx := -1, item_ptr := None\<rparr>"

definition mb_init :: "'a marked_buffer \<Rightarrow> 'a marked_buffer" where
  "mb_init b = b\<lparr>mb_que := []\<rparr>"

definition mb_set_data :: "'a list \<Rightarrow> 'a marked_buffer \<Rightarrow> 'a marked_buffer res" where
  "mb_set_data values b =
     (let n = length (mb_data b);
          b' = b\<lparr>mb_que := mb_que b @ [0..<n]\<rparr>
      in if length values < n then Inl Out_Of_Range
         else Inr (b'\<lparr>mb_data := take n values\<rparr>))"

definition mb_borrow :: "'a marked_buffer \<Rightarrow> item \<times> 'a marked_buffer" where
  "mb_borrow b =
     (case mb_que b of
        [] \<Rightarrow> (\<lparr>item_idx = -1, item_ptr = None\<rparr>, b)
      | i # js \<Rightarrow> (\<lparr>item_idx = int i, item_ptr = Some i\<rparr>, b\<lparr>mb_que := js\<rparr>))"

definition mb_return_back :: "item \<Rightarrow> 'a marked_buffer \<Rightarrow> 'a marked_buffer" where
  "mb_return_back it b =
     (if \<not> item_valid it then b else b\<lparr>mb_que := mb_que b @ [nat (item_idx it)]\<rparr>)"

section \<open>No index is lent twice\<close>

text \<open>
  \<open>lent\<close> lists the indices that have been borrowed and not returned. Together with the
  free ones they are exactly the indices of the array, each once.
\<close>

definition mb_inv :: "nat list \<Rightarrow> 'a marked_buffer \<Rightarrow> bool" where
  [inv_defs]: "mb_inv lent b \<longleftrightarrow> mset (mb_que b @ lent) = mset [0..<length (mb_data b)]"

lemma mb_inv_distinct:
  "mb_inv lent b \<Longrightarrow> distinct (mb_que b @ lent) \<and> set (mb_que b @ lent) = {0..<length (mb_data b)}"
  unfolding mb_inv_def by (metis mset_eq_imp_distinct_iff mset_eq_setD distinct_upt set_upt)

lemma mb_set_data_inv:
  "mb_set_data values (mb_init b) = Inr b' \<Longrightarrow> mb_inv [] b' \<and> mb_data b' = take (length (mb_data b)) values"
  by (auto simp: mb_set_data_def mb_init_def mb_inv_def Let_def split: if_splits)

lemma mb_borrow_inv:
  assumes "mb_inv lent b" and "mb_borrow b = (it, b')"
  shows "if item_valid it
         then nat (item_idx it) \<notin> set lent \<and> nat (item_idx it) < length (mb_data b) \<and>
              item_ptr it = Some (nat (item_idx it)) \<and> mb_inv (nat (item_idx it) # lent) b'
         else b' = b \<and> length lent = length (mb_data b)"
proof (cases "mb_que b")
  case Nil
  then have "length lent = length (mb_data b)"
    using assms(1) by (metis append_Nil length_upt minus_nat.diff_0 mb_inv_def size_mset)
  with Nil assms show ?thesis by (auto simp: mb_borrow_def item_valid_def)
next
  case (Cons i js)
  have inv: "distinct (i # js @ lent)" "i < length (mb_data b)"
    using mb_inv_distinct [OF assms(1)] Cons by auto
  moreover have "mb_inv (i # lent) (b\<lparr>mb_que := js\<rparr>)"
    using assms(1) Cons by (simp add: mb_inv_def)
  ultimately show ?thesis
    using assms(2) Cons by (auto simp: mb_borrow_def item_valid_def)
qed

lemma mb_return_back_inv:
  assumes "mb_inv (i # lent) b" and "item_idx it = int i"
  shows "mb_inv lent (mb_return_back it b)"
  using assms by (simp add: mb_inv_def mb_return_back_def item_valid_def)

text \<open>
  Any use of the buffer: it is initialised and filled, whatever it held before; then items are
  borrowed, returned, and written through. \<open>lent\<close> are the items that are out. Only an item that
  is out, or an invalid one, is returned.
\<close>

inductive mb_reach :: "item list \<Rightarrow> 'a marked_buffer \<Rightarrow> bool" where
  filled: "mb_set_data vs (mb_init b0) = Inr b \<Longrightarrow> mb_reach [] b"
| borrowed: "mb_reach lent b \<Longrightarrow> mb_borrow b = (it, b') \<Longrightarrow> mb_reach (if item_valid it then it # lent else lent) b'"
| returned: "mb_reach lent b \<Longrightarrow> it \<in> set lent \<Longrightarrow> mb_reach (remove1 it lent) (mb_return_back it b)"
| ignored: "mb_reach lent b \<Longrightarrow> \<not> item_valid it \<Longrightarrow> mb_reach lent (mb_return_back it b)"
| written: "mb_reach lent b \<Longrightarrow> mb_reach lent (b\<lparr>mb_data := (mb_data b)[i := v]\<rparr>)"

abbreviation lent_idx :: "item list \<Rightarrow> nat list" where
  "lent_idx lent \<equiv> map (\<lambda>it. nat (item_idx it)) lent"

lemma mb_reach_inv: "mb_reach lent b \<Longrightarrow> mb_inv (lent_idx lent) b \<and> (\<forall>it \<in> set lent. item_valid it)"
proof (induction rule: mb_reach.induct)
  case (filled vs b0 b)
  then show ?case using mb_set_data_inv by fastforce
next
  case (borrowed lent b it b')
  then show ?case using mb_borrow_inv [of "lent_idx lent" b it b'] by (auto split: if_splits)
next
  case (returned lent b it)
  have "mset lent = add_mset it (mset (remove1 it lent))" using returned.hyps(2) by simp
  then have "mset (lent_idx lent) = mset (nat (item_idx it) # lent_idx (remove1 it lent))"
    by (metis image_mset_add_mset mset.simps(2) mset_map)
  then have "mb_inv (nat (item_idx it) # lent_idx (remove1 it lent)) b"
    using returned.IH unfolding mb_inv_def by simp
  moreover have "item_idx it = int (nat (item_idx it))" using returned by (auto simp: item_valid_def)
  ultimately show ?case using mb_return_back_inv returned.IH notin_set_remove1 by metis
next
  case (ignored lent b it)
  then show ?case by (simp add: mb_return_back_def)
next
  case (written lent b i v)
  then show ?case by (simp add: mb_inv_def)
qed

text \<open>
  C36. An index that is lent out is never lent again before it is returned. After any sequence of
  borrows, returns and writes on a buffer that was initialised and filled, the items that are out
  have different indices inside the array; and a borrow answers the pointer to an index that
  is inside the array and not out, or the invalid item, and then as many items are out as the array
  has entries.
\<close>

theorem marked_buffer_borrow_fresh:
  assumes "mb_reach lent b" and "mb_borrow b = (it, b')"
  shows "distinct (map item_idx lent) \<and> (\<forall>l \<in> set lent. 0 \<le> item_idx l \<and> item_idx l < int (length (mb_data b))) \<and>
    (if item_valid it
     then item_idx it \<notin> item_idx ` set lent \<and> nat (item_idx it) < length (mb_data b) \<and>
          item_ptr it = Some (nat (item_idx it))
     else b' = b \<and> length lent = length (mb_data b))"
proof -
  have inv: "mb_inv (lent_idx lent) b" and valid: "\<And>l. l \<in> set lent \<Longrightarrow> 0 \<le> item_idx l"
    using mb_reach_inv [OF assms(1)] by (auto simp: item_valid_def)
  have idx: "map item_idx lent = map int (lent_idx lent)" using valid by simp
  have lent: "distinct (lent_idx lent)" "set (lent_idx lent) \<subseteq> {0..<length (mb_data b)}"
    using mb_inv_distinct [OF inv] by auto
  then have "distinct (map item_idx lent)" unfolding idx distinct_map [of int] by simp
  moreover have "item_idx l < int (length (mb_data b))" if "l \<in> set lent" for l
    using lent(2) valid that by (auto simp: nat_less_iff)
  ultimately show ?thesis
    using mb_borrow_inv [OF inv assms(2)] valid by (auto simp: item_valid_def split: if_splits)
qed

text \<open>Two indices; 0 is out, 1 was borrowed and returned.\<close>

lemma marked_buffer_demo:
  "mb_reach [\<lparr>item_idx = 0, item_ptr = Some 0\<rparr>] \<lparr>mb_data = [5, 6 :: int], mb_que = [1]\<rparr>"
proof -
  let ?b = "\<lambda>q. \<lparr>mb_data = [5, 6 :: int], mb_que = q\<rparr>" and ?it = "\<lambda>i. \<lparr>item_idx = int i, item_ptr = Some i\<rparr>"
  have "mb_reach [] (?b [0, 1])"
    by (rule mb_reach.filled [of "[5, 6]" "\<lparr>mb_data = [8, 9], mb_que = [3]\<rparr>"]) (simp add: mb_set_data_def mb_init_def upt_rec)
  from mb_reach.borrowed [OF this, of "?it 0" "?b [1]"] have "mb_reach [?it 0] (?b [1])"
    by (simp add: mb_borrow_def item_valid_def)
  from mb_reach.borrowed [OF this, of "?it 1" "?b []"] have "mb_reach [?it 1, ?it 0] (?b [])"
    by (simp add: mb_borrow_def item_valid_def)
  from mb_reach.returned [OF this, of "?it 1"] show ?thesis by (simp add: mb_return_back_def item_valid_def)
qed

theorem marked_buffer_borrow_fresh_witness:
  "fst (mb_borrow \<lparr>mb_data = [5, 6 :: int], mb_que = [1]\<rparr>) = \<lparr>item_idx = 1, item_ptr = Some 1\<rparr> \<and>
   item_idx (fst (mb_borrow \<lparr>mb_data = [5, 6 :: int], mb_que = [1]\<rparr>)) \<notin> {0}"
  using marked_buffer_borrow_fresh [OF marked_buffer_demo surjective_pairing] by (simp add: mb_borrow_def item_valid_def)

end
