(* ===== verification/Uring_Proxy.thy ===== *)
theory Uring_Proxy
  imports Marked_Buffer
begin

text \<open>
  \<open>coro/uring_proxy.hpp\<close>: the wrapper around one \<open>io_uring\<close> instance and the
  \<open>eventfd\<close> registered with it. The proxy record holds the event counter behind
  \<open>m_efd\<close>, the prepared submission entries, the entries the kernel has taken, and the
  completion queue. What the kernel decides is an argument: the results of the set-up
  calls, how many entries a submit consumes, and which request completes with which
  result (\<open>kernel_complete\<close>, a step of the environment and not of this program). The
  counter follows \<open>eventfd(2)\<close> as used by \<open>eventfd_read\<close>/\<open>eventfd_write\<close> of the
  C library. Asserts are modelled as compiled in.
\<close>

section \<open>State\<close>

datatype sqe_op =
    Prep_None
  | Prep_Nop
  | Prep_Read int nat int
  | Prep_Accept int int
  | Prep_Recv int nat int
  | Prep_Send int nat int
  | Prep_Close int
  | Prep_Connect int
  | Prep_Timeout "int \<times> int" nat u32

record sqe =
  sqe_op :: sqe_op
  sqe_flags :: int
  sqe_data :: nat

record cqe =
  cqe_data :: nat
  cqe_res :: int

record uring_proxy =
  m_efd :: int
  efd_count :: nat
  sq_entries :: nat
  up_sq :: "sqe list"
  up_kernel :: "sqe list"
  up_cq :: "cqe list"
  m_null_fds :: "int list"
  m_fds :: "int marked_buffer"

text \<open>The largest value an event counter holds: a write beyond it blocks.\<close>

definition efd_max :: nat where
  "efd_max = 2 ^ 64 - 2"

definition kEntryLength :: nat where
  "kEntryLength = 10240"

definition kFixFdArraySize :: nat where
  "kFixFdArraySize = 8"

definition invalid_fd_item :: item where
  "invalid_fd_item = \<lparr>item_idx = -1, item_ptr = None\<rparr>"

section \<open>Construction, set-up and tear-down\<close>

definition uring_new :: "int \<Rightarrow> uring_proxy res" where
  "uring_new efd =
     (if efd < 0 then Inl Exit_Failure
      else Inr \<lparr>m_efd = efd, efd_count = 0, sq_entries = 0, up_sq = [], up_kernel = [], up_cq = [],
                m_null_fds = [], m_fds = \<lparr>mb_data = replicate kFixFdArraySize 0, mb_que = []\<rparr>\<rparr>)"

text \<open>
  \<open>fixfd\<close> is \<open>config::kEnableFixfd\<close>; \<open>res_init\<close>, \<open>res_efd\<close>, \<open>res_files\<close> are
  the results of \<open>io_uring_queue_init_params\<close>, \<open>io_uring_register_eventfd\<close> and
  \<open>io_uring_register_files\<close>; \<open>nulls\<close> the descriptors \<open>get_null_fd\<close> answers;
  \<open>entries\<close> the ring size the kernel grants.
\<close>

definition uring_init ::
  "bool \<Rightarrow> int \<Rightarrow> int \<Rightarrow> int list \<Rightarrow> int \<Rightarrow> nat \<Rightarrow> uring_proxy \<Rightarrow> uring_proxy res" where
  "uring_init fixfd res_init res_efd nulls res_files entries p =
     (if res_init \<noteq> 0 then Inl Exit_Failure
      else if res_efd \<noteq> 0 then Inl Exit_Failure
      else let p = p\<lparr>sq_entries := entries\<rparr> in
      if \<not> fixfd then Inr p
      else let p = p\<lparr>m_fds := mb_init (m_fds p), m_null_fds := []\<rparr> in
      if length nulls < kFixFdArraySize \<or> (\<exists>fd \<in> set (take kFixFdArraySize nulls). fd \<le> 0)
      then Inl Exit_Failure
      else let p = p\<lparr>m_null_fds := take kFixFdArraySize nulls\<rparr> in
      bindE (mb_set_data (m_null_fds p) (m_fds p)) (\<lambda>b.
      if res_files \<noteq> 0 then Inl Exit_Failure
      else Inr (p\<lparr>m_fds := b\<rparr>)))"

definition uring_deinit :: "uring_proxy \<Rightarrow> uring_proxy" where
  "uring_deinit p = p\<lparr>m_efd := -1, efd_count := 0, up_sq := [], up_kernel := [], up_cq := []\<rparr>"

section \<open>The event counter\<close>

definition wait_eventfd :: "uring_proxy \<Rightarrow> (nat \<times> uring_proxy) res" where
  "wait_eventfd p =
     (if m_efd p < 0 then Inl Assert_Failed
      else if efd_count p = 0 then Inl Would_Block
      else Inr (efd_count p, p\<lparr>efd_count := 0\<rparr>))"

definition write_eventfd :: "nat \<Rightarrow> uring_proxy \<Rightarrow> uring_proxy res" where
  "write_eventfd n p =
     (if m_efd p < 0 then Inl Assert_Failed
      else if efd_count p + n > efd_max then Inl Would_Block
      else Inr (p\<lparr>efd_count := efd_count p + n\<rparr>))"

section \<open>Submission and completion\<close>

text \<open>\<open>get_free_sqe\<close> reserves the next free entry of the ring, or answers null.\<close>

definition get_free_sqe :: "uring_proxy \<Rightarrow> (nat \<times> uring_proxy) option" where
  "get_free_sqe p =
     (if length (up_sq p) < sq_entries p
      then Some (length (up_sq p),
                 p\<lparr>up_sq := up_sq p @ [\<lparr>sqe_op = Prep_None, sqe_flags = 0, sqe_data = 0\<rparr>]\<rparr>)
      else None)"

definition uring_submit :: "nat \<Rightarrow> uring_proxy \<Rightarrow> int \<times> uring_proxy" where
  "uring_submit accepted p =
     (let n = min accepted (length (up_sq p)) in
      (int n, p\<lparr>up_kernel := up_kernel p @ take n (up_sq p), up_sq := drop n (up_sq p)\<rparr>))"

definition peek_uring :: "uring_proxy \<Rightarrow> bool" where
  "peek_uring p = (up_cq p \<noteq> [])"

definition wait_uring :: "nat \<Rightarrow> uring_proxy \<Rightarrow> unit res" where
  "wait_uring num p = (if num \<le> length (up_cq p) then Inr () else Inl Would_Block)"

definition peek_batch_cqe :: "nat \<Rightarrow> uring_proxy \<Rightarrow> cqe list" where
  "peek_batch_cqe num p = take num (up_cq p)"

definition cq_advance :: "nat \<Rightarrow> uring_proxy \<Rightarrow> uring_proxy" where
  "cq_advance num p = p\<lparr>up_cq := drop num (up_cq p)\<rparr>"

definition seen_cqe_entry :: "uring_proxy \<Rightarrow> uring_proxy" where
  "seen_cqe_entry p = cq_advance 1 p"

definition handle_for_each_cqe ::
  "(cqe \<Rightarrow> 's \<Rightarrow> 's res) \<Rightarrow> bool \<Rightarrow> uring_proxy \<Rightarrow> 's \<Rightarrow> (nat \<times> uring_proxy \<times> 's) res" where
  "handle_for_each_cqe f mark_finish p s =
     bindE (foldE f (up_cq p) s) (\<lambda>s'.
     let i = length (up_cq p) in
     Inr (i, if mark_finish then cq_advance i p else p, s'))"

text \<open>Environment: the \<open>i\<close>-th request the kernel holds completes with result \<open>res\<close>.\<close>

definition kernel_complete :: "nat \<Rightarrow> int \<Rightarrow> uring_proxy \<Rightarrow> uring_proxy" where
  "kernel_complete i res p =
     p\<lparr>up_kernel := take i (up_kernel p) @ drop (Suc i) (up_kernel p),
       up_cq := up_cq p @ [\<lparr>cqe_data = sqe_data (up_kernel p ! i), cqe_res = res\<rparr>],
       efd_count := min efd_max (efd_count p + 1)\<rparr>"

section \<open>Registered file descriptors\<close>

definition get_fixed_fd :: "bool \<Rightarrow> uring_proxy \<Rightarrow> item \<times> uring_proxy" where
  "get_fixed_fd fixfd p =
     (if \<not> fixfd then (invalid_fd_item, p)
      else let (it, b) = mb_borrow (m_fds p) in (it, p\<lparr>m_fds := b\<rparr>))"

text \<open>\<open>res\<close> is the result of \<open>io_uring_register_files_update\<close>.\<close>

definition update_register_fixed_fds :: "bool \<Rightarrow> int \<Rightarrow> uring_proxy \<Rightarrow> uring_proxy res" where
  "update_register_fixed_fds fixfd res p =
     (if fixfd \<and> res \<noteq> int kFixFdArraySize then Inl Exit_Failure else Inr p)"

definition back_fixed_fd :: "bool \<Rightarrow> int \<Rightarrow> item \<Rightarrow> uring_proxy \<Rightarrow> uring_proxy res" where
  "back_fixed_fd fixfd res it p =
     (if \<not> item_valid it then Inr p
      else let i = nat (item_idx it) in
      if length (m_null_fds p) \<le> i \<or> length (mb_data (m_fds p)) \<le> i then Inl Out_Of_Range
      else let p = p\<lparr>m_fds := (m_fds p)\<lparr>mb_data := (mb_data (m_fds p))[i := m_null_fds p ! i]\<rparr>\<rparr> in
      bindE (update_register_fixed_fds fixfd res p) (\<lambda>p.
      Inr (p\<lparr>m_fds := mb_return_back it (m_fds p)\<rparr>)))"

section \<open>Facts\<close>

lemma write_eventfd_Inr:
  "write_eventfd n p = Inr p' \<longleftrightarrow>
     0 \<le> m_efd p \<and> efd_count p + n \<le> efd_max \<and> p' = p\<lparr>efd_count := efd_count p + n\<rparr>"
  by (auto simp: write_eventfd_def)

lemma wait_eventfd_Inr:
  "wait_eventfd p = Inr (u, p') \<longleftrightarrow>
     0 \<le> m_efd p \<and> 0 < efd_count p \<and> u = efd_count p \<and> p' = p\<lparr>efd_count := 0\<rparr>"
  by (auto simp: wait_eventfd_def)

text \<open>A write wakes the reader: a wait that follows a write returns, and clears the counter.\<close>

lemma write_then_wait:
  "write_eventfd n p = Inr p' \<Longrightarrow> 0 < n \<Longrightarrow> wait_eventfd p' = Inr (efd_count p + n, p\<lparr>efd_count := 0\<rparr>)"
  by (auto simp: write_eventfd_Inr wait_eventfd_def)

lemma handle_for_each_cqe_batch:
  "handle_for_each_cqe f True p s =
     bindE (foldE f (peek_batch_cqe (length (up_cq p)) p) s)
       (\<lambda>s'. Inr (length (up_cq p), p\<lparr>up_cq := []\<rparr>, s'))"
  by (simp add: handle_for_each_cqe_def peek_batch_cqe_def cq_advance_def Let_def)

lemma back_get_fixed_fd:
  assumes "get_fixed_fd True p = (it, p')" and "item_valid it"
    and "mb_inv lent (m_fds p)" and "length (m_null_fds p) = length (mb_data (m_fds p))"
  shows "\<exists>q. back_fixed_fd True (int kFixFdArraySize) it p' = Inr q \<and> mb_inv lent (m_fds q) \<and>
     mb_data (m_fds q) = (mb_data (m_fds p))[nat (item_idx it) := m_null_fds p ! nat (item_idx it)]"
proof -
  obtain b where b: "mb_borrow (m_fds p) = (it, b)" "p' = p\<lparr>m_fds := b\<rparr>"
    using assms(1) by (auto simp: get_fixed_fd_def Let_def split: prod.splits)
  have data: "mb_data b = mb_data (m_fds p)"
    using b(1) by (auto simp: mb_borrow_def split: list.splits)
  let ?i = "nat (item_idx it)"
  have i: "?i < length (mb_data (m_fds p))" "mb_inv (?i # lent) b"
    using mb_borrow_inv [OF assms(3) b(1)] assms(2) by auto
  then have "mb_inv lent (mb_return_back it (b\<lparr>mb_data := (mb_data b)[?i := x]\<rparr>))" for x
    using assms(2) by (simp add: mb_inv_def mb_return_back_def)
  then show ?thesis
    using assms(2,4) i data
    by (auto simp: back_fixed_fd_def b(2) update_register_fixed_fds_def Let_def mb_return_back_def)
qed

end
