(* ===== verification/Engine.thy ===== *)
theory Engine
  imports Atomic_Queue Uring_Proxy
begin

text \<open>
  \<open>coro/engine.hpp\<close>, \<open>src/engine.cpp\<close>: the per-thread execution engine. It owns the
  ready queue, the \<open>io_uring\<close> proxy and the two counters of requests that are prepared
  and in flight. The ready queue is held as the list of its elements; the theory
  \<open>Atomic_Queue\<close> proves that the ring buffer of the source implements exactly these
  list operations, and \<open>tq_refined_by_ring_buffer\<close> below states it for the capacity the
  engine uses.
\<close>

section \<open>The ready queue\<close>

definition kQueCap :: nat where
  "kQueCap = 16384"

definition tq_push :: "'a \<Rightarrow> 'a list \<Rightarrow> 'a list res" where
  "tq_push h q = (if length q < kQueCap then Inr (q @ [h]) else Inl Would_Block)"

definition tq_pop :: "'a list \<Rightarrow> ('a \<times> 'a list) res" where
  "tq_pop q = (case q of [] \<Rightarrow> Inl Would_Block | h # q' \<Rightarrow> Inr (h, q'))"

interpretation tq: bounded_fifo tq_push tq_pop length "\<lambda>_. kQueCap" "\<lambda>q. q" "\<lambda>q. length q \<le> kQueCap"
  by unfold_locales (auto simp: tq_push_def tq_pop_def)

section \<open>State and operations\<close>

record engine =
  eng_id :: u32
  m_upxy :: uring_proxy
  m_task_queue :: "handle list"
  m_io_submit_count :: u64
  m_io_running_count :: u64

definition engine_new :: "u32 \<Rightarrow> int \<Rightarrow> engine res" where
  "engine_new i efd =
     bindE (uring_new efd) (\<lambda>p.
     Inr \<lparr>eng_id = i, m_upxy = p, m_task_queue = [], m_io_submit_count = 0, m_io_running_count = 0\<rparr>)"

text \<open>
  \<open>linfo.egn\<close> is not kept beside \<open>linfo.ctx\<close>: \<open>context::init\<close> sets both, to the context and to its
  engine. The first arguments of \<open>engine_init\<close> are those of \<open>uring_init\<close>; \<open>granted\<close> is the ring size the kernel
  grants when \<open>kEntryLength\<close> entries are asked for.
\<close>

definition engine_init ::
  "bool \<Rightarrow> int \<Rightarrow> int \<Rightarrow> int list \<Rightarrow> int \<Rightarrow> (nat \<Rightarrow> nat) \<Rightarrow> engine \<Rightarrow> engine res" where
  "engine_init fixfd res_init res_efd nulls res_files granted e =
     bindE (uring_init fixfd res_init res_efd nulls res_files (granted kEntryLength) (m_upxy e)) (\<lambda>p.
     Inr (e\<lparr>m_upxy := p\<rparr>))"

definition engine_deinit :: "engine \<Rightarrow> engine" where
  "engine_deinit e = e\<lparr>m_upxy := uring_deinit (m_upxy e)\<rparr>"

definition engine_ready :: "engine \<Rightarrow> bool" where
  "engine_ready e = (length (m_task_queue e) > 0)"

definition get_free_urs :: "engine \<Rightarrow> (nat \<times> engine) option" where
  "get_free_urs e = map_option (\<lambda>(i, p). (i, e\<lparr>m_upxy := p\<rparr>)) (get_free_sqe (m_upxy e))"

definition num_task_schedule :: "engine \<Rightarrow> nat" where
  "num_task_schedule e = length (m_task_queue e)"

definition schedule :: "engine \<Rightarrow> (handle \<times> engine) res" where
  "schedule e = bindE (tq_pop (m_task_queue e)) (\<lambda>(h, q). Inr (h, e\<lparr>m_task_queue := q\<rparr>))"

definition engine_write_eventfd :: "nat \<Rightarrow> engine \<Rightarrow> engine res" where
  "engine_write_eventfd n e = bindE (write_eventfd n (m_upxy e)) (\<lambda>p. Inr (e\<lparr>m_upxy := p\<rparr>))"

definition engine_submit_task :: "handle \<Rightarrow> engine \<Rightarrow> engine res" where
  "engine_submit_task h e =
     bindE (tq_push h (m_task_queue e)) (\<lambda>q.
     engine_write_eventfd 1 (e\<lparr>m_task_queue := q\<rparr>))"

definition add_io_submit :: "engine \<Rightarrow> engine" where
  "add_io_submit e = e\<lparr>m_io_submit_count := m_io_submit_count e + 1\<rparr>"

definition empty_io :: "engine \<Rightarrow> bool" where
  "empty_io e = (m_io_submit_count e = 0 \<and> m_io_running_count e = 0)"

text \<open>
  The first block of \<open>poll_submit\<close>: hand the prepared entries to the kernel and move the
  submit count over to the running count. The result of the submit is not looked at.
\<close>

definition poll_flush :: "nat \<Rightarrow> engine \<Rightarrow> engine" where
  "poll_flush accepted e =
     (let submit_cnt = m_io_submit_count e in
      if submit_cnt > 0
      then e\<lparr>m_upxy := snd (uring_submit accepted (m_upxy e)),
             m_io_running_count := m_io_running_count e + submit_cnt,
             m_io_submit_count := m_io_submit_count e - submit_cnt\<rparr>
      else e)"

text \<open>
  The last block of \<open>poll_submit\<close>, after the callbacks of a batch of \<open>nready\<close> entries.
\<close>

definition poll_retire :: "nat \<Rightarrow> engine \<Rightarrow> engine" where
  "poll_retire nready e =
     e\<lparr>m_upxy := cq_advance nready (m_upxy e),
       m_io_running_count := m_io_running_count e - of_nat nready\<rparr>"

section \<open>Facts\<close>

lemma engine_submit_task_Inr:
  "engine_submit_task h e = Inr e' \<longleftrightarrow>
     length (m_task_queue e) < kQueCap \<and> 0 \<le> m_efd (m_upxy e) \<and> efd_count (m_upxy e) + 1 \<le> efd_max \<and>
     e' = e\<lparr>m_task_queue := m_task_queue e @ [h],
            m_upxy := (m_upxy e)\<lparr>efd_count := efd_count (m_upxy e) + 1\<rparr>\<rparr>"
  by (auto simp: engine_submit_task_def engine_write_eventfd_def tq_push_def write_eventfd_Inr)

text \<open>The ring buffer of the source, at the engine's capacity, is the list queue used here.\<close>

lemma kQueCap_ring: "aq_capacity (aq_new d 16384) = kQueCap"
  by (simp add: aq_capacity_def aq_new_def round_up_to_power_of_2_def or_equal_def kQueCap_def)

lemma tq_refined_by_ring_buffer:
  assumes "aq_inv q" and "aq_capacity q = kQueCap"
  shows "map_sum id aq_items (aq_push x q) = tq_push x (aq_items q)"
    and "map_sum id (map_prod id aq_items) (aq_pop q) = tq_pop (aq_items q)"
proof -
  show "map_sum id aq_items (aq_push x q) = tq_push x (aq_items q)"
  proof (cases "length (aq_items q) < kQueCap")
    case True
    then obtain q' where "aq_push x q = Inr q'" "aq_items q' = aq_items q @ [x]"
      using aq.push_ok [OF assms(1), of x] assms(2) by auto
    with True show ?thesis by (simp add: tq_push_def)
  next
    case False
    then have "length (aq_items q) = aq_capacity q" using aq.items_cap [OF assms(1)] assms(2) by simp
    then have "aq_push x q = Inl Would_Block" by (rule aq.push_full [OF assms(1)])
    with False show ?thesis by (simp add: tq_push_def)
  qed
  show "map_sum id (map_prod id aq_items) (aq_pop q) = tq_pop (aq_items q)"
  proof (cases "aq_items q")
    case Nil
    then show ?thesis using aq.pop_empty [OF assms(1)] by (simp add: tq_pop_def)
  next
    case (Cons y ys)
    then obtain q' where "aq_pop q = Inr (y, q')" "aq_items q' = ys"
      using aq.pop_ok [OF assms(1) Cons] by auto
    with Cons show ?thesis by (simp add: tq_pop_def)
  qed
qed

end
