(* ===== verification/Context.thy ===== *)
theory Context
  imports Engine
begin

text \<open>
  \<open>coro/context.hpp\<close>, \<open>src/context.cpp\<close>: one worker thread with its engine. The field
  \<open>m_stop\<close> is the stop state of the \<open>jthread\<close> \<open>m_job\<close>. The run loop itself is in
  the theory \<open>Run_Loop\<close>.
\<close>

record ctx =
  m_engine :: engine
  ctx_id :: u32
  m_wait_count :: i32
  m_running_task :: bool
  m_managed_by_scheduler :: bool
  m_stop :: bool

definition context_new :: "u32 \<Rightarrow> u32 \<Rightarrow> int \<Rightarrow> ctx res" where
  "context_new cid eid efd =
     bindE (engine_new eid efd) (\<lambda>e.
     Inr \<lparr>m_engine = e, ctx_id = cid, m_wait_count = 0, m_running_task = False,
          m_managed_by_scheduler = False, m_stop = False\<rparr>)"

definition get_ctx_id :: "ctx \<Rightarrow> u32" where
  "get_ctx_id c = ctx_id c"

definition get_engine :: "ctx \<Rightarrow> engine" where
  "get_engine c = m_engine c"

definition context_write_eventfd :: "nat \<Rightarrow> ctx \<Rightarrow> ctx res" where
  "context_write_eventfd n c = bindE (engine_write_eventfd n (m_engine c)) (\<lambda>e. Inr (c\<lparr>m_engine := e\<rparr>))"

definition notify_stop :: "ctx \<Rightarrow> ctx res" where
  "notify_stop c = context_write_eventfd 1 (c\<lparr>m_stop := True\<rparr>)"

definition register_wait :: "i32 \<Rightarrow> ctx \<Rightarrow> ctx" where
  "register_wait register_cnt c = c\<lparr>m_wait_count := m_wait_count c + register_cnt\<rparr>"

definition unregister_wait :: "i32 \<Rightarrow> ctx \<Rightarrow> ctx res" where
  "unregister_wait register_cnt c =
     context_write_eventfd 1 (c\<lparr>m_wait_count := m_wait_count c - register_cnt\<rparr>)"

definition context_submit_task :: "handle \<Rightarrow> ctx \<Rightarrow> ctx res" where
  "context_submit_task h c =
     (let c = register_wait 1 c in
      bindE (engine_submit_task h (m_engine c)) (\<lambda>e. Inr (c\<lparr>m_engine := e\<rparr>)))"

definition is_idle :: "ctx \<Rightarrow> bool" where
  "is_idle c \<longleftrightarrow> \<not> m_running_task c \<and> empty_io (m_engine c) \<and> \<not> engine_ready (m_engine c) \<and>
     m_wait_count c = 0"

section \<open>Abbreviations\<close>

abbreviation ctx_queue :: "ctx \<Rightarrow> handle list" where
  "ctx_queue c \<equiv> m_task_queue (m_engine c)"

abbreviation ctx_efd :: "ctx \<Rightarrow> nat" where
  "ctx_efd c \<equiv> efd_count (m_upxy (m_engine c))"

abbreviation ctx_efd_open :: "ctx \<Rightarrow> bool" where
  "ctx_efd_open c \<equiv> 0 \<le> m_efd (m_upxy (m_engine c))"

section \<open>Facts\<close>

lemma context_submit_task_Inr:
  "context_submit_task h c = Inr c' \<longleftrightarrow>
     length (ctx_queue c) < kQueCap \<and> ctx_efd_open c \<and> ctx_efd c + 1 \<le> efd_max \<and>
     c' = c\<lparr>m_wait_count := m_wait_count c + 1,
            m_engine := (m_engine c)\<lparr>m_task_queue := ctx_queue c @ [h],
              m_upxy := (m_upxy (m_engine c))\<lparr>efd_count := ctx_efd c + 1\<rparr>\<rparr>\<rparr>"
  by (auto simp: context_submit_task_def register_wait_def engine_submit_task_Inr Let_def)

lemma context_submit_task_queue:
  "context_submit_task h c = Inr c' \<Longrightarrow> ctx_queue c' = ctx_queue c @ [h] \<and> 0 < ctx_efd c' \<and>
     m_wait_count c' = m_wait_count c + 1 \<and> ctx_efd_open c'"
  by (auto simp: context_submit_task_Inr)

text \<open>A context that accepts \<open>n\<close> more tasks without blocking.\<close>

definition ctx_room :: "nat \<Rightarrow> ctx \<Rightarrow> bool" where
  "ctx_room n c \<longleftrightarrow> length (ctx_queue c) + n \<le> kQueCap \<and> ctx_efd_open c \<and> ctx_efd c + n \<le> efd_max"

lemma ctx_room_submit:
  "ctx_room (Suc n) c \<Longrightarrow> \<exists>c'. context_submit_task h c = Inr c' \<and> ctx_room n c'"
  by (auto simp: ctx_room_def context_submit_task_Inr)

lemma ctx_room_mono: "ctx_room m c \<Longrightarrow> n \<le> m \<Longrightarrow> ctx_room n c"
  by (auto simp: ctx_room_def)

text \<open>
  What \<open>m_wait_count\<close> counts: the queued tasks and the one being executed. It is kept by
  a submit, and a finished execution takes one off.
\<close>

definition wait_count_ok :: "nat \<Rightarrow> ctx \<Rightarrow> bool" where
  [inv_defs]: "wait_count_ok running c \<longleftrightarrow> m_wait_count c = of_nat (length (ctx_queue c) + running)"

lemma context_submit_task_wait_count:
  "wait_count_ok r c \<Longrightarrow> context_submit_task h c = Inr c' \<Longrightarrow> wait_count_ok r c'"
  by (auto simp: wait_count_ok_def context_submit_task_Inr)

lemma is_idle_wait_count:
  assumes "wait_count_ok r c" and "is_idle c" and "r < 2 ^ 32"
  shows "ctx_queue c = [] \<and> r = 0"
  using assms of_nat_u32_eq_0_iff [of r] by (auto simp: wait_count_ok_def is_idle_def engine_ready_def)

end
