(* ===== verification/Resumption.thy ===== *)
theory Resumption
  imports Prelude
begin

text \<open>
  The interface between the synchronisation primitives and the scheduler. A primitive that
  wakes a coroutine calls \<open>submit_to_scheduler(handle)\<close> or
  \<open>local_context().submit_task(handle)\<close>; all it relies on is that a submit that returns
  makes exactly that handle pending, and that a submit returns while there is room. The
  definitions of the primitives take the submit function as an argument, and what they do
  with it is proved once, in the locale below. \<open>Runtime\<close> interprets it on the two submit
  functions of the program.
\<close>

text \<open>
  Waking a list of coroutines: the loop \<open>for (auto handle : m_waiters) submit(handle)\<close>.
\<close>

definition wake_all :: "(handle \<Rightarrow> 'w \<Rightarrow> 'w res) \<Rightarrow> handle list \<Rightarrow> 'w \<Rightarrow> 'w res" where
  "wake_all submit hs w = foldE submit hs w"

locale submitter =
  fixes submit :: "handle \<Rightarrow> 'w \<Rightarrow> 'w res"
    and pending :: "'w \<Rightarrow> handle multiset"
    and room :: "nat \<Rightarrow> 'w \<Rightarrow> bool"
  assumes submit_pending: "submit h w = Inr w' \<Longrightarrow> pending w' = add_mset h (pending w)"
    and submit_room: "room (Suc n) w \<Longrightarrow> \<exists>w'. submit h w = Inr w' \<and> room n w'"
begin

lemma wake_all_pending:
  "wake_all submit hs w = Inr w' \<Longrightarrow> pending w' = mset hs + pending w"
  unfolding wake_all_def
proof (induction hs arbitrary: w)
  case (Cons h hs)
  then obtain v where "submit h w = Inr v" "foldE submit hs v = Inr w'" by auto
  with Cons.IH submit_pending show ?case by fastforce
qed simp

lemma wake_all_total:
  "room (length hs + n) w \<Longrightarrow> \<exists>w'. wake_all submit hs w = Inr w' \<and> room n w'"
  unfolding wake_all_def using submit_room by (rule foldE_total)

lemma wake_all_returns:
  assumes "room (length hs) w"
  shows "\<exists>w'. wake_all submit hs w = Inr w' \<and> pending w' = mset hs + pending w"
  using wake_all_total [of hs 0 w] assms wake_all_pending by fastforce

lemma submit_returns:
  assumes "room 1 w"
  shows "\<exists>w'. submit h w = Inr w' \<and> pending w' = add_mset h (pending w)"
  using submit_room [of 0 w h] assms submit_pending by fastforce

end

text \<open>
  A submit function that only records its calls, for the step relations in which the
  scheduler itself is not of interest.
\<close>

definition log_submit :: "handle \<Rightarrow> handle list \<Rightarrow> handle list res" where
  "log_submit h log = Inr (log @ [h])"

interpretation logged: submitter log_submit mset "\<lambda>_ _. True"
  by unfold_locales (simp_all add: log_submit_def)

lemma wake_all_log [simp]: "wake_all log_submit hs log = Inr (log @ hs)"
  unfolding wake_all_def by (induction hs arbitrary: log) (simp_all add: log_submit_def)

text \<open>
  The step relations resume a coroutine only when an operation has submitted it: the handles
  an operation submitted are what it appended to the log, and \<open>resume_as p\<close> moves exactly
  those coroutines to the program point \<open>p\<close>.
\<close>

definition submitted :: "handle list \<Rightarrow> handle list \<Rightarrow> handle list" where
  "submitted log log' = drop (length log) log'"

definition resume_as :: "'pc \<Rightarrow> handle list \<Rightarrow> (handle \<Rightarrow> 'pc) \<Rightarrow> handle \<Rightarrow> 'pc" where
  "resume_as p hs pc = (\<lambda>h. if h \<in> set hs then p else pc h)"

lemma submitted_simps [simp]:
  "submitted log log = []" "submitted log (log @ hs) = hs" "submitted [] log = log"
  by (simp_all add: submitted_def)

lemma resume_as_simps [simp]:
  "resume_as p [] pc = pc" "resume_as p [h] pc = pc(h := p)"
  "resume_as p hs pc h = (if h \<in> set hs then p else pc h)"
  by (auto simp: resume_as_def)

end
