(* ===== verification/Runtime.thy ===== *)
theory Runtime
  imports Context Resumption
begin

text \<open>
  The state a thread of the program sees when it runs library code: the contexts of the
  scheduler, the round-robin dispatcher, the global counters of \<open>coro/meta_info.hpp\<close>,
  and the thread-local \<open>linfo.ctx\<close>, here the index of the context whose worker this is
  (none on a thread that is not a worker). Sources: \<open>coro/meta_info.hpp\<close>,
  \<open>coro/dispatcher.hpp\<close>, \<open>coro/scheduler.hpp\<close>, \<open>src/scheduler.cpp\<close> and the submit
  functions of \<open>coro/context.hpp\<close>.
\<close>

section \<open>State\<close>

record dispatcher =
  dsp_ctx_cnt :: u64
  dsp_cur :: u64

text \<open>The strategies of the memory allocator, and the configured one.\<close>

datatype memory_allocator = Std_Allocator | No_Allocator

definition kMemoryAllocator :: memory_allocator where "kMemoryAllocator = Std_Allocator"

text \<open>\<open>ginfo_mem_alloc\<close> is the pointer to the allocator, none if it is null.\<close>

record world =
  w_ctxs :: "ctx list"
  w_ctx_cnt :: u64
  w_dispatcher :: dispatcher
  ginfo_context_id :: u32
  ginfo_engine_id :: u32
  ginfo_mem_alloc :: "memory_allocator option"
  linfo_ctx :: "nat option"

text \<open>
  The state at the start of the program, on a thread that is not a worker: \<open>ginfo\<close>, \<open>linfo\<close>
  and the instance of the scheduler have static storage, so that what has no initialiser is zero.
\<close>

definition world_start :: world where
  "world_start = \<lparr>w_ctxs = [], w_ctx_cnt = 0, w_dispatcher = \<lparr>dsp_ctx_cnt = 0, dsp_cur = 0\<rparr>,
     ginfo_context_id = 0, ginfo_engine_id = 0, ginfo_mem_alloc = None, linfo_ctx = None\<rparr>"

definition is_in_working_state :: "world \<Rightarrow> bool" where
  "is_in_working_state w = (linfo_ctx w \<noteq> None)"

definition init_meta_info :: "world \<Rightarrow> world" where
  "init_meta_info w = w\<lparr>ginfo_context_id := 0, ginfo_engine_id := 0, ginfo_mem_alloc := None\<rparr>"

definition with_ctx :: "nat \<Rightarrow> (ctx \<Rightarrow> ctx res) \<Rightarrow> world \<Rightarrow> world res" where
  "with_ctx i f w =
     (if i < length (w_ctxs w)
      then bindE (f (w_ctxs w ! i)) (\<lambda>c. Inr (w\<lparr>w_ctxs := (w_ctxs w)[i := c]\<rparr>))
      else Inl Out_Of_Range)"

section \<open>Dispatcher\<close>

definition dispatcher_init :: "u64 \<Rightarrow> dispatcher \<Rightarrow> dispatcher" where
  "dispatcher_init ctx_cnt d = d\<lparr>dsp_ctx_cnt := ctx_cnt, dsp_cur := 0\<rparr>"

definition dispatch :: "dispatcher \<Rightarrow> (u64 \<times> dispatcher) res" where
  "dispatch d =
     (let cur = dsp_cur d; d' = d\<lparr>dsp_cur := cur + 1\<rparr> in
      if dsp_ctx_cnt d = 0 then Inl Div_Zero else Inr (cur mod dsp_ctx_cnt d, d'))"

section \<open>Submitting work\<close>

definition local_context :: "world \<Rightarrow> nat res" where
  "local_context w = (case linfo_ctx w of None \<Rightarrow> Inl Null_Deref | Some i \<Rightarrow> Inr i)"

definition submit_to_context :: "handle \<Rightarrow> world \<Rightarrow> world res" where
  "submit_to_context h w =
     bindE (local_context w) (\<lambda>i. with_ctx i (context_submit_task h) w)"

definition submit_task_impl :: "handle \<Rightarrow> world \<Rightarrow> world res" where
  "submit_task_impl h w =
     bindE (dispatch (w_dispatcher w)) (\<lambda>(i, d).
     with_ctx (unat i) (context_submit_task h) (w\<lparr>w_dispatcher := d\<rparr>))"

definition submit_to_scheduler :: "handle \<Rightarrow> world \<Rightarrow> world res" where
  "submit_to_scheduler h w = submit_task_impl h w"

section \<open>Scheduler set-up and stop\<close>

text \<open>
  \<open>init_impl\<close> makes \<open>ctx_cnt\<close> contexts; \<open>efds\<close> lists the descriptors that
  \<open>eventfd(0, 0)\<close> answers, one per context. \<open>hw\<close> is \<open>hardware_concurrency()\<close>.
\<close>

fun make_contexts :: "int list \<Rightarrow> world \<Rightarrow> world res" where
  "make_contexts [] w = Inr w"
| "make_contexts (efd # efds) w =
     bindE (context_new (ginfo_context_id w) (ginfo_engine_id w) efd) (\<lambda>c.
     make_contexts efds
       (w\<lparr>w_ctxs := w_ctxs w @ [c], ginfo_context_id := ginfo_context_id w + 1,
          ginfo_engine_id := ginfo_engine_id w + 1\<rparr>))"

definition init_impl :: "int list \<Rightarrow> world \<Rightarrow> world res" where
  "init_impl efds w =
     (let w = init_meta_info w;
          w = w\<lparr>w_ctx_cnt := of_nat (length efds), w_ctxs := []\<rparr>
      in bindE (make_contexts efds w) (\<lambda>w.
         let w = w\<lparr>w_dispatcher := dispatcher_init (w_ctx_cnt w) (w_dispatcher w)\<rparr> in
         let w = w\<lparr>w_ctxs := map (\<lambda>c. c\<lparr>m_managed_by_scheduler := True\<rparr>) (w_ctxs w)\<rparr> in
         Inr (w\<lparr>ginfo_mem_alloc := Some kMemoryAllocator\<rparr>)))"

definition scheduler_init_count :: "nat \<Rightarrow> nat \<Rightarrow> nat" where
  "scheduler_init_count hw ctx_cnt = (if ctx_cnt = 0 then hw else ctx_cnt)"

definition stop_impl :: "world \<Rightarrow> world res" where
  "stop_impl w = foldE (\<lambda>i. with_ctx i notify_stop) [0..<length (w_ctxs w)] w"

definition all_idle :: "world \<Rightarrow> bool" where
  "all_idle w = list_all is_idle (w_ctxs w)"

section \<open>What is pending\<close>

definition w_pending :: "world \<Rightarrow> handle multiset" where
  "w_pending w = (\<Sum>c\<leftarrow>w_ctxs w. mset (ctx_queue c))"

definition w_room :: "nat \<Rightarrow> world \<Rightarrow> bool" where
  "w_room n w \<longleftrightarrow>
     w_ctxs w \<noteq> [] \<and> dsp_ctx_cnt (w_dispatcher w) = of_nat (length (w_ctxs w)) \<and>
     length (w_ctxs w) < 2 ^ 64 \<and> (\<forall>c \<in> set (w_ctxs w). ctx_room n c)"

definition w_room_local :: "nat \<Rightarrow> world \<Rightarrow> bool" where
  "w_room_local n w \<longleftrightarrow>
     (case linfo_ctx w of None \<Rightarrow> False
      | Some i \<Rightarrow> i < length (w_ctxs w) \<and> ctx_room n (w_ctxs w ! i))"

lemma with_ctx_Inr:
  "with_ctx i f w = Inr w' \<longleftrightarrow>
     (\<exists>c. i < length (w_ctxs w) \<and> f (w_ctxs w ! i) = Inr c \<and> w' = w\<lparr>w_ctxs := (w_ctxs w)[i := c]\<rparr>)"
  by (auto simp: with_ctx_def)

lemma with_ctx_submit_pending:
  assumes "with_ctx i (context_submit_task h) w = Inr w'"
  shows "w_pending w' = add_mset h (w_pending w)"
proof -
  obtain c where c: "i < length (w_ctxs w)" "context_submit_task h (w_ctxs w ! i) = Inr c"
    "w' = w\<lparr>w_ctxs := (w_ctxs w)[i := c]\<rparr>"
    using assms by (auto simp: with_ctx_Inr)
  have "mset (ctx_queue c) = {#h#} + mset (ctx_queue (w_ctxs w ! i))"
    using context_submit_task_queue [OF c(2)] by simp
  from sum_list_update_add [OF c(1), of "\<lambda>c. mset (ctx_queue c)", OF this]
  show ?thesis by (simp add: w_pending_def c(3))
qed

lemma with_ctx_submit_room:
  assumes "i < length (w_ctxs w)" and "ctx_room (Suc n) (w_ctxs w ! i)"
  shows "\<exists>c. with_ctx i (context_submit_task h) w = Inr (w\<lparr>w_ctxs := (w_ctxs w)[i := c]\<rparr>) \<and> ctx_room n c"
  using ctx_room_submit [OF assms(2), of h] assms(1) by (auto simp: with_ctx_def)

lemma dispatch_in_range:
  assumes "dispatch d = Inr (i, d')" and "dsp_ctx_cnt d = of_nat n" and "n < 2 ^ 64"
  shows "unat i < n"
proof -
  have "dsp_ctx_cnt d \<noteq> 0" and i: "i = dsp_cur d mod dsp_ctx_cnt d"
    using assms(1) by (auto simp: dispatch_def Let_def split: if_splits)
  then have "unat i < unat (dsp_ctx_cnt d)" by (simp add: unat_mod unat_gt_0)
  with assms(2,3) show ?thesis by simp
qed

lemma submit_to_scheduler_pending:
  "submit_to_scheduler h w = Inr w' \<Longrightarrow> w_pending w' = add_mset h (w_pending w)"
  by (auto simp: submit_to_scheduler_def submit_task_impl_def w_pending_def
      dest!: with_ctx_submit_pending)

lemma submit_to_scheduler_room:
  assumes "w_room (Suc n) w"
  shows "\<exists>w'. submit_to_scheduler h w = Inr w' \<and> w_room n w'"
proof -
  let ?d = "w_dispatcher w" and ?k = "length (w_ctxs w)"
  have k: "?k \<noteq> 0" "dsp_ctx_cnt ?d = of_nat ?k" "?k < 2 ^ 64"
    and room: "\<And>c. c \<in> set (w_ctxs w) \<Longrightarrow> ctx_room (Suc n) c"
    using assms by (auto simp: w_room_def)
  have "dsp_ctx_cnt ?d \<noteq> 0" using k by (metis unat_0 unat_of_nat_u64)
  then obtain i d where d: "dispatch ?d = Inr (i, d)" "dsp_ctx_cnt d = dsp_ctx_cnt ?d"
    by (auto simp: dispatch_def Let_def)
  have i: "unat i < ?k" by (rule dispatch_in_range [OF d(1) k(2,3)])
  then obtain c where c: "with_ctx (unat i) (context_submit_task h) (w\<lparr>w_dispatcher := d\<rparr>) =
      Inr (w\<lparr>w_dispatcher := d, w_ctxs := (w_ctxs w)[unat i := c]\<rparr>)" "ctx_room n c"
    using with_ctx_submit_room [of "unat i" "w\<lparr>w_dispatcher := d\<rparr>" n h] room by auto
  have "\<And>x. x \<in> set ((w_ctxs w)[unat i := c]) \<Longrightarrow> ctx_room n x"
    using room c(2) set_update_subset_insert [of "w_ctxs w" "unat i" c] ctx_room_mono by fastforce
  then show ?thesis
    using c(1) d k by (auto simp: submit_to_scheduler_def submit_task_impl_def w_room_def)
qed

lemma submit_to_context_pending:
  "submit_to_context h w = Inr w' \<Longrightarrow> w_pending w' = add_mset h (w_pending w)"
  by (auto simp: submit_to_context_def dest!: with_ctx_submit_pending)

lemma submit_to_context_room:
  assumes "w_room_local (Suc n) w"
  shows "\<exists>w'. submit_to_context h w = Inr w' \<and> w_room_local n w'"
proof -
  obtain i where i: "linfo_ctx w = Some i" "i < length (w_ctxs w)" "ctx_room (Suc n) (w_ctxs w ! i)"
    using assms by (auto simp: w_room_local_def split: option.splits)
  from with_ctx_submit_room [OF i(2,3)] i show ?thesis
    by (fastforce simp: submit_to_context_def local_context_def w_room_local_def)
qed

interpretation sched: submitter submit_to_scheduler w_pending w_room
  by unfold_locales (fact submit_to_scheduler_pending, fact submit_to_scheduler_room)

interpretation loc: submitter submit_to_context w_pending w_room_local
  by unfold_locales (fact submit_to_context_pending, fact submit_to_context_room)

section \<open>A small concrete state\<close>

text \<open>One idle context managed by the scheduler, seen from its own worker.\<close>

definition demo_world :: world where
  "demo_world = \<lparr>w_ctxs = [\<lparr>m_engine = \<lparr>eng_id = 0, m_upxy = \<lparr>m_efd = 3, efd_count = 0, sq_entries = 16,
       up_sq = [], up_kernel = [], up_cq = [], m_null_fds = [], m_fds = \<lparr>mb_data = [], mb_que = []\<rparr>\<rparr>,
       m_task_queue = [], m_io_submit_count = 0, m_io_running_count = 0\<rparr>,
     ctx_id = 0, m_wait_count = 0, m_running_task = False, m_managed_by_scheduler = True, m_stop = False\<rparr>],
     w_ctx_cnt = 1, w_dispatcher = \<lparr>dsp_ctx_cnt = 1, dsp_cur = 0\<rparr>, ginfo_context_id = 1,
     ginfo_engine_id = 1, ginfo_mem_alloc = Some kMemoryAllocator, linfo_ctx = Some 0\<rparr>"

lemma demo_world_room: "n \<le> 100 \<Longrightarrow> w_room n demo_world" "n \<le> 100 \<Longrightarrow> w_room_local n demo_world"
  by (simp_all add: demo_world_def w_room_def w_room_local_def ctx_room_def kQueCap_def efd_max_def)

end
