(* ===== verification/Wait_Gate.thy ===== *)
theory Wait_Gate
  imports Resumption
begin

text \<open>
  The contract shared by \<open>event\<close>, \<open>latch\<close> and \<open>wait_group\<close>: a gate that is open or
  closed, with a list of suspended coroutines. Suspending on an open gate submits the
  coroutine at once; on a closed gate it joins the list; releasing submits the whole list
  and empties it. Proved once from this: no coroutine is lost and none is woken twice,
  whatever the order of calls.
\<close>

datatype gate_op = Gate_Suspend handle | Gate_Release

fun gate_suspends :: "gate_op list \<Rightarrow> handle list" where
  "gate_suspends [] = []"
| "gate_suspends (Gate_Suspend h # os) = h # gate_suspends os"
| "gate_suspends (Gate_Release # os) = gate_suspends os"

locale wait_gate = submitter submit pending room
  for submit :: "handle \<Rightarrow> 'w \<Rightarrow> 'w res" and pending and room +
  fixes opened :: "'s \<Rightarrow> bool"
    and waiters :: "'s \<Rightarrow> handle list"
    and suspend :: "handle \<Rightarrow> 's \<Rightarrow> 'w \<Rightarrow> ('s \<times> 'w) res"
    and release :: "'s \<Rightarrow> 'w \<Rightarrow> ('s \<times> 'w) res"
  assumes suspend_open:
      "opened s \<Longrightarrow> suspend h s w = bindE (submit h w) (\<lambda>w'. Inr (s, w'))"
    and suspend_closed:
      "\<not> opened s \<Longrightarrow> \<exists>s'. suspend h s w = Inr (s', w) \<and> waiters s' = waiters s @ [h] \<and> \<not> opened s'"
    and release_wakes:
      "\<exists>s'. waiters s' = [] \<and> release s w = bindE (wake_all submit (waiters s) w) (\<lambda>w'. Inr (s', w'))"
begin

lemma suspend_accounts:
  assumes "suspend h s w = Inr (s', w')"
  shows "pending w' + mset (waiters s') = add_mset h (pending w + mset (waiters s))"
proof (cases "opened s")
  case True
  with assms show ?thesis using submit_pending by (fastforce simp: suspend_open)
next
  case False
  with assms suspend_closed [OF False, of h w] show ?thesis by auto
qed

lemma release_accounts:
  assumes "release s w = Inr (s', w')"
  shows "pending w' + mset (waiters s') = pending w + mset (waiters s)" and "waiters s' = []"
proof -
  obtain s1 where s1: "waiters s1 = []"
    "release s w = bindE (wake_all submit (waiters s) w) (\<lambda>w'. Inr (s1, w'))"
    using release_wakes [of s w] by blast
  with assms have "wake_all submit (waiters s) w = Inr w'" "s' = s1" by auto
  with s1 wake_all_pending show "pending w' + mset (waiters s') = pending w + mset (waiters s)"
    and "waiters s' = []" by (fastforce simp: ac_simps)+
qed

lemma release_returns:
  assumes "room (length (waiters s)) w"
  shows "\<exists>s' w'. release s w = Inr (s', w') \<and> waiters s' = [] \<and> pending w' = mset (waiters s) + pending w"
  using wake_all_returns [OF assms] release_wakes [of s w] by fastforce

text \<open>Any sequence of suspends and releases: every suspended coroutine is accounted for.\<close>

lemma gate_sequence_accounts:
  assumes "foldE (\<lambda>op (s, w). case op of Gate_Suspend h \<Rightarrow> suspend h s w | Gate_Release \<Rightarrow> release s w)
             ops (s, w) = Inr (s', w')"
  shows "pending w' + mset (waiters s') = mset (gate_suspends ops) + (pending w + mset (waiters s))"
  using assms
proof (induction ops arbitrary: s w)
  case (Cons op ops)
  then obtain s1 w1 where first: "(case op of Gate_Suspend h \<Rightarrow> suspend h s w | Gate_Release \<Rightarrow> release s w) = Inr (s1, w1)"
    and rest: "foldE (\<lambda>op (s, w). case op of Gate_Suspend h \<Rightarrow> suspend h s w | Gate_Release \<Rightarrow> release s w)
             ops (s1, w1) = Inr (s', w')"
    by auto
  from Cons.IH [OF rest] first show ?case
    using suspend_accounts [of _ s w s1 w1] release_accounts(1) [of s w s1 w1]
    by (cases op) auto
qed simp

end

end
