(* ===== verification/Event.thy ===== *)
theory Event
  imports Runtime Wait_Gate
begin

text \<open>
  \<open>coro/comp/event.hpp\<close>: an event that coroutines wait for and that carries a value once
  it is set; \<open>event<>\<close> is the instance without a value, and \<open>event_guard\<close> sets it when
  it is destroyed. The body under \<open>m_lock\<close> of \<open>await_suspend\<close> is one step; the body of
  \<open>set\<close> is two, because \<open>await_ready\<close> reads \<open>m_is_set\<close> without the lock and can see
  the flag before the waiters are woken.
\<close>

section \<open>State and operations\<close>

record 'v event =
  ev_is_set :: bool
  ev_value :: 'v
  ev_waiters :: "handle list"

definition event_new :: "'v \<Rightarrow> 'v event" where
  "event_new v0 = \<lparr>ev_is_set = False, ev_value = v0, ev_waiters = []\<rparr>"

definition event_await_ready :: "'v event \<Rightarrow> bool" where
  "event_await_ready ev = ev_is_set ev"

definition event_await_suspend ::
  "(handle \<Rightarrow> 'w \<Rightarrow> 'w res) \<Rightarrow> handle \<Rightarrow> 'v event \<Rightarrow> 'w \<Rightarrow> ('v event \<times> 'w) res" where
  "event_await_suspend submit h ev w =
     (if ev_is_set ev then bindE (submit h w) (\<lambda>w'. Inr (ev, w'))
      else Inr (ev\<lparr>ev_waiters := ev_waiters ev @ [h]\<rparr>, w))"

definition event_await_resume :: "'v event \<Rightarrow> 'v" where
  "event_await_resume ev = ev_value ev"

text \<open>\<open>set\<close>: the stores, which a reader without the lock can see, and then the waking.\<close>

definition event_set_store :: "'v \<Rightarrow> 'v event \<Rightarrow> 'v event" where
  "event_set_store v ev = ev\<lparr>ev_value := v, ev_is_set := True\<rparr>"

definition event_set_wake ::
  "(handle \<Rightarrow> 'w \<Rightarrow> 'w res) \<Rightarrow> 'v event \<Rightarrow> 'w \<Rightarrow> ('v event \<times> 'w) res" where
  "event_set_wake submit ev w =
     bindE (wake_all submit (ev_waiters ev) w) (\<lambda>w'. Inr (ev\<lparr>ev_waiters := []\<rparr>, w'))"

definition event_set ::
  "(handle \<Rightarrow> 'w \<Rightarrow> 'w res) \<Rightarrow> 'v \<Rightarrow> 'v event \<Rightarrow> 'w \<Rightarrow> ('v event \<times> 'w) res" where
  "event_set submit v ev w = event_set_wake submit (event_set_store v ev) w"

lemmas event_set_defs = event_set_def event_set_store_def event_set_wake_def

section \<open>The event without a value, and the guard\<close>

type_synonym void_event = "unit event"

definition void_event_await_ready :: "void_event \<Rightarrow> bool" where
  "void_event_await_ready ev = ev_is_set ev"

definition void_event_await_suspend ::
  "(handle \<Rightarrow> 'w \<Rightarrow> 'w res) \<Rightarrow> handle \<Rightarrow> void_event \<Rightarrow> 'w \<Rightarrow> (void_event \<times> 'w) res" where
  "void_event_await_suspend submit h ev w =
     (if ev_is_set ev then bindE (submit h w) (\<lambda>w'. Inr (ev, w'))
      else Inr (ev\<lparr>ev_waiters := ev_waiters ev @ [h]\<rparr>, w))"

definition void_event_set ::
  "(handle \<Rightarrow> 'w \<Rightarrow> 'w res) \<Rightarrow> void_event \<Rightarrow> 'w \<Rightarrow> (void_event \<times> 'w) res" where
  "void_event_set submit ev w =
     (let ev = ev\<lparr>ev_is_set := True\<rparr> in
      bindE (wake_all submit (ev_waiters ev) w) (\<lambda>w'. Inr (ev\<lparr>ev_waiters := []\<rparr>, w')))"

definition event_guard_destroy ::
  "(handle \<Rightarrow> 'w \<Rightarrow> 'w res) \<Rightarrow> void_event \<Rightarrow> 'w \<Rightarrow> (void_event \<times> 'w) res" where
  "event_guard_destroy submit ev w = void_event_set submit ev w"

lemma event_update_unit [simp]: "(ev :: void_event)\<lparr>ev_value := u\<rparr> = ev"
  by (cases ev) simp

lemma void_event_eq:
  "void_event_await_suspend submit h = event_await_suspend submit h"
  "void_event_set submit = event_set submit ()"
  by (simp_all add: fun_eq_iff void_event_await_suspend_def event_await_suspend_def void_event_set_def
      event_set_defs Let_def)

section \<open>An event is a gate\<close>

lemma event_suspend_closed:
  "\<not> ev_is_set ev \<Longrightarrow> \<exists>ev'. event_await_suspend submit h ev w = Inr (ev', w) \<and>
     ev_waiters ev' = ev_waiters ev @ [h] \<and> \<not> ev_is_set ev'"
  by (simp add: event_await_suspend_def)

lemma event_set_wakes:
  "\<exists>ev'. ev_waiters ev' = [] \<and>
     event_set submit v ev w = bindE (wake_all submit (ev_waiters ev) w) (\<lambda>w'. Inr (ev', w'))"
  by (rule exI [of _ "ev\<lparr>ev_value := v, ev_is_set := True, ev_waiters := []\<rparr>"])
    (simp add: event_set_defs)

interpretation ev_gate: wait_gate submit_to_scheduler w_pending w_room ev_is_set ev_waiters
  "event_await_suspend submit_to_scheduler" "event_set submit_to_scheduler v" for v
  by unfold_locales (simp add: event_await_suspend_def, fact event_suspend_closed, fact event_set_wakes)

text \<open>
  Setting an event submits every waiting coroutine to the scheduler, each exactly once,
  leaves no waiter behind, and every later wait completes at once with the value set.
\<close>

theorem event_set_wakes_everyone:
  assumes "w_room (length (ev_waiters ev)) w"
  shows "\<exists>ev' w'. event_set submit_to_scheduler v ev w = Inr (ev', w') \<and>
           w_pending w' = mset (ev_waiters ev) + w_pending w \<and> ev_waiters ev' = [] \<and>
           event_await_ready ev' \<and> event_await_resume ev' = v"
proof -
  obtain w' where w': "wake_all submit_to_scheduler (ev_waiters ev) w = Inr w'"
    "w_pending w' = mset (ev_waiters ev) + w_pending w"
    using sched.wake_all_returns [OF assms] by blast
  then show ?thesis
    by (simp add: event_set_defs event_await_ready_def event_await_resume_def)
qed

theorem event_set_wakes_everyone_witness:
  "\<exists>ev' w'. event_set submit_to_scheduler (42 :: nat) \<lparr>ev_is_set = False, ev_value = 0, ev_waiters = [7, 9]\<rparr>
       demo_world = Inr (ev', w') \<and>
     w_pending w' = {#7, 9#} + w_pending demo_world \<and> ev_waiters ev' = [] \<and>
     event_await_ready ev' \<and> event_await_resume ev' = 42"
  using event_set_wakes_everyone [of "\<lparr>ev_is_set = False, ev_value = 0 :: nat, ev_waiters = [7, 9]\<rparr>" demo_world 42]
    demo_world_room by simp

section \<open>Interleaved waits and sets\<close>

text \<open>
  Any number of coroutines wait for one event while any number of threads set it.
  \<open>es_setting\<close> holds while a \<open>set\<close> is between the store of the flag and the end of
  its critical section; the spinlock then keeps every \<open>await_suspend\<close> and every other
  \<open>set\<close> out. A suspended coroutine gets past the
  wait only by being submitted; one that passed it may come back for another one.
\<close>

datatype ev_pc = Ev_Idle | Ev_Check | Ev_Suspend | Ev_Waiting | Ev_Resumed

record 'v ev_sys =
  es_ev :: "'v event"
  es_setting :: bool
  es_pc :: "handle \<Rightarrow> ev_pc"
  es_log :: "handle list"

definition ev_sys_init :: "'v \<Rightarrow> 'v ev_sys" where
  "ev_sys_init v0 = \<lparr>es_ev = event_new v0, es_setting = False, es_pc = (\<lambda>_. Ev_Idle), es_log = []\<rparr>"

inductive ev_step :: "'v ev_sys \<Rightarrow> 'v ev_sys \<Rightarrow> bool" where
  wait: "es_pc s h = Ev_Idle \<Longrightarrow> ev_step s (s\<lparr>es_pc := (es_pc s)(h := Ev_Check)\<rparr>)"
| again: "es_pc s h = Ev_Resumed \<Longrightarrow> ev_step s (s\<lparr>es_pc := (es_pc s)(h := Ev_Idle)\<rparr>)"
| ready: "es_pc s h = Ev_Check \<Longrightarrow> event_await_ready (es_ev s) \<Longrightarrow>
     ev_step s (s\<lparr>es_pc := (es_pc s)(h := Ev_Resumed)\<rparr>)"
| not_ready: "es_pc s h = Ev_Check \<Longrightarrow> \<not> event_await_ready (es_ev s) \<Longrightarrow>
     ev_step s (s\<lparr>es_pc := (es_pc s)(h := Ev_Suspend)\<rparr>)"
| suspend: "es_pc s h = Ev_Suspend \<Longrightarrow> \<not> es_setting s \<Longrightarrow>
     event_await_suspend log_submit h (es_ev s) (es_log s) = Inr (ev', log') \<Longrightarrow>
     ev_step s (s\<lparr>es_ev := ev', es_log := log',
       es_pc := resume_as Ev_Resumed (submitted (es_log s) log') ((es_pc s)(h := Ev_Waiting))\<rparr>)"
| set_store: "\<not> es_setting s \<Longrightarrow>
     ev_step s (s\<lparr>es_ev := event_set_store v (es_ev s), es_setting := True\<rparr>)"
| set_wake: "es_setting s \<Longrightarrow> event_set_wake log_submit (es_ev s) (es_log s) = Inr (ev', log') \<Longrightarrow>
     ev_step s (s\<lparr>es_ev := ev', es_log := log', es_setting := False,
       es_pc := resume_as Ev_Resumed (submitted (es_log s) log') (es_pc s)\<rparr>)"

inductive ev_reach :: "'v ev_sys \<Rightarrow> bool" where
  init: "ev_reach (ev_sys_init v0)"
| step: "ev_reach s \<Longrightarrow> ev_step s t \<Longrightarrow> ev_reach t"

definition ev_inv :: "'v ev_sys \<Rightarrow> bool" where
  [inv_defs]: "ev_inv s \<longleftrightarrow>
     distinct (ev_waiters (es_ev s)) \<and>
     (\<forall>h. h \<in> set (ev_waiters (es_ev s)) \<longleftrightarrow> es_pc s h = Ev_Waiting) \<and>
     (es_setting s \<longrightarrow> ev_is_set (es_ev s)) \<and>
     (ev_is_set (es_ev s) \<longrightarrow> es_setting s \<or> ev_waiters (es_ev s) = []) \<and>
     (\<forall>h. es_pc s h = Ev_Resumed \<longrightarrow> ev_is_set (es_ev s))"

lemmas ev_op_defs = event_await_ready_def event_await_suspend_def event_set_store_def event_set_wake_def

lemma event_suspend_submitted:
  "event_await_suspend log_submit h ev log = Inr (ev', log') \<Longrightarrow> submitted log log' = (if ev_is_set ev then [h] else [])"
  by (auto simp: event_await_suspend_def log_submit_def split: if_splits)

lemma event_set_wake_submitted:
  assumes "event_set_wake log_submit ev log = Inr (ev', log')"
  shows "ev' = ev\<lparr>ev_waiters := []\<rparr>" "submitted log log' = ev_waiters ev"
  using assms by (auto simp: event_set_wake_def)

lemma ev_step_inv: "ev_step s t \<Longrightarrow> ev_inv s \<Longrightarrow> ev_inv t"
proof (induction rule: ev_step.induct)
  case (suspend s h ev' log')
  then show ?case
    by (cases "ev_is_set (es_ev s)") (auto simp: ev_inv_def event_await_suspend_def log_submit_def)
next
  case (set_wake s ev' log')
  with event_set_wake_submitted [OF set_wake(2)] show ?case by (auto simp: ev_inv_def)
qed (auto simp: ev_inv_def ev_op_defs)

lemma ev_reach_inv: "ev_reach s \<Longrightarrow> ev_inv s"
proof (induction rule: ev_reach.induct)
  case (init v0)
  show ?case by (simp add: ev_inv_def ev_sys_init_def event_new_def)
qed (rule ev_step_inv)

text \<open>
  C7. No wake-up of an event is lost and none comes early, in every interleaving of waits
  and sets: once the event is set and no \<open>set\<close> is still inside its critical section, no
  coroutine is left suspended on it; the waiting list names exactly the suspended
  coroutines; and a coroutine is past the wait only if the event has been set. A suspended
  coroutine gets past the wait only by being submitted.
\<close>

theorem event_no_lost_wakeup:
  assumes "ev_reach s"
  shows "(ev_is_set (es_ev s) \<and> \<not> es_setting s \<longrightarrow> (\<forall>h. es_pc s h \<noteq> Ev_Waiting)) \<and>
         (\<forall>h. h \<in> set (ev_waiters (es_ev s)) \<longleftrightarrow> es_pc s h = Ev_Waiting) \<and>
         (\<forall>h. es_pc s h = Ev_Resumed \<longrightarrow> ev_is_set (es_ev s))"
  using ev_reach_inv [OF assms] by (auto simp: ev_inv_def)

definition ev_demo :: "nat ev_sys" where
  "ev_demo = \<lparr>es_ev = \<lparr>ev_is_set = True, ev_value = 5, ev_waiters = []\<rparr>, es_setting = False,
     es_pc = (\<lambda>_. Ev_Idle)(7 := Ev_Resumed), es_log = [7]\<rparr>"

lemma ev_demo_reach: "ev_reach ev_demo"
proof -
  let ?s0 = "ev_sys_init (0 :: nat)"
  let ?s1 = "?s0\<lparr>es_pc := (es_pc ?s0)(7 := Ev_Check)\<rparr>"
  let ?s2 = "?s1\<lparr>es_pc := (es_pc ?s1)(7 := Ev_Suspend)\<rparr>"
  let ?s3 = "?s2\<lparr>es_ev := (es_ev ?s2)\<lparr>ev_waiters := [7]\<rparr>, es_log := [], es_pc := (es_pc ?s2)(7 := Ev_Waiting)\<rparr>"
  let ?s4 = "?s3\<lparr>es_ev := event_set_store 5 (es_ev ?s3), es_setting := True\<rparr>"
  have "ev_reach ?s1"
    by (rule ev_reach.step [OF ev_reach.init ev_step.wait]) (simp add: ev_sys_init_def)
  then have "ev_reach ?s2"
    by (rule ev_reach.step [OF _ ev_step.not_ready]) (simp_all add: ev_sys_init_def event_new_def ev_op_defs)
  then have "ev_reach ?s3"
    by (rule ev_reach.step)
      (use ev_step.suspend [of ?s2 7] in \<open>simp add: ev_sys_init_def event_new_def ev_op_defs\<close>)
  then have "ev_reach ?s4"
    by (rule ev_reach.step [OF _ ev_step.set_store]) (simp add: ev_sys_init_def)
  then show ?thesis
    by (rule ev_reach.step)
      (use ev_step.set_wake [of ?s4] in
        \<open>simp add: ev_sys_init_def event_new_def ev_op_defs ev_demo_def fun_upd_def if_distrib cong: if_cong\<close>)
qed

theorem event_no_lost_wakeup_witness:
  "es_pc ev_demo 7 = Ev_Resumed \<and> (\<forall>h. es_pc ev_demo h \<noteq> Ev_Waiting) \<and> ev_is_set (es_ev ev_demo)"
  using event_no_lost_wakeup [OF ev_demo_reach] by (simp add: ev_demo_def)

end
