(* ===== verification/Latch.thy ===== *)
theory Latch
  imports Runtime Wait_Gate
begin

text \<open>
  \<open>coro/comp/latch.hpp\<close>: a counter that coroutines wait to reach zero. The counter is
  an atomic that \<open>count_down\<close> decrements without the spinlock, so the theory keeps the
  atomic accesses apart: the step relation has one rule per access to \<open>m_count\<close> and to
  \<open>m_lock\<close>. \<open>coro/comp/wait_group.hpp\<close> is the same code on an \<open>int\<close> with an extra
  \<open>add\<close>; the state and the rules are therefore polymorphic in the width of the counter
  and the theory \<open>Wait_Group\<close> reuses them.
\<close>

section \<open>State and operations\<close>

record 'n countdown =
  cd_count :: 'n
  cd_waiters :: "handle list"

type_synonym latch = "u64 countdown"

definition cd_new :: "'c::len word \<Rightarrow> 'c word countdown" where
  "cd_new cnt = \<lparr>cd_count = cnt, cd_waiters = []\<rparr>"

definition cd_await_ready :: "'c::len word countdown \<Rightarrow> bool" where
  "cd_await_ready l = (cd_count l = 0)"

text \<open>
  \<open>await_suspend\<close> under the lock: the second load of the counter, and the push when it was
  not zero. \<open>count_down\<close>: the \<open>fetch_sub\<close>, and the waking under the lock when the value
  before was 1. The pieces are the steps of the interleavings below.
\<close>

definition cd_recheck :: "'c::len word countdown \<Rightarrow> bool" where
  "cd_recheck l = (cd_count l = 0)"

definition cd_push :: "handle \<Rightarrow> 'c::len word countdown \<Rightarrow> 'c word countdown" where
  "cd_push h l = l\<lparr>cd_waiters := cd_waiters l @ [h]\<rparr>"

definition cd_await_suspend ::
  "(handle \<Rightarrow> 'w \<Rightarrow> 'w res) \<Rightarrow> handle \<Rightarrow> 'c::len word countdown \<Rightarrow> 'w \<Rightarrow> ('c word countdown \<times> 'w) res" where
  "cd_await_suspend submit h l w =
     (if cd_recheck l then bindE (submit h w) (\<lambda>w'. Inr (l, w')) else Inr (cd_push h l, w))"

definition cd_fetch_sub :: "'c::len word countdown \<Rightarrow> 'c word \<times> 'c word countdown" where
  "cd_fetch_sub l = (cd_count l, l\<lparr>cd_count := cd_count l - 1\<rparr>)"

definition cd_wake ::
  "(handle \<Rightarrow> 'w \<Rightarrow> 'w res) \<Rightarrow> 'c::len word countdown \<Rightarrow> 'w \<Rightarrow> ('c word countdown \<times> 'w) res" where
  "cd_wake submit l w =
     bindE (wake_all submit (cd_waiters l) w) (\<lambda>w'. Inr (l\<lparr>cd_waiters := []\<rparr>, w'))"

definition cd_count_down ::
  "(handle \<Rightarrow> 'w \<Rightarrow> 'w res) \<Rightarrow> 'c::len word countdown \<Rightarrow> 'w \<Rightarrow> ('c word countdown \<times> 'w) res" where
  "cd_count_down submit l w =
     (let (prev, l) = cd_fetch_sub l in if prev = 1 then cd_wake submit l w else Inr (l, w))"

definition latch_new :: "u64 \<Rightarrow> latch" where
  "latch_new cnt = cd_new cnt"

definition latch_await_ready :: "latch \<Rightarrow> bool" where
  "latch_await_ready l = cd_await_ready l"

definition latch_await_suspend ::
  "(handle \<Rightarrow> 'w \<Rightarrow> 'w res) \<Rightarrow> handle \<Rightarrow> latch \<Rightarrow> 'w \<Rightarrow> (latch \<times> 'w) res" where
  "latch_await_suspend submit h l w = cd_await_suspend submit h l w"

definition latch_count_down ::
  "(handle \<Rightarrow> 'w \<Rightarrow> 'w res) \<Rightarrow> latch \<Rightarrow> 'w \<Rightarrow> (latch \<times> 'w) res" where
  "latch_count_down submit l w = cd_count_down submit l w"

definition latch_guard_destroy ::
  "(handle \<Rightarrow> 'w \<Rightarrow> 'w res) \<Rightarrow> latch \<Rightarrow> 'w \<Rightarrow> (latch \<times> 'w) res" where
  "latch_guard_destroy submit l w = latch_count_down submit l w"

lemmas latch_defs = latch_new_def latch_await_ready_def latch_await_suspend_def latch_count_down_def
  latch_guard_destroy_def

lemmas cd_op_defs = cd_new_def cd_await_ready_def cd_recheck_def cd_push_def cd_await_suspend_def
  cd_fetch_sub_def cd_wake_def cd_count_down_def

section \<open>A latch is a gate\<close>

interpretation cd_gate: wait_gate submit_to_scheduler w_pending w_room "\<lambda>l. cd_count l = 0" cd_waiters
  "cd_await_suspend submit_to_scheduler" "cd_wake submit_to_scheduler"
proof (unfold_locales, goal_cases)
  case (3 s w)
  show ?case
    by (rule exI [of _ "s\<lparr>cd_waiters := []\<rparr>"]) (simp add: cd_wake_def)
qed (simp_all add: cd_await_suspend_def cd_recheck_def cd_push_def)

text \<open>Counting down \<open>n\<close> times from \<open>n\<close>: only the last call wakes, and it wakes everyone.\<close>

fun cd_downs ::
  "nat \<Rightarrow> (handle \<Rightarrow> 'w \<Rightarrow> 'w res) \<Rightarrow> 'c::len word countdown \<Rightarrow> 'w \<Rightarrow> ('c word countdown \<times> 'w) res" where
  "cd_downs 0 submit l w = Inr (l, w)"
| "cd_downs (Suc n) submit l w = bindE (cd_count_down submit l w) (\<lambda>(l', w'). cd_downs n submit l' w')"

lemma cd_downs_open:
  assumes "0 < n" and "n < 2 ^ LENGTH('c)" and "cd_count l = (of_nat n :: 'c::len word)"
  shows "cd_downs n submit l w = cd_wake submit (l\<lparr>cd_count := 0\<rparr>) w"
  using assms
proof (induction n arbitrary: l)
  case (Suc n)
  show ?case
  proof (cases "n = 0")
    case True
    then show ?thesis using Suc.prems
      by (cases "cd_wake submit (l\<lparr>cd_count := 0\<rparr>) w") (auto simp: cd_count_down_def cd_fetch_sub_def)
  next
    case False
    have "of_nat (Suc n) \<noteq> (1 :: 'c word)"
    proof
      assume eq: "of_nat (Suc n) = (1 :: 'c word)"
      have "unat (of_nat (Suc n) :: 'c word) = Suc n"
        using Suc.prems(2) by (simp only: unat_of_nat mod_less)
      with eq False show False by simp
    qed
    then show ?thesis using Suc False by (simp add: cd_count_down_def cd_fetch_sub_def)
  qed
qed simp

section \<open>Interleaved waits and count-downs\<close>

text \<open>
  \<open>cs_calls\<close> counts the calls of \<open>count_down\<close> that have done their \<open>fetch_sub\<close>;
  \<open>cs_wakers\<close> those among them that saw the previous value 1 and have not yet taken
  the lock. The lock is free, held by a coroutine inside \<open>await_suspend\<close>, or held by a
  waker. A suspended coroutine gets on only by being submitted.
\<close>

datatype cd_pc = Cd_Idle | Cd_Check | Cd_Suspend | Cd_Locked | Cd_Push | Cd_Waiting | Cd_Resumed

datatype cd_lock = Cd_Free | Cd_By_Waiter handle | Cd_By_Waker

record 'n cd_sys =
  cs_cd :: "'n countdown"
  cs_lock :: cd_lock
  cs_pc :: "handle \<Rightarrow> cd_pc"
  cs_wakers :: nat
  cs_calls :: nat
  cs_log :: "handle list"

definition cd_sys_init :: "'c::len word \<Rightarrow> 'c word cd_sys" where
  "cd_sys_init n = \<lparr>cs_cd = cd_new n, cs_lock = Cd_Free, cs_pc = (\<lambda>_. Cd_Idle),
     cs_wakers = 0, cs_calls = 0, cs_log = []\<rparr>"

inductive cd_step :: "'c::len word cd_sys \<Rightarrow> 'c word cd_sys \<Rightarrow> bool" where
  wait: "cs_pc s h = Cd_Idle \<Longrightarrow> cd_step s (s\<lparr>cs_pc := (cs_pc s)(h := Cd_Check)\<rparr>)"
| ready: "cs_pc s h = Cd_Check \<Longrightarrow> cd_await_ready (cs_cd s) \<Longrightarrow>
     cd_step s (s\<lparr>cs_pc := (cs_pc s)(h := Cd_Resumed)\<rparr>)"
| not_ready: "cs_pc s h = Cd_Check \<Longrightarrow> \<not> cd_await_ready (cs_cd s) \<Longrightarrow>
     cd_step s (s\<lparr>cs_pc := (cs_pc s)(h := Cd_Suspend)\<rparr>)"
| lock: "cs_pc s h = Cd_Suspend \<Longrightarrow> cs_lock s = Cd_Free \<Longrightarrow>
     cd_step s (s\<lparr>cs_pc := (cs_pc s)(h := Cd_Locked), cs_lock := Cd_By_Waiter h\<rparr>)"
| load_zero: "cs_pc s h = Cd_Locked \<Longrightarrow> cd_recheck (cs_cd s) \<Longrightarrow> log_submit h (cs_log s) = Inr log' \<Longrightarrow>
     cd_step s (s\<lparr>cs_pc := resume_as Cd_Resumed (submitted (cs_log s) log') ((cs_pc s)(h := Cd_Waiting)),
       cs_lock := Cd_Free, cs_log := log'\<rparr>)"
| load_nonzero: "cs_pc s h = Cd_Locked \<Longrightarrow> \<not> cd_recheck (cs_cd s) \<Longrightarrow>
     cd_step s (s\<lparr>cs_pc := (cs_pc s)(h := Cd_Push)\<rparr>)"
| push: "cs_pc s h = Cd_Push \<Longrightarrow>
     cd_step s (s\<lparr>cs_pc := (cs_pc s)(h := Cd_Waiting), cs_lock := Cd_Free, cs_cd := cd_push h (cs_cd s)\<rparr>)"
| fetch_sub: "cd_fetch_sub (cs_cd s) = (prev, l') \<Longrightarrow>
     cd_step s (s\<lparr>cs_cd := l', cs_calls := Suc (cs_calls s),
       cs_wakers := (if prev = 1 then Suc (cs_wakers s) else cs_wakers s)\<rparr>)"
| waker_lock: "cs_wakers s = Suc k \<Longrightarrow> cs_lock s = Cd_Free \<Longrightarrow>
     cd_step s (s\<lparr>cs_wakers := k, cs_lock := Cd_By_Waker\<rparr>)"
| waker_wake: "cs_lock s = Cd_By_Waker \<Longrightarrow>
     cd_wake log_submit (cs_cd s) (cs_log s) = Inr (l', log') \<Longrightarrow>
     cd_step s (s\<lparr>cs_cd := l', cs_log := log', cs_lock := Cd_Free,
       cs_pc := resume_as Cd_Resumed (submitted (cs_log s) log') (cs_pc s)\<rparr>)"

inductive cd_reach :: "'c::len word \<Rightarrow> 'c word cd_sys \<Rightarrow> bool" for n where
  init: "cd_reach n (cd_sys_init n)"
| step: "cd_reach n s \<Longrightarrow> cd_step s t \<Longrightarrow> cd_reach n t"

text \<open>
  The invariant. A coroutine that is about to push, or has pushed, while the counter is
  zero is always covered by a waker that has yet to run.
\<close>

definition cd_waiters_ok :: "'c::len word cd_sys \<Rightarrow> bool" where
  [inv_defs]: "cd_waiters_ok s \<longleftrightarrow> distinct (cd_waiters (cs_cd s)) \<and>
     (\<forall>h. h \<in> set (cd_waiters (cs_cd s)) \<longleftrightarrow> cs_pc s h = Cd_Waiting)"

definition cd_lock_ok :: "'c::len word cd_sys \<Rightarrow> bool" where
  [inv_defs]: "cd_lock_ok s \<longleftrightarrow>
     (\<forall>h. cs_pc s h = Cd_Locked \<or> cs_pc s h = Cd_Push \<longrightarrow> cs_lock s = Cd_By_Waiter h) \<and>
     (\<forall>h. cs_lock s = Cd_By_Waiter h \<longrightarrow> cs_pc s h = Cd_Locked \<or> cs_pc s h = Cd_Push)"

definition cd_cover_ok :: "'c::len word cd_sys \<Rightarrow> bool" where
  [inv_defs]: "cd_cover_ok s \<longleftrightarrow>
     (cd_count (cs_cd s) = 0 \<longrightarrow>
        (cd_waiters (cs_cd s) = [] \<and> (\<forall>h. cs_pc s h \<noteq> Cd_Push)) \<or>
        0 < cs_wakers s \<or> cs_lock s = Cd_By_Waker)"

definition cd_calls_ok :: "'c::len word \<Rightarrow> 'c word cd_sys \<Rightarrow> bool" where
  [inv_defs]: "cd_calls_ok n s \<longleftrightarrow>
     cd_count (cs_cd s) = n - of_nat (cs_calls s) \<and>
     ((0 < cs_wakers s \<or> cs_lock s = Cd_By_Waker \<or> (\<exists>h. cs_pc s h = Cd_Resumed)) \<longrightarrow>
        unat n \<le> cs_calls s)"

lemma calls_reach_zero:
  assumes "(n :: 'c::len word) - of_nat k = 0"
  shows "unat n \<le> k"
proof (rule ccontr)
  assume "\<not> unat n \<le> k"
  then have k: "k < unat n" by simp
  also have "unat n < 2 ^ LENGTH('c)" by (rule unsigned_less)
  finally have "unat (of_nat k :: 'c word) = k" by (simp add: unat_of_nat take_bit_nat_eq_self)
  with assms k show False by auto
qed

text \<open>What the two submitting steps do, with the submitted handles made explicit.\<close>

lemma cd_wake_submitted:
  assumes "cd_wake log_submit l log = Inr (l', log')"
  shows "l' = l\<lparr>cd_waiters := []\<rparr>" "submitted log log' = cd_waiters l"
  using assms by (auto simp: cd_wake_def)

lemma log_submit_submitted [simp]: "log_submit h log = Inr log' \<Longrightarrow> submitted log log' = [h]"
  by (auto simp: log_submit_def)

lemma cd_step_waiters: "cd_step s t \<Longrightarrow> cd_waiters_ok s \<Longrightarrow> cd_waiters_ok t"
proof (induction rule: cd_step.induct)
  case (waker_wake s l' log')
  with cd_wake_submitted [OF waker_wake(2)] show ?case by (auto simp: cd_waiters_ok_def)
qed (auto simp: cd_waiters_ok_def cd_push_def cd_fetch_sub_def)

definition cd_inside :: "'c::len word cd_sys \<Rightarrow> handle \<Rightarrow> bool" where
  "cd_inside s h \<longleftrightarrow> cs_pc s h = Cd_Locked \<or> cs_pc s h = Cd_Push"

lemma cd_lock_ok_iff: "cd_lock_ok s \<longleftrightarrow> (\<forall>h. cd_inside s h = (cs_lock s = Cd_By_Waiter h))"
  by (auto simp: cd_lock_ok_def cd_inside_def)

lemma cd_step_lock:
  assumes "cd_step s t" "cd_lock_ok s"
  shows "cd_lock_ok t"
proof -
  have holder: "\<And>h. cd_inside s h = (cs_lock s = Cd_By_Waiter h)"
    using assms(2) by (simp add: cd_lock_ok_iff)
  from assms(1) have "cd_inside t h = (cs_lock t = Cd_By_Waiter h)" for h
  proof (cases rule: cd_step.cases)
    case (load_zero g log')
    with holder [of g] have "cs_lock s = Cd_By_Waiter g" by (simp add: cd_inside_def)
    with load_zero holder [of h] show ?thesis by (auto simp: cd_inside_def)
  next
    case (load_nonzero g)
    with holder [of g] have "cs_lock s = Cd_By_Waiter g" by (simp add: cd_inside_def)
    with load_nonzero holder [of h] show ?thesis by (auto simp: cd_inside_def)
  next
    case (push g)
    with holder [of g] have "cs_lock s = Cd_By_Waiter g" by (simp add: cd_inside_def)
    with push holder [of h] show ?thesis by (auto simp: cd_inside_def)
  next
    case (waker_wake l' log')
    with holder [of h] show ?thesis by (auto simp: cd_inside_def)
  qed (use holder [of h] in \<open>auto simp: cd_inside_def\<close>)
  then show ?thesis by (simp add: cd_lock_ok_iff)
qed

lemma cd_step_cover:
  assumes "cd_step s t" "cd_cover_ok s" "cd_lock_ok s"
  shows "cd_cover_ok t"
  using assms
proof (induction rule: cd_step.induct)
  case (push s h)
  then show ?case by (auto simp: cd_cover_ok_def cd_lock_ok_def cd_push_def)
next
  case (fetch_sub s prev l')
  then show ?case by (auto simp: cd_cover_ok_def cd_fetch_sub_def)
next
  case (load_zero s h log')
  then show ?case by (auto simp: cd_cover_ok_def cd_lock_ok_def)
next
  case (load_nonzero s h)
  then show ?case by (auto simp: cd_cover_ok_def cd_recheck_def)
next
  case (waker_wake s l' log')
  with cd_wake_submitted [OF waker_wake(2)] show ?case by (auto simp: cd_cover_ok_def cd_lock_ok_def)
qed (auto simp: cd_cover_ok_def cd_lock_ok_def)

lemma cd_step_calls:
  assumes "cd_step s t" "cd_calls_ok n s"
  shows "cd_calls_ok n t"
  using assms
proof (induction rule: cd_step.induct)
  case (fetch_sub s prev l')
  then have l': "prev = cd_count (cs_cd s)" "l' = (cs_cd s)\<lparr>cd_count := prev - 1\<rparr>" by (auto simp: cd_fetch_sub_def)
  with fetch_sub(2) have "prev - 1 = n - of_nat (Suc (cs_calls s))" by (simp add: cd_calls_ok_def)
  with calls_reach_zero [of n "Suc (cs_calls s)"] have "prev = 1 \<Longrightarrow> unat n \<le> Suc (cs_calls s)" by simp
  with fetch_sub(2) l' show ?case by (auto simp: cd_calls_ok_def)
next
  case (ready s h)
  with calls_reach_zero [of n "cs_calls s"] show ?case by (simp add: cd_calls_ok_def cd_await_ready_def)
next
  case (load_zero s h log')
  with calls_reach_zero [of n "cs_calls s"] show ?case by (simp add: cd_calls_ok_def cd_recheck_def)
next
  case (waker_wake s l' log')
  with cd_wake_submitted [OF waker_wake(2)] show ?case by (auto simp: cd_calls_ok_def)
qed (auto simp: cd_calls_ok_def cd_push_def)

definition cd_inv :: "'c::len word \<Rightarrow> 'c word cd_sys \<Rightarrow> bool" where
  "cd_inv n s \<longleftrightarrow> cd_waiters_ok s \<and> cd_lock_ok s \<and> cd_cover_ok s \<and> cd_calls_ok n s"

lemma cd_step_inv: "cd_step s t \<Longrightarrow> cd_inv n s \<Longrightarrow> cd_inv n t"
  by (simp add: cd_inv_def cd_step_waiters cd_step_lock cd_step_cover cd_step_calls)

lemma cd_reach_inv: "cd_reach n s \<Longrightarrow> cd_inv n s"
proof (induction rule: cd_reach.induct)
  case init
  show ?case by (simp add: cd_inv_def inv_defs cd_sys_init_def cd_new_def)
next
  case (step s t)
  from step.hyps(2) step.IH show ?case by (rule cd_step_inv)
qed

section \<open>Properties\<close>

text \<open>
  C6. No wake-up of a latch is lost, in every interleaving of the atomic accesses of
  \<open>wait\<close> and \<open>count_down\<close>: when the counter is zero and no call that took it there is
  still on its way to wake the waiters, no coroutine is suspended on the latch.
\<close>

theorem latch_no_lost_wakeup:
  assumes "cd_reach n s" and "cd_count (cs_cd s) = (0 :: u64)"
    and "cs_wakers s = 0" and "cs_lock s \<noteq> Cd_By_Waker"
  shows "cd_waiters (cs_cd s) = [] \<and> (\<forall>h. cs_pc s h \<noteq> Cd_Waiting \<and> cs_pc s h \<noteq> Cd_Push)"
proof -
  have inv: "cd_waiters_ok s" "cd_cover_ok s" using cd_reach_inv [OF assms(1)] by (simp_all add: cd_inv_def)
  have "cd_waiters (cs_cd s) = []" "\<And>h. cs_pc s h \<noteq> Cd_Push"
    using inv(2) assms(2-) by (simp_all add: cd_cover_ok_def)
  with inv(1) show ?thesis by (simp add: cd_waiters_ok_def)
qed

text \<open>
  A coroutine gets past a latch only after \<open>count_down\<close> has been called as often as
  the latch was constructed for, in every interleaving.
\<close>

theorem latch_no_early_release:
  assumes "cd_reach (n :: u64) s" and "cs_pc s h = Cd_Resumed"
  shows "unat n \<le> cs_calls s"
  using cd_reach_inv [OF assms(1)] assms(2) unfolding cd_inv_def cd_calls_ok_def by blast

text \<open>
  A run in which the waiter has read the non-zero counter when the counter drops to zero:
  it still pushes itself, and the waker, which needs the lock, comes after it.
\<close>

definition latch_demo :: "u64 cd_sys" where
  "latch_demo = \<lparr>cs_cd = \<lparr>cd_count = 0, cd_waiters = []\<rparr>, cs_lock = Cd_Free,
     cs_pc = (\<lambda>_. Cd_Idle)(7 := Cd_Resumed), cs_wakers = 0, cs_calls = 1, cs_log = [7]\<rparr>"

lemma latch_demo_reach: "cd_reach 1 latch_demo"
proof -
  let ?s = "\<lambda>c ws l p k n. \<lparr>cs_cd = \<lparr>cd_count = c :: u64, cd_waiters = ws\<rparr>, cs_lock = l,
     cs_pc = (\<lambda>_. Cd_Idle)(7 := p), cs_wakers = k, cs_calls = n, cs_log = []\<rparr>"
  note ev = cd_sys_init_def cd_op_defs
  have "cd_reach 1 (?s 1 [] Cd_Free Cd_Check 0 0)"
    by (rule cd_reach.step [OF cd_reach.init]) (use cd_step.wait [of "cd_sys_init 1" 7] in \<open>simp add: ev\<close>)
  then have "cd_reach 1 (?s 1 [] Cd_Free Cd_Suspend 0 0)"
    by (rule cd_reach.step) (use cd_step.not_ready [of "?s 1 [] Cd_Free Cd_Check 0 0" 7] in \<open>simp add: ev\<close>)
  then have "cd_reach 1 (?s 1 [] (Cd_By_Waiter 7) Cd_Locked 0 0)"
    by (rule cd_reach.step) (use cd_step.lock [of "?s 1 [] Cd_Free Cd_Suspend 0 0" 7] in \<open>simp add: ev\<close>)
  then have "cd_reach 1 (?s 1 [] (Cd_By_Waiter 7) Cd_Push 0 0)"
    by (rule cd_reach.step)
      (use cd_step.load_nonzero [of "?s 1 [] (Cd_By_Waiter 7) Cd_Locked 0 0" 7] in \<open>simp add: ev\<close>)
  then have "cd_reach 1 (?s 0 [] (Cd_By_Waiter 7) Cd_Push 1 1)"
    by (rule cd_reach.step)
      (use cd_step.fetch_sub [of "?s 1 [] (Cd_By_Waiter 7) Cd_Push 0 0"] in \<open>simp add: ev\<close>)
  then have "cd_reach 1 (?s 0 [7] Cd_Free Cd_Waiting 1 1)"
    by (rule cd_reach.step)
      (use cd_step.push [of "?s 0 [] (Cd_By_Waiter 7) Cd_Push 1 1" 7] in \<open>simp add: ev\<close>)
  then have "cd_reach 1 (?s 0 [7] Cd_By_Waker Cd_Waiting 0 1)"
    by (rule cd_reach.step)
      (use cd_step.waker_lock [of "?s 0 [7] Cd_Free Cd_Waiting 1 1" 0] in \<open>simp add: ev\<close>)
  then show ?thesis
    by (rule cd_reach.step)
      (use cd_step.waker_wake [of "?s 0 [7] Cd_By_Waker Cd_Waiting 0 1"] in
        \<open>simp add: ev latch_demo_def fun_upd_def if_distrib cong: if_cong\<close>)
qed

theorem latch_no_lost_wakeup_witness:
  "cd_waiters (cs_cd latch_demo) = [] \<and> cs_pc latch_demo 7 \<noteq> Cd_Waiting \<and> cs_log latch_demo = [7]"
proof -
  have "cd_waiters (cs_cd latch_demo) = [] \<and>
      (\<forall>h. cs_pc latch_demo h \<noteq> Cd_Waiting \<and> cs_pc latch_demo h \<noteq> Cd_Push)"
    by (rule latch_no_lost_wakeup [OF latch_demo_reach]) (simp_all add: latch_demo_def)
  then show ?thesis by (simp add: latch_demo_def)
qed

theorem latch_no_early_release_witness: "unat (1 :: u64) \<le> cs_calls latch_demo"
  by (rule latch_no_early_release [OF latch_demo_reach, of 7]) (simp add: latch_demo_def)

text \<open>
  A latch constructed with \<open>n > 0\<close> and counted down \<open>n\<close> times submits every waiting
  coroutine to the scheduler, each once and all of them by the last call, and is open
  afterwards.
\<close>

theorem latch_opens_after_n:
  assumes "0 < n" and "n < 2 ^ 64" and "cd_count l = of_nat n" and "w_room (length (cd_waiters l)) w"
  shows "\<exists>l' w'. cd_downs n submit_to_scheduler (l :: latch) w = Inr (l', w') \<and>
           latch_await_ready l' \<and> cd_waiters l' = [] \<and> w_pending w' = mset (cd_waiters l) + w_pending w"
proof -
  have "cd_downs n submit_to_scheduler l w = cd_wake submit_to_scheduler (l\<lparr>cd_count := 0\<rparr>) w"
    using assms by (intro cd_downs_open) simp_all
  then show ?thesis
    using sched.wake_all_returns [OF assms(4)] by (auto simp: cd_wake_def latch_await_ready_def cd_await_ready_def)
qed

theorem latch_opens_after_n_witness:
  "\<exists>l' w'. cd_downs 3 submit_to_scheduler \<lparr>cd_count = 3, cd_waiters = [7, 9]\<rparr> demo_world = Inr (l', w') \<and>
     latch_await_ready l' \<and> cd_waiters l' = [] \<and> w_pending w' = mset [7, 9] + w_pending demo_world"
  using latch_opens_after_n [of 3 "\<lparr>cd_count = 3, cd_waiters = [7, 9]\<rparr>" demo_world] demo_world_room by simp

end
