(* ===== verification/Wait_Group.thy ===== *)
theory Wait_Group
  imports Latch
begin

text \<open>
  \<open>coro/comp/wait_group.hpp\<close>: the counter of \<open>Latch\<close> on an \<open>int\<close>, with \<open>add\<close>.
  The interleavings are those of \<open>Latch\<close> with one more atomic access, the
  \<open>fetch_add\<close> of \<open>add\<close>, which never wakes anyone.
\<close>

section \<open>State and operations\<close>

type_synonym wait_group = "i32 countdown"

definition wait_group_new :: "i32 \<Rightarrow> wait_group" where
  "wait_group_new cnt = \<lparr>cd_count = cnt, cd_waiters = []\<rparr>"

definition wait_group_await_ready :: "wait_group \<Rightarrow> bool" where
  "wait_group_await_ready wg = (cd_count wg = 0)"

definition wait_group_recheck :: "wait_group \<Rightarrow> bool" where
  "wait_group_recheck wg = (cd_count wg = 0)"

definition wait_group_push :: "handle \<Rightarrow> wait_group \<Rightarrow> wait_group" where
  "wait_group_push h wg = wg\<lparr>cd_waiters := cd_waiters wg @ [h]\<rparr>"

definition wait_group_await_suspend ::
  "(handle \<Rightarrow> 'w \<Rightarrow> 'w res) \<Rightarrow> handle \<Rightarrow> wait_group \<Rightarrow> 'w \<Rightarrow> (wait_group \<times> 'w) res" where
  "wait_group_await_suspend submit h wg w =
     (if wait_group_recheck wg then bindE (submit h w) (\<lambda>w'. Inr (wg, w')) else Inr (wait_group_push h wg, w))"

definition wait_group_add :: "i32 \<Rightarrow> wait_group \<Rightarrow> wait_group" where
  "wait_group_add cnt wg = wg\<lparr>cd_count := cd_count wg + cnt\<rparr>"

definition wait_group_fetch_sub :: "wait_group \<Rightarrow> i32 \<times> wait_group" where
  "wait_group_fetch_sub wg = (cd_count wg, wg\<lparr>cd_count := cd_count wg - 1\<rparr>)"

definition wait_group_wake ::
  "(handle \<Rightarrow> 'w \<Rightarrow> 'w res) \<Rightarrow> wait_group \<Rightarrow> 'w \<Rightarrow> (wait_group \<times> 'w) res" where
  "wait_group_wake submit wg w =
     bindE (wake_all submit (cd_waiters wg) w) (\<lambda>w'. Inr (wg\<lparr>cd_waiters := []\<rparr>, w'))"

definition wait_group_done ::
  "(handle \<Rightarrow> 'w \<Rightarrow> 'w res) \<Rightarrow> wait_group \<Rightarrow> 'w \<Rightarrow> (wait_group \<times> 'w) res" where
  "wait_group_done submit wg w =
     (let (prev, wg) = wait_group_fetch_sub wg in if prev = 1 then wait_group_wake submit wg w else Inr (wg, w))"

text \<open>Piece by piece the wait group is the latch on an \<open>int\<close>.\<close>

lemma wait_group_is_countdown:
  "wait_group_new = cd_new" "wait_group_await_ready = cd_await_ready" "wait_group_recheck = cd_recheck"
  "wait_group_push = cd_push" "wait_group_fetch_sub = cd_fetch_sub" "wait_group_wake submit = cd_wake submit"
  by (simp_all add: fun_eq_iff wait_group_new_def wait_group_await_ready_def wait_group_recheck_def
      wait_group_push_def wait_group_fetch_sub_def wait_group_wake_def cd_op_defs)

section \<open>Interleavings\<close>

text \<open>
  One rule per access to \<open>m_count\<close> and to \<open>m_lock\<close>. \<open>ok c k\<close> says which calls \<open>add(k)\<close>
  are made when the counter is \<open>c\<close>.
\<close>

inductive wg_step :: "(i32 \<Rightarrow> i32 \<Rightarrow> bool) \<Rightarrow> i32 cd_sys \<Rightarrow> i32 cd_sys \<Rightarrow> bool" for ok where
  wait: "cs_pc s h = Cd_Idle \<Longrightarrow> wg_step ok s (s\<lparr>cs_pc := (cs_pc s)(h := Cd_Check)\<rparr>)"
| ready: "cs_pc s h = Cd_Check \<Longrightarrow> wait_group_await_ready (cs_cd s) \<Longrightarrow>
     wg_step ok s (s\<lparr>cs_pc := (cs_pc s)(h := Cd_Resumed)\<rparr>)"
| not_ready: "cs_pc s h = Cd_Check \<Longrightarrow> \<not> wait_group_await_ready (cs_cd s) \<Longrightarrow>
     wg_step ok s (s\<lparr>cs_pc := (cs_pc s)(h := Cd_Suspend)\<rparr>)"
| lock: "cs_pc s h = Cd_Suspend \<Longrightarrow> cs_lock s = Cd_Free \<Longrightarrow>
     wg_step ok s (s\<lparr>cs_pc := (cs_pc s)(h := Cd_Locked), cs_lock := Cd_By_Waiter h\<rparr>)"
| load_zero: "cs_pc s h = Cd_Locked \<Longrightarrow> wait_group_recheck (cs_cd s) \<Longrightarrow> log_submit h (cs_log s) = Inr log' \<Longrightarrow>
     wg_step ok s (s\<lparr>cs_pc := resume_as Cd_Resumed (submitted (cs_log s) log') ((cs_pc s)(h := Cd_Waiting)),
       cs_lock := Cd_Free, cs_log := log'\<rparr>)"
| load_nonzero: "cs_pc s h = Cd_Locked \<Longrightarrow> \<not> wait_group_recheck (cs_cd s) \<Longrightarrow>
     wg_step ok s (s\<lparr>cs_pc := (cs_pc s)(h := Cd_Push)\<rparr>)"
| push: "cs_pc s h = Cd_Push \<Longrightarrow>
     wg_step ok s (s\<lparr>cs_pc := (cs_pc s)(h := Cd_Waiting), cs_lock := Cd_Free, cs_cd := wait_group_push h (cs_cd s)\<rparr>)"
| fetch_sub: "wait_group_fetch_sub (cs_cd s) = (prev, l') \<Longrightarrow>
     wg_step ok s (s\<lparr>cs_cd := l', cs_calls := Suc (cs_calls s),
       cs_wakers := (if prev = 1 then Suc (cs_wakers s) else cs_wakers s)\<rparr>)"
| waker_lock: "cs_wakers s = Suc k \<Longrightarrow> cs_lock s = Cd_Free \<Longrightarrow>
     wg_step ok s (s\<lparr>cs_wakers := k, cs_lock := Cd_By_Waker\<rparr>)"
| waker_wake: "cs_lock s = Cd_By_Waker \<Longrightarrow>
     wait_group_wake log_submit (cs_cd s) (cs_log s) = Inr (l', log') \<Longrightarrow>
     wg_step ok s (s\<lparr>cs_cd := l', cs_log := log', cs_lock := Cd_Free,
       cs_pc := resume_as Cd_Resumed (submitted (cs_log s) log') (cs_pc s)\<rparr>)"
| add: "ok (cd_count (cs_cd s)) k \<Longrightarrow> wg_step ok s (s\<lparr>cs_cd := wait_group_add k (cs_cd s)\<rparr>)"

text \<open>A step of the wait group is an \<open>add\<close> or a step of the latch, and the latter are all there.\<close>

lemma wg_step_cases:
  assumes "wg_step ok s t"
  obtains (common) "cd_step s t"
    | (add) k where "ok (cd_count (cs_cd s)) k" "t = s\<lparr>cs_cd := wait_group_add k (cs_cd s)\<rparr>"
  using assms
  by cases (auto simp: wait_group_is_countdown simp del: log_submit_submitted resume_as_simps intro: cd_step.intros)

lemma wg_step_common:
  assumes "cd_step s t"
  shows "wg_step ok s t"
  using assms
proof cases
  case (fetch_sub prev l')
  with wg_step.fetch_sub [of s prev l' ok] show ?thesis by (simp add: wait_group_is_countdown)
qed (auto simp: wait_group_is_countdown [symmetric] simp del: log_submit_submitted resume_as_simps intro: wg_step.intros)

inductive wg_reach :: "(i32 \<Rightarrow> i32 \<Rightarrow> bool) \<Rightarrow> i32 \<Rightarrow> i32 cd_sys \<Rightarrow> bool" for ok n where
  init: "wg_reach ok n (cd_sys_init n)"
| step: "wg_reach ok n s \<Longrightarrow> wg_step ok s t \<Longrightarrow> wg_reach ok n t"

definition wg_inv :: "i32 cd_sys \<Rightarrow> bool" where
  "wg_inv s \<longleftrightarrow> cd_waiters_ok s \<and> cd_lock_ok s \<and> cd_cover_ok s"

lemma wg_step_inv:
  assumes "wg_step ok s t" and "\<And>c k. ok c k \<Longrightarrow> c + k \<noteq> 0" and "wg_inv s"
  shows "wg_inv t"
  using assms(1)
proof (cases rule: wg_step_cases)
  case common
  with assms(3) show ?thesis
    by (simp add: wg_inv_def cd_step_waiters cd_step_lock cd_step_cover)
next
  case (add k)
  with assms(2,3) show ?thesis
    by (simp add: wg_inv_def cd_waiters_ok_def cd_lock_ok_def cd_cover_ok_def wait_group_add_def)
qed

lemma wg_reach_inv:
  assumes "wg_reach ok n s" and "\<And>c k. ok c k \<Longrightarrow> c + k \<noteq> 0"
  shows "wg_inv s"
  using assms(1)
proof (induction rule: wg_reach.induct)
  case init
  show ?case
    by (simp add: wg_inv_def cd_waiters_ok_def cd_lock_ok_def cd_cover_ok_def cd_sys_init_def cd_new_def)
next
  case (step s t)
  from step.hyps(2) assms(2) step.IH show ?case by (rule wg_step_inv)
qed

lemma wg_reach_common: "wg_reach ok n s \<Longrightarrow> cd_step s t \<Longrightarrow> wg_reach ok n t"
  by (blast intro: wg_reach.step wg_step_common)

section \<open>Properties\<close>

text \<open>States of the runs below: coroutine 7 waits on the group.\<close>

definition wg_state :: "i32 \<Rightarrow> handle list \<Rightarrow> cd_lock \<Rightarrow> cd_pc \<Rightarrow> nat \<Rightarrow> nat \<Rightarrow> handle list \<Rightarrow> i32 cd_sys" where
  "wg_state c ws l p k n lg = \<lparr>cs_cd = \<lparr>cd_count = c, cd_waiters = ws\<rparr>, cs_lock = l,
     cs_pc = (\<lambda>_. Cd_Idle)(7 := p), cs_wakers = k, cs_calls = n, cs_log = lg\<rparr>"

lemma wg_state_waits:
  assumes "wg_reach ok m (wg_state c [] Cd_Free Cd_Idle k n lg)" and "c \<noteq> 0"
  shows "wg_reach ok m (wg_state c [7] Cd_Free Cd_Waiting k n lg)"
proof -
  have "wg_reach ok m (wg_state c [] Cd_Free Cd_Check k n lg)"
    by (rule wg_reach_common [OF assms(1)])
      (use cd_step.wait [of "wg_state c [] Cd_Free Cd_Idle k n lg" 7] in \<open>simp add: wg_state_def\<close>)
  then have "wg_reach ok m (wg_state c [] Cd_Free Cd_Suspend k n lg)"
    by (rule wg_reach_common)
      (use cd_step.not_ready [of "wg_state c [] Cd_Free Cd_Check k n lg" 7] assms(2) in
        \<open>simp add: wg_state_def cd_await_ready_def\<close>)
  then have "wg_reach ok m (wg_state c [] (Cd_By_Waiter 7) Cd_Locked k n lg)"
    by (rule wg_reach_common)
      (use cd_step.lock [of "wg_state c [] Cd_Free Cd_Suspend k n lg" 7] in \<open>simp add: wg_state_def\<close>)
  then have "wg_reach ok m (wg_state c [] (Cd_By_Waiter 7) Cd_Push k n lg)"
    by (rule wg_reach_common)
      (use cd_step.load_nonzero [of "wg_state c [] (Cd_By_Waiter 7) Cd_Locked k n lg" 7] assms(2) in
        \<open>simp add: wg_state_def cd_recheck_def\<close>)
  then show ?thesis
    by (rule wg_reach_common)
      (use cd_step.push [of "wg_state c [] (Cd_By_Waiter 7) Cd_Push k n lg" 7] in \<open>simp add: wg_state_def cd_push_def\<close>)
qed

lemma wg_state_init: "cd_sys_init c = wg_state c [] Cd_Free Cd_Idle 0 0 []"
  by (simp add: cd_sys_init_def cd_new_def wg_state_def fun_eq_iff)

lemma wg_state_waker:
  "wg_reach ok m (wg_state c ws Cd_Free p (Suc k) n lg) \<Longrightarrow> wg_reach ok m (wg_state c ws Cd_By_Waker p k n lg)"
  by (erule wg_reach_common)
    (use cd_step.waker_lock [of "wg_state c ws Cd_Free p (Suc k) n lg" k] in \<open>simp add: wg_state_def\<close>)

lemma wg_state_wakes:
  assumes "wg_reach ok m (wg_state c [7] Cd_By_Waker Cd_Waiting k n lg)"
  shows "wg_reach ok m (wg_state c [] Cd_Free Cd_Resumed k n (lg @ [7]))"
  by (rule wg_reach_common [OF assms])
    (use cd_step.waker_wake [of "wg_state c [7] Cd_By_Waker Cd_Waiting k n lg"] in \<open>simp add: wg_state_def cd_wake_def\<close>)

text \<open>
  C24. As long as no \<open>add\<close> itself takes the counter to zero, no wake-up of a wait group is
  lost, in every interleaving of the atomic accesses of \<open>wait\<close>, \<open>add\<close> and \<open>done\<close>: when
  the counter is zero and no \<open>done\<close> that took it there is still on its way, no coroutine is
  suspended on the group; and a \<open>done\<close> that finds the counter at 1 submits every suspended
  coroutine and leaves the group empty. A suspended coroutine gets on only by being submitted.
\<close>

theorem wait_group_no_lost_wakeup:
  assumes "wg_reach ok n s" and "\<And>c k. ok c k \<Longrightarrow> c + k \<noteq> 0"
  shows "(cd_count (cs_cd s) = 0 \<and> cs_wakers s = 0 \<and> cs_lock s \<noteq> Cd_By_Waker \<longrightarrow>
            (\<forall>h. cs_pc s h \<noteq> Cd_Waiting \<and> cs_pc s h \<noteq> Cd_Push)) \<and>
         (cd_count (cs_cd s) = 1 \<longrightarrow>
            (\<exists>hs. set hs = {h. cs_pc s h = Cd_Waiting} \<and> distinct hs \<and>
               wait_group_done log_submit (cs_cd s) (cs_log s) = Inr (wait_group_new 0, cs_log s @ hs)))"
proof -
  have inv: "cd_waiters_ok s" "cd_cover_ok s" using wg_reach_inv [OF assms] by (simp_all add: wg_inv_def)
  then have "set (cd_waiters (cs_cd s)) = {h. cs_pc s h = Cd_Waiting}" "distinct (cd_waiters (cs_cd s))"
    by (auto simp: cd_waiters_ok_def)
  moreover have "wait_group_done log_submit (cs_cd s) (cs_log s) = Inr (wait_group_new 0, cs_log s @ cd_waiters (cs_cd s))"
    if "cd_count (cs_cd s) = 1" using that
    by (simp add: wait_group_done_def wait_group_fetch_sub_def wait_group_wake_def wait_group_new_def)
  ultimately show ?thesis using inv by (auto simp: cd_cover_ok_def cd_waiters_ok_def)
qed

text \<open>Coroutine 7 waits, the counter drops to zero, and the \<open>done\<close> that saw the 1 wakes it.\<close>

lemma wg_released_reach: "wg_reach (\<lambda>_ _. False) 1 (wg_state 0 [] Cd_Free Cd_Resumed 0 1 [7])"
proof -
  let ?ok = "\<lambda>(c :: i32) (k :: i32). False"
  have "wg_reach ?ok 1 (wg_state 1 [] Cd_Free Cd_Idle 0 0 [])"
    using wg_reach.init [of ?ok 1] by (simp add: wg_state_init)
  then have "wg_reach ?ok 1 (wg_state 1 [7] Cd_Free Cd_Waiting 0 0 [])" by (rule wg_state_waits) simp
  then have "wg_reach ?ok 1 (wg_state 0 [7] Cd_Free Cd_Waiting 1 1 [])"
    by (rule wg_reach_common)
      (use cd_step.fetch_sub [of "wg_state 1 [7] Cd_Free Cd_Waiting 0 0 []"] in \<open>simp add: wg_state_def cd_fetch_sub_def\<close>)
  then have "wg_reach ?ok 1 (wg_state 0 [7] Cd_By_Waker Cd_Waiting 0 1 [])" by (simp add: wg_state_waker)
  from wg_state_wakes [OF this] show ?thesis by simp
qed

theorem wait_group_no_lost_wakeup_witness:
  "(\<forall>h. cs_pc (wg_state 0 [] Cd_Free Cd_Resumed 0 1 [7]) h \<noteq> Cd_Waiting) \<and>
   cs_log (wg_state 0 [] Cd_Free Cd_Resumed 0 1 [7]) = [7]"
  using wait_group_no_lost_wakeup [OF wg_released_reach] by (simp add: wg_state_def)

text \<open>
  An \<open>add\<close> of a negative number that takes the counter to zero strands the waiters:
  a state is reachable in which the counter is zero, no \<open>done\<close> is in progress and a
  coroutine is suspended on the group.
\<close>

theorem wait_group_negative_add_strands:
  "\<exists>s. wg_reach (\<lambda>c k. k = -1) 1 s \<and> cd_count (cs_cd s) = 0 \<and> cs_wakers s = 0 \<and> cs_lock s = Cd_Free \<and>
     cs_calls s = 0 \<and> cs_pc s 7 = Cd_Waiting"
proof -
  let ?ok = "\<lambda>(c :: i32) k. k = (-1 :: i32)"
  have "wg_reach ?ok 1 (wg_state 1 [] Cd_Free Cd_Idle 0 0 [])"
    using wg_reach.init [of ?ok 1] by (simp add: wg_state_init)
  then have "wg_reach ?ok 1 (wg_state 1 [7] Cd_Free Cd_Waiting 0 0 [])" by (rule wg_state_waits) simp
  then have "wg_reach ?ok 1 (wg_state 0 [7] Cd_Free Cd_Waiting 0 0 [])"
    by (rule wg_reach.step)
      (use wg_step.add [of ?ok "wg_state 1 [7] Cd_Free Cd_Waiting 0 0 []" "-1"] in
        \<open>simp add: wg_state_def wait_group_add_def\<close>)
  then show ?thesis by (intro exI conjI) (assumption, simp_all add: wg_state_def)
qed

text \<open>
  Reusing a wait group while the last \<open>done\<close> of its previous round is still on its way
  to wake the waiters releases the next round early: from a counter of 1 and one call of
  \<open>done\<close>, a coroutine that starts to wait after \<open>add(1)\<close> is resumed although the
  counter is 1 and no further \<open>done\<close> has been called.
\<close>

theorem wait_group_reuse_releases_early:
  "\<exists>s. wg_reach (\<lambda>c k. k = 1) 1 s \<and> cd_count (cs_cd s) = 1 \<and> cs_calls s = 1 \<and>
     cs_pc s 7 = Cd_Resumed \<and> cs_log s = [7]"
proof -
  let ?ok = "\<lambda>(c :: i32) k. k = (1 :: i32)"
  have "wg_reach ?ok 1 (wg_state 1 [] Cd_Free Cd_Idle 0 0 [])"
    using wg_reach.init [of ?ok 1] by (simp add: wg_state_init)
  then have "wg_reach ?ok 1 (wg_state 0 [] Cd_Free Cd_Idle 1 1 [])"
    by (rule wg_reach_common)
      (use cd_step.fetch_sub [of "wg_state 1 [] Cd_Free Cd_Idle 0 0 []"] in \<open>simp add: wg_state_def cd_fetch_sub_def\<close>)
  then have "wg_reach ?ok 1 (wg_state 1 [] Cd_Free Cd_Idle 1 1 [])"
    by (rule wg_reach.step)
      (use wg_step.add [of ?ok "wg_state 0 [] Cd_Free Cd_Idle 1 1 []" 1] in
        \<open>simp add: wg_state_def wait_group_add_def\<close>)
  then have "wg_reach ?ok 1 (wg_state 1 [7] Cd_Free Cd_Waiting 1 1 [])" by (rule wg_state_waits) simp
  then have "wg_reach ?ok 1 (wg_state 1 [7] Cd_By_Waker Cd_Waiting 0 1 [])" by (simp add: wg_state_waker)
  from wg_state_wakes [OF this] have "wg_reach ?ok 1 (wg_state 1 [] Cd_Free Cd_Resumed 0 1 [7])" by simp
  then show ?thesis by (intro exI conjI) (assumption, simp_all add: wg_state_def)
qed

end
