(* ===== verification/Mutex.thy ===== *)
theory Mutex
  imports Runtime
begin

text \<open>
  \<open>coro/comp/mutex.hpp\<close> and \<open>coro/comp/mutex_guard.hpp\<close>: the coroutine mutex. \<open>m_locked\<close> is
  changed from true to false only under the spinlock, and every other access to it is one
  compare-and-swap, so the body of each critical section is one step. The woken coroutine
  is submitted to the context of the calling worker; the submit function is an argument
  and the program's is \<open>submit_to_context\<close>.
\<close>

section \<open>State and operations\<close>

record mutex =
  mx_locked :: bool
  mx_waiters :: "handle list"

definition mutex_new :: mutex where
  "mutex_new = \<lparr>mx_locked = False, mx_waiters = []\<rparr>"

definition mutex_try_lock :: "mutex \<Rightarrow> bool \<times> mutex" where
  "mutex_try_lock m = (if mx_locked m then (False, m) else (True, m\<lparr>mx_locked := True\<rparr>))"

definition lock_await_ready :: "mutex \<Rightarrow> bool \<times> mutex" where
  "lock_await_ready m = mutex_try_lock m"

definition lock_await_suspend ::
  "(handle \<Rightarrow> 'w \<Rightarrow> 'w res) \<Rightarrow> handle \<Rightarrow> mutex \<Rightarrow> 'w \<Rightarrow> (mutex \<times> 'w) res" where
  "lock_await_suspend submit h m w =
     (let (won, m) = (if mx_locked m then (False, m) else (True, m\<lparr>mx_locked := True\<rparr>)) in
      if won then bindE (submit h w) (\<lambda>w'. Inr (m, w'))
      else Inr (m\<lparr>mx_waiters := mx_waiters m @ [h]\<rparr>, w))"

definition guard_await_ready :: "mutex \<Rightarrow> bool \<times> mutex" where
  "guard_await_ready m = mutex_try_lock m"

definition guard_await_suspend ::
  "(handle \<Rightarrow> 'w \<Rightarrow> 'w res) \<Rightarrow> handle \<Rightarrow> mutex \<Rightarrow> 'w \<Rightarrow> (mutex \<times> 'w) res" where
  "guard_await_suspend submit h m w =
     (let (won, m) = (if mx_locked m then (False, m) else (True, m\<lparr>mx_locked := True\<rparr>)) in
      if won then bindE (submit h w) (\<lambda>w'. Inr (m, w'))
      else Inr (m\<lparr>mx_waiters := mx_waiters m @ [h]\<rparr>, w))"

definition mutex_unlock ::
  "(handle \<Rightarrow> 'w \<Rightarrow> 'w res) \<Rightarrow> mutex \<Rightarrow> 'w \<Rightarrow> (mutex \<times> 'w) res" where
  "mutex_unlock submit m w =
     (case mx_waiters m of
        h # hs \<Rightarrow> bindE (submit h w) (\<lambda>w'. Inr (m\<lparr>mx_waiters := hs\<rparr>, w'))
      | [] \<Rightarrow> Inr (m\<lparr>mx_locked := False\<rparr>, w))"

definition enqueue_waiter ::
  "(handle \<Rightarrow> 'w \<Rightarrow> 'w res) \<Rightarrow> handle \<Rightarrow> mutex \<Rightarrow> 'w \<Rightarrow> (mutex \<times> 'w) res" where
  "enqueue_waiter submit h m w =
     (if mx_locked m then Inr (m\<lparr>mx_waiters := mx_waiters m @ [h]\<rparr>, w)
      else bindE (submit h w) (\<lambda>w'. Inr (m\<lparr>mx_locked := True\<rparr>, w')))"

text \<open>
  The guard holds a reference to its mutex. The move constructor copies the reference and
  leaves the source as it was; the destructor unlocks.
\<close>

datatype lock_guard = Lock_Guard nat

definition lock_guard_new :: "nat \<Rightarrow> lock_guard" where
  "lock_guard_new mtx = Lock_Guard mtx"

definition lock_guard_move :: "lock_guard \<Rightarrow> lock_guard \<times> lock_guard" where
  "lock_guard_move other = (case other of Lock_Guard mtx \<Rightarrow> (Lock_Guard mtx, other))"

definition lock_guard_destroy ::
  "(handle \<Rightarrow> 'w \<Rightarrow> 'w res) \<Rightarrow> lock_guard \<Rightarrow> (nat \<Rightarrow> mutex) \<Rightarrow> 'w \<Rightarrow> ((nat \<Rightarrow> mutex) \<times> 'w) res" where
  "lock_guard_destroy submit g ms w =
     (case g of Lock_Guard mtx \<Rightarrow>
        bindE (mutex_unlock submit (ms mtx) w) (\<lambda>(m, w'). Inr (ms(mtx := m), w')))"

lemma lock_suspend_eq:
  "lock_await_suspend submit h m w = enqueue_waiter submit h m w"
  "guard_await_suspend submit h m w = enqueue_waiter submit h m w"
  by (simp_all add: lock_await_suspend_def guard_await_suspend_def enqueue_waiter_def)

text \<open>What the operations submit: the coroutine that gets the lock, and nobody else.\<close>

lemma mutex_unlock_submitted:
  "mutex_unlock log_submit m log = Inr (m', log') \<Longrightarrow> submitted log log' = take 1 (mx_waiters m)"
  by (cases "mx_waiters m") (auto simp: mutex_unlock_def log_submit_def)

lemma enqueue_waiter_submitted:
  "enqueue_waiter log_submit h m log = Inr (m', log') \<Longrightarrow> submitted log log' = (if mx_locked m then [] else [h])"
  by (auto simp: enqueue_waiter_def log_submit_def split: if_splits)

lemma lock_suspend_submitted:
  "lock_await_suspend log_submit h m log = Inr (m', log') \<Longrightarrow> submitted log log' = (if mx_locked m then [] else [h])"
  by (simp add: lock_suspend_eq enqueue_waiter_submitted)

section \<open>Interleaved locking\<close>

text \<open>
  \<open>Mx_Owner\<close> is a coroutine that has been given the lock: it got it without suspending,
  or it has been submitted with the lock and runs next. \<open>Mx_Check\<close> and \<open>Mx_Suspend\<close> are
  the two points of a \<open>co_await\<close> on the awaiter of \<open>lock()\<close> or of \<open>lock_guard()\<close>.
  A suspended coroutine gets on only through the submission log. \<open>requeue\<close> is a condition
  variable putting back a coroutine that had given the lock up.
\<close>

datatype mx_pc = Mx_Idle | Mx_Check | Mx_Suspend | Mx_Waiting | Mx_Owner

record mx_sys =
  ms_mutex :: mutex
  ms_pc :: "handle \<Rightarrow> mx_pc"
  ms_log :: "handle list"

definition mx_sys_init :: mx_sys where
  "mx_sys_init = \<lparr>ms_mutex = mutex_new, ms_pc = (\<lambda>_. Mx_Idle), ms_log = []\<rparr>"

inductive mx_step :: "mx_sys \<Rightarrow> mx_sys \<Rightarrow> bool" where
  lock: "ms_pc s h = Mx_Idle \<Longrightarrow> mx_step s (s\<lparr>ms_pc := (ms_pc s)(h := Mx_Check)\<rparr>)"
| try_lock: "ms_pc s h = Mx_Idle \<Longrightarrow> mutex_try_lock (ms_mutex s) = (got, m') \<Longrightarrow>
     mx_step s (s\<lparr>ms_mutex := m', ms_pc := (ms_pc s)(h := if got then Mx_Owner else Mx_Idle)\<rparr>)"
| ready: "ms_pc s h = Mx_Check \<Longrightarrow> lock_await_ready (ms_mutex s) = (got, m') \<Longrightarrow>
     mx_step s (s\<lparr>ms_mutex := m', ms_pc := (ms_pc s)(h := if got then Mx_Owner else Mx_Suspend)\<rparr>)"
| guard_ready: "ms_pc s h = Mx_Check \<Longrightarrow> guard_await_ready (ms_mutex s) = (got, m') \<Longrightarrow>
     mx_step s (s\<lparr>ms_mutex := m', ms_pc := (ms_pc s)(h := if got then Mx_Owner else Mx_Suspend)\<rparr>)"
| suspend: "ms_pc s h = Mx_Suspend \<Longrightarrow>
     lock_await_suspend log_submit h (ms_mutex s) (ms_log s) = Inr (m', log') \<Longrightarrow>
     mx_step s (s\<lparr>ms_mutex := m', ms_log := log',
       ms_pc := resume_as Mx_Owner (submitted (ms_log s) log') ((ms_pc s)(h := Mx_Waiting))\<rparr>)"
| guard_suspend: "ms_pc s h = Mx_Suspend \<Longrightarrow>
     guard_await_suspend log_submit h (ms_mutex s) (ms_log s) = Inr (m', log') \<Longrightarrow>
     mx_step s (s\<lparr>ms_mutex := m', ms_log := log',
       ms_pc := resume_as Mx_Owner (submitted (ms_log s) log') ((ms_pc s)(h := Mx_Waiting))\<rparr>)"
| requeue: "ms_pc s h = Mx_Idle \<Longrightarrow>
     enqueue_waiter log_submit h (ms_mutex s) (ms_log s) = Inr (m', log') \<Longrightarrow>
     mx_step s (s\<lparr>ms_mutex := m', ms_log := log',
       ms_pc := resume_as Mx_Owner (submitted (ms_log s) log') ((ms_pc s)(h := Mx_Waiting))\<rparr>)"
| unlock: "ms_pc s h = Mx_Owner \<Longrightarrow>
     mutex_unlock log_submit (ms_mutex s) (ms_log s) = Inr (m', log') \<Longrightarrow>
     mx_step s (s\<lparr>ms_mutex := m', ms_log := log',
       ms_pc := resume_as Mx_Owner (submitted (ms_log s) log') ((ms_pc s)(h := Mx_Idle))\<rparr>)"
| guard_unlock: "ms_pc s h = Mx_Owner \<Longrightarrow>
     lock_guard_destroy log_submit (lock_guard_new 0) (\<lambda>_. ms_mutex s) (ms_log s) = Inr (mtx, log') \<Longrightarrow>
     mx_step s (s\<lparr>ms_mutex := mtx 0, ms_log := log',
       ms_pc := resume_as Mx_Owner (submitted (ms_log s) log') ((ms_pc s)(h := Mx_Idle))\<rparr>)"

inductive mx_reach :: "mx_sys \<Rightarrow> bool" where
  init: "mx_reach mx_sys_init"
| step: "mx_reach s \<Longrightarrow> mx_step s t \<Longrightarrow> mx_reach t"

text \<open>The invariant, with the coroutine that has the lock made explicit.\<close>

definition mx_inv :: "handle option \<Rightarrow> mx_sys \<Rightarrow> bool" where
  [inv_defs]: "mx_inv owner s \<longleftrightarrow>
     distinct (mx_waiters (ms_mutex s)) \<and>
     (\<forall>h. h \<in> set (mx_waiters (ms_mutex s)) \<longleftrightarrow> ms_pc s h = Mx_Waiting) \<and>
     (\<not> mx_locked (ms_mutex s) \<longrightarrow> mx_waiters (ms_mutex s) = []) \<and>
     (\<forall>h. owner = Some h \<longleftrightarrow> ms_pc s h = Mx_Owner) \<and>
     (mx_locked (ms_mutex s) \<longleftrightarrow> owner \<noteq> None)"

lemma guard_destroy_unlocks:
  assumes "lock_guard_destroy submit (lock_guard_new 0) (\<lambda>_. m) w = Inr (mtx, w')"
  shows "mutex_unlock submit m w = Inr (mtx 0, w')"
  using assms by (cases "mutex_unlock submit m w") (auto simp: lock_guard_destroy_def lock_guard_new_def)

lemma mutex_try_lock_inv:
  assumes "mx_inv owner s" "mutex_try_lock (ms_mutex s) = (got, m')" "ms_pc s h \<noteq> Mx_Waiting" "ms_pc s h \<noteq> Mx_Owner"
    and "pc' \<noteq> Mx_Waiting" "pc' \<noteq> Mx_Owner"
  shows "\<exists>owner'. mx_inv owner' (s\<lparr>ms_mutex := m', ms_pc := (ms_pc s)(h := if got then Mx_Owner else pc')\<rparr>)"
proof
  show "mx_inv (if got then Some h else owner)
      (s\<lparr>ms_mutex := m', ms_pc := (ms_pc s)(h := if got then Mx_Owner else pc')\<rparr>)"
    using assms by (auto simp: mx_inv_def mutex_try_lock_def split: if_splits)
qed

lemma enqueue_waiter_inv:
  assumes "mx_inv owner s" "enqueue_waiter log_submit h (ms_mutex s) (ms_log s) = Inr (m', log')"
    and "ms_pc s h \<noteq> Mx_Waiting" "ms_pc s h \<noteq> Mx_Owner"
  shows "\<exists>owner'. mx_inv owner' (s\<lparr>ms_mutex := m', ms_log := log',
       ms_pc := resume_as Mx_Owner (submitted (ms_log s) log') ((ms_pc s)(h := Mx_Waiting))\<rparr>)"
proof
  show "mx_inv (if mx_locked (ms_mutex s) then owner else Some h) (s\<lparr>ms_mutex := m', ms_log := log',
       ms_pc := resume_as Mx_Owner (submitted (ms_log s) log') ((ms_pc s)(h := Mx_Waiting))\<rparr>)"
    using assms by (auto simp: mx_inv_def enqueue_waiter_def log_submit_def split: if_splits)
qed

lemma mutex_unlock_inv:
  assumes "mx_inv owner s" "mutex_unlock log_submit (ms_mutex s) (ms_log s) = Inr (m', log')" "ms_pc s h = Mx_Owner"
  shows "\<exists>owner'. mx_inv owner' (s\<lparr>ms_mutex := m', ms_log := log',
       ms_pc := resume_as Mx_Owner (submitted (ms_log s) log') ((ms_pc s)(h := Mx_Idle))\<rparr>)"
    (is "\<exists>owner'. mx_inv owner' ?t")
proof -
  have sole: "\<And>g. ms_pc s g = Mx_Owner \<Longrightarrow> g = h"
    using assms(1,3) unfolding mx_inv_def by (metis option.inject)
  show ?thesis
  proof (cases "mx_waiters (ms_mutex s)")
    case Nil
    with assms have "mx_inv None ?t" by (auto simp: mx_inv_def mutex_unlock_def dest: sole)
    then show ?thesis ..
  next
    case (Cons g gs)
    with assms have "mx_inv (Some g) ?t"
      by (auto simp: mx_inv_def mutex_unlock_def log_submit_def dest: sole)
    then show ?thesis ..
  qed
qed

lemma mx_step_inv:
  assumes "mx_step s t" and "mx_inv owner s"
  shows "\<exists>owner'. mx_inv owner' t"
  using assms
proof (cases rule: mx_step.cases)
  case (lock h)
  with assms(2) have "mx_inv owner t" by (auto simp: mx_inv_def)
  then show ?thesis ..
next
  case (try_lock h got m')
  with mutex_try_lock_inv [OF assms(2), of got m' h Mx_Idle] show ?thesis by simp
next
  case (ready h got m')
  with mutex_try_lock_inv [OF assms(2), of got m' h Mx_Suspend] show ?thesis by (simp add: lock_await_ready_def)
next
  case (guard_ready h got m')
  with mutex_try_lock_inv [OF assms(2), of got m' h Mx_Suspend] show ?thesis by (simp add: guard_await_ready_def)
next
  case (suspend h m' log')
  with enqueue_waiter_inv [OF assms(2), of h m' log'] show ?thesis by (simp add: lock_suspend_eq)
next
  case (guard_suspend h m' log')
  with enqueue_waiter_inv [OF assms(2), of h m' log'] show ?thesis by (simp add: lock_suspend_eq)
next
  case (requeue h m' log')
  with enqueue_waiter_inv [OF assms(2), of h m' log'] show ?thesis by simp
next
  case (unlock h m' log')
  with mutex_unlock_inv [OF assms(2), of m' log' h] show ?thesis by simp
next
  case (guard_unlock h mtx log')
  with mutex_unlock_inv [OF assms(2), of "mtx 0" log' h] show ?thesis by (simp add: guard_destroy_unlocks)
qed

lemma mx_reach_inv: "mx_reach s \<Longrightarrow> \<exists>owner. mx_inv owner s"
proof (induction rule: mx_reach.induct)
  case init
  have "mx_inv None mx_sys_init" by (simp add: mx_inv_def mx_sys_init_def mutex_new_def)
  then show ?case ..
qed (blast intro: mx_step_inv)

section \<open>Properties\<close>

text \<open>
  C1. Mutual exclusion and no stranded waiter, in every interleaving of \<open>try_lock\<close>, of the
  awaiters of \<open>lock\<close> and \<open>lock_guard\<close>, of \<open>unlock\<close> and the destructor of the guard,
  and of a condition variable putting coroutines back, provided only the holder unlocks: at
  most one coroutine has the lock, the flag is set exactly when one has it, and no coroutine
  waits while the lock is free. A suspended coroutine has the lock only once it was
  submitted with it.
\<close>

theorem mutex_mutual_exclusion:
  assumes "mx_reach s"
  shows "(\<forall>g h. ms_pc s g = Mx_Owner \<and> ms_pc s h = Mx_Owner \<longrightarrow> g = h) \<and>
         (mx_locked (ms_mutex s) \<longleftrightarrow> (\<exists>h. ms_pc s h = Mx_Owner)) \<and>
         (\<not> mx_locked (ms_mutex s) \<longrightarrow> (\<forall>h. ms_pc s h \<noteq> Mx_Waiting))"
proof -
  obtain owner where inv: "mx_inv owner s" using mx_reach_inv [OF assms] by blast
  have own: "\<And>h. ms_pc s h = Mx_Owner \<Longrightarrow> owner = Some h" using inv by (simp add: mx_inv_def)
  have free: "\<not> mx_locked (ms_mutex s) \<Longrightarrow> \<forall>h. ms_pc s h \<noteq> Mx_Waiting"
    using inv unfolding mx_inv_def by (metis list.set(1) empty_iff)
  have "mx_locked (ms_mutex s) \<longleftrightarrow> (\<exists>h. ms_pc s h = Mx_Owner)"
    using inv unfolding mx_inv_def by blast
  with own free show ?thesis by (metis option.inject)
qed

definition mx_demo :: mx_sys where
  "mx_demo = \<lparr>ms_mutex = \<lparr>mx_locked = True, mx_waiters = []\<rparr>, ms_pc = (\<lambda>_. Mx_Idle)(7 := Mx_Owner), ms_log = [7]\<rparr>"

lemma mx_demo_reach: "mx_reach mx_demo"
proof -
  let ?m = "\<lambda>ws. \<lparr>mx_locked = True, mx_waiters = ws\<rparr>"
  let ?s = "\<lambda>ws p q log. \<lparr>ms_mutex = ?m ws, ms_pc = (\<lambda>_. Mx_Idle)(1 := p, 7 := q), ms_log = log\<rparr> :: mx_sys"
  have "mx_reach (?s [] Mx_Owner Mx_Idle [])"
    by (rule mx_reach.step [OF mx_reach.init])
      (use mx_step.try_lock [of mx_sys_init 1 True] in \<open>simp add: mx_sys_init_def mutex_new_def mutex_try_lock_def fun_upd_idem\<close>)
  then have "mx_reach (?s [] Mx_Owner Mx_Check [])"
    by (rule mx_reach.step) (use mx_step.lock [of "?s [] Mx_Owner Mx_Idle []" 7] in simp)
  then have "mx_reach (?s [] Mx_Owner Mx_Suspend [])"
    by (rule mx_reach.step)
      (use mx_step.ready [of "?s [] Mx_Owner Mx_Check []" 7 False] in \<open>simp add: lock_await_ready_def mutex_try_lock_def\<close>)
  then have "mx_reach (?s [7] Mx_Owner Mx_Waiting [])"
    by (rule mx_reach.step)
      (use mx_step.suspend [of "?s [] Mx_Owner Mx_Suspend []" 7] in \<open>simp add: lock_await_suspend_def\<close>)
  then show ?thesis
    by (rule mx_reach.step)
      (use mx_step.unlock [of "?s [7] Mx_Owner Mx_Waiting []" 1] in
        \<open>simp add: mutex_unlock_def log_submit_def submitted_def mx_demo_def fun_upd_idem fun_upd_twist\<close>)
qed

theorem mutex_mutual_exclusion_witness:
  "{g. ms_pc mx_demo g = Mx_Owner} = {7} \<and> mx_locked (ms_mutex mx_demo)"
proof -
  note me = mutex_mutual_exclusion [OF mx_demo_reach]
  have one: "ms_pc mx_demo 7 = Mx_Owner" by (simp add: mx_demo_def)
  then have "{g. ms_pc mx_demo g = Mx_Owner} = {7}" using me by blast
  moreover have "mx_locked (ms_mutex mx_demo)" using me one by blast
  ultimately show ?thesis by blast
qed

text \<open>
  Unlocking hands the lock to the coroutine that has waited longest: with waiters
  \<open>h # hs\<close> the call returns while the local context has room, \<open>h\<close> and only \<open>h\<close> becomes
  pending, the flag stays set and \<open>hs\<close> wait on; without waiters the flag is cleared and
  nothing becomes pending.
\<close>

theorem mutex_unlock_hands_over:
  assumes "w_room_local 1 w"
  shows "\<exists>m' w'. mutex_unlock submit_to_context m w = Inr (m', w') \<and>
    (case mx_waiters m of
       h # hs \<Rightarrow> w_pending w' = add_mset h (w_pending w) \<and> m' = m\<lparr>mx_waiters := hs\<rparr>
     | [] \<Rightarrow> w' = w \<and> m' = m\<lparr>mx_locked := False\<rparr>)"
proof (cases "mx_waiters m")
  case (Cons h hs)
  then show ?thesis using loc.submit_returns [OF assms, of h] by (auto simp: mutex_unlock_def)
qed (simp add: mutex_unlock_def)

theorem mutex_unlock_hands_over_witness:
  "\<exists>m' w'. mutex_unlock submit_to_context \<lparr>mx_locked = True, mx_waiters = [7, 9]\<rparr> demo_world = Inr (m', w') \<and>
     w_pending w' = add_mset 7 (w_pending demo_world) \<and> m' = \<lparr>mx_locked = True, mx_waiters = [9]\<rparr>"
  using mutex_unlock_hands_over [of demo_world "\<lparr>mx_locked = True, mx_waiters = [7, 9]\<rparr>"] demo_world_room
  by simp

text \<open>
  Unlocking on a thread that is not a worker dereferences the null \<open>linfo.ctx\<close> as soon as a
  coroutine waits for the mutex.
\<close>

theorem mutex_unlock_outside_worker:
  assumes "linfo_ctx w = None" and "mx_waiters m \<noteq> []"
  shows "mutex_unlock submit_to_context m w = Inl Null_Deref"
  using assms
  by (cases "mx_waiters m") (simp_all add: mutex_unlock_def submit_to_context_def local_context_def)

theorem mutex_unlock_outside_worker_witness:
  "mutex_unlock submit_to_context \<lparr>mx_locked = True, mx_waiters = [7]\<rparr> (demo_world\<lparr>linfo_ctx := None\<rparr>) = Inl Null_Deref"
  by (rule mutex_unlock_outside_worker) simp_all

text \<open>
  A moved \<open>lock_guard\<close> unlocks twice: the guard it was moved from still unlocks when
  it is destroyed, so with two coroutines waiting the lock is handed to both.
\<close>

theorem lock_guard_move_unlocks_twice:
  assumes "w_room_local 2 w" and "mx_waiters (ms 0) = g # h # hs" and "lock_guard_move (Lock_Guard 0) = (g1, g2)"
  shows "\<exists>ms' w'. bindE (lock_guard_destroy submit_to_context g1 ms w)
             (\<lambda>(ms1, w1). lock_guard_destroy submit_to_context g2 ms1 w1) = Inr (ms', w') \<and>
           w_pending w' = {#g, h#} + w_pending w \<and> mx_waiters (ms' 0) = hs"
proof -
  have guards: "g1 = Lock_Guard 0" "g2 = Lock_Guard 0" using assms(3) by (auto simp: lock_guard_move_def)
  obtain w1 where w1: "submit_to_context g w = Inr w1" "w_room_local 1 w1"
    using loc.submit_room [of 1 w g] assms(1) by (auto simp: numeral_2_eq_2)
  obtain w2 where w2: "submit_to_context h w1 = Inr w2" using loc.submit_returns [OF w1(2)] by blast
  have "w_pending w2 = {#g, h#} + w_pending w"
    using loc.submit_pending [OF w1(1)] loc.submit_pending [OF w2] by simp
  with w1 w2 assms(2) guards show ?thesis by (simp add: lock_guard_destroy_def mutex_unlock_def)
qed

theorem lock_guard_move_unlocks_twice_witness:
  "\<exists>ms' w'. bindE (lock_guard_destroy submit_to_context (Lock_Guard 0)
       (\<lambda>_. \<lparr>mx_locked = True, mx_waiters = [7, 9]\<rparr>) demo_world)
       (\<lambda>(ms1, w1). lock_guard_destroy submit_to_context (Lock_Guard 0) ms1 w1) = Inr (ms', w') \<and>
     w_pending w' = {#7, 9#} + w_pending demo_world \<and> mx_waiters (ms' 0) = []"
  by (rule lock_guard_move_unlocks_twice) (simp_all add: demo_world_room lock_guard_move_def)

end
