(* ===== verification/Cond_Var.thy ===== *)
theory Cond_Var
  imports Mutex
begin

text \<open>
  \<open>coro/comp/condition_variable.hpp\<close>. A waiter keeps its coroutine, the mutex to take again
  and an optional predicate; the predicate reads the program's variables, here a value
  \<open>env\<close> of an arbitrary type. The mutexes are a store indexed by number. The body of
  \<open>await_suspend\<close> is two critical sections, the unlock of the mutex and the push under
  the lock of the condition variable, and anything can happen between them.
\<close>

section \<open>State and operations\<close>

record 'e waiter =
  wt_handle :: handle
  wt_mtx :: nat
  wt_cond :: "('e \<Rightarrow> bool) option"

type_synonym 'e condvar = "'e waiter list"
type_synonym mutexes = "nat \<Rightarrow> mutex"

definition cv_await_ready :: "('e \<Rightarrow> bool) option \<Rightarrow> 'e \<Rightarrow> bool" where
  "cv_await_ready cond env = (case cond of None \<Rightarrow> False | Some p \<Rightarrow> p env)"

definition unlock_at ::
  "(handle \<Rightarrow> 'w \<Rightarrow> 'w res) \<Rightarrow> nat \<Rightarrow> mutexes \<times> 'w \<Rightarrow> (mutexes \<times> 'w) res" where
  "unlock_at submit mid = (\<lambda>(ms, w).
     bindE (mutex_unlock submit (ms mid) w) (\<lambda>(m, w'). Inr (ms(mid := m), w')))"

definition enqueue_at ::
  "(handle \<Rightarrow> 'w \<Rightarrow> 'w res) \<Rightarrow> 'e waiter \<Rightarrow> mutexes \<times> 'w \<Rightarrow> (mutexes \<times> 'w) res" where
  "enqueue_at submit wt = (\<lambda>(ms, w).
     bindE (enqueue_waiter submit (wt_handle wt) (ms (wt_mtx wt)) w)
       (\<lambda>(m, w'). Inr (ms(wt_mtx wt := m), w')))"

definition cv_push :: "handle \<Rightarrow> nat \<Rightarrow> ('e \<Rightarrow> bool) option \<Rightarrow> 'e condvar \<Rightarrow> 'e condvar" where
  "cv_push h mid cond cv = cv @ [\<lparr>wt_handle = h, wt_mtx = mid, wt_cond = cond\<rparr>]"

definition cv_await_suspend ::
  "(handle \<Rightarrow> 'w \<Rightarrow> 'w res) \<Rightarrow> handle \<Rightarrow> nat \<Rightarrow> ('e \<Rightarrow> bool) option \<Rightarrow>
     'e condvar \<times> mutexes \<times> 'w \<Rightarrow> ('e condvar \<times> mutexes \<times> 'w) res" where
  "cv_await_suspend submit h mid cond = (\<lambda>(cv, mw).
     bindE (unlock_at submit mid mw) (\<lambda>mw'. Inr (cv_push h mid cond cv, mw')))"

text \<open>One turn of the loops of \<open>notify_one\<close> and \<open>notify_all\<close>.\<close>

definition cv_notify_front ::
  "(handle \<Rightarrow> 'w \<Rightarrow> 'w res) \<Rightarrow> 'e \<Rightarrow> 'e condvar \<times> mutexes \<times> 'w \<Rightarrow> ('e condvar \<times> mutexes \<times> 'w) res" where
  "cv_notify_front submit env = (\<lambda>(cv, mw).
     case cv of
       [] \<Rightarrow> Inl Out_Of_Range
     | wt # cv' \<Rightarrow>
         if (case wt_cond wt of None \<Rightarrow> False | Some p \<Rightarrow> \<not> p env)
         then Inr (cv' @ [wt], mw)
         else bindE (enqueue_at submit wt mw) (\<lambda>mw'. Inr (cv', mw')))"

definition cv_notify_one ::
  "(handle \<Rightarrow> 'w \<Rightarrow> 'w res) \<Rightarrow> 'e \<Rightarrow> 'e condvar \<times> mutexes \<times> 'w \<Rightarrow> ('e condvar \<times> mutexes \<times> 'w) res" where
  "cv_notify_one submit env = (\<lambda>(cv, mw).
     if cv \<noteq> [] then cv_notify_front submit env (cv, mw) else Inr (cv, mw))"

definition cv_notify_all ::
  "(handle \<Rightarrow> 'w \<Rightarrow> 'w res) \<Rightarrow> 'e \<Rightarrow> 'e condvar \<times> mutexes \<times> 'w \<Rightarrow> ('e condvar \<times> mutexes \<times> 'w) res" where
  "cv_notify_all submit env = (\<lambda>(cv, mw).
     let cnt = length cv in foldE (\<lambda>_. cv_notify_front submit env) [0..<cnt] (cv, mw))"

section \<open>What a notification does\<close>

definition wt_passes :: "'e \<Rightarrow> 'e waiter \<Rightarrow> bool" where
  "wt_passes env wt = (case wt_cond wt of None \<Rightarrow> True | Some p \<Rightarrow> p env)"

lemma cv_notify_front_Cons:
  "cv_notify_front submit env (wt # cv, mw) =
     (if wt_passes env wt then bindE (enqueue_at submit wt mw) (\<lambda>mw'. Inr (cv, mw'))
      else Inr (cv @ [wt], mw))"
  by (simp add: cv_notify_front_def wt_passes_def split: option.splits)

text \<open>
  The loop of \<open>notify_all\<close> rotates the queue once: the waiters whose predicate holds go to
  their mutexes in queue order, the others end up in the queue in their old order.
\<close>

lemma notify_loop:
  "length ns = length xs \<Longrightarrow>
   foldE (\<lambda>_. cv_notify_front submit env) ns (xs @ ys, mw) =
     bindE (foldE (enqueue_at submit) (filter (wt_passes env) xs) mw)
       (\<lambda>mw'. Inr (ys @ filter (\<lambda>wt. \<not> wt_passes env wt) xs, mw'))"
proof (induction xs arbitrary: ns ys mw)
  case (Cons x xs)
  then obtain n ns' where ns: "ns = n # ns'" "length ns' = length xs" by (cases ns) auto
  show ?case
  proof (cases "wt_passes env x")
    case True
    then show ?thesis
      using Cons.IH [OF ns(2), of ys] by (simp add: ns cv_notify_front_Cons bindE_assoc)
  next
    case False
    then show ?thesis
      using Cons.IH [OF ns(2), of "ys @ [x]" mw] by (simp add: ns cv_notify_front_Cons)
  qed
qed simp

lemma notify_all_eq:
  "cv_notify_all submit env (cv, mw) =
     bindE (foldE (enqueue_at submit) (filter (wt_passes env) cv) mw)
       (\<lambda>mw'. Inr (filter (\<lambda>wt. \<not> wt_passes env wt) cv, mw'))"
  using notify_loop [of "[0..<length cv]" cv submit env "[]" mw] by (simp add: cv_notify_all_def Let_def)

lemma enqueue_at_locked:
  assumes "\<And>wt. wt \<in> set wts \<Longrightarrow> wt_mtx wt = mid" and "mx_locked (ms mid)"
  shows "foldE (enqueue_at submit) wts (ms, w) =
    Inr (ms(mid := (ms mid)\<lparr>mx_waiters := mx_waiters (ms mid) @ map wt_handle wts\<rparr>), w)"
  using assms
proof (induction wts arbitrary: ms)
  case (Cons wt wts)
  let ?ms = "ms(mid := (ms mid)\<lparr>mx_waiters := mx_waiters (ms mid) @ [wt_handle wt]\<rparr>)"
  have "enqueue_at submit wt (ms, w) = Inr (?ms, w)"
    using Cons.prems by (simp add: enqueue_at_def enqueue_waiter_def)
  moreover have "foldE (enqueue_at submit) wts (?ms, w) =
      Inr (?ms(mid := (?ms mid)\<lparr>mx_waiters := mx_waiters (?ms mid) @ map wt_handle wts\<rparr>), w)"
    by (rule Cons.IH) (use Cons.prems in auto)
  ultimately show ?case by (simp del: fun_upd_apply add: fun_upd_same)
qed simp

section \<open>Properties\<close>

text \<open>
  \<open>notify_all\<close> called by the holder of the mutex moves exactly the waiters whose
  predicate holds (or that have none) to the end of the mutex's queue, in the order in
  which they started to wait, and keeps the others in order; nobody is made runnable, so
  the caller keeps the lock.
\<close>

theorem notify_all_moves_eligible:
  assumes "\<And>wt. wt \<in> set cv \<Longrightarrow> wt_mtx wt = mid" and "mx_locked (ms mid)"
  shows "cv_notify_all submit_to_context env (cv, ms, w) =
    Inr (filter (\<lambda>wt. \<not> wt_passes env wt) cv,
         ms(mid := (ms mid)\<lparr>mx_waiters := mx_waiters (ms mid) @ map wt_handle (filter (wt_passes env) cv)\<rparr>), w)"
  using enqueue_at_locked [of "filter (wt_passes env) cv" mid ms submit_to_context w] assms
  by (simp add: notify_all_eq)

theorem notify_all_moves_eligible_witness:
  "let ok = (\<lambda>x. x = (1 :: int)); no = (\<lambda>x. x = 2);
       wt = (\<lambda>h p. \<lparr>wt_handle = h, wt_mtx = 0, wt_cond = p\<rparr>);
       m = \<lparr>mx_locked = True, mx_waiters = [3]\<rparr>
   in cv_notify_all submit_to_context 1 ([wt 5 (Some no), wt 6 (Some ok), wt 7 None], \<lambda>_. m, demo_world) =
      Inr ([wt 5 (Some no)], (\<lambda>_. m)(0 := m\<lparr>mx_waiters := [3, 6, 7]\<rparr>), demo_world)"
  unfolding Let_def
  by (subst notify_all_moves_eligible [where mid = 0]) (auto simp: wt_passes_def)

text \<open>
  \<open>notify_one\<close> looks at the front waiter only: when its predicate does not hold it goes
  to the back of the queue and nobody is woken, even if the predicate of another waiter
  holds.
\<close>

theorem notify_one_may_wake_nobody:
  assumes "\<not> wt_passes env wt" and "wt_passes env wt2"
  shows "cv_notify_one submit_to_context env (wt # wt2 # cv, ms, w) = Inr (wt2 # cv @ [wt], ms, w)"
  using assms by (simp add: cv_notify_one_def cv_notify_front_Cons)

theorem notify_one_may_wake_nobody_witness:
  "let wt = (\<lambda>h p. \<lparr>wt_handle = h, wt_mtx = 0, wt_cond = Some p\<rparr>);
       a = wt 5 (\<lambda>x. x = (2 :: int)); b = wt 6 (\<lambda>x. x = 1)
   in cv_notify_one submit_to_context 1 ([a, b], \<lambda>_. mutex_new, demo_world) =
      Inr ([b, a], \<lambda>_. mutex_new, demo_world)"
  unfolding Let_def by (subst notify_one_may_wake_nobody) (simp_all add: wt_passes_def)

text \<open>
  A wake-up can be lost between the two critical sections of \<open>await_suspend\<close>. Coroutine
  \<open>h\<close> holds mutex 0 and waits for a predicate that does not hold; it unlocks the mutex;
  another coroutine locks it, makes the predicate true, calls \<open>notify_all\<close> and unlocks;
  then \<open>h\<close> pushes itself. All calls return, and at the end the predicate of \<open>h\<close> holds
  and the mutex is free, yet \<open>h\<close> is in the queue of the condition variable and has not
  been made runnable.
\<close>

theorem condition_variable_lost_wakeup:
  assumes "ms 0 = \<lparr>mx_locked = True, mx_waiters = []\<rparr>" and "\<not> p env" and "p env'"
  shows "\<exists>ms1 ms2 ms3.
    \<not> cv_await_ready (Some p) env \<and>
    unlock_at submit_to_context 0 (ms, w) = Inr (ms1, w) \<and>
    mutex_try_lock (ms1 0) = (True, ms2 0) \<and>
    cv_notify_all submit_to_context env' ([], ms2, w) = Inr ([], ms2, w) \<and>
    unlock_at submit_to_context 0 (ms2, w) = Inr (ms3, w) \<and>
    \<not> mx_locked (ms3 0) \<and> mx_waiters (ms3 0) = [] \<and>
    cv_push h 0 (Some p) [] = [\<lparr>wt_handle = h, wt_mtx = 0, wt_cond = Some p\<rparr>] \<and>
    wt_passes env' \<lparr>wt_handle = h, wt_mtx = 0, wt_cond = Some p\<rparr>"
  by (rule exI [of _ "ms(0 := \<lparr>mx_locked = False, mx_waiters = []\<rparr>)"], rule exI [of _ ms],
      rule exI [of _ "ms(0 := \<lparr>mx_locked = False, mx_waiters = []\<rparr>)"])
    (use assms in \<open>simp add: cv_await_ready_def unlock_at_def mutex_unlock_def mutex_try_lock_def
      cv_notify_all_def cv_push_def wt_passes_def\<close>)

theorem condition_variable_lost_wakeup_witness:
  "\<exists>ms1 ms2 ms3.
    \<not> cv_await_ready (Some (\<lambda>x. x = (1 :: int))) 0 \<and>
    unlock_at submit_to_context 0 (\<lambda>_. \<lparr>mx_locked = True, mx_waiters = []\<rparr>, demo_world) = Inr (ms1, demo_world) \<and>
    mutex_try_lock (ms1 0) = (True, ms2 0) \<and>
    cv_notify_all submit_to_context (1 :: int) ([], ms2, demo_world) = Inr ([], ms2, demo_world) \<and>
    unlock_at submit_to_context 0 (ms2, demo_world) = Inr (ms3, demo_world) \<and>
    \<not> mx_locked (ms3 0) \<and> mx_waiters (ms3 0) = [] \<and>
    cv_push 7 0 (Some (\<lambda>x. x = (1 :: int))) [] =
      [\<lparr>wt_handle = 7, wt_mtx = 0, wt_cond = Some (\<lambda>x. x = 1)\<rparr>] \<and>
    wt_passes 1 \<lparr>wt_handle = 7, wt_mtx = 0, wt_cond = Some (\<lambda>x. x = (1 :: int))\<rparr>"
  by (rule condition_variable_lost_wakeup) simp_all

end
