(* ===== verification/Channel.thy ===== *)
theory Channel
  imports Runtime
begin

text \<open>
  \<open>coro/comp/channel.hpp\<close>: a bounded channel with a buffer of \<open>capacity\<close> values and two
  queues of suspended coroutines. An awaiter lives in the frame of the awaiting coroutine
  and the queues hold pointers to it, through which another coroutine writes its result:
  the awaiters are stores indexed by address. Every operation runs under the spinlock of
  the channel, so each body is one step. A value that has been moved from is never read
  again, so moving is copying here.
\<close>

section \<open>State and operations\<close>

record 'a send_awaiter =
  sa_value :: 'a
  sa_result :: bool

record 'a recv_awaiter =
  ra_result :: "'a option"

type_synonym pending = "handle \<times> nat"

record ('a, 'w) chan =
  ch_buffer :: "'a list"
  ch_closed :: bool
  ch_senders :: "pending list"
  ch_receivers :: "pending list"
  ch_sas :: "nat \<Rightarrow> 'a send_awaiter"
  ch_ras :: "nat \<Rightarrow> 'a recv_awaiter"
  ch_world :: 'w

definition send_result :: "nat \<Rightarrow> bool \<Rightarrow> ('a, 'w) chan \<Rightarrow> ('a, 'w) chan" where
  "send_result a r s = s\<lparr>ch_sas := (ch_sas s)(a := (ch_sas s a)\<lparr>sa_result := r\<rparr>)\<rparr>"

definition recv_result :: "nat \<Rightarrow> 'a option \<Rightarrow> ('a, 'w) chan \<Rightarrow> ('a, 'w) chan" where
  "recv_result a r s = s\<lparr>ch_ras := (ch_ras s)(a := \<lparr>ra_result = r\<rparr>)\<rparr>"

definition ch_submit ::
  "(handle \<Rightarrow> 'w \<Rightarrow> 'w res) \<Rightarrow> handle \<Rightarrow> ('a, 'w) chan \<Rightarrow> ('a, 'w) chan res" where
  "ch_submit submit h s = bindE (submit h (ch_world s)) (\<lambda>w. Inr (s\<lparr>ch_world := w\<rparr>))"

definition try_send_locked ::
  "nat \<Rightarrow> (handle \<Rightarrow> 'w \<Rightarrow> 'w res) \<Rightarrow> nat \<Rightarrow> ('a, 'w) chan \<Rightarrow> (bool \<times> ('a, 'w) chan) res" where
  "try_send_locked capacity submit a s =
     (let value = sa_value (ch_sas s a) in
      if ch_closed s then Inr (True, s)
      else case ch_receivers s of
        (h, aw) # rs \<Rightarrow>
          bindE (ch_submit submit h (recv_result aw (Some value) (s\<lparr>ch_receivers := rs\<rparr>)))
            (\<lambda>s'. Inr (True, send_result a True s'))
      | [] \<Rightarrow>
          if length (ch_buffer s) < capacity
          then Inr (True, send_result a True (s\<lparr>ch_buffer := ch_buffer s @ [value]\<rparr>))
          else Inr (False, s))"

definition try_recv_locked ::
  "(handle \<Rightarrow> 'w \<Rightarrow> 'w res) \<Rightarrow> nat \<Rightarrow> ('a, 'w) chan \<Rightarrow> (bool \<times> ('a, 'w) chan) res" where
  "try_recv_locked submit a s =
     (case ch_buffer s of
        v # buf \<Rightarrow>
          let s = recv_result a (Some v) s; s = s\<lparr>ch_buffer := buf\<rparr> in
          (case ch_senders s of
             (h, aw) # ps \<Rightarrow>
               let s = s\<lparr>ch_senders := ps, ch_buffer := ch_buffer s @ [sa_value (ch_sas s aw)]\<rparr> in
               bindE (ch_submit submit h (send_result aw True s)) (\<lambda>s'. Inr (True, s'))
           | [] \<Rightarrow> Inr (True, s))
      | [] \<Rightarrow>
          if ch_closed s then Inr (True, recv_result a None s) else Inr (False, s))"

text \<open>\<open>sas\<close> is the memory in which awaiters will be built.\<close>

definition channel_new :: "(nat \<Rightarrow> 'a send_awaiter) \<Rightarrow> 'w \<Rightarrow> ('a, 'w) chan" where
  "channel_new sas w = \<lparr>ch_buffer = [], ch_closed = False, ch_senders = [], ch_receivers = [],
     ch_sas = sas, ch_ras = (\<lambda>_. \<lparr>ra_result = None\<rparr>), ch_world = w\<rparr>"

definition channel_send :: "nat \<Rightarrow> 'a \<Rightarrow> ('a, 'w) chan \<Rightarrow> ('a, 'w) chan" where
  "channel_send a value s = s\<lparr>ch_sas := (ch_sas s)(a := \<lparr>sa_value = value, sa_result = False\<rparr>)\<rparr>"

definition channel_recv :: "nat \<Rightarrow> ('a, 'w) chan \<Rightarrow> ('a, 'w) chan" where
  "channel_recv a s = s\<lparr>ch_ras := (ch_ras s)(a := \<lparr>ra_result = None\<rparr>)\<rparr>"

definition send_await_ready ::
  "nat \<Rightarrow> (handle \<Rightarrow> 'w \<Rightarrow> 'w res) \<Rightarrow> nat \<Rightarrow> ('a, 'w) chan \<Rightarrow> (bool \<times> ('a, 'w) chan) res" where
  "send_await_ready capacity submit a s = try_send_locked capacity submit a s"

definition send_await_suspend ::
  "nat \<Rightarrow> (handle \<Rightarrow> 'w \<Rightarrow> 'w res) \<Rightarrow> nat \<Rightarrow> handle \<Rightarrow> ('a, 'w) chan \<Rightarrow> (bool \<times> ('a, 'w) chan) res" where
  "send_await_suspend capacity submit a h s =
     bindE (try_send_locked capacity submit a s) (\<lambda>(done, s).
       if done then Inr (False, s) else Inr (True, s\<lparr>ch_senders := ch_senders s @ [(h, a)]\<rparr>))"

definition send_await_resume :: "nat \<Rightarrow> ('a, 'w) chan \<Rightarrow> bool" where
  "send_await_resume a s = sa_result (ch_sas s a)"

definition recv_await_ready ::
  "(handle \<Rightarrow> 'w \<Rightarrow> 'w res) \<Rightarrow> nat \<Rightarrow> ('a, 'w) chan \<Rightarrow> (bool \<times> ('a, 'w) chan) res" where
  "recv_await_ready submit a s = try_recv_locked submit a s"

definition recv_await_suspend ::
  "(handle \<Rightarrow> 'w \<Rightarrow> 'w res) \<Rightarrow> nat \<Rightarrow> handle \<Rightarrow> ('a, 'w) chan \<Rightarrow> (bool \<times> ('a, 'w) chan) res" where
  "recv_await_suspend submit a h s =
     bindE (try_recv_locked submit a s) (\<lambda>(done, s).
       if done then Inr (False, s) else Inr (True, s\<lparr>ch_receivers := ch_receivers s @ [(h, a)]\<rparr>))"

definition recv_await_resume :: "nat \<Rightarrow> ('a, 'w) chan \<Rightarrow> 'a option" where
  "recv_await_resume a s = ra_result (ch_ras s a)"

fun close_senders ::
  "(handle \<Rightarrow> 'w \<Rightarrow> 'w res) \<Rightarrow> pending list \<Rightarrow> ('a, 'w) chan \<Rightarrow> ('a, 'w) chan res" where
  "close_senders submit [] s = Inr s"
| "close_senders submit ((h, aw) # ps) s =
     bindE (ch_submit submit h (send_result aw False (s\<lparr>ch_senders := ps\<rparr>))) (close_senders submit ps)"

fun close_receivers ::
  "(handle \<Rightarrow> 'w \<Rightarrow> 'w res) \<Rightarrow> pending list \<Rightarrow> ('a, 'w) chan \<Rightarrow> ('a, 'w) chan res" where
  "close_receivers submit [] s = Inr s"
| "close_receivers submit ((h, aw) # ps) s =
     bindE (ch_submit submit h (recv_result aw None (s\<lparr>ch_receivers := ps\<rparr>))) (close_receivers submit ps)"

definition channel_close ::
  "(handle \<Rightarrow> 'w \<Rightarrow> 'w res) \<Rightarrow> ('a, 'w) chan \<Rightarrow> ('a, 'w) chan res" where
  "channel_close submit s =
     (let s = s\<lparr>ch_closed := True\<rparr> in
      bindE (close_senders submit (ch_senders s) s) (\<lambda>s. close_receivers submit (ch_receivers s) s))"

lemmas ch_upd_defs = send_result_def recv_result_def ch_submit_def channel_send_def channel_recv_def

section \<open>The abstract channel\<close>

text \<open>
  What the channel promises, without buffer and sender queue: one queue of values offered
  and not yet taken, of which at most \<open>capacity\<close> are accepted, and a queue of receivers. A send
  either fails (closed), hands its value to the first receiver, or puts it at the end; it
  waits exactly if its value is not among the accepted ones.
\<close>

record 'a aq_chan =
  ac_items :: "'a list"
  ac_takers :: "handle list"
  ac_closed :: bool

datatype 'a ch_answer = Sent | Refused | Handed handle 'a | Took "'a" | No_More | Waits

definition spec_send :: "nat \<Rightarrow> 'a \<Rightarrow> 'a aq_chan \<Rightarrow> 'a ch_answer \<times> 'a aq_chan" where
  "spec_send capacity v t =
     (if ac_closed t then (Refused, t)
      else case ac_takers t of
        g # gs \<Rightarrow> (Handed g v, t\<lparr>ac_takers := gs\<rparr>)
      | [] \<Rightarrow> (if length (ac_items t) < capacity then Sent else Waits, t\<lparr>ac_items := ac_items t @ [v]\<rparr>))"

definition spec_recv :: "handle \<Rightarrow> 'a aq_chan \<Rightarrow> 'a ch_answer \<times> 'a aq_chan" where
  "spec_recv h t =
     (case ac_items t of
        v # vs \<Rightarrow> (Took v, t\<lparr>ac_items := vs\<rparr>)
      | [] \<Rightarrow> if ac_closed t then (No_More, t) else (Waits, t\<lparr>ac_takers := ac_takers t @ [h]\<rparr>))"

definition spec_close :: "nat \<Rightarrow> 'a aq_chan \<Rightarrow> 'a aq_chan" where
  "spec_close capacity t = t\<lparr>ac_items := take capacity (ac_items t), ac_takers := [], ac_closed := True\<rparr>"

definition ch_abs :: "('a, 'w) chan \<Rightarrow> 'a aq_chan" where
  "ch_abs s = \<lparr>ac_items = ch_buffer s @ map (\<lambda>(h, a). sa_value (ch_sas s a)) (ch_senders s),
     ac_takers = map fst (ch_receivers s), ac_closed = ch_closed s\<rparr>"

definition ch_inv :: "nat \<Rightarrow> ('a, 'w) chan \<Rightarrow> bool" where
  "ch_inv capacity s \<longleftrightarrow>
     length (ch_buffer s) \<le> capacity \<and>
     (ch_senders s \<noteq> [] \<longrightarrow> length (ch_buffer s) = capacity) \<and>
     (ch_receivers s \<noteq> [] \<longrightarrow> ch_buffer s = [] \<and> ch_senders s = []) \<and>
     (ch_closed s \<longrightarrow> ch_senders s = [] \<and> ch_receivers s = [])"

definition send_fresh :: "nat \<Rightarrow> ('a, 'w) chan \<Rightarrow> bool" where
  "send_fresh a s = (a \<notin> snd ` set (ch_senders s))"

lemma pending_values_upd [simp]:
  "map (\<lambda>(h, b). sa_value (((ch_sas s)(a := (ch_sas s a)\<lparr>sa_result := r\<rparr>)) b)) ps =
     map (\<lambda>(h, b). sa_value (ch_sas s b)) ps"
  by auto

lemma ch_upd_simps [simp]:
  "ch_abs (send_result a r s) = ch_abs s" "ch_abs (recv_result b q s) = ch_abs s"
  "ch_abs (s\<lparr>ch_world := w\<rparr>) = ch_abs s"
  "ch_inv capacity (send_result a r s) = ch_inv capacity s"
  "ch_inv capacity (recv_result b q s) = ch_inv capacity s"
  "ch_inv capacity (s\<lparr>ch_world := w\<rparr>) = ch_inv capacity s"
  by (auto simp: send_result_def recv_result_def ch_abs_def ch_inv_def)

lemma ch_submit_Inr:
  "ch_submit submit h s = Inr s' \<longleftrightarrow> (\<exists>w. submit h (ch_world s) = Inr w \<and> s' = s\<lparr>ch_world := w\<rparr>)"
  by (auto simp: ch_submit_def)

text \<open>The four ways a send ends, and the four ways a receive ends.\<close>

lemma try_send_cases:
  assumes "try_send_locked capacity submit a s = Inr (ok, s')"
  obtains (closed) "ch_closed s" "ok" "s' = s"
  | (handed) h aw rs w where "\<not> ch_closed s" "ch_receivers s = (h, aw) # rs" "ok"
      "submit h (ch_world s) = Inr w"
      "s' = send_result a True ((recv_result aw (Some (sa_value (ch_sas s a))) (s\<lparr>ch_receivers := rs\<rparr>))\<lparr>ch_world := w\<rparr>)"
  | (stored) "\<not> ch_closed s" "ch_receivers s = []" "length (ch_buffer s) < capacity" "ok"
      "s' = send_result a True (s\<lparr>ch_buffer := ch_buffer s @ [sa_value (ch_sas s a)]\<rparr>)"
  | (full) "\<not> ch_closed s" "ch_receivers s = []" "\<not> length (ch_buffer s) < capacity" "\<not> ok" "s' = s"
  using assms
  by (auto simp: try_send_locked_def Let_def ch_submit_Inr recv_result_def
      split: if_splits list.splits)

lemma try_recv_cases:
  assumes "try_recv_locked submit a s = Inr (ok, s')"
  obtains (taken) v buf where "ch_buffer s = v # buf" "ch_senders s = []" "ok"
      "s' = (recv_result a (Some v) s)\<lparr>ch_buffer := buf\<rparr>"
  | (refill) v buf h aw ps w where "ch_buffer s = v # buf" "ch_senders s = (h, aw) # ps" "ok"
      "submit h (ch_world s) = Inr w"
      "s' = (send_result aw True ((recv_result a (Some v) s)
              \<lparr>ch_buffer := buf @ [sa_value (ch_sas s aw)], ch_senders := ps\<rparr>))\<lparr>ch_world := w\<rparr>"
  | (closed) "ch_buffer s = []" "ch_closed s" "ok" "s' = recv_result a None s"
  | (empty) "ch_buffer s = []" "\<not> ch_closed s" "\<not> ok" "s' = s"
  using assms
  by (auto simp: try_recv_locked_def Let_def ch_submit_Inr recv_result_def send_result_def
      split: if_splits list.splits)

text \<open>
  A send of \<open>v\<close> by the awaiter \<open>a\<close> took the channel from \<open>s\<close> to \<open>s'\<close> as the abstract
  send does. When the value was handed over, the first waiting receiver has it as the result
  that its awaiter was given and is runnable, exactly that one; in all other cases nobody was
  made runnable and no receiver was given anything.
\<close>

definition send_implements ::
  "('w \<Rightarrow> handle multiset) \<Rightarrow> nat \<Rightarrow> nat \<Rightarrow> 'a \<Rightarrow> ('a, 'w) chan \<Rightarrow> bool \<Rightarrow> ('a, 'w) chan \<Rightarrow> bool" where
  "send_implements pending capacity a v s susp s' \<longleftrightarrow>
     (\<exists>ans. spec_send capacity v (ch_abs s) = (ans, ch_abs s') \<and> (susp \<longleftrightarrow> ans = Waits) \<and>
        (send_await_resume a s' \<longleftrightarrow> ans \<notin> {Refused, Waits}) \<and>
        (case ans of
           Handed g u \<Rightarrow> \<exists>aw rs. ch_receivers s = (g, aw) # rs \<and> recv_await_resume aw s' = Some u \<and>
             (\<forall>b. b \<noteq> aw \<longrightarrow> ch_ras s' b = ch_ras s b) \<and> pending (ch_world s') = add_mset g (pending (ch_world s))
         | _ \<Rightarrow> ch_ras s' = ch_ras s \<and> ch_world s' = ch_world s))"

text \<open>
  A receive into the awaiter \<open>a\<close>, likewise. When a value was taken while a sender waited, the
  first waiting sender has the result true and is runnable, exactly that one.
\<close>

definition recv_implements ::
  "('w \<Rightarrow> handle multiset) \<Rightarrow> nat \<Rightarrow> handle \<Rightarrow> ('a, 'w) chan \<Rightarrow> bool \<Rightarrow> ('a, 'w) chan \<Rightarrow> bool" where
  "recv_implements pending a h s susp s' \<longleftrightarrow>
     (\<exists>ans. spec_recv h (ch_abs s) = (ans, ch_abs s') \<and> (susp \<longleftrightarrow> ans = Waits) \<and>
        (ans \<noteq> Waits \<longrightarrow> recv_await_resume a s' = (case ans of Took v \<Rightarrow> Some v | _ \<Rightarrow> None)) \<and>
        (case (ans, ch_senders s) of
           (Took v, (g, aw) # ps) \<Rightarrow> send_await_resume aw s' \<and>
             (\<forall>b. b \<noteq> aw \<longrightarrow> ch_sas s' b = ch_sas s b) \<and> pending (ch_world s') = add_mset g (pending (ch_world s))
         | _ \<Rightarrow> ch_sas s' = ch_sas s \<and> ch_world s' = ch_world s))"

lemmas ch_refine_defs = ch_abs_def ch_inv_def send_result_def recv_result_def send_await_resume_def recv_await_resume_def

context submitter
begin

lemma try_send_implements:
  assumes "try_send_locked capacity submit a s = Inr (ok, s')" "ch_inv capacity s" "\<not> sa_result (ch_sas s a)"
  shows "if ok then ch_inv capacity s' \<and> send_implements pending capacity a (sa_value (ch_sas s a)) s False s'
         else s' = s \<and> fst (spec_send capacity (sa_value (ch_sas s a)) (ch_abs s)) = Waits"
  using assms(1)
proof (cases rule: try_send_cases)
  case closed
  then show ?thesis using assms(2,3) by (simp add: send_implements_def spec_send_def ch_refine_defs)
next
  case (handed g aw rs w)
  from submit_pending [OF handed(4)] handed assms(2,3) show ?thesis
    by (auto simp: send_implements_def spec_send_def ch_refine_defs)
next
  case stored
  then show ?thesis using assms(2,3) by (auto simp: send_implements_def spec_send_def ch_refine_defs)
next
  case full
  then show ?thesis using assms(2,3) by (simp add: spec_send_def ch_refine_defs)
qed

lemma send_suspend_implements:
  assumes "send_await_suspend capacity submit a h s = Inr (susp, s')" "ch_inv capacity s" "\<not> sa_result (ch_sas s a)"
  shows "ch_inv capacity s' \<and> send_implements pending capacity a (sa_value (ch_sas s a)) s susp s'"
proof -
  obtain ok t where t: "try_send_locked capacity submit a s = Inr (ok, t)"
    and s': "s' = (if ok then t else t\<lparr>ch_senders := ch_senders t @ [(h, a)]\<rparr>)" "susp = (\<not> ok)"
    using assms(1) by (force simp: send_await_suspend_def split: if_splits)
  show ?thesis
  proof (cases ok)
    case True
    then show ?thesis using try_send_implements [OF t assms(2,3)] s' by simp
  next
    case False
    from t False s' assms(2,3) show ?thesis
      by (cases rule: try_send_cases) (auto simp: send_implements_def spec_send_def ch_refine_defs)
  qed
qed

lemma try_recv_implements:
  assumes "try_recv_locked submit a s = Inr (ok, s')" "ch_inv capacity s" "0 < capacity"
  shows "if ok then ch_inv capacity s' \<and> recv_implements pending a h s False s'
         else s' = s \<and> fst (spec_recv h (ch_abs s)) = Waits"
  using assms(1)
proof (cases rule: try_recv_cases)
  case taken
  then show ?thesis using assms(2,3) by (auto simp: recv_implements_def spec_recv_def ch_refine_defs)
next
  case (refill v buf g aw ps w)
  from submit_pending [OF refill(4)] refill assms(2,3) show ?thesis
    by (auto simp: recv_implements_def spec_recv_def ch_refine_defs)
next
  case closed
  then show ?thesis using assms(2,3) by (auto simp: recv_implements_def spec_recv_def ch_refine_defs)
next
  case empty
  then show ?thesis using assms(2,3) by (auto simp: spec_recv_def ch_refine_defs)
qed

lemma recv_suspend_implements:
  assumes "recv_await_suspend submit a h s = Inr (susp, s')" "ch_inv capacity s" "0 < capacity"
  shows "ch_inv capacity s' \<and> recv_implements pending a h s susp s'"
proof -
  obtain ok t where t: "try_recv_locked submit a s = Inr (ok, t)"
    and s': "s' = (if ok then t else t\<lparr>ch_receivers := ch_receivers t @ [(h, a)]\<rparr>)" "susp = (\<not> ok)"
    using assms(1) by (force simp: recv_await_suspend_def split: if_splits)
  show ?thesis
  proof (cases ok)
    case True
    then show ?thesis using try_recv_implements [OF t assms(2,3), of h] s' by simp
  next
    case False
    from t False s' assms(2,3) show ?thesis
      by (cases rule: try_recv_cases) (auto simp: recv_implements_def spec_recv_def ch_refine_defs)
  qed
qed

end

section \<open>Closing\<close>

definition refuse_all :: "pending list \<Rightarrow> ('a, 'w) chan \<Rightarrow> ('a, 'w) chan" where
  "refuse_all ps s = s\<lparr>ch_senders := [],
     ch_sas := (\<lambda>a. if a \<in> snd ` set ps then (ch_sas s a)\<lparr>sa_result := False\<rparr> else ch_sas s a)\<rparr>"

definition end_all :: "pending list \<Rightarrow> ('a, 'w) chan \<Rightarrow> ('a, 'w) chan" where
  "end_all ps s = s\<lparr>ch_receivers := [],
     ch_ras := (\<lambda>a. if a \<in> snd ` set ps then \<lparr>ra_result = None\<rparr> else ch_ras s a)\<rparr>"

lemma close_senders_eq:
  "ch_senders s = ps \<Longrightarrow> close_senders submit ps s =
     bindE (wake_all submit (map fst ps) (ch_world s)) (\<lambda>w. Inr ((refuse_all ps s)\<lparr>ch_world := w\<rparr>))"
proof (induction ps arbitrary: s)
  case (Cons p ps)
  obtain h a where p: "p = (h, a)" by (cases p)
  let ?t = "\<lambda>w. (send_result a False (s\<lparr>ch_senders := ps\<rparr>))\<lparr>ch_world := w\<rparr>"
  have t: "close_senders submit ps (?t w) =
      bindE (wake_all submit (map fst ps) w) (\<lambda>w. Inr ((refuse_all (p # ps) s)\<lparr>ch_world := w\<rparr>))" for w
    using Cons.IH [of "?t w"]
    by (cases "wake_all submit (map fst ps) w")
      (auto simp: p refuse_all_def send_result_def fun_eq_iff)
  show ?case
    by (cases "submit h (ch_world s)")
      (use t in \<open>simp_all add: p wake_all_def ch_submit_def send_result_def\<close>)
qed (simp add: wake_all_def refuse_all_def)

lemma close_receivers_eq:
  "ch_receivers s = ps \<Longrightarrow> close_receivers submit ps s =
     bindE (wake_all submit (map fst ps) (ch_world s)) (\<lambda>w. Inr ((end_all ps s)\<lparr>ch_world := w\<rparr>))"
proof (induction ps arbitrary: s)
  case (Cons p ps)
  obtain h a where p: "p = (h, a)" by (cases p)
  let ?t = "\<lambda>w. (recv_result a None (s\<lparr>ch_receivers := ps\<rparr>))\<lparr>ch_world := w\<rparr>"
  have t: "close_receivers submit ps (?t w) =
      bindE (wake_all submit (map fst ps) w) (\<lambda>w. Inr ((end_all (p # ps) s)\<lparr>ch_world := w\<rparr>))" for w
    using Cons.IH [of "?t w"]
    by (cases "wake_all submit (map fst ps) w")
      (auto simp: p end_all_def recv_result_def fun_eq_iff)
  show ?case
    by (cases "submit h (ch_world s)")
      (use t in \<open>simp_all add: p wake_all_def ch_submit_def recv_result_def\<close>)
qed (simp add: wake_all_def end_all_def)

definition ch_closing :: "('a, 'w) chan \<Rightarrow> ('a, 'w) chan" where
  "ch_closing s = end_all (ch_receivers s) (refuse_all (ch_senders s) (s\<lparr>ch_closed := True\<rparr>))"

lemma channel_close_eq:
  "channel_close submit s =
     bindE (wake_all submit (map fst (ch_senders s @ ch_receivers s)) (ch_world s))
       (\<lambda>w. Inr ((ch_closing s)\<lparr>ch_world := w\<rparr>))"
proof -
  let ?c = "refuse_all (ch_senders s) (s\<lparr>ch_closed := True\<rparr>)"
  have r: "close_receivers submit (ch_receivers (?c\<lparr>ch_world := w\<rparr>)) (?c\<lparr>ch_world := w\<rparr>) =
      bindE (wake_all submit (map fst (ch_receivers s)) w) (\<lambda>w. Inr ((ch_closing s)\<lparr>ch_world := w\<rparr>))" for w
    using close_receivers_eq [of "?c\<lparr>ch_world := w\<rparr>" _ submit]
    by (simp add: refuse_all_def ch_closing_def end_all_def cong: if_cong)
  show ?thesis
    by (cases "wake_all submit (map fst (ch_senders s)) (ch_world s)")
      (use r in \<open>simp_all add: channel_close_def Let_def close_senders_eq wake_all_def foldE_append\<close>)
qed

lemma ch_closing_inv: "ch_inv capacity s \<Longrightarrow> ch_inv capacity (ch_closing s)"
  by (simp add: ch_inv_def ch_closing_def end_all_def refuse_all_def)

lemma ch_closing_abs: "ch_inv capacity s \<Longrightarrow> ch_abs (ch_closing s) = spec_close capacity (ch_abs s)"
  by (cases "ch_senders s") (auto simp: ch_inv_def ch_closing_def end_all_def refuse_all_def ch_abs_def spec_close_def)

context submitter
begin

lemma close_releases:
  assumes "room (length (ch_senders s) + length (ch_receivers s)) (ch_world s)"
  shows "\<exists>w'. channel_close submit s = Inr ((ch_closing s)\<lparr>ch_world := w'\<rparr>) \<and>
    pending w' = mset (map fst (ch_senders s @ ch_receivers s)) + pending (ch_world s)"
  using wake_all_returns [of "map fst (ch_senders s @ ch_receivers s)" "ch_world s"] assms
  by (auto simp: channel_close_eq)

lemma try_send_returns:
  assumes "room 1 (ch_world s)"
  shows "\<exists>ok s'. try_send_locked capacity submit a s = Inr (ok, s')"
proof (cases "ch_receivers s")
  case Nil
  then show ?thesis by (auto simp: try_send_locked_def Let_def)
next
  case (Cons p rs)
  obtain w where "submit (fst p) (ch_world s) = Inr w" using submit_returns [OF assms] by blast
  with Cons show ?thesis
    by (cases p) (auto simp: try_send_locked_def Let_def ch_submit_def recv_result_def)
qed

lemma send_returns:
  assumes "room 1 (ch_world s)"
  shows "\<exists>ok s'. send_await_suspend capacity submit a h s = Inr (ok, s')"
  using try_send_returns [OF assms, of capacity a] by (fastforce simp: send_await_suspend_def)

lemma try_recv_returns:
  assumes "room 1 (ch_world s)"
  shows "\<exists>ok s'. try_recv_locked submit a s = Inr (ok, s')"
proof (cases "ch_senders s")
  case Nil
  then show ?thesis by (auto simp: try_recv_locked_def recv_result_def split: list.split)
next
  case (Cons p ps)
  obtain w where "submit (fst p) (ch_world s) = Inr w" using submit_returns [OF assms] by blast
  with Cons show ?thesis
    by (cases p) (auto simp: try_recv_locked_def ch_submit_def recv_result_def send_result_def split: list.split)
qed

lemma recv_returns:
  assumes "room 1 (ch_world s)"
  shows "\<exists>ok s'. recv_await_suspend submit a h s = Inr (ok, s')"
  using try_recv_returns [OF assms, of a] by (fastforce simp: recv_await_suspend_def)

end

section \<open>Coroutines sharing a channel\<close>

text \<open>
  The awaiter of a coroutine is identified with the coroutine: it awaits one thing at a
  time. \<open>await_ready\<close> and \<open>await_suspend\<close> are separate steps with anything in between. A
  coroutine that has been submitted runs on. Two ghost logs record the values in the order
  in which their sends were accepted and in which they were given to receivers.
\<close>

datatype ch_pc = Ch_Idle | Ch_Send_Check | Ch_Send_Suspend | Ch_Send_Wait
  | Ch_Recv_Check | Ch_Recv_Suspend | Ch_Recv_Wait

record 'a ch_sys =
  cs_chan :: "('a, handle list) chan"
  cs_pc :: "handle \<Rightarrow> ch_pc"
  cs_accepted :: "'a list"
  cs_delivered :: "'a list"

definition ch_sys_init :: "(nat \<Rightarrow> 'a send_awaiter) \<Rightarrow> 'a ch_sys" where
  "ch_sys_init sas = \<lparr>cs_chan = channel_new sas [], cs_pc = (\<lambda>_. Ch_Idle), cs_accepted = [], cs_delivered = []\<rparr>"

definition woken :: "('a, handle list) chan \<Rightarrow> ('a, handle list) chan \<Rightarrow> handle set" where
  "woken c c' = set (drop (length (ch_world c)) (ch_world c'))"

definition resume_woken ::
  "('a, handle list) chan \<Rightarrow> ('a, handle list) chan \<Rightarrow> (handle \<Rightarrow> ch_pc) \<Rightarrow> handle \<Rightarrow> ch_pc" where
  "resume_woken c c' pc = (\<lambda>g. if g \<in> woken c c' then Ch_Idle else pc g)"

definition after_send :: "handle \<Rightarrow> ('a, handle list) chan \<Rightarrow> ('a, handle list) chan \<Rightarrow> ch_pc \<Rightarrow> 'a ch_sys \<Rightarrow> 'a ch_sys" where
  "after_send h c c' pc s = s\<lparr>cs_chan := c',
     cs_pc := (resume_woken c c' (cs_pc s))(h := pc),
     cs_accepted := cs_accepted s @ (if send_await_resume h c' then [sa_value (ch_sas c h)] else []),
     cs_delivered := cs_delivered s @
       (if send_await_resume h c' then map (\<lambda>(g, a). the (recv_await_resume a c')) (take 1 (ch_receivers c)) else [])\<rparr>"

definition after_recv :: "handle \<Rightarrow> ('a, handle list) chan \<Rightarrow> ('a, handle list) chan \<Rightarrow> ch_pc \<Rightarrow> 'a ch_sys \<Rightarrow> 'a ch_sys" where
  "after_recv h c c' pc s = s\<lparr>cs_chan := c',
     cs_pc := (resume_woken c c' (cs_pc s))(h := pc),
     cs_accepted := cs_accepted s @
       (case recv_await_resume h c' of None \<Rightarrow> []
        | Some _ \<Rightarrow> map (\<lambda>(g, a). sa_value (ch_sas c a)) (take 1 (ch_senders c))),
     cs_delivered := cs_delivered s @ (case recv_await_resume h c' of None \<Rightarrow> [] | Some v \<Rightarrow> [v])\<rparr>"

inductive ch_step :: "nat \<Rightarrow> 'a ch_sys \<Rightarrow> 'a ch_sys \<Rightarrow> bool" for capacity :: nat where
  send: "cs_pc s h = Ch_Idle \<Longrightarrow>
    ch_step capacity s (s\<lparr>cs_chan := channel_send h v (cs_chan s), cs_pc := (cs_pc s)(h := Ch_Send_Check)\<rparr>)"
| send_ready: "cs_pc s h = Ch_Send_Check \<Longrightarrow>
    send_await_ready capacity log_submit h (cs_chan s) = Inr (ok, c) \<Longrightarrow>
    ch_step capacity s (after_send h (cs_chan s) c (if ok then Ch_Idle else Ch_Send_Suspend) s)"
| send_suspend: "cs_pc s h = Ch_Send_Suspend \<Longrightarrow>
    send_await_suspend capacity log_submit h h (cs_chan s) = Inr (susp, c) \<Longrightarrow>
    ch_step capacity s (after_send h (cs_chan s) c (if susp then Ch_Send_Wait else Ch_Idle) s)"
| recv: "cs_pc s h = Ch_Idle \<Longrightarrow>
    ch_step capacity s (s\<lparr>cs_chan := channel_recv h (cs_chan s), cs_pc := (cs_pc s)(h := Ch_Recv_Check)\<rparr>)"
| recv_ready: "cs_pc s h = Ch_Recv_Check \<Longrightarrow>
    recv_await_ready log_submit h (cs_chan s) = Inr (ok, c) \<Longrightarrow>
    ch_step capacity s (after_recv h (cs_chan s) c (if ok then Ch_Idle else Ch_Recv_Suspend) s)"
| recv_suspend: "cs_pc s h = Ch_Recv_Suspend \<Longrightarrow>
    recv_await_suspend log_submit h h (cs_chan s) = Inr (susp, c) \<Longrightarrow>
    ch_step capacity s (after_recv h (cs_chan s) c (if susp then Ch_Recv_Wait else Ch_Idle) s)"
| close: "channel_close log_submit (cs_chan s) = Inr c \<Longrightarrow>
    ch_step capacity s (s\<lparr>cs_chan := c, cs_pc := resume_woken (cs_chan s) c (cs_pc s)\<rparr>)"

inductive ch_reach :: "nat \<Rightarrow> 'a ch_sys \<Rightarrow> bool" for capacity :: nat where
  init: "ch_reach capacity (ch_sys_init sas)"
| step: "ch_reach capacity s \<Longrightarrow> ch_step capacity s t \<Longrightarrow> ch_reach capacity t"

text \<open>
  The invariant: the channel is well formed; the queues hold exactly the coroutines that
  wait, once each; a pending send has result false and a pending receive none; and the
  buffer is what has been accepted and not yet delivered.
\<close>

definition queue_ok :: "pending list \<Rightarrow> (handle \<Rightarrow> ch_pc) \<Rightarrow> ch_pc \<Rightarrow> bool" where
  "queue_ok q pc W \<longleftrightarrow> (\<forall>p \<in> set q. snd p = fst p) \<and> distinct (map fst q) \<and> (\<forall>h. h \<in> fst ` set q \<longleftrightarrow> pc h = W)"

definition aw_ok :: "ch_pc \<Rightarrow> 'a send_awaiter \<Rightarrow> 'a recv_awaiter \<Rightarrow> bool" where
  "aw_ok pc sa ra \<longleftrightarrow>
     (pc \<in> {Ch_Send_Check, Ch_Send_Suspend, Ch_Send_Wait} \<longrightarrow> \<not> sa_result sa) \<and>
     (pc \<in> {Ch_Recv_Check, Ch_Recv_Suspend, Ch_Recv_Wait} \<longrightarrow> ra_result ra = None)"

definition ch_queues_ok :: "'a ch_sys \<Rightarrow> bool" where
  "ch_queues_ok s \<longleftrightarrow>
     queue_ok (ch_senders (cs_chan s)) (cs_pc s) Ch_Send_Wait \<and>
     queue_ok (ch_receivers (cs_chan s)) (cs_pc s) Ch_Recv_Wait"

definition ch_results_ok :: "'a ch_sys \<Rightarrow> bool" where
  "ch_results_ok s \<longleftrightarrow> (\<forall>h. aw_ok (cs_pc s h) (ch_sas (cs_chan s) h) (ch_ras (cs_chan s) h))"

definition ch_logs_ok :: "'a ch_sys \<Rightarrow> bool" where
  "ch_logs_ok s \<longleftrightarrow> cs_accepted s = cs_delivered s @ ch_buffer (cs_chan s)"

definition ch_sys_inv :: "nat \<Rightarrow> 'a ch_sys \<Rightarrow> bool" where
  "ch_sys_inv capacity s \<longleftrightarrow> ch_inv capacity (cs_chan s) \<and> ch_queues_ok s \<and> ch_results_ok s \<and> ch_logs_ok s"

lemma queue_ok_upd [simp]: "pc h \<noteq> W \<Longrightarrow> x \<noteq> W \<Longrightarrow> queue_ok q (pc(h := x)) W = queue_ok q pc W"
  by (auto simp: queue_ok_def)

lemma queue_ok_ConsD:
  assumes "queue_ok ((g, a) # q) pc W" and "W \<noteq> Ch_Idle"
  shows "a = g" "pc g = W" "queue_ok q (pc(g := Ch_Idle)) W"
  using assms by (fastforce simp: queue_ok_def)+

lemma queue_ok_snoc [simp]: "queue_ok q pc W \<Longrightarrow> pc h \<noteq> W \<Longrightarrow> queue_ok (q @ [(h, h)]) (pc(h := W)) W"
  by (auto simp: queue_ok_def)

lemma resume_none: "ch_world c' = ch_world c \<Longrightarrow> resume_woken c c' pc = pc"
  by (simp add: resume_woken_def woken_def)

lemma resume_one: "ch_world c' = ch_world c @ [g] \<Longrightarrow> resume_woken c c' pc = pc(g := Ch_Idle)"
  by (auto simp: resume_woken_def woken_def)

lemmas ch_sys_defs = ch_sys_inv_def ch_inv_def ch_queues_ok_def ch_results_ok_def ch_logs_ok_def
  after_send_def after_recv_def send_result_def recv_result_def
  send_await_resume_def recv_await_resume_def log_submit_def resume_none resume_one

lemma after_try_send:
  assumes "try_send_locked capacity log_submit h (cs_chan s) = Inr (ok, c)"
    and "cs_pc s h \<in> {Ch_Send_Check, Ch_Send_Suspend}" and "ch_sys_inv capacity s"
  shows "ch_sys_inv capacity (after_send h (cs_chan s) c (if ok then Ch_Idle else Ch_Send_Suspend) s)"
proof -
  have h: "\<not> sa_result (ch_sas (cs_chan s) h)"
    using assms(2,3) by (auto simp: ch_sys_inv_def ch_results_ok_def aw_ok_def)
  note t = h assms(2,3)
  from assms(1) show ?thesis
  proof (cases rule: try_send_cases)
    case closed
    then show ?thesis using t by (auto simp: ch_sys_defs aw_ok_def)
  next
    case (handed g aw rs w)
    then have "queue_ok ((g, aw) # rs) (cs_pc s) Ch_Recv_Wait"
      using t by (simp add: ch_sys_inv_def ch_queues_ok_def)
    note g = queue_ok_ConsD [OF this]
    then have "g \<noteq> h" using t(2) by auto
    then show ?thesis using t handed g by (auto simp: ch_sys_defs aw_ok_def)
  next
    case stored
    then show ?thesis using t by (auto simp: ch_sys_defs aw_ok_def)
  next
    case full
    then show ?thesis using t by (auto simp: ch_sys_defs aw_ok_def)
  qed
qed

lemma after_send_suspend:
  assumes "send_await_suspend capacity log_submit h h (cs_chan s) = Inr (susp, c)"
    and "cs_pc s h = Ch_Send_Suspend" and "ch_sys_inv capacity s"
  shows "ch_sys_inv capacity (after_send h (cs_chan s) c (if susp then Ch_Send_Wait else Ch_Idle) s)"
proof -
  obtain ok t where t: "try_send_locked capacity log_submit h (cs_chan s) = Inr (ok, t)"
    and c: "c = (if ok then t else t\<lparr>ch_senders := ch_senders t @ [(h, h)]\<rparr>)" "susp = (\<not> ok)"
    using assms(1) by (force simp: send_await_suspend_def split: if_splits)
  show ?thesis
  proof (cases ok)
    case True
    then show ?thesis using after_try_send [OF t] assms(2,3) c by simp
  next
    case False
    have "\<not> sa_result (ch_sas (cs_chan s) h)"
      using assms(2,3) by (auto simp: ch_sys_inv_def ch_results_ok_def aw_ok_def)
    from t False this assms(2,3) c show ?thesis
      by (cases rule: try_send_cases) (auto simp: ch_sys_defs aw_ok_def)
  qed
qed

lemma after_try_recv:
  assumes "try_recv_locked log_submit h (cs_chan s) = Inr (ok, c)"
    and "cs_pc s h \<in> {Ch_Recv_Check, Ch_Recv_Suspend}" and "ch_sys_inv capacity s" and "0 < capacity"
  shows "ch_sys_inv capacity (after_recv h (cs_chan s) c (if ok then Ch_Idle else Ch_Recv_Suspend) s)"
proof -
  have h: "ra_result (ch_ras (cs_chan s) h) = None"
    using assms(2,3) by (auto simp: ch_sys_inv_def ch_results_ok_def aw_ok_def)
  note t = h assms(2,3,4)
  from assms(1) show ?thesis
  proof (cases rule: try_recv_cases)
    case taken
    then show ?thesis using t by (auto simp: ch_sys_defs aw_ok_def)
  next
    case (refill v buf g aw ps w)
    then have "queue_ok ((g, aw) # ps) (cs_pc s) Ch_Send_Wait"
      using t by (simp add: ch_sys_inv_def ch_queues_ok_def)
    note g = queue_ok_ConsD [OF this]
    then have "g \<noteq> h" using t(2) by auto
    then show ?thesis using t refill g by (auto simp: ch_sys_defs aw_ok_def)
  next
    case closed
    then show ?thesis using t by (auto simp: ch_sys_defs aw_ok_def)
  next
    case empty
    then show ?thesis using t by (auto simp: ch_sys_defs aw_ok_def)
  qed
qed

lemma after_recv_suspend:
  assumes "recv_await_suspend log_submit h h (cs_chan s) = Inr (susp, c)"
    and "cs_pc s h = Ch_Recv_Suspend" and "ch_sys_inv capacity s" and "0 < capacity"
  shows "ch_sys_inv capacity (after_recv h (cs_chan s) c (if susp then Ch_Recv_Wait else Ch_Idle) s)"
proof -
  obtain ok t where t: "try_recv_locked log_submit h (cs_chan s) = Inr (ok, t)"
    and c: "c = (if ok then t else t\<lparr>ch_receivers := ch_receivers t @ [(h, h)]\<rparr>)" "susp = (\<not> ok)"
    using assms(1) by (force simp: recv_await_suspend_def split: if_splits)
  show ?thesis
  proof (cases ok)
    case True
    then show ?thesis using after_try_recv [OF t] assms(2-4) c by simp
  next
    case False
    have "ra_result (ch_ras (cs_chan s) h) = None"
      using assms(2,3) by (auto simp: ch_sys_inv_def ch_results_ok_def aw_ok_def)
    from t False this assms(2-4) c show ?thesis
      by (cases rule: try_recv_cases) (auto simp: ch_sys_defs aw_ok_def)
  qed
qed

lemma after_close:
  assumes "channel_close log_submit (cs_chan s) = Inr c" and "ch_sys_inv capacity s"
  shows "ch_sys_inv capacity (s\<lparr>cs_chan := c, cs_pc := resume_woken (cs_chan s) c (cs_pc s)\<rparr>)"
proof -
  let ?c = "cs_chan s"
  have c: "c = (ch_closing ?c)\<lparr>ch_world := ch_world ?c @ map fst (ch_senders ?c @ ch_receivers ?c)\<rparr>"
    using assms(1) by (auto simp: channel_close_eq)
  have q: "queue_ok (ch_senders ?c) (cs_pc s) Ch_Send_Wait" "queue_ok (ch_receivers ?c) (cs_pc s) Ch_Recv_Wait"
    using assms(2) by (auto simp: ch_sys_inv_def ch_queues_ok_def)
  then have pc: "resume_woken ?c c (cs_pc s) =
      (\<lambda>g. if cs_pc s g \<in> {Ch_Send_Wait, Ch_Recv_Wait} then Ch_Idle else cs_pc s g)"
    by (auto simp: resume_woken_def woken_def c queue_ok_def fun_eq_iff)
  have "queue_ok [] (resume_woken ?c c (cs_pc s)) W" if "W \<in> {Ch_Send_Wait, Ch_Recv_Wait}" for W
    using that by (auto simp: pc queue_ok_def)
  moreover have "sa_result (ch_sas c h) \<Longrightarrow> sa_result (ch_sas ?c h)"
    and "ra_result (ch_ras ?c h) = None \<Longrightarrow> ra_result (ch_ras c h) = None" for h
    by (auto simp: c ch_closing_def end_all_def refuse_all_def split: if_splits)
  then have "aw_ok (resume_woken ?c c (cs_pc s) h) (ch_sas c h) (ch_ras c h)" for h
    using assms(2) unfolding pc ch_sys_inv_def ch_results_ok_def aw_ok_def by auto
  ultimately show ?thesis
    using assms(2) ch_closing_inv [of capacity ?c]
    by (simp add: ch_sys_inv_def ch_queues_ok_def ch_results_ok_def ch_logs_ok_def c)
      (simp add: ch_closing_def end_all_def refuse_all_def)
qed

lemma ch_step_inv: "ch_step capacity s t \<Longrightarrow> 0 < capacity \<Longrightarrow> ch_sys_inv capacity s \<Longrightarrow> ch_sys_inv capacity t"
proof (induction rule: ch_step.induct)
  case (send s h v)
  then show ?case by (auto simp: ch_sys_defs channel_send_def aw_ok_def)
next
  case (recv s h)
  then show ?case by (auto simp: ch_sys_defs channel_recv_def aw_ok_def)
next
  case (close s c)
  then show ?case by (auto intro: after_close)
qed (simp_all add: send_await_ready_def recv_await_ready_def after_try_send after_send_suspend
    after_try_recv after_recv_suspend)

lemma ch_reach_inv: "ch_reach capacity s \<Longrightarrow> 0 < capacity \<Longrightarrow> ch_sys_inv capacity s"
proof (induction rule: ch_reach.induct)
  case init
  show ?case by (simp add: ch_sys_defs ch_sys_init_def channel_new_def queue_ok_def aw_ok_def)
qed (blast intro: ch_step_inv)

section \<open>Properties\<close>

text \<open>A run of a channel of capacity 1: coroutine 4 sends 50, then coroutine 5 sends 60 and waits.\<close>

definition demo_sas :: "nat \<Rightarrow> int send_awaiter" where
  "demo_sas = (\<lambda>_. \<lparr>sa_value = 0, sa_result = False\<rparr>)"

definition demo_chan :: "(int, handle list) chan" where
  "demo_chan = (channel_new (demo_sas(4 := \<lparr>sa_value = 50, sa_result = True\<rparr>, 5 := \<lparr>sa_value = 60, sa_result = False\<rparr>)) [])
     \<lparr>ch_buffer := [50], ch_senders := [(5, 5)]\<rparr>"

definition demo_ch_sys :: "int ch_sys" where
  "demo_ch_sys = \<lparr>cs_chan = demo_chan, cs_pc = (\<lambda>_. Ch_Idle)(5 := Ch_Send_Wait), cs_accepted = [50], cs_delivered = []\<rparr>"

lemma demo_ch_reach: "ch_reach 1 demo_ch_sys"
proof -
  let ?c1 = "channel_send 4 50 (channel_new demo_sas [])"
  let ?c2 = "(channel_new (demo_sas(4 := \<lparr>sa_value = 50, sa_result = True\<rparr>)) [])\<lparr>ch_buffer := [50]\<rparr>"
  let ?c3 = "channel_send 5 60 ?c2"
  let ?s = "\<lambda>c h pc acc. \<lparr>cs_chan = c, cs_pc = (\<lambda>_. Ch_Idle)(h := pc), cs_accepted = acc, cs_delivered = []\<rparr>"
  note defs = channel_send_def channel_new_def demo_chan_def send_await_ready_def send_await_suspend_def
    try_send_locked_def send_result_def after_send_def resume_none send_await_resume_def
  have "ch_reach 1 (?s ?c1 4 Ch_Send_Check [])"
    using ch_reach.step [OF ch_reach.init ch_step.send [of "ch_sys_init demo_sas" 4 1 50]]
    by (simp add: ch_sys_init_def)
  then have "ch_reach 1 (?s ?c2 4 Ch_Idle [50])"
    using ch_reach.step [OF _ ch_step.send_ready [of "?s ?c1 4 Ch_Send_Check []" 4 1 True ?c2]]
    by (simp add: defs)
  then have "ch_reach 1 (?s ?c3 5 Ch_Send_Check [50])"
    using ch_reach.step [OF _ ch_step.send [of "?s ?c2 4 Ch_Idle [50]" 5 1 60]]
    by (simp add: fun_upd_idem)
  then have "ch_reach 1 (?s ?c3 5 Ch_Send_Suspend [50])"
    using ch_reach.step [OF _ ch_step.send_ready [of "?s ?c3 5 Ch_Send_Check [50]" 5 1 False ?c3]]
    by (simp add: defs)
  then show ?thesis
    using ch_reach.step [OF _ ch_step.send_suspend [of "?s ?c3 5 Ch_Send_Suspend [50]" 5 1 True demo_chan]]
    by (simp add: defs demo_ch_sys_def)
qed

text \<open>
  C5. What the channel delivers is what it accepted, in the same order, with nothing lost or
  duplicated: in every reachable state of any number of coroutines, the values whose sends were
  accepted are the values given to receivers followed by the buffer, and the buffer never
  holds more than \<open>capacity\<close> values.
\<close>

theorem channel_fifo:
  assumes "ch_reach capacity s" and "0 < capacity"
  shows "cs_accepted s = cs_delivered s @ ch_buffer (cs_chan s) \<and> length (ch_buffer (cs_chan s)) \<le> capacity"
  using ch_reach_inv [OF assms] by (simp add: ch_sys_inv_def ch_logs_ok_def ch_inv_def)

theorem channel_fifo_witness:
  "cs_accepted demo_ch_sys = cs_delivered demo_ch_sys @ ch_buffer (cs_chan demo_ch_sys) \<and>
   length (ch_buffer (cs_chan demo_ch_sys)) \<le> 1"
  by (rule channel_fifo [OF demo_ch_reach]) simp

text \<open>
  C9. Nobody waits in vain on a channel of positive capacity: a coroutine that waits to send does so with the buffer full and
  nobody waiting to receive, one that waits to receive does so with the buffer empty, and after
  \<open>close\<close> nobody waits. The queues hold every waiting coroutine, so a later operation finds
  it.
\<close>

theorem channel_no_stuck_waiter:
  assumes "ch_reach capacity s" and "0 < capacity"
  shows "(cs_pc s h = Ch_Send_Wait \<longrightarrow>
            h \<in> fst ` set (ch_senders (cs_chan s)) \<and> length (ch_buffer (cs_chan s)) = capacity \<and>
            \<not> ch_closed (cs_chan s) \<and> (\<forall>g. cs_pc s g \<noteq> Ch_Recv_Wait)) \<and>
         (cs_pc s h = Ch_Recv_Wait \<longrightarrow>
            h \<in> fst ` set (ch_receivers (cs_chan s)) \<and> ch_buffer (cs_chan s) = [] \<and>
            \<not> ch_closed (cs_chan s) \<and> (\<forall>g. cs_pc s g \<noteq> Ch_Send_Wait))"
  using ch_reach_inv [OF assms]
  by (fastforce simp: ch_sys_inv_def ch_inv_def ch_queues_ok_def queue_ok_def)

theorem channel_no_stuck_waiter_witness:
  "cs_pc demo_ch_sys 5 = Ch_Send_Wait \<and> 5 \<in> fst ` set (ch_senders (cs_chan demo_ch_sys)) \<and>
   length (ch_buffer (cs_chan demo_ch_sys)) = 1 \<and> (\<forall>g. cs_pc demo_ch_sys g \<noteq> Ch_Recv_Wait)"
  using channel_no_stuck_waiter [OF demo_ch_reach, of 5] by (simp add: demo_ch_sys_def)

text \<open>
  C22. A send implements the send of the abstract channel. On a well-formed channel and a
  worker with room for one task, both calls of a \<open>co_await\<close> on \<open>send\<close> return and keep the
  channel well formed. \<open>await_ready\<close> answers true when it has done the abstract send; otherwise
  it changes nothing and the abstract send would wait. \<open>await_suspend\<close>, in whatever state it
  finds the channel then, does the abstract send and suspends exactly if that waits. The sender
  reports true exactly if the value was stored or handed over; a value handed over is the result of
  the first waiting receiver, which is made runnable, and nobody else is.
\<close>

theorem channel_send_refines:
  fixes s :: "('a, world) chan" and a :: nat and v :: 'a
  assumes "ch_inv capacity s" and "w_room_local 1 (ch_world s)"
  defines "c \<equiv> channel_send a v s"
  shows "(\<exists>ready c'. send_await_ready capacity submit_to_context a c = Inr (ready, c') \<and>
            (if ready then ch_inv capacity c' \<and> send_implements w_pending capacity a v c False c'
             else c' = c \<and> fst (spec_send capacity v (ch_abs c)) = Waits)) \<and>
         (\<exists>susp c'. send_await_suspend capacity submit_to_context a h c = Inr (susp, c') \<and>
            ch_inv capacity c' \<and> send_implements w_pending capacity a v c susp c')"
proof -
  have c: "ch_inv capacity c" "w_room_local 1 (ch_world c)" "sa_value (ch_sas c a) = v" "\<not> sa_result (ch_sas c a)"
    using assms by (simp_all add: channel_send_def ch_inv_def)
  obtain ready c1 where r: "try_send_locked capacity submit_to_context a c = Inr (ready, c1)"
    using loc.try_send_returns [OF c(2)] by blast
  obtain susp c2 where p: "send_await_suspend capacity submit_to_context a h c = Inr (susp, c2)"
    using loc.send_returns [OF c(2)] by blast
  show ?thesis
    using loc.try_send_implements [OF r c(1,4), unfolded c(3)] loc.send_suspend_implements [OF p c(1,4), unfolded c(3)] r p
    by (simp add: send_await_ready_def)
qed

theorem channel_send_refines_witness:
  "\<exists>susp c'. send_await_suspend 1 submit_to_context 9 9
       (channel_send 9 (7 :: int) ((channel_new demo_sas demo_world)\<lparr>ch_receivers := [(3, 3)]\<rparr>)) = Inr (susp, c') \<and>
     send_implements w_pending 1 9 7 (channel_send 9 (7 :: int) ((channel_new demo_sas demo_world)\<lparr>ch_receivers := [(3, 3)]\<rparr>)) susp c'"
  using channel_send_refines [of 1 "(channel_new demo_sas demo_world)\<lparr>ch_receivers := [(3, 3)]\<rparr>" 9 7 9]
  by (auto simp: channel_new_def ch_inv_def demo_world_room)

text \<open>
  C23. A receive implements the receive of the abstract channel, for a channel of positive capacity.
  On a well-formed channel and a worker with room for one task, both calls of a \<open>co_await\<close> on
  \<open>recv\<close> return and keep the channel well formed. \<open>await_ready\<close> answers true when it has done the
  abstract receive; otherwise it changes nothing and the abstract receive would wait.
  \<open>await_suspend\<close>, in whatever state it finds the channel then, does the abstract receive and
  suspends exactly if that waits. The receive takes the oldest value and the first waiting sender's
  value moves into the buffer in its place, with that sender answered true and made runnable, and nobody
  else; on a closed empty channel it answers none; otherwise it waits.
\<close>

theorem channel_recv_refines:
  fixes s :: "('a, world) chan" and a :: nat
  assumes "ch_inv capacity s" and "w_room_local 1 (ch_world s)" and "0 < capacity"
  defines "c \<equiv> channel_recv a s"
  shows "(\<exists>ready c'. recv_await_ready submit_to_context a c = Inr (ready, c') \<and>
            (if ready then ch_inv capacity c' \<and> recv_implements w_pending a h c False c'
             else c' = c \<and> fst (spec_recv h (ch_abs c)) = Waits)) \<and>
         (\<exists>susp c'. recv_await_suspend submit_to_context a h c = Inr (susp, c') \<and>
            ch_inv capacity c' \<and> recv_implements w_pending a h c susp c')"
proof -
  have c: "ch_inv capacity c" "w_room_local 1 (ch_world c)"
    using assms by (simp_all add: channel_recv_def ch_inv_def)
  obtain ready c1 where r: "try_recv_locked submit_to_context a c = Inr (ready, c1)"
    using loc.try_recv_returns [OF c(2)] by blast
  obtain susp c2 where p: "recv_await_suspend submit_to_context a h c = Inr (susp, c2)"
    using loc.recv_returns [OF c(2)] by blast
  show ?thesis
    using loc.try_recv_implements [OF r c(1) assms(3)] loc.recv_suspend_implements [OF p c(1) assms(3)] r p
    by (simp add: recv_await_ready_def)
qed

theorem channel_recv_refines_witness:
  "\<exists>susp c'. recv_await_suspend submit_to_context 9 9
       (channel_recv 9 ((channel_new demo_sas demo_world)\<lparr>ch_buffer := [7 :: int], ch_senders := [(5, 5)]\<rparr>)) = Inr (susp, c') \<and>
     recv_implements w_pending 9 9
       (channel_recv 9 ((channel_new demo_sas demo_world)\<lparr>ch_buffer := [7 :: int], ch_senders := [(5, 5)]\<rparr>)) susp c'"
  using channel_recv_refines [of 1 "(channel_new demo_sas demo_world)\<lparr>ch_buffer := [7 :: int], ch_senders := [(5, 5)]\<rparr>" 9 9]
  by (auto simp: channel_new_def ch_inv_def demo_world_room)

text \<open>
  \<open>close\<close> returns, makes every waiting coroutine runnable exactly once, answers false to
  every waiting sender and none to every waiting receiver, and implements the close of the
  abstract channel: accepted values stay and can still be received.
\<close>

theorem channel_close_releases_all:
  assumes "ch_inv capacity s"
    and "w_room_local (length (ch_senders s) + length (ch_receivers s)) (ch_world s)"
  shows "\<exists>s'. channel_close submit_to_context s = Inr s' \<and>
    w_pending (ch_world s') = mset (map fst (ch_senders s @ ch_receivers s)) + w_pending (ch_world s) \<and>
    (\<forall>(h, a) \<in> set (ch_senders s). \<not> send_await_resume a s') \<and>
    (\<forall>(h, a) \<in> set (ch_receivers s). recv_await_resume a s' = None) \<and>
    ch_inv capacity s' \<and> ch_abs s' = spec_close capacity (ch_abs s)"
proof -
  obtain w where w: "channel_close submit_to_context s = Inr ((ch_closing s)\<lparr>ch_world := w\<rparr>)"
    "w_pending w = mset (map fst (ch_senders s @ ch_receivers s)) + w_pending (ch_world s)"
    using loc.close_releases [OF assms(2)] by blast
  let ?s' = "(ch_closing s)\<lparr>ch_world := w\<rparr>"
  have "\<forall>(h, a) \<in> set (ch_senders s). \<not> send_await_resume a ?s'"
    and "\<forall>(h, a) \<in> set (ch_receivers s). recv_await_resume a ?s' = None"
    by (auto simp: ch_closing_def end_all_def refuse_all_def send_await_resume_def recv_await_resume_def image_iff Bex_def split_beta)
  then show ?thesis
    using w ch_closing_inv [OF assms(1)] ch_closing_abs [OF assms(1)] by (intro exI [of _ ?s']) simp
qed

theorem channel_close_releases_all_witness:
  "\<exists>s'. channel_close submit_to_context
       ((channel_new demo_sas demo_world)\<lparr>ch_receivers := [(3, 3), (4, 4)]\<rparr> :: (int, world) chan) = Inr s' \<and>
     w_pending (ch_world s') = {#3, 4#} + w_pending demo_world \<and>
     recv_await_resume 3 s' = None \<and> recv_await_resume 4 s' = None"
  using channel_close_releases_all [of 1 "(channel_new demo_sas demo_world)\<lparr>ch_receivers := [(3, 3), (4, 4)]\<rparr> :: (int, world) chan"]
  by (auto simp: channel_new_def ch_inv_def demo_world_room)

text \<open>
  The template admits \<open>capacity = 0\<close>, but then the channel cannot pass a value from a
  sender that came first: the sender waits, the receiver looks at the empty buffer only and
  waits as well.
\<close>

theorem channel_capacity_0_deadlock:
  "\<exists>s1 s2. send_await_suspend 0 submit_to_context 1 1 (channel_send 1 v (channel_new sas w)) = Inr (True, s1) \<and>
     recv_await_suspend submit_to_context 2 2 (channel_recv 2 s1) = Inr (True, s2) \<and>
     ch_senders s2 = [(1, 1)] \<and> ch_receivers s2 = [(2, 2)] \<and> ch_world s2 = w"
proof -
  let ?s = "channel_send 1 v (channel_new sas w)"
  let ?s1 = "?s\<lparr>ch_senders := [(1, 1)]\<rparr>"
  let ?s2 = "(channel_recv 2 ?s1)\<lparr>ch_receivers := [(2, 2)]\<rparr>"
  note defs = channel_new_def channel_send_def channel_recv_def
  have "try_send_locked 0 submit_to_context 1 ?s = Inr (False, ?s)"
    by (simp add: try_send_locked_def defs)
  then have "send_await_suspend 0 submit_to_context 1 1 ?s = Inr (True, ?s1)"
    by (simp add: send_await_suspend_def) (simp add: defs)
  moreover have "try_recv_locked submit_to_context 2 (channel_recv 2 ?s1) = Inr (False, channel_recv 2 ?s1)"
    by (simp add: try_recv_locked_def defs)
  then have "recv_await_suspend submit_to_context 2 2 (channel_recv 2 ?s1) = Inr (True, ?s2)"
    by (simp add: recv_await_suspend_def) (simp add: defs)
  ultimately show ?thesis by (intro exI [of _ ?s1] exI [of _ ?s2]) (simp add: defs)
qed

end
