(* ===== verification/Scheduler.thy ===== *)
theory Scheduler
  imports Runtime
begin

text \<open>
  The scheduler as a client of its dispatcher and contexts: where the tasks submitted to
  it end up. The operations are in \<open>Runtime\<close>; here are the facts about sequences of
  them.
\<close>

section \<open>One submit\<close>

lemma unat_inc_u64: "unat x + 1 < 2 ^ 64 \<Longrightarrow> unat (x + 1 :: u64) = unat x + 1"
  by (simp add: unat_word_ariths)

lemma submit_to_scheduler_target:
  assumes "w_room (Suc n) w"
  defines "k \<equiv> length (w_ctxs w)" and "i \<equiv> unat (dsp_cur (w_dispatcher w)) mod length (w_ctxs w)"
  shows "\<exists>c'. i < k \<and> ctx_queue c' = ctx_queue (w_ctxs w ! i) @ [h] \<and>
    submit_to_scheduler h w = Inr (w\<lparr>w_dispatcher := (w_dispatcher w)\<lparr>dsp_cur := dsp_cur (w_dispatcher w) + 1\<rparr>,
      w_ctxs := (w_ctxs w)[i := c']\<rparr>)"
proof -
  let ?d = "w_dispatcher w"
  have k: "0 < k" "dsp_ctx_cnt ?d = of_nat k" "k < 2 ^ 64" and room: "\<forall>c \<in> set (w_ctxs w). ctx_room (Suc n) c"
    using assms(1) by (auto simp: w_room_def k_def)
  have u: "unat (of_nat k :: u64) = k" using k(3) by (rule unat_of_nat_u64)
  have d: "dispatch ?d = Inr (dsp_cur ?d mod of_nat k, ?d\<lparr>dsp_cur := dsp_cur ?d + 1\<rparr>)"
    using k(1,2) u by (cases "(of_nat k :: u64) = 0") (simp_all add: dispatch_def Let_def)
  have i: "unat (dsp_cur ?d mod of_nat k) = i" "i < k" using k u by (simp_all add: unat_mod i_def k_def)
  then obtain c' where c': "context_submit_task h (w_ctxs w ! i) = Inr c'"
    using room ctx_room_submit [of n "w_ctxs w ! i" h] by (auto simp: k_def)
  then have "ctx_queue c' = ctx_queue (w_ctxs w ! i) @ [h]" by (simp add: context_submit_task_queue)
  then show ?thesis
    using i c' d by (intro exI [of _ c']) (simp add: submit_to_scheduler_def submit_task_impl_def with_ctx_def k_def)
qed

section \<open>Sequences of submits\<close>

lemma submit_many:
  assumes "w_room (length hs) w" and "unat (dsp_cur (w_dispatcher w)) + length hs < 2 ^ 64"
  shows "\<exists>w'. foldE submit_to_scheduler hs w = Inr w' \<and> length (w_ctxs w') = length (w_ctxs w) \<and>
    (\<forall>i < length (w_ctxs w). ctx_queue (w_ctxs w' ! i) = ctx_queue (w_ctxs w ! i) @
       nths hs {j. (unat (dsp_cur (w_dispatcher w)) + j) mod length (w_ctxs w) = i})"
  using assms
proof (induction hs arbitrary: w)
  case (Cons h hs)
  let ?c = "unat (dsp_cur (w_dispatcher w))" and ?k = "length (w_ctxs w)"
  let ?i = "?c mod ?k"
  have room: "w_room (Suc (length hs)) w" using Cons.prems(1) by simp
  obtain c' where c': "?i < ?k" "ctx_queue c' = ctx_queue (w_ctxs w ! ?i) @ [h]"
    and w1: "submit_to_scheduler h w = Inr (w\<lparr>w_dispatcher := (w_dispatcher w)\<lparr>dsp_cur := dsp_cur (w_dispatcher w) + 1\<rparr>,
      w_ctxs := (w_ctxs w)[?i := c']\<rparr>)" (is "_ = Inr ?w1")
    using submit_to_scheduler_target [OF room, of h] by auto
  have room1: "w_room (length hs) ?w1" using submit_to_scheduler_room [OF room, of h] w1 by auto
  have cur: "unat (dsp_cur (w_dispatcher ?w1)) = ?c + 1" and len: "length (w_ctxs ?w1) = ?k"
    using Cons.prems(2) by (simp_all add: unat_inc_u64)
  obtain w' where w': "foldE submit_to_scheduler hs ?w1 = Inr w'" "length (w_ctxs w') = ?k"
    "\<And>i. i < ?k \<Longrightarrow> ctx_queue (w_ctxs w' ! i) = ctx_queue (w_ctxs ?w1 ! i) @ nths hs {j. (?c + 1 + j) mod ?k = i}"
    using Cons.IH [OF room1] Cons.prems(2) unfolding cur len by auto
  have "ctx_queue (w_ctxs w' ! i) = ctx_queue (w_ctxs w ! i) @ nths (h # hs) {j. (?c + j) mod ?k = i}"
    if "i < ?k" for i
    using w'(3) [OF that] c' that by (auto simp: nths_Cons nth_list_update)
  then show ?case using w1 w' by auto
qed (auto simp: nths_def)

lemma length_nths_residues:
  assumes "i < k"
  shows "length (nths xs {j. j mod k = i}) = length xs div k + (if i < length xs mod k then 1 else 0)"
proof (induction xs rule: rev_induct)
  case (snoc x xs)
  have "length (nths (xs @ [x]) {j. j mod k = i}) =
      length xs div k + (if i < length xs mod k then 1 else 0) + (if length xs mod k = i then 1 else 0)"
    using snoc.IH by (simp add: nths_append)
  also have "\<dots> = Suc (length xs) div k + (if i < Suc (length xs) mod k then 1 else 0)"
    using assms by (auto simp: div_Suc mod_Suc)
  finally show ?case by simp
qed simp

section \<open>A fresh scheduler\<close>

lemma make_contexts_spec:
  assumes "\<forall>e \<in> set efds. 0 \<le> e"
  shows "\<exists>w'. make_contexts efds w = Inr w' \<and> w_ctx_cnt w' = w_ctx_cnt w \<and>
    length (w_ctxs w') = length (w_ctxs w) + length efds \<and>
    (\<forall>c \<in> set (w_ctxs w'). c \<in> set (w_ctxs w) \<or> (ctx_queue c = [] \<and> ctx_efd c = 0 \<and> ctx_efd_open c))"
  using assms
proof (induction efds arbitrary: w)
  case (Cons e efds)
  obtain c where c: "context_new (ginfo_context_id w) (ginfo_engine_id w) e = Inr c"
    "ctx_queue c = []" "ctx_efd c = 0" "ctx_efd_open c"
    using Cons.prems by (auto simp: context_new_def engine_new_def uring_new_def)
  let ?w = "w\<lparr>w_ctxs := w_ctxs w @ [c], ginfo_context_id := ginfo_context_id w + 1, ginfo_engine_id := ginfo_engine_id w + 1\<rparr>"
  obtain w' where "make_contexts efds ?w = Inr w'" "w_ctx_cnt w' = w_ctx_cnt w"
    "length (w_ctxs w') = length (w_ctxs w) + Suc (length efds)"
    "\<forall>d \<in> set (w_ctxs w'). d \<in> set (w_ctxs w @ [c]) \<or> (ctx_queue d = [] \<and> ctx_efd d = 0 \<and> ctx_efd_open d)"
    using Cons.IH [of ?w] Cons.prems by auto
  then show ?case using c by (intro exI [of _ w']) auto
qed simp

lemma init_impl_spec:
  assumes "\<forall>e \<in> set efds. 0 \<le> e" and "efds \<noteq> []" and "length efds < 2 ^ 64" and "n \<le> kQueCap"
  shows "\<exists>w'. init_impl efds w = Inr w' \<and> w_room n w' \<and> length (w_ctxs w') = length efds \<and>
    dsp_cur (w_dispatcher w') = 0 \<and> (\<forall>c \<in> set (w_ctxs w'). ctx_queue c = [] \<and> m_managed_by_scheduler c)"
proof -
  let ?w = "(init_meta_info w)\<lparr>w_ctx_cnt := of_nat (length efds), w_ctxs := []\<rparr>"
  obtain w1 where w1: "make_contexts efds ?w = Inr w1" "w_ctx_cnt w1 = of_nat (length efds)"
    "length (w_ctxs w1) = length efds"
    "\<forall>c \<in> set (w_ctxs w1). ctx_queue c = [] \<and> ctx_efd c = 0 \<and> ctx_efd_open c"
    using make_contexts_spec [OF assms(1), of ?w] by auto
  have "kQueCap \<le> efd_max" by (simp add: kQueCap_def efd_max_def)
  with w1 assms show ?thesis
    by (auto simp: init_impl_def Let_def w_room_def ctx_room_def dispatcher_init_def)
qed

section \<open>Properties\<close>

text \<open>
  Round-robin dispatch: from a scheduler with room, submitting the tasks \<open>hs\<close> one after
  the other returns, and context \<open>i\<close> of \<open>k\<close> gets, behind what it had, exactly the tasks
  whose number counted from the dispatcher's counter is congruent to \<open>i\<close> modulo \<open>k\<close>, in
  submission order. The counter must not wrap during the sequence: \<open>2 ^ 64\<close> need not be a
  multiple of \<open>k\<close>.
\<close>

theorem scheduler_round_robin:
  assumes "w_room (length hs) w" and "unat (dsp_cur (w_dispatcher w)) + length hs < 2 ^ 64"
  shows "\<exists>w'. foldE submit_to_scheduler hs w = Inr w' \<and> length (w_ctxs w') = length (w_ctxs w) \<and>
    (\<forall>i < length (w_ctxs w). ctx_queue (w_ctxs w' ! i) = ctx_queue (w_ctxs w ! i) @
       nths hs {j. (unat (dsp_cur (w_dispatcher w)) + j) mod length (w_ctxs w) = i})"
  using submit_many [OF assms] .

theorem scheduler_round_robin_witness:
  "\<exists>w'. foldE submit_to_scheduler [5, 6, 7] demo_world = Inr w' \<and> length (w_ctxs w') = 1 \<and>
     ctx_queue (w_ctxs w' ! 0) = [5, 6, 7]"
proof -
  have "w_room (length [5, 6, 7 :: nat]) demo_world" by (rule demo_world_room) simp
  moreover have "unat (dsp_cur (w_dispatcher demo_world)) + length [5, 6, 7 :: nat] < 2 ^ 64"
    by (simp add: demo_world_def)
  ultimately show ?thesis
    using scheduler_round_robin [of "[5, 6, 7]" demo_world] by (auto simp: demo_world_def nths_Cons)
qed

text \<open>
  C31. The load of a fresh scheduler is balanced: after \<open>init\<close> with \<open>k\<close> contexts and the
  submission of \<open>n\<close> tasks, every task is in exactly one queue and context \<open>i\<close> holds
  \<open>n div k\<close> of them, one more if \<open>i < n mod k\<close>.
\<close>

theorem scheduler_balanced:
  assumes "\<forall>e \<in> set efds. 0 \<le> e" and "efds \<noteq> []" and "length efds < 2 ^ 64" and "length hs \<le> kQueCap"
  shows "\<exists>w1 w2. init_impl efds w = Inr w1 \<and> foldE submit_to_scheduler hs w1 = Inr w2 \<and>
    w_pending w2 = mset hs \<and>
    (\<forall>i < length efds. length (ctx_queue (w_ctxs w2 ! i)) =
       length hs div length efds + (if i < length hs mod length efds then 1 else 0))"
proof -
  obtain w1 where w1: "init_impl efds w = Inr w1" "w_room (length hs) w1" "length (w_ctxs w1) = length efds"
    "dsp_cur (w_dispatcher w1) = 0" "\<forall>c \<in> set (w_ctxs w1). ctx_queue c = []"
    using init_impl_spec [OF assms] by blast
  have "unat (dsp_cur (w_dispatcher w1)) + length hs < 2 ^ 64"
    using w1(4) assms(4) by (simp add: kQueCap_def)
  from submit_many [OF w1(2) this] obtain w2 where w2: "foldE submit_to_scheduler hs w1 = Inr w2"
    "\<forall>i < length efds. ctx_queue (w_ctxs w2 ! i) = nths hs {j. j mod length efds = i}"
    using w1 by auto
  have "w_pending w1 = {#}" using w1(5) by (simp add: w_pending_def cong: map_cong)
  then have "w_pending w2 = mset hs"
    using sched.wake_all_pending [of hs w1 w2] w2(1) by (simp add: wake_all_def)
  then show ?thesis using w1(1) w2 length_nths_residues [of _ "length efds" hs] by auto
qed

theorem scheduler_balanced_witness:
  "\<exists>w1 w2. init_impl [3, 4] demo_world = Inr w1 \<and> foldE submit_to_scheduler [7, 8, 9] w1 = Inr w2 \<and>
    w_pending w2 = {#7, 8, 9#} \<and>
    length (ctx_queue (w_ctxs w2 ! 0)) = 2 \<and> length (ctx_queue (w_ctxs w2 ! 1)) = 1"
proof -
  have len: "length [7, 8, 9 :: nat] = 3" "length [3, 4 :: int] = 2" by simp_all
  obtain w1 w2 where "init_impl [3, 4] demo_world = Inr w1" "foldE submit_to_scheduler [7, 8, 9] w1 = Inr w2"
    "w_pending w2 = {#7, 8, 9#}" "\<forall>i < 2. length (ctx_queue (w_ctxs w2 ! i)) = 3 div 2 + (if i < 3 mod 2 then 1 else 0)"
    using scheduler_balanced [of "[3, 4]" "[7, 8, 9]" demo_world] unfolding len by (auto simp: kQueCap_def)
  then show ?thesis by (intro exI [of _ w1] exI [of _ w2]) simp
qed

end
