(* ===== verification/Io.thy ===== *)
theory Io
  imports Runtime
begin

text \<open>
  Asynchronous input and output: \<open>coro/io/io_info.hpp\<close>, \<open>base_awaiter.hpp\<close>,
  \<open>io_awaiter.hpp\<close>, \<open>src/io/io_awaiter.cpp\<close>, \<open>coro/timer.hpp\<close>, and the completion
  side of the engine (\<open>handle_cqe_entry\<close>, \<open>poll_submit\<close> of \<open>src/engine.cpp\<close>).

  An awaiter lives in a coroutine frame and its address travels through the kernel as
  \<open>user_data\<close>: the \<open>io_info\<close> structures are a store indexed by address. A submission entry
  is named by its place in the ring. The null handle is address 0.
\<close>

section \<open>State\<close>

datatype io_type = Io_Nop | Io_Tcp_Accept | Io_Tcp_Connect | Io_Tcp_Read | Io_Tcp_Write | Io_Tcp_Close
  | Io_Stdin | Io_Timer | Io_None

text \<open>The callbacks are static member functions; a function pointer to one is its name.\<close>

datatype io_cb = Noop_Callback | Stdin_Callback | Accept_Callback | Read_Callback | Write_Callback
  | Close_Callback | Connect_Callback | Timer_Callback

record io_info =
  io_handle :: handle
  io_result :: int
  io_type :: io_type
  io_data :: u64
  io_cb :: io_cb

record io_state =
  io_world :: world
  io_infos :: "nat \<Rightarrow> io_info"

definition ioinfo_to_ptr :: "nat \<Rightarrow> nat" where
  "ioinfo_to_ptr info = info"

definition ptr_to_ioinfo :: "nat \<Rightarrow> nat" where
  "ptr_to_ioinfo ptr = ptr"

definition local_engine :: "io_state \<Rightarrow> engine res" where
  "local_engine s =
     bindE (local_context (io_world s)) (\<lambda>i.
     if i < length (w_ctxs (io_world s)) then Inr (m_engine (w_ctxs (io_world s) ! i)) else Inl Out_Of_Range)"

definition set_local_engine :: "engine \<Rightarrow> io_state \<Rightarrow> io_state res" where
  "set_local_engine e s =
     bindE (local_context (io_world s)) (\<lambda>i.
     bindE (with_ctx i (\<lambda>c. Inr (c\<lparr>m_engine := e\<rparr>)) (io_world s)) (\<lambda>w. Inr (s\<lparr>io_world := w\<rparr>)))"

definition set_info :: "nat \<Rightarrow> (io_info \<Rightarrow> io_info) \<Rightarrow> io_state \<Rightarrow> io_state" where
  "set_info a f s = s\<lparr>io_infos := (io_infos s)(a := f (io_infos s a))\<rparr>"

section \<open>Preparing a request\<close>

text \<open>
  The functions of \<open>liburing\<close> that fill an entry. The ones that prepare an operation leave flags
  and \<open>user_data\<close> alone, which the constructors below rely on for the flags.
\<close>

definition upd_sqe :: "nat \<Rightarrow> (sqe \<Rightarrow> sqe) \<Rightarrow> engine \<Rightarrow> engine" where
  "upd_sqe u f e = e\<lparr>m_upxy := (m_upxy e)\<lparr>up_sq := (up_sq (m_upxy e))[u := f (up_sq (m_upxy e) ! u)]\<rparr>\<rparr>"

definition sqe_prep :: "sqe_op \<Rightarrow> sqe \<Rightarrow> sqe" where
  "sqe_prep op q = q\<lparr>sqe_op := op\<rparr>"

definition sqe_set_flags :: "int \<Rightarrow> sqe \<Rightarrow> sqe" where
  "sqe_set_flags fl q = q\<lparr>sqe_flags := fl\<rparr>"

definition sqe_set_data :: "nat \<Rightarrow> sqe \<Rightarrow> sqe" where
  "sqe_set_data a q = q\<lparr>sqe_data := a\<rparr>"

definition base_io_awaiter_new :: "io_state \<Rightarrow> (nat \<times> engine) res" where
  "base_io_awaiter_new s =
     bindE (local_engine s) (\<lambda>e.
     case get_free_urs e of None \<Rightarrow> Inl Assert_Failed | Some (u, e') \<Rightarrow> Inr (u, e'))"

definition base_await_ready :: bool where
  "base_await_ready = False"

definition base_await_suspend :: "nat \<Rightarrow> handle \<Rightarrow> io_state \<Rightarrow> io_state" where
  "base_await_suspend a h s = set_info a (\<lambda>i. i\<lparr>io_handle := h\<rparr>) s"

definition base_await_resume :: "nat \<Rightarrow> io_state \<Rightarrow> int" where
  "base_await_resume a s = io_result (io_infos s a)"

definition noop_awaiter_new :: "nat \<Rightarrow> io_state \<Rightarrow> io_state res" where
  "noop_awaiter_new a s =
     bindE (base_io_awaiter_new s) (\<lambda>(u, e).
     let s = set_info a (\<lambda>i. i\<lparr>io_type := Io_Nop, io_cb := Noop_Callback\<rparr>) s;
         e = upd_sqe u (sqe_prep Prep_Nop) e;
         e = upd_sqe u (sqe_set_data a) e
     in set_local_engine (add_io_submit e) s)"

definition stdin_awaiter_new :: "nat \<Rightarrow> nat \<Rightarrow> int \<Rightarrow> int \<Rightarrow> io_state \<Rightarrow> io_state res" where
  "stdin_awaiter_new a len io_flag sqe_flag s =
     bindE (base_io_awaiter_new s) (\<lambda>(u, e).
     let s = set_info a (\<lambda>i. i\<lparr>io_type := Io_Stdin, io_cb := Stdin_Callback\<rparr>) s;
         e = upd_sqe u (sqe_set_flags sqe_flag) e;
         e = upd_sqe u (sqe_prep (Prep_Read 0 len io_flag)) e;
         e = upd_sqe u (sqe_set_data a) e
     in set_local_engine (add_io_submit e) s)"

definition tcp_accept_awaiter_new :: "nat \<Rightarrow> int \<Rightarrow> int \<Rightarrow> int \<Rightarrow> io_state \<Rightarrow> io_state res" where
  "tcp_accept_awaiter_new a listenfd io_flag sqe_flag s =
     bindE (base_io_awaiter_new s) (\<lambda>(u, e).
     let s = set_info a (\<lambda>i. i\<lparr>io_type := Io_Tcp_Accept, io_cb := Accept_Callback\<rparr>) s;
         e = upd_sqe u (sqe_set_flags sqe_flag) e;
         e = upd_sqe u (sqe_prep (Prep_Accept listenfd io_flag)) e;
         e = upd_sqe u (sqe_set_data a) e
     in set_local_engine (add_io_submit e) s)"

definition tcp_read_awaiter_new :: "nat \<Rightarrow> int \<Rightarrow> nat \<Rightarrow> int \<Rightarrow> int \<Rightarrow> io_state \<Rightarrow> io_state res" where
  "tcp_read_awaiter_new a sockfd len io_flag sqe_flag s =
     bindE (base_io_awaiter_new s) (\<lambda>(u, e).
     let s = set_info a (\<lambda>i. i\<lparr>io_type := Io_Tcp_Read, io_cb := Read_Callback\<rparr>) s;
         e = upd_sqe u (sqe_set_flags sqe_flag) e;
         e = upd_sqe u (sqe_prep (Prep_Recv sockfd len io_flag)) e;
         e = upd_sqe u (sqe_set_data a) e
     in set_local_engine (add_io_submit e) s)"

definition tcp_write_awaiter_new :: "nat \<Rightarrow> int \<Rightarrow> nat \<Rightarrow> int \<Rightarrow> int \<Rightarrow> io_state \<Rightarrow> io_state res" where
  "tcp_write_awaiter_new a sockfd len io_flag sqe_flag s =
     bindE (base_io_awaiter_new s) (\<lambda>(u, e).
     let s = set_info a (\<lambda>i. i\<lparr>io_type := Io_Tcp_Write, io_cb := Write_Callback\<rparr>) s;
         e = upd_sqe u (sqe_set_flags sqe_flag) e;
         e = upd_sqe u (sqe_prep (Prep_Send sockfd len io_flag)) e;
         e = upd_sqe u (sqe_set_data a) e
     in set_local_engine (add_io_submit e) s)"

definition tcp_close_awaiter_new :: "nat \<Rightarrow> int \<Rightarrow> io_state \<Rightarrow> io_state res" where
  "tcp_close_awaiter_new a sockfd s =
     bindE (base_io_awaiter_new s) (\<lambda>(u, e).
     let s = set_info a (\<lambda>i. i\<lparr>io_type := Io_Tcp_Close, io_cb := Close_Callback\<rparr>) s;
         e = upd_sqe u (sqe_prep (Prep_Close sockfd)) e;
         e = upd_sqe u (sqe_set_data a) e
     in set_local_engine (add_io_submit e) s)"

definition tcp_connect_awaiter_new :: "nat \<Rightarrow> int \<Rightarrow> io_state \<Rightarrow> io_state res" where
  "tcp_connect_awaiter_new a sockfd s =
     bindE (base_io_awaiter_new s) (\<lambda>(u, e).
     let s = set_info a (\<lambda>i. i\<lparr>io_type := Io_Tcp_Connect, io_cb := Connect_Callback, io_data := word_of_int sockfd\<rparr>) s;
         e = upd_sqe u (sqe_prep (Prep_Connect sockfd)) e;
         e = upd_sqe u (sqe_set_data a) e
     in set_local_engine (add_io_submit e) s)"

definition timer_awaiter_new :: "nat \<Rightarrow> int \<times> int \<Rightarrow> nat \<Rightarrow> u32 \<Rightarrow> io_state \<Rightarrow> io_state res" where
  "timer_awaiter_new a ts cnt flags s =
     bindE (base_io_awaiter_new s) (\<lambda>(u, e).
     let s = set_info a (\<lambda>i. i\<lparr>io_type := Io_Timer, io_cb := Timer_Callback\<rparr>) s;
         e = upd_sqe u (sqe_prep (Prep_Timeout ts cnt flags)) e;
         e = upd_sqe u (sqe_set_data a) e
     in set_local_engine (add_io_submit e) s)"

section \<open>Callbacks\<close>

definition io_wake :: "nat \<Rightarrow> io_state \<Rightarrow> io_state res" where
  "io_wake a s = bindE (submit_to_context (io_handle (io_infos s a)) (io_world s)) (\<lambda>w. Inr (s\<lparr>io_world := w\<rparr>))"

text \<open>One static callback per awaiter class, as in the source; six of them are the same text.\<close>

definition noop_callback :: "nat \<Rightarrow> int \<Rightarrow> io_state \<Rightarrow> io_state res" where
  "noop_callback a res s = io_wake a (set_info a (\<lambda>i. i\<lparr>io_result := res\<rparr>) s)"

definition stdin_callback :: "nat \<Rightarrow> int \<Rightarrow> io_state \<Rightarrow> io_state res" where
  "stdin_callback a res s = io_wake a (set_info a (\<lambda>i. i\<lparr>io_result := res\<rparr>) s)"

definition tcp_accept_callback :: "nat \<Rightarrow> int \<Rightarrow> io_state \<Rightarrow> io_state res" where
  "tcp_accept_callback a res s = io_wake a (set_info a (\<lambda>i. i\<lparr>io_result := res\<rparr>) s)"

definition tcp_read_callback :: "nat \<Rightarrow> int \<Rightarrow> io_state \<Rightarrow> io_state res" where
  "tcp_read_callback a res s = io_wake a (set_info a (\<lambda>i. i\<lparr>io_result := res\<rparr>) s)"

definition tcp_write_callback :: "nat \<Rightarrow> int \<Rightarrow> io_state \<Rightarrow> io_state res" where
  "tcp_write_callback a res s = io_wake a (set_info a (\<lambda>i. i\<lparr>io_result := res\<rparr>) s)"

definition tcp_close_callback :: "nat \<Rightarrow> int \<Rightarrow> io_state \<Rightarrow> io_state res" where
  "tcp_close_callback a res s = io_wake a (set_info a (\<lambda>i. i\<lparr>io_result := res\<rparr>) s)"

text \<open>The member \<open>data\<close> holds the descriptor; the cast back to \<open>int\<close> keeps the low 32 bits.\<close>

definition int_of_data :: "u64 \<Rightarrow> int" where
  "int_of_data d = sint (ucast d :: i32)"

definition tcp_connect_callback :: "nat \<Rightarrow> int \<Rightarrow> io_state \<Rightarrow> io_state res" where
  "tcp_connect_callback a res s =
     io_wake a (set_info a (\<lambda>i. if res \<noteq> 0 then i\<lparr>io_result := res\<rparr> else i\<lparr>io_result := int_of_data (io_data i)\<rparr>) s)"

definition ETIME :: int where
  "ETIME = 62"

definition timer_callback :: "nat \<Rightarrow> int \<Rightarrow> io_state \<Rightarrow> io_state res" where
  "timer_callback a res s =
     (let res = (if res = - ETIME then 0 else res) in
      io_wake a (set_info a (\<lambda>i. i\<lparr>io_result := res\<rparr>) s))"

fun run_cb :: "io_cb \<Rightarrow> nat \<Rightarrow> int \<Rightarrow> io_state \<Rightarrow> io_state res" where
  "run_cb Noop_Callback a res s = noop_callback a res s"
| "run_cb Stdin_Callback a res s = stdin_callback a res s"
| "run_cb Accept_Callback a res s = tcp_accept_callback a res s"
| "run_cb Read_Callback a res s = tcp_read_callback a res s"
| "run_cb Write_Callback a res s = tcp_write_callback a res s"
| "run_cb Close_Callback a res s = tcp_close_callback a res s"
| "run_cb Connect_Callback a res s = tcp_connect_callback a res s"
| "run_cb Timer_Callback a res s = timer_callback a res s"

text \<open>What the awaiting coroutine reads when the request ended with \<open>res\<close>.\<close>

definition cb_result :: "io_info \<Rightarrow> int \<Rightarrow> int" where
  "cb_result i res =
     (case io_cb i of
        Connect_Callback \<Rightarrow> if res = 0 then int_of_data (io_data i) else res
      | Timer_Callback \<Rightarrow> if res = - ETIME then 0 else res
      | _ \<Rightarrow> res)"

section \<open>The engine's poll\<close>

definition handle_cqe_entry :: "cqe \<Rightarrow> io_state \<Rightarrow> io_state res" where
  "handle_cqe_entry cqe s =
     (let data = ptr_to_ioinfo (cqe_data cqe) in run_cb (io_cb (io_infos s data)) data (cqe_res cqe) s)"

text \<open>\<open>accepted\<close> is the number of entries that \<open>io_uring_submit\<close> takes.\<close>

definition poll_submit :: "nat \<Rightarrow> io_state \<Rightarrow> io_state res" where
  "poll_submit accepted s =
     bindE (local_engine s) (\<lambda>e.
     let e = poll_flush accepted e in
     bindE (set_local_engine e s) (\<lambda>s.
     if m_io_running_count e = 0
     then bindE (wait_eventfd (m_upxy e)) (\<lambda>(u, p). set_local_engine (e\<lparr>m_upxy := p\<rparr>) s)
     else if \<not> peek_uring (m_upxy e) then Inr s
     else let cqes = peek_batch_cqe kQueCap (m_upxy e) in
       bindE (foldE handle_cqe_entry cqes s) (\<lambda>s.
       bindE (local_engine s) (\<lambda>e. set_local_engine (poll_retire (length cqes) e) s))))"

section \<open>Timers\<close>

text \<open>
  The fields of \<open>__kernel_timespec\<close> are 64-bit, signed, and the sums are taken modulo
  \<open>2 ^ 64\<close>. The conversions from \<open>std::chrono\<close> are templates whose bodies assign a
  \<open>duration\<close> to an integer, which no instance of them can do; they are not modelled.
\<close>

record timer =
  tm_sec :: u64
  tm_nsec :: u64
  tm_flag :: u32

text \<open>The constructor leaves \<open>m_ts\<close> uninitialised: \<open>junk\<close> is what the memory holds.\<close>

definition timer_new :: "u64 \<times> u64 \<Rightarrow> u32 \<Rightarrow> timer" where
  "timer_new junk flag = \<lparr>tm_sec = fst junk, tm_nsec = snd junk, tm_flag = flag\<rparr>"

definition add_seconds :: "u64 \<Rightarrow> timer \<Rightarrow> timer" where
  "add_seconds seconds t = t\<lparr>tm_sec := tm_sec t + seconds\<rparr>"

definition add_mseconds :: "u64 \<Rightarrow> timer \<Rightarrow> timer" where
  "add_mseconds mseconds t = t\<lparr>tm_nsec := tm_nsec t + 1000000 * mseconds\<rparr>"

definition add_useconds :: "u64 \<Rightarrow> timer \<Rightarrow> timer" where
  "add_useconds useconds t = t\<lparr>tm_nsec := tm_nsec t + 1000 * useconds\<rparr>"

definition add_nseconds :: "u64 \<Rightarrow> timer \<Rightarrow> timer" where
  "add_nseconds nseconds t = t\<lparr>tm_nsec := tm_nsec t + nseconds\<rparr>"

definition timer_co_await :: "nat \<Rightarrow> timer \<Rightarrow> io_state \<Rightarrow> io_state res" where
  "timer_co_await a t s = timer_awaiter_new a (sint (tm_sec t), sint (tm_nsec t)) 1 0 s"

section \<open>The engine seen through the awaiters\<close>

definition eng_io :: "engine \<Rightarrow> sqe list \<times> sqe list \<times> cqe list \<times> u64 \<times> u64" where
  "eng_io e = (up_sq (m_upxy e), up_kernel (m_upxy e), up_cq (m_upxy e), m_io_submit_count e, m_io_running_count e)"

lemma local_engine_Inr:
  "local_engine s = Inr e \<longleftrightarrow>
     (\<exists>i. linfo_ctx (io_world s) = Some i \<and> i < length (w_ctxs (io_world s)) \<and> m_engine (w_ctxs (io_world s) ! i) = e)"
  by (auto simp: local_engine_def local_context_def split: option.splits if_splits)

lemma set_local_engine_ok:
  assumes "local_engine s = Inr e"
  obtains s' where "set_local_engine e' s = Inr s'" "local_engine s' = Inr e'" "io_infos s' = io_infos s"
    "linfo_ctx (io_world s') = linfo_ctx (io_world s)"
    "m_task_queue e' = m_task_queue e \<Longrightarrow> w_pending (io_world s') = w_pending (io_world s)"
    "m_task_queue e' = m_task_queue e \<Longrightarrow> efd_count (m_upxy e') = efd_count (m_upxy e) \<Longrightarrow>
       m_efd (m_upxy e') = m_efd (m_upxy e) \<Longrightarrow> w_room_local n (io_world s) \<Longrightarrow> w_room_local n (io_world s')"
proof -
  let ?w = "io_world s"
  obtain i where i: "linfo_ctx ?w = Some i" "i < length (w_ctxs ?w)" "m_engine (w_ctxs ?w ! i) = e"
    using assms by (auto simp: local_engine_Inr)
  let ?c = "(w_ctxs ?w ! i)\<lparr>m_engine := e'\<rparr>"
  let ?s = "s\<lparr>io_world := ?w\<lparr>w_ctxs := (w_ctxs ?w)[i := ?c]\<rparr>\<rparr>"
  have "set_local_engine e' s = Inr ?s"
    using i by (simp add: set_local_engine_def local_context_def with_ctx_def)
  moreover have "local_engine ?s = Inr e'" using i by (auto simp: local_engine_Inr)
  moreover have "w_pending (io_world ?s) = w_pending ?w" if "m_task_queue e' = m_task_queue e"
    using i that sum_list_update_same [of i "w_ctxs ?w" "\<lambda>c. mset (ctx_queue c)" ?c] by (simp add: w_pending_def)
  moreover have "w_room_local n (io_world ?s)"
    if "m_task_queue e' = m_task_queue e" "efd_count (m_upxy e') = efd_count (m_upxy e)"
      "m_efd (m_upxy e') = m_efd (m_upxy e)" "w_room_local n ?w"
    using i that by (simp add: w_room_local_def ctx_room_def)
  ultimately show thesis using that by simp
qed

lemma submit_local_engine:
  assumes "submit_to_context h (io_world s) = Inr w" and "local_engine s = Inr e"
  shows "\<exists>e'. local_engine (s\<lparr>io_world := w\<rparr>) = Inr e' \<and> eng_io e' = eng_io e"
proof -
  obtain i where i: "linfo_ctx (io_world s) = Some i" "i < length (w_ctxs (io_world s))" "m_engine (w_ctxs (io_world s) ! i) = e"
    using assms(2) by (auto simp: local_engine_Inr)
  then show ?thesis
    using assms(1)
    by (auto simp: submit_to_context_def local_context_def with_ctx_Inr context_submit_task_Inr local_engine_Inr eng_io_def)
qed

section \<open>Completions\<close>

lemmas callback_defs =
  noop_callback_def stdin_callback_def tcp_accept_callback_def tcp_read_callback_def
  tcp_write_callback_def tcp_close_callback_def tcp_connect_callback_def timer_callback_def

lemma run_cb_eq:
  "run_cb (io_cb (io_infos s a)) a res s =
     io_wake a (set_info a (\<lambda>i. i\<lparr>io_result := cb_result i res\<rparr>) s)"
  by (cases "io_cb (io_infos s a)")
    (auto simp: callback_defs cb_result_def set_info_def Let_def)

lemma handle_cqe_eq:
  "handle_cqe_entry c s =
     bindE (submit_to_context (io_handle (io_infos s (cqe_data c))) (io_world s))
       (\<lambda>w. Inr ((set_info (cqe_data c) (\<lambda>i. i\<lparr>io_result := cb_result i (cqe_res c)\<rparr>) s)\<lparr>io_world := w\<rparr>))"
  by (simp add: handle_cqe_entry_def run_cb_eq ptr_to_ioinfo_def io_wake_def set_info_def Let_def)

definition complete :: "cqe \<Rightarrow> (nat \<Rightarrow> io_info) \<Rightarrow> nat \<Rightarrow> io_info" where
  "complete c infos = infos(cqe_data c := (infos (cqe_data c))\<lparr>io_result := cb_result (infos (cqe_data c)) (cqe_res c)\<rparr>)"

lemma complete_handle [simp]: "io_handle (complete c infos a) = io_handle (infos a)"
  by (simp add: complete_def)

lemma complete_result: "io_result (complete c infos (cqe_data c)) = cb_result (infos (cqe_data c)) (cqe_res c)"
  by (simp add: complete_def)

lemma complete_other: "a \<noteq> cqe_data c \<Longrightarrow> complete c infos a = infos a"
  by (simp add: complete_def)

lemma handle_cqes:
  assumes "w_room_local (length cqes + n) (io_world s)" and "local_engine s = Inr e"
  shows "\<exists>s' e'. foldE handle_cqe_entry cqes s = Inr s' \<and> local_engine s' = Inr e' \<and> eng_io e' = eng_io e \<and>
    io_infos s' = fold complete cqes (io_infos s) \<and> w_room_local n (io_world s') \<and>
    w_pending (io_world s') = mset (map (\<lambda>c. io_handle (io_infos s (cqe_data c))) cqes) + w_pending (io_world s)"
  using assms
proof (induction cqes arbitrary: s e)
  case (Cons c cqes)
  let ?h = "io_handle (io_infos s (cqe_data c))"
  obtain w where w: "submit_to_context ?h (io_world s) = Inr w" "w_room_local (length cqes + n) w"
    using submit_to_context_room [of "length cqes + n" "io_world s" ?h] Cons.prems(1) by auto
  let ?s = "s\<lparr>io_world := w, io_infos := complete c (io_infos s)\<rparr>"
  obtain e1 where e1: "local_engine ?s = Inr e1" "eng_io e1 = eng_io e"
    using submit_local_engine [OF w(1) Cons.prems(2)] by (auto simp: local_engine_Inr)
  have step: "handle_cqe_entry c s = Inr ?s" using w(1) by (simp add: handle_cqe_eq set_info_def complete_def)
  have room: "w_room_local (length cqes + n) (io_world ?s)" using w(2) by simp
  obtain s' e' where s': "foldE handle_cqe_entry cqes ?s = Inr s'" "local_engine s' = Inr e'" "eng_io e' = eng_io e1"
    "io_infos s' = fold complete cqes (io_infos ?s)" "w_room_local n (io_world s')"
    "w_pending (io_world s') = mset (map (\<lambda>d. io_handle (io_infos ?s (cqe_data d))) cqes) + w_pending (io_world ?s)"
    using Cons.IH [OF room e1(1)] by blast
  have "w_pending w = add_mset ?h (w_pending (io_world s))" using submit_to_context_pending [OF w(1)] .
  then show ?case using step s' e1(2) by (intro exI [of _ s'] exI [of _ e']) simp
qed (auto intro: exI [of _ s])

lemma fold_complete_other: "a \<notin> cqe_data ` set cqes \<Longrightarrow> fold complete cqes infos a = infos a"
  by (induction cqes arbitrary: infos) (auto simp: complete_other)

lemma fold_complete_result:
  assumes "distinct (map cqe_data cqes)" and "c \<in> set cqes"
  shows "io_result (fold complete cqes infos (cqe_data c)) = cb_result (infos (cqe_data c)) (cqe_res c)"
  using assms
proof (induction cqes arbitrary: infos)
  case (Cons d cqes)
  show ?case
  proof (cases "c = d")
    case True
    then have "cqe_data c \<notin> cqe_data ` set cqes" using Cons.prems(1) by auto
    then show ?thesis using True by (simp add: fold_complete_other complete_result)
  next
    case False
    then have "c \<in> set cqes" "cqe_data c \<noteq> cqe_data d" using Cons.prems by (auto simp: image_iff)
    then show ?thesis using Cons.IH [of "complete d infos"] Cons.prems(1) by (simp add: complete_other)
  qed
qed simp

section \<open>Counting requests\<close>

text \<open>
  The two counters of the engine count the prepared entries and the ones in flight, those
  that the kernel holds or has completed.
\<close>

definition io_counts_ok :: "engine \<Rightarrow> bool" where
  [inv_defs]: "io_counts_ok e \<longleftrightarrow>
     m_io_submit_count e = of_nat (length (up_sq (m_upxy e))) \<and>
     m_io_running_count e = of_nat (length (up_kernel (m_upxy e)) + length (up_cq (m_upxy e)))"

definition io_small :: "engine \<Rightarrow> bool" where
  "io_small e \<longleftrightarrow> length (up_sq (m_upxy e)) + length (up_kernel (m_upxy e)) + length (up_cq (m_upxy e)) < 2 ^ 64"

lemma io_counts_eng_io: "eng_io e' = eng_io e \<Longrightarrow> io_counts_ok e' = io_counts_ok e"
  by (simp add: eng_io_def io_counts_ok_def)

lemma of_nat_u64_eq_0_iff: "n < 2 ^ 64 \<Longrightarrow> (of_nat n :: u64) = 0 \<longleftrightarrow> n = 0"
  using unat_of_nat_u64 [of n] by (metis unat_eq_zero)

lemma poll_flush_all:
  assumes "io_counts_ok e" and "io_small e" and "length (up_sq (m_upxy e)) \<le> accepted"
  shows "poll_flush accepted e =
    e\<lparr>m_upxy := (m_upxy e)\<lparr>up_kernel := up_kernel (m_upxy e) @ up_sq (m_upxy e), up_sq := []\<rparr>,
      m_io_running_count := m_io_running_count e + m_io_submit_count e, m_io_submit_count := 0\<rparr>"
proof (cases "up_sq (m_upxy e) = []")
  case True
  then have "m_io_submit_count e = 0" using assms(1) by (simp add: io_counts_ok_def)
  then show ?thesis using True by (simp add: poll_flush_def)
next
  case False
  have "(of_nat (length (up_sq (m_upxy e))) :: u64) \<noteq> 0"
    using of_nat_u64_eq_0_iff [of "length (up_sq (m_upxy e))"] assms(2) False by (simp add: io_small_def)
  then show ?thesis
    using assms by (simp add: poll_flush_def uring_submit_def io_counts_ok_def Let_def word_gt_0)
qed

lemma poll_flush_counts:
  assumes "io_counts_ok e" and "io_small e" and "length (up_sq (m_upxy e)) \<le> accepted"
  shows "io_counts_ok (poll_flush accepted e)"
  using assms(1) poll_flush_all [OF assms] by (simp add: io_counts_ok_def)

lemma poll_retire_counts:
  "io_counts_ok e \<Longrightarrow> n \<le> length (up_cq (m_upxy e)) \<Longrightarrow> io_counts_ok (poll_retire n e)"
  by (simp add: io_counts_ok_def poll_retire_def cq_advance_def of_nat_diff)

lemma kernel_complete_counts:
  assumes "io_counts_ok e" and "i < length (up_kernel (m_upxy e))"
  shows "io_counts_ok (e\<lparr>m_upxy := kernel_complete i res (m_upxy e)\<rparr>)"
  using assms by (simp add: io_counts_ok_def kernel_complete_def of_nat_diff)

lemma poll_completions:
  assumes "local_engine s = Inr e" and "io_counts_ok e" and "io_small e"
    and "length (up_sq (m_upxy e)) \<le> accepted" and "up_cq (m_upxy e) \<noteq> []"
    and "distinct (map cqe_data (up_cq (m_upxy e)))"
    and "w_room_local (length (up_cq (m_upxy e))) (io_world s)"
  defines "batch \<equiv> take kQueCap (up_cq (m_upxy e))"
  shows "\<exists>s' e'. poll_submit accepted s = Inr s' \<and> local_engine s' = Inr e' \<and> io_counts_ok e' \<and>
    up_cq (m_upxy e') = drop kQueCap (up_cq (m_upxy e)) \<and> up_sq (m_upxy e') = [] \<and>
    up_kernel (m_upxy e') = up_kernel (m_upxy e) @ up_sq (m_upxy e) \<and>
    w_pending (io_world s') = mset (map (\<lambda>c. io_handle (io_infos s (cqe_data c))) batch) + w_pending (io_world s) \<and>
    (\<forall>c \<in> set batch. base_await_resume (cqe_data c) s' = cb_result (io_infos s (cqe_data c)) (cqe_res c))"
proof -
  let ?e1 = "poll_flush accepted e"
  note fl = poll_flush_all [OF assms(2-4)]
  obtain s1 where s1: "set_local_engine ?e1 s = Inr s1" "local_engine s1 = Inr ?e1" "io_infos s1 = io_infos s"
    "w_pending (io_world s1) = w_pending (io_world s)" "w_room_local (length (up_cq (m_upxy e))) (io_world s1)"
    using set_local_engine_ok [OF assms(1), of ?e1 "length (up_cq (m_upxy e))"] assms(7) by (auto simp: fl)
  have run: "m_io_running_count ?e1 \<noteq> 0"
  proof -
    let ?n = "length (up_kernel (m_upxy e)) + length (up_cq (m_upxy e)) + length (up_sq (m_upxy e))"
    have "m_io_running_count ?e1 = of_nat ?n" using assms(2) fl by (simp add: io_counts_ok_def)
    moreover have "?n \<noteq> 0" "?n < 2 ^ 64" using assms(3,5) by (simp_all add: io_small_def)
    ultimately show ?thesis using of_nat_u64_eq_0_iff by metis
  qed
  have cq: "up_cq (m_upxy ?e1) = up_cq (m_upxy e)" "up_sq (m_upxy ?e1) = []"
    "up_kernel (m_upxy ?e1) = up_kernel (m_upxy e) @ up_sq (m_upxy e)" using fl by simp_all
  have room: "w_room_local (length batch + (length (up_cq (m_upxy e)) - length batch)) (io_world s1)"
    using s1(5) by (simp add: batch_def)
  obtain s2 e2 where s2: "foldE handle_cqe_entry batch s1 = Inr s2" "local_engine s2 = Inr e2" "eng_io e2 = eng_io ?e1"
    "io_infos s2 = fold complete batch (io_infos s)"
    "w_pending (io_world s2) = mset (map (\<lambda>c. io_handle (io_infos s (cqe_data c))) batch) + w_pending (io_world s)"
    using handle_cqes [OF room s1(2)] s1(3,4) by auto
  let ?e3 = "poll_retire (length batch) e2"
  obtain s3 where s3: "set_local_engine ?e3 s2 = Inr s3" "local_engine s3 = Inr ?e3" "io_infos s3 = io_infos s2"
    "w_pending (io_world s3) = w_pending (io_world s2)"
    using set_local_engine_ok [OF s2(2), of ?e3 0] by (auto simp: poll_retire_def)
  have poll: "poll_submit accepted s = Inr s3"
    using assms(1,5) s1(1) run s2(1,2) s3(1) cq
    by (simp add: poll_submit_def Let_def peek_uring_def peek_batch_cqe_def batch_def)
  have e2: "up_cq (m_upxy e2) = up_cq (m_upxy e)" "up_sq (m_upxy e2) = []"
    "up_kernel (m_upxy e2) = up_kernel (m_upxy e) @ up_sq (m_upxy e)" using s2(3) cq by (simp_all add: eng_io_def)
  have "io_counts_ok ?e3"
    using poll_retire_counts [of e2 "length batch"] io_counts_eng_io [OF s2(3)] poll_flush_counts [OF assms(2-4)] e2
    by (simp add: batch_def)
  moreover have "up_cq (m_upxy ?e3) = drop kQueCap (up_cq (m_upxy e))" "up_sq (m_upxy ?e3) = []"
    "up_kernel (m_upxy ?e3) = up_kernel (m_upxy e) @ up_sq (m_upxy e)"
    using e2 by (simp_all add: poll_retire_def cq_advance_def batch_def min_def)
  moreover have "base_await_resume (cqe_data c) s3 = cb_result (io_infos s (cqe_data c)) (cqe_res c)"
    if "c \<in> set batch" for c
    using fold_complete_result [of batch c "io_infos s"] that assms(6) s2(4) s3(3)
    by (simp add: base_await_resume_def batch_def take_map [symmetric])
  ultimately show ?thesis using poll s3(2,4) s2(5) by auto
qed

section \<open>Properties\<close>

text \<open>
  C21. A poll wakes exactly the coroutines whose requests completed. With counters that are
  right, a kernel that takes every prepared entry, and completions at hand, \<open>poll_submit\<close>
  returns while the context has room for the wake-ups; the awaiting coroutine of each of the first
  \<open>kQueCap\<close> completions becomes pending once, each awaiter holds the result its callback
  makes of the kernel's answer, the batch is retired, and the counters are right again.
\<close>

theorem poll_wakes_completed:
  assumes "local_engine s = Inr e" and "io_counts_ok e" and "io_small e"
    and "length (up_sq (m_upxy e)) \<le> accepted" and "up_cq (m_upxy e) \<noteq> []"
    and "distinct (map cqe_data (up_cq (m_upxy e)))"
    and "w_room_local (length (up_cq (m_upxy e))) (io_world s)"
  defines "batch \<equiv> take kQueCap (up_cq (m_upxy e))"
  shows "\<exists>s' e'. poll_submit accepted s = Inr s' \<and> local_engine s' = Inr e' \<and> io_counts_ok e' \<and>
    up_cq (m_upxy e') = drop kQueCap (up_cq (m_upxy e)) \<and> up_sq (m_upxy e') = [] \<and>
    up_kernel (m_upxy e') = up_kernel (m_upxy e) @ up_sq (m_upxy e) \<and>
    w_pending (io_world s') = mset (map (\<lambda>c. io_handle (io_infos s (cqe_data c))) batch) + w_pending (io_world s) \<and>
    (\<forall>c \<in> set batch. base_await_resume (cqe_data c) s' = cb_result (io_infos s (cqe_data c)) (cqe_res c))"
  using poll_completions [OF assms(1-7)] unfolding batch_def .

text \<open>A worker with one completed read, awaited by coroutine 7 with the awaiter at address 40.\<close>

definition demo_io_engine :: engine where
  "demo_io_engine = \<lparr>eng_id = 0, m_upxy = \<lparr>m_efd = 3, efd_count = 1, sq_entries = 16,
     up_sq = [], up_kernel = [], up_cq = [\<lparr>cqe_data = 40, cqe_res = 5\<rparr>], m_null_fds = [], m_fds = \<lparr>mb_data = [], mb_que = []\<rparr>\<rparr>,
     m_task_queue = [], m_io_submit_count = 0, m_io_running_count = 1\<rparr>"

definition demo_io :: "engine \<Rightarrow> io_state" where
  "demo_io e = \<lparr>io_world = demo_world\<lparr>w_ctxs := [(w_ctxs demo_world ! 0)\<lparr>m_engine := e\<rparr>]\<rparr>,
     io_infos = (\<lambda>_. \<lparr>io_handle = 7, io_result = 0, io_type = Io_Tcp_Read, io_data = 0, io_cb = Read_Callback\<rparr>)\<rparr>"

lemma demo_io_engine: "local_engine (demo_io e) = Inr e"
  by (simp add: local_engine_Inr demo_io_def demo_world_def)

theorem poll_wakes_completed_witness:
  "\<exists>s' e'. poll_submit 0 (demo_io demo_io_engine) = Inr s' \<and> local_engine s' = Inr e' \<and> io_counts_ok e' \<and>
     w_pending (io_world s') = {#7#} + w_pending (io_world (demo_io demo_io_engine)) \<and> base_await_resume 40 s' = 5"
proof -
  have room: "w_room_local (length (up_cq (m_upxy demo_io_engine))) (io_world (demo_io demo_io_engine))"
    by (simp add: w_room_local_def ctx_room_def demo_io_def demo_world_def demo_io_engine_def kQueCap_def efd_max_def)
  show ?thesis
    using poll_wakes_completed [OF demo_io_engine _ _ _ _ _ room, of 0]
    by (auto simp: demo_io_engine_def io_counts_ok_def io_small_def demo_io_def kQueCap_def cb_result_def)
qed

section \<open>A request from start to end\<close>

text \<open>
  What every constructor of an awaiter does: one request more in the ring, tagged with the awaiter's address, and the
  fields of the awaiter's \<open>io_info\<close> set by \<open>f\<close>.
\<close>

definition prepares :: "(io_state \<Rightarrow> io_state res) \<Rightarrow> nat \<Rightarrow> (io_info \<Rightarrow> io_info) \<Rightarrow> sqe_op \<Rightarrow> int \<Rightarrow> bool" where
  "prepares new a f op fl \<longleftrightarrow>
     (\<forall>s e. local_engine s = Inr e \<longrightarrow> length (up_sq (m_upxy e)) < sq_entries (m_upxy e) \<longrightarrow>
        new s = set_local_engine (e\<lparr>m_upxy := (m_upxy e)\<lparr>up_sq := up_sq (m_upxy e) @ [\<lparr>sqe_op = op, sqe_flags = fl, sqe_data = a\<rparr>]\<rparr>,
            m_io_submit_count := m_io_submit_count e + 1\<rparr>) (set_info a f s))"

lemmas prepares_defs = prepares_def base_io_awaiter_new_def get_free_urs_def get_free_sqe_def Let_def
  upd_sqe_def sqe_prep_def sqe_set_flags_def sqe_set_data_def add_io_submit_def

lemma int_of_data_word: "int_of_data (word_of_int fd) = signed_take_bit 31 fd"
proof -
  have "ucast (word_of_int fd :: u64) = (word_of_int fd :: i32)"
    by (rule bit_word_eqI) (simp add: bit_ucast_iff bit_word_of_int_iff)
  then show ?thesis by (simp add: int_of_data_def sint_sbintrunc')
qed

lemma awaiters_prepare:
  "prepares (noop_awaiter_new a) a (\<lambda>i. i\<lparr>io_type := Io_Nop, io_cb := Noop_Callback\<rparr>) Prep_Nop 0"
  "prepares (stdin_awaiter_new a len io_flag fl) a (\<lambda>i. i\<lparr>io_type := Io_Stdin, io_cb := Stdin_Callback\<rparr>) (Prep_Read 0 len io_flag) fl"
  "prepares (tcp_accept_awaiter_new a fd io_flag fl) a (\<lambda>i. i\<lparr>io_type := Io_Tcp_Accept, io_cb := Accept_Callback\<rparr>) (Prep_Accept fd io_flag) fl"
  "prepares (tcp_read_awaiter_new a fd len io_flag fl) a (\<lambda>i. i\<lparr>io_type := Io_Tcp_Read, io_cb := Read_Callback\<rparr>) (Prep_Recv fd len io_flag) fl"
  "prepares (tcp_write_awaiter_new a fd len io_flag fl) a (\<lambda>i. i\<lparr>io_type := Io_Tcp_Write, io_cb := Write_Callback\<rparr>) (Prep_Send fd len io_flag) fl"
  "prepares (tcp_close_awaiter_new a fd) a (\<lambda>i. i\<lparr>io_type := Io_Tcp_Close, io_cb := Close_Callback\<rparr>) (Prep_Close fd) 0"
  "prepares (tcp_connect_awaiter_new a fd) a (\<lambda>i. i\<lparr>io_type := Io_Tcp_Connect, io_cb := Connect_Callback, io_data := word_of_int fd\<rparr>) (Prep_Connect fd) 0"
  "prepares (timer_awaiter_new a ts cnt flags) a (\<lambda>i. i\<lparr>io_type := Io_Timer, io_cb := Timer_Callback\<rparr>) (Prep_Timeout ts cnt flags) 0"
  by (simp_all add: prepares_defs noop_awaiter_new_def stdin_awaiter_new_def tcp_accept_awaiter_new_def tcp_read_awaiter_new_def
      tcp_write_awaiter_new_def tcp_close_awaiter_new_def tcp_connect_awaiter_new_def timer_awaiter_new_def)

definition io_idle_engine :: "engine \<Rightarrow> bool" where
  "io_idle_engine e \<longleftrightarrow> up_sq (m_upxy e) = [] \<and> up_kernel (m_upxy e) = [] \<and> up_cq (m_upxy e) = [] \<and>
     m_io_submit_count e = 0 \<and> m_io_running_count e = 0 \<and> 0 < sq_entries (m_upxy e)"

text \<open>The kernel completes the only request it holds.\<close>

definition kernel_step :: "int \<Rightarrow> io_state \<Rightarrow> io_state res" where
  "kernel_step res s = bindE (local_engine s) (\<lambda>e. set_local_engine (e\<lparr>m_upxy := kernel_complete 0 res (m_upxy e)\<rparr>) s)"

lemma set_info_engine [simp]: "local_engine (set_info a f s) = local_engine s" "io_world (set_info a f s) = io_world s"
  by (simp_all add: set_info_def local_engine_def cong: if_cong)

lemma request_submitted:
  assumes "local_engine s = Inr e" and "io_idle_engine e" and "w_room_local 2 (io_world s)" and "0 < accepted"
    and "prepares new a f op fl"
  shows "\<exists>s1 s2 e2. new s = Inr s1 \<and>
    poll_submit accepted (base_await_suspend a h s1) = Inr s2 \<and> local_engine s2 = Inr e2 \<and>
    up_kernel (m_upxy e2) = [\<lparr>sqe_op = op, sqe_flags = fl, sqe_data = a\<rparr>] \<and>
    up_sq (m_upxy e2) = [] \<and> up_cq (m_upxy e2) = [] \<and> io_counts_ok e2 \<and>
    io_infos s2 a = (f (io_infos s a))\<lparr>io_handle := h\<rparr> \<and>
    w_room_local 2 (io_world s2) \<and> w_pending (io_world s2) = w_pending (io_world s)"
proof -
  let ?q = "\<lparr>sqe_op = op, sqe_flags = fl, sqe_data = a\<rparr>"
  let ?e1 = "e\<lparr>m_upxy := (m_upxy e)\<lparr>up_sq := [?q]\<rparr>, m_io_submit_count := 1\<rparr>"
  let ?s = "set_info a f s"
  have e: "local_engine ?s = Inr e" using assms(1) by simp
  obtain s1 where s1: "set_local_engine ?e1 ?s = Inr s1" "local_engine s1 = Inr ?e1" "io_infos s1 = io_infos ?s"
    "w_pending (io_world s1) = w_pending (io_world s)" "w_room_local 2 (io_world s1)"
    using set_local_engine_ok [OF e, of ?e1 2] assms(3) by auto
  have new: "new s = Inr s1"
    using assms(1,2,5) s1(1) by (simp add: io_idle_engine_def prepares_def)
  let ?t = "base_await_suspend a h s1"
  let ?e2 = "poll_flush accepted ?e1"
  have e2: "?e2 = e\<lparr>m_upxy := (m_upxy e)\<lparr>up_kernel := [?q], up_sq := []\<rparr>, m_io_running_count := 1, m_io_submit_count := 0\<rparr>"
    using assms(2,4) by (simp add: poll_flush_def uring_submit_def io_idle_engine_def Let_def min_def Suc_le_eq)
  have t: "local_engine ?t = Inr ?e1" using s1(2) by (simp add: base_await_suspend_def)
  obtain s2 where s2: "set_local_engine ?e2 ?t = Inr s2" "local_engine s2 = Inr ?e2" "io_infos s2 = io_infos ?t"
    "w_pending (io_world s2) = w_pending (io_world s)" "w_room_local 2 (io_world s2)"
  proof (rule set_local_engine_ok [OF t, of ?e2 2])
    fix s2
    assume "set_local_engine ?e2 ?t = Inr s2" "local_engine s2 = Inr ?e2" "io_infos s2 = io_infos ?t"
      and "m_task_queue ?e2 = m_task_queue ?e1 \<Longrightarrow> w_pending (io_world s2) = w_pending (io_world ?t)"
      and "m_task_queue ?e2 = m_task_queue ?e1 \<Longrightarrow> efd_count (m_upxy ?e2) = efd_count (m_upxy ?e1) \<Longrightarrow>
        m_efd (m_upxy ?e2) = m_efd (m_upxy ?e1) \<Longrightarrow> w_room_local 2 (io_world ?t) \<Longrightarrow> w_room_local 2 (io_world s2)"
    moreover have "m_task_queue ?e2 = m_task_queue ?e1" "efd_count (m_upxy ?e2) = efd_count (m_upxy ?e1)"
      "m_efd (m_upxy ?e2) = m_efd (m_upxy ?e1)" "io_world ?t = io_world s1"
      unfolding e2 by (simp_all add: base_await_suspend_def)
    ultimately show thesis using that s1(4,5) by metis
  qed
  have "poll_submit accepted ?t = Inr s2"
    using t s2(1) assms(2) by (simp add: poll_submit_def Let_def e2 peek_uring_def io_idle_engine_def)
  moreover have "io_infos s2 a = (f (io_infos s a))\<lparr>io_handle := h\<rparr>"
    using s2(3) s1(3) by (simp add: base_await_suspend_def set_info_def)
  moreover have "io_counts_ok ?e2" using assms(2) by (simp add: e2 io_counts_ok_def io_idle_engine_def)
  ultimately show ?thesis using new s2 assms(2) by (auto simp: e2 io_idle_engine_def)
qed

lemma set_local_engine_room:
  assumes "local_engine s = Inr e" and "set_local_engine e' s = Inr s'" and "m_task_queue e' = m_task_queue e"
    and "m_efd (m_upxy e') = m_efd (m_upxy e)" and "efd_count (m_upxy e') \<le> efd_count (m_upxy e) + 1"
    and "w_room_local (Suc n) (io_world s)"
  shows "w_room_local n (io_world s')"
  using assms
  by (auto simp: local_engine_Inr set_local_engine_def local_context_def with_ctx_def w_room_local_def ctx_room_def)

lemma cb_result_handle: "cb_result (i\<lparr>io_handle := h\<rparr>) res = cb_result i res"
  by (simp add: cb_result_def cong: if_cong split: io_cb.splits)

lemma request_roundtrip:
  assumes "local_engine s = Inr e" and "io_idle_engine e" and "w_room_local 2 (io_world s)" and "0 < accepted"
    and "prepares new a f op fl"
  shows "\<exists>s1 s2 s3 s4 e4. new s = Inr s1 \<and>
    poll_submit accepted (base_await_suspend a h s1) = Inr s2 \<and> kernel_step res s2 = Inr s3 \<and>
    poll_submit accepted s3 = Inr s4 \<and> local_engine s4 = Inr e4 \<and> empty_io e4 \<and>
    w_pending (io_world s4) = add_mset h (w_pending (io_world s)) \<and> base_await_resume a s4 = cb_result (f (io_infos s a)) res"
proof -
  let ?q = "\<lparr>sqe_op = op, sqe_flags = fl, sqe_data = a\<rparr>"
  obtain s1 s2 e2 where new: "new s = Inr s1"
    "poll_submit accepted (base_await_suspend a h s1) = Inr s2"
    and e2: "local_engine s2 = Inr e2" "up_kernel (m_upxy e2) = [?q]" "up_sq (m_upxy e2) = []" "up_cq (m_upxy e2) = []"
    "io_counts_ok e2"
    and i2: "io_infos s2 a = (f (io_infos s a))\<lparr>io_handle := h\<rparr>" "io_handle (io_infos s2 a) = h" "w_room_local 2 (io_world s2)"
    "w_pending (io_world s2) = w_pending (io_world s)"
    using request_submitted [OF assms, of h] by auto
  let ?e3 = "e2\<lparr>m_upxy := kernel_complete 0 res (m_upxy e2)\<rparr>"
  obtain s3 where s3: "set_local_engine ?e3 s2 = Inr s3" "local_engine s3 = Inr ?e3" "io_infos s3 = io_infos s2"
    "w_pending (io_world s3) = w_pending (io_world s)"
    using set_local_engine_ok [OF e2(1), of ?e3 0] i2(4) by auto
  have k: "up_kernel (m_upxy ?e3) = []" "up_sq (m_upxy ?e3) = []"
    "up_cq (m_upxy ?e3) = [\<lparr>cqe_data = a, cqe_res = res\<rparr>]" "io_counts_ok ?e3" "io_small ?e3"
    using e2 kernel_complete_counts [OF e2(5), of 0 res] by (simp_all add: kernel_complete_def io_small_def)
  have "w_room_local (Suc 1) (io_world s2)" using i2(3) by (simp add: numeral_2_eq_2)
  then have room: "w_room_local (length (up_cq (m_upxy ?e3))) (io_world s3)"
    using set_local_engine_room [OF e2(1) s3(1), of 1] k(3) by (simp add: kernel_complete_def)
  have cap: "take kQueCap [x] = [x]" "drop kQueCap [x] = []" for x :: cqe by (simp_all add: kQueCap_def)
  have "length (up_sq (m_upxy ?e3)) \<le> accepted" "up_cq (m_upxy ?e3) \<noteq> []" "distinct (map cqe_data (up_cq (m_upxy ?e3)))"
    using k by simp_all
  from poll_completions [OF s3(2) k(4,5) this room]
  obtain s4 e4 where s4: "poll_submit accepted s3 = Inr s4" "local_engine s4 = Inr e4" "io_counts_ok e4"
    "up_cq (m_upxy e4) = []" "up_sq (m_upxy e4) = []" "up_kernel (m_upxy e4) = []"
    "w_pending (io_world s4) = add_mset h (w_pending (io_world s))" "base_await_resume a s4 = cb_result (io_infos s2 a) res"
    unfolding k(1-3) cap using s3(3,4) i2(2) by auto
  have "empty_io e4" using s4(3-6) by (simp add: empty_io_def io_counts_ok_def)
  moreover have "kernel_step res s2 = Inr s3" using e2(1) s3(1) by (simp add: kernel_step_def)
  ultimately show ?thesis using new s4 i2(1) cb_result_handle by auto
qed

text \<open>
  A read from start to end on an idle engine: coroutine \<open>h\<close> constructs the awaiter at
  address \<open>a\<close> and suspends; one poll hands the request to the kernel; the kernel completes it with
  \<open>res\<close>; the next poll makes \<open>h\<close>, and nothing else, pending, \<open>h\<close> reads \<open>res\<close>, and the
  engine has no input or output left.
\<close>

theorem tcp_read_roundtrip:
  assumes "local_engine s = Inr e" and "io_idle_engine e" and "w_room_local 2 (io_world s)" and "0 < accepted"
  shows "\<exists>s1 s2 s3 s4 e4. tcp_read_awaiter_new a fd len io_flag sqe_flag s = Inr s1 \<and>
    poll_submit accepted (base_await_suspend a h s1) = Inr s2 \<and> kernel_step res s2 = Inr s3 \<and>
    poll_submit accepted s3 = Inr s4 \<and> local_engine s4 = Inr e4 \<and> empty_io e4 \<and>
    w_pending (io_world s4) = add_mset h (w_pending (io_world s)) \<and> base_await_resume a s4 = res"
  using request_roundtrip [OF assms awaiters_prepare(4), of a fd len io_flag sqe_flag h res] by (simp add: cb_result_def)

theorem tcp_read_roundtrip_witness:
  "\<exists>s1 s2 s3 s4 e4. tcp_read_awaiter_new 40 9 64 0 0 (demo_io (m_engine (w_ctxs demo_world ! 0))) = Inr s1 \<and>
    poll_submit 1 (base_await_suspend 40 7 s1) = Inr s2 \<and> kernel_step 12 s2 = Inr s3 \<and>
    poll_submit 1 s3 = Inr s4 \<and> local_engine s4 = Inr e4 \<and> empty_io e4 \<and>
    w_pending (io_world s4) = add_mset 7 (w_pending (io_world (demo_io (m_engine (w_ctxs demo_world ! 0))))) \<and>
    base_await_resume 40 s4 = 12"
proof (rule tcp_read_roundtrip [OF demo_io_engine])
  show "io_idle_engine (m_engine (w_ctxs demo_world ! 0))" by (simp add: io_idle_engine_def demo_world_def)
  show "w_room_local 2 (io_world (demo_io (m_engine (w_ctxs demo_world ! 0))))"
    using demo_world_room(2) [of 2] by (simp add: demo_io_def demo_world_def)
qed simp

text \<open>
  \<open>poll_submit\<close> does not look at what \<open>io_uring_submit\<close> answers. When the kernel takes
  fewer entries than were prepared, the counters move by the prepared number all the same:
  the entries left behind are counted as running, and no later poll submits them, because a poll
  submits only when the submit counter is positive.
\<close>

theorem poll_short_submit_strands:
  assumes "io_counts_ok e" and "io_small e" and "accepted < length (up_sq (m_upxy e))"
  shows "up_sq (m_upxy (poll_flush accepted e)) \<noteq> [] \<and> m_io_submit_count (poll_flush accepted e) = 0 \<and>
    \<not> io_counts_ok (poll_flush accepted e) \<and>
    (\<forall>n. poll_flush n (poll_flush accepted e) = poll_flush accepted e)"
proof -
  let ?n = "length (up_sq (m_upxy e))"
  have n: "(of_nat ?n :: u64) \<noteq> 0" using of_nat_u64_eq_0_iff [of ?n] assms(2,3) by (auto simp: io_small_def)
  then have "m_io_submit_count (poll_flush accepted e) = 0" "up_sq (m_upxy (poll_flush accepted e)) = drop accepted (up_sq (m_upxy e))"
    using assms by (simp_all add: poll_flush_def Let_def uring_submit_def io_counts_ok_def word_gt_0)
  moreover have "?n - accepted \<noteq> 0" "?n - accepted < 2 ^ 64" using assms(2,3) by (simp_all add: io_small_def)
  then have "(of_nat (?n - accepted) :: u64) \<noteq> 0" using of_nat_u64_eq_0_iff by metis
  ultimately show ?thesis using assms(3) by (simp add: io_counts_ok_def poll_flush_def [of _ "poll_flush accepted e"] Let_def)
qed

theorem poll_short_submit_strands_witness:
  "let e = (m_engine (w_ctxs demo_world ! 0))\<lparr>m_upxy := (m_upxy (m_engine (w_ctxs demo_world ! 0)))
       \<lparr>up_sq := [\<lparr>sqe_op = Prep_Nop, sqe_flags = 0, sqe_data = 40\<rparr>]\<rparr>, m_io_submit_count := 1\<rparr>
   in up_sq (m_upxy (poll_flush 0 e)) \<noteq> [] \<and> m_io_submit_count (poll_flush 0 e) = 0 \<and>
     \<not> io_counts_ok (poll_flush 0 e) \<and> (\<forall>n. poll_flush n (poll_flush 0 e) = poll_flush 0 e)"
  unfolding Let_def
  by (rule poll_short_submit_strands) (simp_all add: demo_world_def io_counts_ok_def io_small_def)

end
