(* ===== verification/Tcp.thy ===== *)
theory Tcp
  imports Io
begin

unbundle bit_operations_syntax

text \<open>
  \<open>coro/io/base_io_type.hpp\<close>, \<open>coro/io/net/tcp/tcp.hpp\<close>, \<open>src/io/net/tcp/tcp.cpp\<close>, and
  \<open>set_fd_noblock\<close> of \<open>src/utils.cpp\<close>: sockets, with an optional descriptor registered in
  \<open>io_uring\<close>. What the operating system answers is an argument: a record of the results of the
  socket calls, and the result of registering the descriptor table. \<open>fixfd\<close> is
  \<open>config::kEnableFixfd\<close>.
\<close>

section \<open>Registered descriptors\<close>

definition IOSQE_FIXED_FILE :: int where
  "IOSQE_FIXED_FILE = 1"

definition with_local_proxy :: "(uring_proxy \<Rightarrow> ('b \<times> uring_proxy) res) \<Rightarrow> io_state \<Rightarrow> ('b \<times> io_state) res" where
  "with_local_proxy f s =
     bindE (local_engine s) (\<lambda>e.
     bindE (f (m_upxy e)) (\<lambda>(x, p).
     bindE (set_local_engine (e\<lparr>m_upxy := p\<rparr>) s) (\<lambda>s'. Inr (x, s'))))"

definition fixed_fds_new :: "bool \<Rightarrow> io_state \<Rightarrow> (item \<times> io_state) res" where
  "fixed_fds_new fixfd s = with_local_proxy (\<lambda>p. Inr (get_fixed_fd fixfd p)) s"

text \<open>\<open>*(item.ptr) = fd\<close> writes the descriptor table of the proxy the item was borrowed from.\<close>

definition write_item :: "item \<Rightarrow> int \<Rightarrow> uring_proxy \<Rightarrow> uring_proxy res" where
  "write_item it fd p =
     (case item_ptr it of
        None \<Rightarrow> Inl Null_Deref
      | Some i \<Rightarrow> if i < length (mb_data (m_fds p))
                  then Inr (p\<lparr>m_fds := (m_fds p)\<lparr>mb_data := (mb_data (m_fds p))[i := fd]\<rparr>\<rparr>)
                  else Inl Out_Of_Range)"

definition fixed_assign ::
  "bool \<Rightarrow> int \<Rightarrow> item \<Rightarrow> int \<Rightarrow> int \<Rightarrow> io_state \<Rightarrow> ((int \<times> int) \<times> io_state) res" where
  "fixed_assign fixfd res it fd fl s =
     (if \<not> item_valid it then Inr ((fd, fl), s)
      else with_local_proxy (\<lambda>p.
        bindE (write_item it fd p) (\<lambda>p.
        bindE (update_register_fixed_fds fixfd res p) (\<lambda>p. Inr ((item_idx it, fl OR IOSQE_FIXED_FILE), p)))) s)"

definition fixed_return_back :: "bool \<Rightarrow> int \<Rightarrow> item \<Rightarrow> io_state \<Rightarrow> (item \<times> io_state) res" where
  "fixed_return_back fixfd res it s =
     (if item_valid it
      then with_local_proxy (\<lambda>p. bindE (back_fixed_fd fixfd res it p) (\<lambda>p. Inr (item_set_invalid it, p))) s
      else Inr (it, s))"

section \<open>Connections\<close>

record tcp_connector =
  tc_sockfd :: int
  tc_original_fd :: int
  tc_fixed_fd :: item
  tc_sqe_flag :: int

definition tcp_connector_new :: "bool \<Rightarrow> int \<Rightarrow> int \<Rightarrow> io_state \<Rightarrow> (tcp_connector \<times> io_state) res" where
  "tcp_connector_new fixfd res sockfd s =
     bindE (fixed_fds_new fixfd s) (\<lambda>(it, s).
     bindE (fixed_assign fixfd res it sockfd 0 s) (\<lambda>((fd, fl), s).
     Inr (\<lparr>tc_sockfd = fd, tc_original_fd = sockfd, tc_fixed_fd = it, tc_sqe_flag = fl\<rparr>, s)))"

definition tcp_connector_read :: "nat \<Rightarrow> nat \<Rightarrow> int \<Rightarrow> tcp_connector \<Rightarrow> io_state \<Rightarrow> io_state res" where
  "tcp_connector_read a len io_flags c s = tcp_read_awaiter_new a (tc_sockfd c) len io_flags (tc_sqe_flag c) s"

definition tcp_connector_write :: "nat \<Rightarrow> nat \<Rightarrow> int \<Rightarrow> tcp_connector \<Rightarrow> io_state \<Rightarrow> io_state res" where
  "tcp_connector_write a len io_flags c s = tcp_write_awaiter_new a (tc_sockfd c) len io_flags (tc_sqe_flag c) s"

definition tcp_connector_close :: "bool \<Rightarrow> int \<Rightarrow> nat \<Rightarrow> tcp_connector \<Rightarrow> io_state \<Rightarrow> (tcp_connector \<times> io_state) res" where
  "tcp_connector_close fixfd res a c s =
     bindE (fixed_return_back fixfd res (tc_fixed_fd c) s) (\<lambda>(it, s).
     bindE (tcp_close_awaiter_new a (tc_original_fd c) s) (\<lambda>s. Inr (c\<lparr>tc_fixed_fd := it\<rparr>, s)))"

text \<open>The destructor of \<open>fixed_fds\<close>, run when the connector dies.\<close>

definition tcp_connector_destroy :: "bool \<Rightarrow> int \<Rightarrow> tcp_connector \<Rightarrow> io_state \<Rightarrow> io_state res" where
  "tcp_connector_destroy fixfd res c s =
     bindE (fixed_return_back fixfd res (tc_fixed_fd c) s) (\<lambda>(it, s). Inr s)"

section \<open>Server and client\<close>

text \<open>
  \<open>os_pton\<close> is \<open>inet_pton(AF_INET, ...)\<close>: its result and the address it stores, of which the
  program uses the latter as stored; by its documentation the result is 1 on success, 0 for a
  string that is not an address (and then nothing is stored), and -1 only for an unsupported address family.
\<close>

record os_net =
  os_socket :: int
  os_getfl :: int
  os_setfl :: int
  os_pton :: "string \<Rightarrow> int \<times> u32 option"
  os_bind :: int
  os_listen :: int

definition set_fd_noblock :: "os_net \<Rightarrow> unit res" where
  "set_fd_noblock os =
     (if os_getfl os < 0 then Inl Assert_Failed else if os_setfl os < 0 then Inl Assert_Failed else Inr ())"

text \<open>The \<open>sin_addr\<close> field after \<open>memset\<close> and the branch on \<open>addr\<close>; \<open>INADDR_ANY\<close> is 0.\<close>

definition fill_addr :: "os_net \<Rightarrow> string option \<Rightarrow> u32 res" where
  "fill_addr os addr =
     (case addr of
        Some str \<Rightarrow>
          let (r, stored) = os_pton os str in
          if r < 0 then Inl Exit_Failure else Inr (case stored of Some x \<Rightarrow> x | None \<Rightarrow> 0)
      | None \<Rightarrow> Inr 0)"

record tcp_server =
  sv_listenfd :: int
  sv_addr :: u32
  sv_port :: int
  sv_fixed_fd :: item
  sv_sqe_flag :: int

definition tcp_server_new ::
  "bool \<Rightarrow> int \<Rightarrow> os_net \<Rightarrow> string option \<Rightarrow> int \<Rightarrow> io_state \<Rightarrow> (tcp_server \<times> io_state) res" where
  "tcp_server_new fixfd res os addr port s =
     bindE (fixed_fds_new fixfd s) (\<lambda>(it, s).
     if os_socket os = -1 then Inl Assert_Failed
     else bindE (set_fd_noblock os) (\<lambda>_.
     bindE (fill_addr os addr) (\<lambda>sin_addr.
     if os_bind os \<noteq> 0 then Inl Exit_Failure
     else if os_listen os \<noteq> 0 then Inl Exit_Failure
     else bindE (fixed_assign fixfd res it (os_socket os) 0 s) (\<lambda>((fd, fl), s).
     Inr (\<lparr>sv_listenfd = fd, sv_addr = sin_addr, sv_port = port, sv_fixed_fd = it, sv_sqe_flag = fl\<rparr>, s)))))"

definition tcp_server_accept :: "nat \<Rightarrow> int \<Rightarrow> tcp_server \<Rightarrow> io_state \<Rightarrow> io_state res" where
  "tcp_server_accept a io_flags v s = tcp_accept_awaiter_new a (sv_listenfd v) io_flags (sv_sqe_flag v) s"

record tcp_client =
  cl_clientfd :: int
  cl_addr :: u32
  cl_port :: int

definition tcp_client_new :: "os_net \<Rightarrow> string option \<Rightarrow> int \<Rightarrow> tcp_client res" where
  "tcp_client_new os addr port =
     (if os_socket os < 0 then Inl Exit_Failure
      else bindE (set_fd_noblock os) (\<lambda>_.
      bindE (fill_addr os addr) (\<lambda>sin_addr.
      Inr \<lparr>cl_clientfd = os_socket os, cl_addr = sin_addr, cl_port = port\<rparr>)))"

definition tcp_client_connect :: "nat \<Rightarrow> tcp_client \<Rightarrow> io_state \<Rightarrow> io_state res" where
  "tcp_client_connect a c s = tcp_connect_awaiter_new a (cl_clientfd c) s"

section \<open>Facts\<close>

lemma with_local_proxy_ok:
  assumes "local_engine s = Inr e" and "f (m_upxy e) = Inr (x, p)"
  shows "\<exists>s'. with_local_proxy f s = Inr (x, s') \<and> local_engine s' = Inr (e\<lparr>m_upxy := p\<rparr>)"
proof -
  obtain s' where "set_local_engine (e\<lparr>m_upxy := p\<rparr>) s = Inr s'" "local_engine s' = Inr (e\<lparr>m_upxy := p\<rparr>)"
    using set_local_engine_ok [OF assms(1), of "e\<lparr>m_upxy := p\<rparr>" 0] by blast
  then show ?thesis using assms by (simp add: with_local_proxy_def)
qed

lemma tcp_close_awaiter_new_eq:
  assumes "local_engine s = Inr e" and "length (up_sq (m_upxy e)) < sq_entries (m_upxy e)"
  shows "tcp_close_awaiter_new a fd s =
    set_local_engine (e\<lparr>m_upxy := (m_upxy e)\<lparr>up_sq := up_sq (m_upxy e) @
        [\<lparr>sqe_op = Prep_Close fd, sqe_flags = 0, sqe_data = a\<rparr>]\<rparr>,
        m_io_submit_count := m_io_submit_count e + 1\<rparr>)
      (set_info a (\<lambda>i. i\<lparr>io_type := Io_Tcp_Close, io_cb := Close_Callback\<rparr>) s)"
  using assms
  by (simp add: tcp_close_awaiter_new_def base_io_awaiter_new_def get_free_urs_def get_free_sqe_def Let_def
      upd_sqe_def sqe_prep_def sqe_set_data_def add_io_submit_def)

lemma connector_new_fixed:
  assumes e: "local_engine s = Inr e" and inv: "mb_inv lent (m_fds (m_upxy e))"
    and free: "mb_que (m_fds (m_upxy e)) = i # js"
  shows "\<exists>s'. tcp_connector_new True (int kFixFdArraySize) fd s =
      Inr (\<lparr>tc_sockfd = int i, tc_original_fd = fd, tc_fixed_fd = \<lparr>item_idx = int i, item_ptr = Some i\<rparr>,
            tc_sqe_flag = IOSQE_FIXED_FILE\<rparr>, s') \<and>
    local_engine s' = Inr (e\<lparr>m_upxy := (m_upxy e)\<lparr>m_fds :=
      \<lparr>mb_data = (mb_data (m_fds (m_upxy e)))[i := fd], mb_que = js\<rparr>\<rparr>\<rparr>)"
proof -
  let ?b = "m_fds (m_upxy e)" and ?it = "\<lparr>item_idx = int i, item_ptr = Some i\<rparr>"
  let ?p1 = "(m_upxy e)\<lparr>m_fds := ?b\<lparr>mb_que := js\<rparr>\<rparr>"
  have i: "i < length (mb_data ?b)" using mb_inv_distinct [OF inv] free by auto
  obtain s1 where s1: "fixed_fds_new True s = Inr (?it, s1)" "local_engine s1 = Inr (e\<lparr>m_upxy := ?p1\<rparr>)"
    using with_local_proxy_ok [OF e, of "\<lambda>p. Inr (get_fixed_fd True p)" ?it ?p1] free
    by (auto simp: fixed_fds_new_def get_fixed_fd_def mb_borrow_def)
  let ?p2 = "?p1\<lparr>m_fds := \<lparr>mb_data = (mb_data ?b)[i := fd], mb_que = js\<rparr>\<rparr>"
  have "\<exists>s2. fixed_assign True (int kFixFdArraySize) ?it fd 0 s1 = Inr ((int i, IOSQE_FIXED_FILE), s2) \<and>
      local_engine s2 = Inr (e\<lparr>m_upxy := ?p2\<rparr>)"
    using with_local_proxy_ok [OF s1(2), of "\<lambda>p. bindE (write_item ?it fd p) (\<lambda>p.
        bindE (update_register_fixed_fds True (int kFixFdArraySize) p) (\<lambda>p. Inr ((item_idx ?it, 0 OR IOSQE_FIXED_FILE), p)))"
        "(int i, IOSQE_FIXED_FILE)" ?p2] i
    by (simp add: fixed_assign_def item_valid_def write_item_def update_register_fixed_fds_def)
  then show ?thesis using s1(1) by (auto simp: tcp_connector_new_def)
qed

lemma connector_close_fixed:
  assumes e: "local_engine s = Inr e" and i: "i < length (mb_data (m_fds (m_upxy e)))"
    and nulls: "length (m_null_fds (m_upxy e)) = length (mb_data (m_fds (m_upxy e)))"
    and sq: "length (up_sq (m_upxy e)) < sq_entries (m_upxy e)"
  defines "b \<equiv> m_fds (m_upxy e)"
  shows "\<exists>s'. tcp_connector_close True (int kFixFdArraySize) a
      \<lparr>tc_sockfd = int i, tc_original_fd = fd, tc_fixed_fd = \<lparr>item_idx = int i, item_ptr = Some i\<rparr>, tc_sqe_flag = fl\<rparr> s =
      Inr (\<lparr>tc_sockfd = int i, tc_original_fd = fd, tc_fixed_fd = invalid_fd_item, tc_sqe_flag = fl\<rparr>, s') \<and>
    local_engine s' = Inr (e\<lparr>m_upxy := (m_upxy e)
      \<lparr>m_fds := \<lparr>mb_data = (mb_data b)[i := m_null_fds (m_upxy e) ! i], mb_que = mb_que b @ [i]\<rparr>,
       up_sq := up_sq (m_upxy e) @ [\<lparr>sqe_op = Prep_Close fd, sqe_flags = 0, sqe_data = a\<rparr>]\<rparr>,
      m_io_submit_count := m_io_submit_count e + 1\<rparr>)"
proof -
  let ?it = "\<lparr>item_idx = int i, item_ptr = Some i\<rparr>"
  let ?p1 = "(m_upxy e)\<lparr>m_fds := \<lparr>mb_data = (mb_data b)[i := m_null_fds (m_upxy e) ! i], mb_que = mb_que b @ [i]\<rparr>\<rparr>"
  obtain s1 where s1: "fixed_return_back True (int kFixFdArraySize) ?it s = Inr (invalid_fd_item, s1)"
    "local_engine s1 = Inr (e\<lparr>m_upxy := ?p1\<rparr>)"
    using with_local_proxy_ok [OF e, of "\<lambda>p. bindE (back_fixed_fd True (int kFixFdArraySize) ?it p) (\<lambda>p. Inr (item_set_invalid ?it, p))"
        invalid_fd_item ?p1] i nulls
    by (auto simp: fixed_return_back_def item_valid_def back_fixed_fd_def update_register_fixed_fds_def
        mb_return_back_def item_set_invalid_def invalid_fd_item_def b_def Let_def)
  let ?e2 = "e\<lparr>m_upxy := ?p1\<lparr>up_sq := up_sq (m_upxy e) @ [\<lparr>sqe_op = Prep_Close fd, sqe_flags = 0, sqe_data = a\<rparr>]\<rparr>,
      m_io_submit_count := m_io_submit_count e + 1\<rparr>"
  have sq1: "length (up_sq (m_upxy (e\<lparr>m_upxy := ?p1\<rparr>))) < sq_entries (m_upxy (e\<lparr>m_upxy := ?p1\<rparr>))" using sq by simp
  let ?t = "set_info a (\<lambda>i. i\<lparr>io_type := Io_Tcp_Close, io_cb := Close_Callback\<rparr>) s1"
  obtain s2 where "set_local_engine ?e2 ?t = Inr s2" "local_engine s2 = Inr ?e2"
    using set_local_engine_ok [of ?t "e\<lparr>m_upxy := ?p1\<rparr>" ?e2 0] s1(2) by auto
  then show ?thesis using s1(1) tcp_close_awaiter_new_eq [OF s1(2) sq1, of a fd] by (simp add: tcp_connector_close_def)
qed

section \<open>Properties\<close>

lemma prepared_request:
  assumes "prepares new b f op fl" "local_engine s = Inr e" "length (up_sq (m_upxy e)) < sq_entries (m_upxy e)"
  shows "\<exists>s' e'. new s = Inr s' \<and> local_engine s' = Inr e' \<and> m_fds (m_upxy e') = m_fds (m_upxy e) \<and>
    up_sq (m_upxy e') = up_sq (m_upxy e) @ [\<lparr>sqe_op = op, sqe_flags = fl, sqe_data = b\<rparr>]"
proof -
  let ?e = "e\<lparr>m_upxy := (m_upxy e)\<lparr>up_sq := up_sq (m_upxy e) @ [\<lparr>sqe_op = op, sqe_flags = fl, sqe_data = b\<rparr>]\<rparr>,
    m_io_submit_count := m_io_submit_count e + 1\<rparr>"
  have "local_engine (set_info b f s) = Inr e" using assms(2) by simp
  then obtain s' where "set_local_engine ?e (set_info b f s) = Inr s'" "local_engine s' = Inr ?e"
    by (rule set_local_engine_ok [of _ e ?e 0])
  moreover have "new s = set_local_engine ?e (set_info b f s)" using assms unfolding prepares_def by blast
  ultimately show ?thesis by (intro exI [of _ s'] exI [of _ ?e]) simp
qed

lemma connector_requests:
  assumes "local_engine s = Inr e" "length (up_sq (m_upxy e)) < sq_entries (m_upxy e)" "tc_sockfd c = fd" "tc_sqe_flag c = fl"
  shows "\<exists>s' e'. tcp_connector_read b len io_flags c s = Inr s' \<and> local_engine s' = Inr e' \<and> m_fds (m_upxy e') = m_fds (m_upxy e) \<and>
      up_sq (m_upxy e') = up_sq (m_upxy e) @ [\<lparr>sqe_op = Prep_Recv fd len io_flags, sqe_flags = fl, sqe_data = b\<rparr>]"
    "\<exists>s' e'. tcp_connector_write b len io_flags c s = Inr s' \<and> local_engine s' = Inr e' \<and> m_fds (m_upxy e') = m_fds (m_upxy e) \<and>
      up_sq (m_upxy e') = up_sq (m_upxy e) @ [\<lparr>sqe_op = Prep_Send fd len io_flags, sqe_flags = fl, sqe_data = b\<rparr>]"
  unfolding tcp_connector_read_def tcp_connector_write_def assms(3,4)
  by (rule prepared_request [OF awaiters_prepare(4) assms(1,2)] prepared_request [OF awaiters_prepare(5) assms(1,2)])+

text \<open>
  C35. A connection with a registered descriptor borrows one table slot, sends its reads and writes through it, and gives it
  back: constructing a connector for \<open>fd\<close> while slot \<open>i\<close> is the next free one puts \<open>fd\<close>
  there and answers slot \<open>i\<close> with the fixed-file flag; a read and a write then prepare a request on
  slot \<open>i\<close> with that flag, not on \<open>fd\<close>; \<open>close\<close> puts the null descriptor back,
  frees the slot, and asks the kernel to close the original descriptor, not the slot; the
  destructor then does nothing, so the slot is not returned twice.
\<close>

theorem tcp_connector_slot_lifecycle:
  assumes "local_engine s = Inr e" and "mb_inv lent (m_fds (m_upxy e))" and "mb_que (m_fds (m_upxy e)) = i # js"
    and "length (m_null_fds (m_upxy e)) = length (mb_data (m_fds (m_upxy e)))"
    and "length (up_sq (m_upxy e)) < sq_entries (m_upxy e)"
  shows "\<exists>c s1 e1 sr er sw ew c' s2 e2.
    tcp_connector_new True (int kFixFdArraySize) fd s = Inr (c, s1) \<and> local_engine s1 = Inr e1 \<and>
    tc_sockfd c = int i \<and> tc_sqe_flag c = IOSQE_FIXED_FILE \<and> mb_data (m_fds (m_upxy e1)) ! i = fd \<and>
    mb_inv (i # lent) (m_fds (m_upxy e1)) \<and>
    tcp_connector_read b len io_flags c s1 = Inr sr \<and> local_engine sr = Inr er \<and> m_fds (m_upxy er) = m_fds (m_upxy e1) \<and>
    up_sq (m_upxy er) = up_sq (m_upxy e1) @ [\<lparr>sqe_op = Prep_Recv (int i) len io_flags, sqe_flags = IOSQE_FIXED_FILE, sqe_data = b\<rparr>] \<and>
    tcp_connector_write b len io_flags c s1 = Inr sw \<and> local_engine sw = Inr ew \<and> m_fds (m_upxy ew) = m_fds (m_upxy e1) \<and>
    up_sq (m_upxy ew) = up_sq (m_upxy e1) @ [\<lparr>sqe_op = Prep_Send (int i) len io_flags, sqe_flags = IOSQE_FIXED_FILE, sqe_data = b\<rparr>] \<and>
    tcp_connector_close True (int kFixFdArraySize) a c s1 = Inr (c', s2) \<and> local_engine s2 = Inr e2 \<and>
    mb_data (m_fds (m_upxy e2)) ! i = m_null_fds (m_upxy e) ! i \<and> mb_inv lent (m_fds (m_upxy e2)) \<and>
    sqe_op (last (up_sq (m_upxy e2))) = Prep_Close fd \<and>
    tcp_connector_destroy True (int kFixFdArraySize) c' s2 = Inr s2"
proof -
  let ?b = "m_fds (m_upxy e)"
  let ?c = "\<lambda>it. \<lparr>tc_sockfd = int i, tc_original_fd = fd, tc_fixed_fd = it, tc_sqe_flag = IOSQE_FIXED_FILE\<rparr>"
  let ?it = "\<lparr>item_idx = int i, item_ptr = Some i\<rparr>"
  let ?e1 = "e\<lparr>m_upxy := (m_upxy e)\<lparr>m_fds := \<lparr>mb_data = (mb_data ?b)[i := fd], mb_que = js\<rparr>\<rparr>\<rparr>"
  have i: "i < length (mb_data ?b)" using mb_inv_distinct [OF assms(2)] assms(3) by auto
  obtain s1 where s1: "tcp_connector_new True (int kFixFdArraySize) fd s = Inr (?c ?it, s1)" "local_engine s1 = Inr ?e1"
    using connector_new_fixed [OF assms(1-3)] by blast
  have sq: "length (up_sq (m_upxy ?e1)) < sq_entries (m_upxy ?e1)" using assms(5) by simp
  obtain sr er where sr: "tcp_connector_read b len io_flags (?c ?it) s1 = Inr sr" "local_engine sr = Inr er"
    "m_fds (m_upxy er) = m_fds (m_upxy ?e1)"
    "up_sq (m_upxy er) = up_sq (m_upxy ?e1) @ [\<lparr>sqe_op = Prep_Recv (int i) len io_flags, sqe_flags = IOSQE_FIXED_FILE, sqe_data = b\<rparr>]"
    using connector_requests(1) [OF s1(2) sq, of "?c ?it" "int i" IOSQE_FIXED_FILE b len io_flags] by (simp only: tcp_connector.simps) blast
  obtain sw ew where sw: "tcp_connector_write b len io_flags (?c ?it) s1 = Inr sw" "local_engine sw = Inr ew"
    "m_fds (m_upxy ew) = m_fds (m_upxy ?e1)"
    "up_sq (m_upxy ew) = up_sq (m_upxy ?e1) @ [\<lparr>sqe_op = Prep_Send (int i) len io_flags, sqe_flags = IOSQE_FIXED_FILE, sqe_data = b\<rparr>]"
    using connector_requests(2) [OF s1(2) sq, of "?c ?it" "int i" IOSQE_FIXED_FILE b len io_flags] by (simp only: tcp_connector.simps) blast
  note close = connector_close_fixed [OF s1(2), of i a fd IOSQE_FIXED_FILE, simplified, OF i assms(4,5)]
  then obtain s2 e2 where s2: "tcp_connector_close True (int kFixFdArraySize) a (?c ?it) s1 = Inr (?c invalid_fd_item, s2)"
    "local_engine s2 = Inr e2" "m_fds (m_upxy e2) = \<lparr>mb_data = (mb_data ?b)[i := m_null_fds (m_upxy e) ! i], mb_que = js @ [i]\<rparr>"
    "sqe_op (last (up_sq (m_upxy e2))) = Prep_Close fd"
    by auto
  have invs: "mb_inv (i # lent) \<lparr>mb_data = (mb_data ?b)[i := fd], mb_que = js\<rparr>"
    "mb_inv lent \<lparr>mb_data = (mb_data ?b)[i := m_null_fds (m_upxy e) ! i], mb_que = js @ [i]\<rparr>"
    using assms(2,3) by (simp_all add: mb_inv_def)
  have destroy: "tcp_connector_destroy True (int kFixFdArraySize) (?c invalid_fd_item) s2 = Inr s2"
    by (simp add: tcp_connector_destroy_def fixed_return_back_def item_valid_def invalid_fd_item_def)
  have table: "mb_data (m_fds (m_upxy ?e1)) ! i = fd" "mb_inv (i # lent) (m_fds (m_upxy ?e1))"
    "mb_data (m_fds (m_upxy e2)) ! i = m_null_fds (m_upxy e) ! i" "mb_inv lent (m_fds (m_upxy e2))"
    using invs i s2(3) by simp_all
  have c: "tc_sockfd (?c ?it) = int i" "tc_sqe_flag (?c ?it) = IOSQE_FIXED_FILE" by simp_all
  show ?thesis using s1 c table(1,2) sr sw s2(1,2) table(3,4) s2(4) destroy by blast
qed

definition demo_fd_engine :: engine where
  "demo_fd_engine = demo_io_engine\<lparr>m_upxy := (m_upxy demo_io_engine)
     \<lparr>m_null_fds := [90, 91], m_fds := \<lparr>mb_data = [90, 91], mb_que = [0, 1]\<rparr>\<rparr>\<rparr>"

theorem tcp_connector_slot_lifecycle_witness:
  "\<exists>c s1 sr er c' s2 e2.
    tcp_connector_new True (int kFixFdArraySize) 33 (demo_io demo_fd_engine) = Inr (c, s1) \<and> tc_sockfd c = 0 \<and>
    tcp_connector_read 41 64 0 c s1 = Inr sr \<and> local_engine sr = Inr er \<and>
    last (up_sq (m_upxy er)) = \<lparr>sqe_op = Prep_Recv 0 64 0, sqe_flags = IOSQE_FIXED_FILE, sqe_data = 41\<rparr> \<and>
    tcp_connector_close True (int kFixFdArraySize) 40 c s1 = Inr (c', s2) \<and> local_engine s2 = Inr e2 \<and>
    mb_data (m_fds (m_upxy e2)) ! 0 = 90 \<and> sqe_op (last (up_sq (m_upxy e2))) = Prep_Close 33"
proof -
  have "mb_inv [] (m_fds (m_upxy demo_fd_engine))" "mb_que (m_fds (m_upxy demo_fd_engine)) = 0 # [1]"
    "length (m_null_fds (m_upxy demo_fd_engine)) = length (mb_data (m_fds (m_upxy demo_fd_engine)))"
    "length (up_sq (m_upxy demo_fd_engine)) < sq_entries (m_upxy demo_fd_engine)"
    by (simp_all add: demo_fd_engine_def demo_io_engine_def mb_inv_def)
  from tcp_connector_slot_lifecycle [OF demo_io_engine this, of 33 41 64 0 40]
  show ?thesis by (auto simp: demo_fd_engine_def)
qed

text \<open>
  A malformed address is not rejected: \<open>inet_pton\<close> reports it with 0, the constructors
  test for a negative result, and the server goes on to bind all interfaces.
\<close>

theorem tcp_server_malformed_address:
  assumes "local_engine s = Inr e" and "os_pton os str = (0, None)"
    and "os_socket os \<noteq> -1" and "0 \<le> os_getfl os" and "0 \<le> os_setfl os" and "os_bind os = 0" and "os_listen os = 0"
  shows "\<exists>v s'. tcp_server_new False res os (Some str) port s = Inr (v, s') \<and> sv_addr v = 0"
proof -
  obtain s1 where "fixed_fds_new False s = Inr (invalid_fd_item, s1)"
    using with_local_proxy_ok [OF assms(1), of "\<lambda>p. Inr (get_fixed_fd False p)" invalid_fd_item "m_upxy e"]
    by (auto simp: fixed_fds_new_def get_fixed_fd_def)
  then show ?thesis
    using assms(2-7)
    by (simp add: tcp_server_new_def set_fd_noblock_def fill_addr_def fixed_assign_def item_valid_def invalid_fd_item_def)
qed

theorem tcp_server_malformed_address_witness:
  "\<exists>v s'. tcp_server_new False 0 \<lparr>os_socket = 5, os_getfl = 2, os_setfl = 0, os_pton = (\<lambda>_. (0, None)), os_bind = 0, os_listen = 0\<rparr>
     (Some ''no address'') 8000 (demo_io demo_io_engine) = Inr (v, s') \<and> sv_addr v = 0"
  by (rule tcp_server_malformed_address [OF demo_io_engine]) simp_all

end
