(* ===== verification/Container.thy ===== *)
theory Container
  imports Prelude
begin

text \<open>
  \<open>coro/detail/container.hpp\<close>: where a promise keeps what its coroutine returned. The
  general container is a \<open>std::variant\<close>; a reference is stored as the address of the
  object it names, so that \<open>'a\<close> is the stored type in both cases, and the three
  qualified versions of \<open>result\<close> differ only in the value category they answer. The container
  for plain data is a union with a state tag; reading or assigning a member of a union that
  is not the active one is a fault. An exception is represented by its message.
\<close>

section \<open>The general container\<close>

datatype 'a storage = Unset_Return_Value | Stored 'a | Exception_Ptr string

definition unset_message :: string where
  "unset_message = ''The return value was never set, did you execute the coroutine?''"

definition container_new :: "'a storage" where
  "container_new = Unset_Return_Value"

definition container_return_value :: "'a \<Rightarrow> 'a storage \<Rightarrow> 'a storage" where
  "container_return_value v s = Stored v"

definition container_result_lvalue :: "'a storage \<Rightarrow> 'a res" where
  "container_result_lvalue s =
     (case s of
        Stored v \<Rightarrow> Inr v
      | Exception_Ptr e \<Rightarrow> Inl (Thrown e)
      | Unset_Return_Value \<Rightarrow> Inl (Thrown unset_message))"

definition container_result_const :: "'a storage \<Rightarrow> 'a res" where
  "container_result_const s =
     (case s of
        Stored v \<Rightarrow> Inr v
      | Exception_Ptr e \<Rightarrow> Inl (Thrown e)
      | Unset_Return_Value \<Rightarrow> Inl (Thrown unset_message))"

definition container_result_rvalue :: "'a storage \<Rightarrow> 'a res" where
  "container_result_rvalue s =
     (case s of
        Stored v \<Rightarrow> Inr v
      | Exception_Ptr e \<Rightarrow> Inl (Thrown e)
      | Unset_Return_Value \<Rightarrow> Inl (Thrown unset_message))"

definition container_set_exception :: "string \<Rightarrow> 'a storage \<Rightarrow> 'a storage" where
  "container_set_exception e s = Exception_Ptr e"

definition container_value_ready :: "'a storage \<Rightarrow> bool" where
  "container_value_ready s = (case s of Stored _ \<Rightarrow> True | _ \<Rightarrow> False)"

definition container_value_exception :: "'a storage \<Rightarrow> bool" where
  "container_value_exception s = (case s of Exception_Ptr _ \<Rightarrow> True | _ \<Rightarrow> False)"

definition container_value_unset :: "'a storage \<Rightarrow> bool" where
  "container_value_unset s \<longleftrightarrow> \<not> container_value_ready s \<and> \<not> container_value_exception s"

section \<open>The container for plain data\<close>

datatype value_state = Vs_None | Vs_Value | Vs_Exception

text \<open>\<open>No_Member\<close> is the union as the constructor leaves it, with no member initialised.\<close>

datatype 'a pod_union = No_Member | Pod_Value 'a | Pod_Exception string

record 'a pod_container =
  pod_union :: "'a pod_union"
  pod_state :: value_state

definition pod_new :: "'a pod_container" where
  "pod_new = \<lparr>pod_union = No_Member, pod_state = Vs_None\<rparr>"

text \<open>Assigning to a member of trivial type starts its lifetime.\<close>

definition pod_return_value :: "'a \<Rightarrow> 'a pod_container \<Rightarrow> 'a pod_container" where
  "pod_return_value v c = c\<lparr>pod_union := Pod_Value v, pod_state := Vs_Value\<rparr>"

text \<open>\<open>dflt\<close> is the value \<open>T{}\<close>. The function is \<open>noexcept\<close>.\<close>

definition pod_result :: "'a \<Rightarrow> 'a pod_container \<Rightarrow> 'a res" where
  "pod_result dflt c =
     (case pod_state c of
        Vs_Value \<Rightarrow> (case pod_union c of Pod_Value v \<Rightarrow> Inr v | _ \<Rightarrow> Inl Inactive_Member)
      | Vs_Exception \<Rightarrow> (case pod_union c of Pod_Exception e \<Rightarrow> Inl Terminate | _ \<Rightarrow> Inl Inactive_Member)
      | Vs_None \<Rightarrow> Inr dflt)"

text \<open>
  The assignment is a call of the assignment operator of \<open>exception_ptr\<close>, which needs
  an object to assign to.
\<close>

definition pod_set_exception :: "string \<Rightarrow> 'a pod_container \<Rightarrow> 'a pod_container res" where
  "pod_set_exception e c =
     (case pod_union c of
        Pod_Exception _ \<Rightarrow> Inr (c\<lparr>pod_union := Pod_Exception e, pod_state := Vs_Exception\<rparr>)
      | _ \<Rightarrow> Inl Inactive_Member)"

definition pod_destroy :: "'a pod_container \<Rightarrow> unit res" where
  "pod_destroy c =
     (if pod_state c = Vs_Exception
      then case pod_union c of Pod_Exception e \<Rightarrow> Inr () | _ \<Rightarrow> Inl Inactive_Member
      else Inr ())"

definition pod_value_ready :: "'a pod_container \<Rightarrow> bool" where
  "pod_value_ready c = (pod_state c = Vs_Value)"

definition pod_value_exception :: "'a pod_container \<Rightarrow> bool" where
  "pod_value_exception c = (pod_state c = Vs_Exception)"

definition pod_value_unset :: "'a pod_container \<Rightarrow> bool" where
  "pod_value_unset c = (pod_state c = Vs_None)"

lemmas container_defs [coro_simps] =
  container_new_def container_return_value_def container_result_lvalue_def container_result_const_def
  container_result_rvalue_def container_set_exception_def container_value_ready_def
  container_value_exception_def container_value_unset_def

lemmas pod_defs [coro_simps] =
  pod_new_def pod_return_value_def pod_result_def pod_set_exception_def pod_destroy_def
  pod_value_ready_def pod_value_exception_def pod_value_unset_def

section \<open>What a container promises\<close>

text \<open>
  The contract of a result slot, for a representation type \<open>'c\<close>: what has been stored
  last comes back, and exactly one of the three queries holds.
\<close>

locale result_slot =
  fixes store :: "'a \<Rightarrow> 'c \<Rightarrow> 'c" and fetch :: "'c \<Rightarrow> 'a res"
    and ready :: "'c \<Rightarrow> bool" and failed :: "'c \<Rightarrow> bool" and unset :: "'c \<Rightarrow> bool" and valid :: "'c \<Rightarrow> bool"
  assumes store_valid: "valid c \<Longrightarrow> valid (store v c)"
    and fetch_store: "valid c \<Longrightarrow> fetch (store v c) = Inr v"
    and store_ready: "valid c \<Longrightarrow> ready (store v c)"
    and one_state: "valid c \<Longrightarrow> (ready c \<and> \<not> failed c \<and> \<not> unset c) \<or> (\<not> ready c \<and> failed c \<and> \<not> unset c) \<or>
          (\<not> ready c \<and> \<not> failed c \<and> unset c)"
    and ready_fetch: "valid c \<Longrightarrow> ready c \<Longrightarrow> \<exists>v. fetch c = Inr v"
begin

lemma last_store_wins:
  assumes "valid c" and "vs \<noteq> []"
  shows "fetch (fold store vs c) = Inr (last vs) \<and> ready (fold store vs c) \<and> \<not> unset (fold store vs c)"
  using assms
proof (induction vs arbitrary: c)
  case (Cons v vs)
  show ?case
  proof (cases "vs = []")
    case True
    then show ?thesis
      using Cons.prems fetch_store store_ready store_valid one_state [of "store v c"] by auto
  next
    case False
    then show ?thesis using Cons.IH [of "store v c"] Cons.prems store_valid by simp
  qed
qed simp

end

definition pod_ok :: "'a pod_container \<Rightarrow> bool" where
  [inv_defs]: "pod_ok c \<longleftrightarrow>
     (pod_state c = Vs_Value \<longrightarrow> (\<exists>v. pod_union c = Pod_Value v)) \<and>
     (pod_state c = Vs_Exception \<longrightarrow> (\<exists>e. pod_union c = Pod_Exception e))"

interpretation gen: result_slot container_return_value container_result_lvalue
  container_value_ready container_value_exception container_value_unset "\<lambda>_. True"
  by unfold_locales (auto simp: container_defs split: storage.splits)

interpretation pod: result_slot pod_return_value "pod_result dflt"
  pod_value_ready pod_value_exception pod_value_unset pod_ok for dflt
proof unfold_locales
  fix c :: "'a pod_container"
  show "pod_value_ready c \<and> \<not> pod_value_exception c \<and> \<not> pod_value_unset c \<or>
      \<not> pod_value_ready c \<and> pod_value_exception c \<and> \<not> pod_value_unset c \<or>
      \<not> pod_value_ready c \<and> \<not> pod_value_exception c \<and> pod_value_unset c"
    by (cases "pod_state c") (simp_all add: pod_defs)
qed (auto simp: pod_defs pod_ok_def)

lemma pod_new_ok: "pod_ok pod_new"
  by (simp add: pod_ok_def pod_new_def)

section \<open>Properties\<close>

text \<open>
  C32. Results round-trip through both containers: after any non-empty sequence of
  \<open>return_value\<close> calls on a fresh container, \<open>result\<close> answers the last value, on the
  variant in all three qualifications; a stored exception is rethrown; a container that
  was never filled throws the documented \<open>runtime_error\<close>.
\<close>

theorem container_roundtrip:
  fixes vs :: "'a list"
  assumes "vs \<noteq> []"
  shows "container_result_lvalue (fold container_return_value vs container_new) = Inr (last vs) \<and>
    container_result_const (fold container_return_value vs container_new) = Inr (last vs) \<and>
    container_result_rvalue (fold container_return_value vs container_new) = Inr (last vs) \<and>
    pod_result dflt (fold pod_return_value vs pod_new) = Inr (last vs) \<and>
    container_result_lvalue (container_set_exception e (fold container_return_value vs container_new)) = Inl (Thrown e) \<and>
    container_result_lvalue (container_new :: 'a storage) = Inl (Thrown unset_message)"
proof -
  have "container_result_const s = container_result_lvalue s" "container_result_rvalue s = container_result_lvalue s"
    for s :: "'a storage" by (simp_all add: container_defs)
  then show ?thesis
    using gen.last_store_wins [OF TrueI assms] pod.last_store_wins [OF pod_new_ok assms]
    by (simp add: container_set_exception_def) (simp add: container_defs)
qed

theorem container_roundtrip_witness:
  "container_result_lvalue (fold container_return_value [3, 5 :: int] container_new) = Inr 5 \<and>
   pod_result 0 (fold pod_return_value [3, 5 :: int] pod_new) = Inr 5"
  using container_roundtrip [of "[3, 5 :: int]" 0 "''x''"] by simp

text \<open>
  Exceptions do not work with the container for plain data: \<open>set_exception\<close> on a container
  that holds no exception, fresh or filled, assigns to a union member that is not alive, and
  where an exception is stored, \<open>result\<close>, being \<open>noexcept\<close>, terminates the program
  instead of rethrowing it.
\<close>

theorem pod_exception_unusable:
  "pod_set_exception e pod_new = Inl Inactive_Member \<and>
   pod_set_exception e (pod_return_value v c) = Inl Inactive_Member \<and>
   pod_result dflt \<lparr>pod_union = Pod_Exception e, pod_state = Vs_Exception\<rparr> = Inl Terminate"
  by (simp add: pod_defs)

end
