(* ===== verification/Task.thy ===== *)
theory Task
  imports Container Runtime
begin

text \<open>
  \<open>coro/task.hpp\<close>: promises, tasks and the release of coroutine frames. The coroutine
  frames are a partial map from addresses to promises, with the flag that \<open>done()\<close> reads;
  using an address that is not in its domain is a use after free. A \<open>task\<close> object is its
  member \<open>m_coroutine\<close>, none for a null handle. Resuming a coroutine runs its body, which is
  the user's: it is an argument of the operations that do so.
\<close>

section \<open>Frames and promises\<close>

text \<open>
  What a promise keeps its result in: \<open>promise<T>\<close> is a \<open>container<T>\<close>, the general one or the one
  for plain data \<open>T\<close>, of which the value \<open>T{}\<close> is given; \<open>promise<void>\<close> has an exception pointer only. All
  results of a program have one type \<open>'a\<close> here, in which \<open>u\<close> of \<open>Void u\<close> stands for the result of a \<open>void\<close> task.
\<close>

datatype 'a result_kind = General | Plain 'a | Void 'a

datatype 'a promise_store =
    In_Variant "'a storage"
  | In_Union 'a "'a pod_container"
  | In_Void 'a "string option"

fun promise_store_new :: "'a result_kind \<Rightarrow> 'a promise_store" where
  "promise_store_new General = In_Variant container_new"
| "promise_store_new (Plain d) = In_Union d pod_new"
| "promise_store_new (Void u) = In_Void u None"

record 'a frame =
  fr_parent :: "handle option"
  fr_detached :: bool
  fr_done :: bool
  fr_storage :: "'a promise_store"

type_synonym 'a frames = "handle \<Rightarrow> 'a frame option"
type_synonym task = "handle option"

definition promise_new :: "'a result_kind \<Rightarrow> 'a frame" where
  "promise_new K = \<lparr>fr_parent = None, fr_detached = False, fr_done = False, fr_storage = promise_store_new K\<rparr>"

definition get_return_object :: "handle \<Rightarrow> task" where
  "get_return_object h = Some h"

definition initial_suspend_ready :: bool where
  "initial_suspend_ready = False"

definition final_await_ready :: bool where
  "final_await_ready = False"

definition with_frame :: "handle \<Rightarrow> 'a frames \<Rightarrow> ('a frame \<Rightarrow> 'b res) \<Rightarrow> 'b res" where
  "with_frame h fs k = (case fs h of None \<Rightarrow> Inl Use_After_Free | Some f \<Rightarrow> k f)"

definition final_await_suspend :: "handle \<Rightarrow> 'a frames \<Rightarrow> handle res" where
  "final_await_suspend h fs =
     with_frame h fs (\<lambda>f. case fr_parent f of Some parent \<Rightarrow> Inr parent | None \<Rightarrow> Inl Missing_Return)"

text \<open>The members of \<open>promise<void>\<close>.\<close>

definition void_unhandled_exception :: "string \<Rightarrow> string option \<Rightarrow> string option" where
  "void_unhandled_exception e m_exception_ptr = Some e"

definition void_result :: "string option \<Rightarrow> unit res" where
  "void_result m_exception_ptr = (case m_exception_ptr of Some e \<Rightarrow> Inl (Thrown e) | None \<Rightarrow> Inr ())"

text \<open>\<open>return_value\<close> or, in \<open>promise<void>\<close>, \<open>return_void\<close>, and \<open>unhandled_exception\<close>.\<close>

fun store_value :: "'a \<Rightarrow> 'a promise_store \<Rightarrow> 'a promise_store" where
  "store_value v (In_Variant s) = In_Variant (container_return_value v s)"
| "store_value v (In_Union d c) = In_Union d (pod_return_value v c)"
| "store_value v (In_Void u p) = In_Void u p"

fun store_exception :: "string \<Rightarrow> 'a promise_store \<Rightarrow> 'a promise_store res" where
  "store_exception e (In_Variant s) = Inr (In_Variant (container_set_exception e s))"
| "store_exception e (In_Union d c) = bindE (pod_set_exception e c) (\<lambda>c. Inr (In_Union d c))"
| "store_exception e (In_Void u p) = Inr (In_Void u (void_unhandled_exception e p))"

definition promise_return_value :: "'a \<Rightarrow> 'a frame \<Rightarrow> 'a frame" where
  "promise_return_value v f = f\<lparr>fr_storage := store_value v (fr_storage f)\<rparr>"

definition promise_unhandled_exception :: "string \<Rightarrow> 'a frame \<Rightarrow> 'a frame res" where
  "promise_unhandled_exception e f = bindE (store_exception e (fr_storage f)) (\<lambda>st. Inr (f\<lparr>fr_storage := st\<rparr>))"

text \<open>\<open>result()\<close> of the promise, as an lvalue and as an rvalue.\<close>

fun promise_result_lvalue :: "'a promise_store \<Rightarrow> 'a res" where
  "promise_result_lvalue (In_Variant s) = container_result_lvalue s"
| "promise_result_lvalue (In_Union d c) = pod_result d c"
| "promise_result_lvalue (In_Void u p) = bindE (void_result p) (\<lambda>_. Inr u)"

fun promise_result_rvalue :: "'a promise_store \<Rightarrow> 'a res" where
  "promise_result_rvalue (In_Variant s) = container_result_rvalue s"
| "promise_result_rvalue (In_Union d c) = pod_result d c"
| "promise_result_rvalue (In_Void u p) = bindE (void_result p) (\<lambda>_. Inr u)"

section \<open>Tasks\<close>

definition frame_destroy :: "handle \<Rightarrow> 'a frames \<Rightarrow> 'a frames res" where
  "frame_destroy h fs = with_frame h fs (\<lambda>_. Inr (fs(h := None)))"

definition frame_done :: "handle \<Rightarrow> 'a frames \<Rightarrow> bool res" where
  "frame_done h fs = with_frame h fs (\<lambda>f. Inr (fr_done f))"

definition task_null :: task where
  "task_null = None"

text \<open>The new object and what is left in \<open>other\<close>.\<close>

definition task_move :: "task \<Rightarrow> task \<times> task" where
  "task_move other = (other, None)"

definition task_destruct :: "task \<Rightarrow> 'a frames \<Rightarrow> 'a frames res" where
  "task_destruct t fs = (case t of Some h \<Rightarrow> frame_destroy h fs | None \<Rightarrow> Inr fs)"

text \<open>\<open>same\<close>: the two operands are the same object. The result is the target, the source and the frames.\<close>

definition task_move_assign :: "bool \<Rightarrow> task \<Rightarrow> task \<Rightarrow> 'a frames \<Rightarrow> (task \<times> task \<times> 'a frames) res" where
  "task_move_assign same t other fs =
     (if \<not> same
      then bindE (case t of Some h \<Rightarrow> frame_destroy h fs | None \<Rightarrow> Inr fs) (\<lambda>fs. Inr (other, None, fs))
      else Inr (t, other, fs))"

definition task_is_ready :: "task \<Rightarrow> 'a frames \<Rightarrow> bool res" where
  "task_is_ready t fs = (case t of None \<Rightarrow> Inr True | Some h \<Rightarrow> frame_done h fs)"

definition task_resume ::
  "(handle \<Rightarrow> 'a frames \<Rightarrow> 'a frames res) \<Rightarrow> task \<Rightarrow> 'a frames \<Rightarrow> (bool \<times> 'a frames) res" where
  "task_resume run t fs =
     (case t of
        None \<Rightarrow> Inl Null_Deref
      | Some h \<Rightarrow>
          bindE (frame_done h fs) (\<lambda>d.
          bindE (if \<not> d then run h fs else Inr fs) (\<lambda>fs.
          bindE (frame_done h fs) (\<lambda>d. Inr (\<not> d, fs)))))"

definition task_destroy :: "task \<Rightarrow> 'a frames \<Rightarrow> (bool \<times> task \<times> 'a frames) res" where
  "task_destroy t fs =
     (case t of Some h \<Rightarrow> bindE (frame_destroy h fs) (\<lambda>fs. Inr (True, None, fs)) | None \<Rightarrow> Inr (False, t, fs))"

definition task_detach :: "task \<Rightarrow> 'a frames \<Rightarrow> (task \<times> 'a frames) res" where
  "task_detach t fs =
     (case t of
        None \<Rightarrow> Inl Null_Deref
      | Some h \<Rightarrow> with_frame h fs (\<lambda>f. Inr (None, fs(h \<mapsto> f\<lparr>fr_detached := True\<rparr>))))"

definition task_handle_lvalue :: "task \<Rightarrow> task" where
  "task_handle_lvalue t = t"

text \<open>The handle and what is left in the object.\<close>

definition task_handle_rvalue :: "task \<Rightarrow> task \<times> task" where
  "task_handle_rvalue t = (t, None)"

definition clean :: "handle \<Rightarrow> 'a frames \<Rightarrow> 'a frames res" where
  "clean h fs = with_frame h fs (\<lambda>f. if fr_detached f then frame_destroy h fs else Inr fs)"

section \<open>Awaiting a task\<close>

definition task_await_ready :: "task \<Rightarrow> 'a frames \<Rightarrow> bool res" where
  "task_await_ready t fs = (case t of None \<Rightarrow> Inr True | Some h \<Rightarrow> frame_done h fs)"

text \<open>The answer is the coroutine that runs next.\<close>

definition task_await_suspend :: "task \<Rightarrow> handle \<Rightarrow> 'a frames \<Rightarrow> (handle \<times> 'a frames) res" where
  "task_await_suspend t awaiting fs =
     (case t of
        None \<Rightarrow> Inl Null_Deref
      | Some h \<Rightarrow> with_frame h fs (\<lambda>f. Inr (h, fs(h \<mapsto> f\<lparr>fr_parent := Some awaiting\<rparr>))))"

definition task_await_resume_lvalue :: "task \<Rightarrow> 'a frames \<Rightarrow> 'a res" where
  "task_await_resume_lvalue t fs =
     (case t of None \<Rightarrow> Inl Null_Deref | Some h \<Rightarrow> with_frame h fs (\<lambda>f. promise_result_lvalue (fr_storage f)))"

definition task_await_resume_rvalue :: "task \<Rightarrow> 'a frames \<Rightarrow> 'a res" where
  "task_await_resume_rvalue t fs =
     (case t of None \<Rightarrow> Inl Null_Deref | Some h \<Rightarrow> with_frame h fs (\<lambda>f. promise_result_rvalue (fr_storage f)))"

section \<open>Handing a task to a context or to the scheduler\<close>

definition submit_rvalue ::
  "(handle \<Rightarrow> 'w \<Rightarrow> 'w res) \<Rightarrow> task \<Rightarrow> 'a frames \<times> 'w \<Rightarrow> (task \<times> 'a frames \<times> 'w) res" where
  "submit_rvalue submit t = (\<lambda>(fs, w).
     let handle = task_handle_lvalue t in
     bindE (task_detach t fs) (\<lambda>(t', fs').
     case handle of None \<Rightarrow> Inl Null_Deref
     | Some h \<Rightarrow> bindE (submit h w) (\<lambda>w'. Inr (t', fs', w'))))"

definition context_submit_rvalue :: "task \<Rightarrow> 'a frames \<times> world \<Rightarrow> (task \<times> 'a frames \<times> world) res" where
  "context_submit_rvalue t = submit_rvalue submit_to_context t"

definition scheduler_submit_rvalue :: "task \<Rightarrow> 'a frames \<times> world \<Rightarrow> (task \<times> 'a frames \<times> world) res" where
  "scheduler_submit_rvalue t = submit_rvalue submit_to_scheduler t"

text \<open>The overloads for a task that its owner keeps: only the handle is handed over.\<close>

definition submit_lvalue ::
  "(handle \<Rightarrow> 'w \<Rightarrow> 'w res) \<Rightarrow> task \<Rightarrow> 'w \<Rightarrow> 'w res" where
  "submit_lvalue submit t w = (case task_handle_lvalue t of None \<Rightarrow> Inl Null_Deref | Some h \<Rightarrow> submit h w)"

definition context_submit_lvalue :: "task \<Rightarrow> world \<Rightarrow> world res" where
  "context_submit_lvalue t = submit_lvalue submit_to_context t"

definition scheduler_submit_lvalue :: "task \<Rightarrow> world \<Rightarrow> world res" where
  "scheduler_submit_lvalue t = submit_lvalue submit_to_scheduler t"

lemmas task_defs [coro_simps] =
  with_frame_def frame_destroy_def frame_done_def task_move_def task_destruct_def
  task_move_assign_def task_destroy_def task_detach_def clean_def

section \<open>Ownership\<close>

text \<open>
  All task objects of a program, by name: \<open>None\<close> for a name that is not in use. \<open>ts_raw\<close> are the
  handles given away by \<open>handle()\<close> on an rvalue, for which nobody is responsible.
\<close>

record 'a task_sys =
  ts_tasks :: "nat \<Rightarrow> task option"
  ts_frames :: "'a frames"
  ts_raw :: "handle set"

definition task_sys_init :: "'a task_sys" where
  "task_sys_init = \<lparr>ts_tasks = (\<lambda>_. None), ts_frames = (\<lambda>_. None), ts_raw = {}\<rparr>"

inductive task_step :: "'a task_sys \<Rightarrow> 'a task_sys \<Rightarrow> bool" where
  create: "ts_tasks s x = None \<Longrightarrow> ts_frames s h = None \<Longrightarrow> h \<notin> ts_raw s \<Longrightarrow>
    task_step s (s\<lparr>ts_tasks := (ts_tasks s)(x \<mapsto> get_return_object h), ts_frames := (ts_frames s)(h \<mapsto> promise_new K)\<rparr>)"
| default: "ts_tasks s x = None \<Longrightarrow> task_step s (s\<lparr>ts_tasks := (ts_tasks s)(x \<mapsto> task_null)\<rparr>)"
| move: "ts_tasks s x = None \<Longrightarrow> ts_tasks s y = Some other \<Longrightarrow> task_move other = (t, other') \<Longrightarrow>
    task_step s (s\<lparr>ts_tasks := (ts_tasks s)(y \<mapsto> other', x \<mapsto> t)\<rparr>)"
| assign: "ts_tasks s x = Some t \<Longrightarrow> ts_tasks s y = Some other \<Longrightarrow>
    task_move_assign (x = y) t other (ts_frames s) = Inr (t', other', fs) \<Longrightarrow>
    task_step s (s\<lparr>ts_tasks := (ts_tasks s)(y \<mapsto> other', x \<mapsto> t'), ts_frames := fs\<rparr>)"
| destruct: "ts_tasks s x = Some t \<Longrightarrow> task_destruct t (ts_frames s) = Inr fs \<Longrightarrow>
    task_step s (s\<lparr>ts_tasks := (ts_tasks s)(x := None), ts_frames := fs\<rparr>)"
| destroy: "ts_tasks s x = Some t \<Longrightarrow> task_destroy t (ts_frames s) = Inr (r, t', fs) \<Longrightarrow>
    task_step s (s\<lparr>ts_tasks := (ts_tasks s)(x \<mapsto> t'), ts_frames := fs\<rparr>)"
| detach: "ts_tasks s x = Some t \<Longrightarrow> task_detach t (ts_frames s) = Inr (t', fs) \<Longrightarrow>
    task_step s (s\<lparr>ts_tasks := (ts_tasks s)(x \<mapsto> t'), ts_frames := fs\<rparr>)"
| release: "ts_tasks s x = Some t \<Longrightarrow> task_handle_rvalue t = (hdl, t') \<Longrightarrow>
    task_step s (s\<lparr>ts_tasks := (ts_tasks s)(x \<mapsto> t'), ts_raw := ts_raw s \<union> set_option hdl\<rparr>)"
| run: "ts_frames s h = Some f \<Longrightarrow> fr_detached f' = fr_detached f \<Longrightarrow>
    task_step s (s\<lparr>ts_frames := (ts_frames s)(h \<mapsto> f')\<rparr>)"
| clean_up: "ts_frames s h = Some f \<Longrightarrow> fr_done f \<Longrightarrow> clean h (ts_frames s) = Inr fs \<Longrightarrow>
    task_step s (s\<lparr>ts_frames := fs\<rparr>)"

inductive task_reach :: "'a task_sys \<Rightarrow> bool" where
  init: "task_reach task_sys_init"
| step: "task_reach s \<Longrightarrow> task_step s t \<Longrightarrow> task_reach t"

definition task_inv :: "'a task_sys \<Rightarrow> bool" where
  [inv_defs]: "task_inv s \<longleftrightarrow>
     (\<forall>x y h. ts_tasks s x = Some (Some h) \<longrightarrow> ts_tasks s y = Some (Some h) \<longrightarrow> x = y) \<and>
     (\<forall>x h. ts_tasks s x = Some (Some h) \<longrightarrow> (\<exists>f. ts_frames s h = Some f \<and> \<not> fr_detached f) \<and> h \<notin> ts_raw s) \<and>
     (\<forall>h f. ts_frames s h = Some f \<longrightarrow> (\<exists>x. ts_tasks s x = Some (Some h)) \<or> fr_detached f \<or> h \<in> ts_raw s)"

text \<open>
  The ways the invariant changes: a frame and its owner appear together, an owner
  changes its name, a frame disappears together with its owner.
\<close>

definition owns :: "'a task_sys \<Rightarrow> nat \<Rightarrow> handle \<Rightarrow> bool" where
  "owns s x h \<longleftrightarrow> ts_tasks s x = Some (Some h)"

lemma task_inv_owns:
  "task_inv s \<longleftrightarrow>
     (\<forall>x y h. owns s x h \<longrightarrow> owns s y h \<longrightarrow> x = y) \<and>
     (\<forall>x h. owns s x h \<longrightarrow> (\<exists>f. ts_frames s h = Some f \<and> \<not> fr_detached f) \<and> h \<notin> ts_raw s) \<and>
     (\<forall>h f. ts_frames s h = Some f \<longrightarrow> (\<exists>x. owns s x h) \<or> fr_detached f \<or> h \<in> ts_raw s)"
  by (simp add: task_inv_def owns_def)

lemma task_invI:
  assumes "\<And>x y h. owns s x h \<Longrightarrow> owns s y h \<Longrightarrow> x = y"
    and "\<And>x h. owns s x h \<Longrightarrow> (\<exists>f. ts_frames s h = Some f \<and> \<not> fr_detached f) \<and> h \<notin> ts_raw s"
    and "\<And>h f. ts_frames s h = Some f \<Longrightarrow> (\<exists>x. owns s x h) \<or> fr_detached f \<or> h \<in> ts_raw s"
  shows "task_inv s"
  using assms unfolding task_inv_owns by blast

lemma task_invD:
  assumes "task_inv s"
  shows "owns s x h \<Longrightarrow> owns s y h \<Longrightarrow> x = y"
    and "owns s x h \<Longrightarrow> \<exists>f. ts_frames s h = Some f \<and> \<not> fr_detached f"
    and "owns s x h \<Longrightarrow> h \<notin> ts_raw s"
    and "ts_frames s h = Some f \<Longrightarrow> (\<exists>x. owns s x h) \<or> fr_detached f \<or> h \<in> ts_raw s"
  using assms unfolding task_inv_owns by blast+

text \<open>A step that keeps frames and raw handles and moves the ownership along an injection.\<close>

lemma task_inv_rename:
  assumes "task_inv s" and "\<And>z h. owns s' z h \<longleftrightarrow> (\<exists>y. owns s y h \<and> z = \<pi> y)"
    and "ts_frames s' = ts_frames s" and "ts_raw s' = ts_raw s"
  shows "task_inv s'"
proof (rule task_invI)
  note d = task_invD [OF assms(1)]
  show "x = y" if "owns s' x h" "owns s' y h" for x y h
    using that d(1) unfolding assms(2) by blast
  show "(\<exists>f. ts_frames s' h = Some f \<and> \<not> fr_detached f) \<and> h \<notin> ts_raw s'" if "owns s' x h" for x h
    using that d(2,3) unfolding assms(2-4) by blast
  show "(\<exists>x. owns s' x h) \<or> fr_detached f \<or> h \<in> ts_raw s'" if "ts_frames s' h = Some f" for h f
    using that d(4) unfolding assms(2-4) by blast
qed

lemma task_inv_unowned:
  assumes "task_inv s" and "ts_tasks s x = Some None \<or> ts_tasks s x = None" and "t = None \<or> t = Some None"
  shows "task_inv (s\<lparr>ts_tasks := (ts_tasks s)(x := t)\<rparr>)"
  using assms by (intro task_inv_rename [OF assms(1), where \<pi> = id]) (auto simp: owns_def)

lemma task_inv_move:
  assumes "task_inv s" and "ts_tasks s x = None \<or> ts_tasks s x = Some None" and "ts_tasks s y = Some other"
  shows "task_inv (s\<lparr>ts_tasks := (ts_tasks s)(y \<mapsto> None, x \<mapsto> other)\<rparr>)"
  using assms by (intro task_inv_rename [OF assms(1), where \<pi> = "id(y := x)"]) (auto simp: owns_def)

text \<open>The owner of a frame gives it up: the frame is destroyed, detached or made raw.\<close>

lemma task_inv_give_up:
  assumes "task_inv s" and "ts_tasks s x = Some (Some h)" and "t = None \<or> t = Some None"
    and "fo = None \<and> r = ts_raw s \<or> (\<exists>f. fo = Some f \<and> fr_detached f \<and> r = ts_raw s) \<or> r = insert h (ts_raw s) \<and> fo = ts_frames s h"
  shows "task_inv (s\<lparr>ts_tasks := (ts_tasks s)(x := t), ts_frames := (ts_frames s)(h := fo), ts_raw := r\<rparr>)"
    (is "task_inv ?s")
proof (rule task_invI)
  note d = task_invD [OF assms(1)]
  have own: "owns ?s z g \<longleftrightarrow> z \<noteq> x \<and> owns s z g" for z g using assms(3) by (auto simp: owns_def)
  have x: "owns s x g \<longleftrightarrow> h = g" for g using assms(2) by (simp add: owns_def)
  show "y = z" if "owns ?s y g" "owns ?s z g" for y z g using that d(1) unfolding own by blast
  have ne: "g \<noteq> h" if "owns ?s y g" for y g using that d(1) x by (auto simp: own)
  show "(\<exists>f. ts_frames ?s g = Some f \<and> \<not> fr_detached f) \<and> g \<notin> ts_raw ?s" if "owns ?s y g" for y g
    using ne [OF that] that d(2,3) assms(4) by (auto simp: own)
  show "(\<exists>y. owns ?s y g) \<or> fr_detached f \<or> g \<in> ts_raw ?s" if "ts_frames ?s g = Some f" for g f
  proof (cases "g = h")
    case True
    then show ?thesis using that assms(4) by auto
  next
    case False
    then have g: "(\<exists>y. owns s y g) \<or> fr_detached f \<or> g \<in> ts_raw s" using that d(4) [of g f] by simp
    have "(\<exists>y. owns s y g) \<Longrightarrow> (\<exists>y. owns ?s y g)" using x [of g] False unfolding own by metis
    moreover have "ts_raw s \<subseteq> ts_raw ?s" using assms(4) by auto
    ultimately show ?thesis using g by blast
  qed
qed

lemma task_inv_create:
  assumes "task_inv s" and "ts_tasks s x = None" and "ts_frames s h = None" and "h \<notin> ts_raw s"
  shows "task_inv (s\<lparr>ts_tasks := (ts_tasks s)(x \<mapsto> Some h), ts_frames := (ts_frames s)(h \<mapsto> promise_new K)\<rparr>)"
    (is "task_inv ?s")
proof (rule task_invI)
  note d = task_invD [OF assms(1)]
  have own: "owns ?s z g \<longleftrightarrow> (if z = x then g = h else owns s z g)" for z g by (auto simp: owns_def)
  have h: "\<not> owns s z h" for z using d(2) assms(3) by fastforce
  show "y = z" if "owns ?s y g" "owns ?s z g" for y z g using that d(1) h by (auto simp: own split: if_splits)
  show "(\<exists>f. ts_frames ?s g = Some f \<and> \<not> fr_detached f) \<and> g \<notin> ts_raw ?s" if "owns ?s y g" for y g
    using that [unfolded own] d(2,3) [of y g] h [of y] assms(4)
    by (cases "y = x") (auto simp: promise_new_def)
  have x: "\<not> owns s x g" for g using assms(2) by (simp add: owns_def)
  show "(\<exists>y. owns ?s y g) \<or> fr_detached f \<or> g \<in> ts_raw ?s" if "ts_frames ?s g = Some f" for g f
  proof (cases "g = h")
    case True
    then show ?thesis unfolding own by (intro disjI1 exI [of _ x]) simp
  next
    case False
    then have g: "(\<exists>y. owns s y g) \<or> fr_detached f \<or> g \<in> ts_raw s" using that d(4) [of g f] by simp
    have "(\<exists>y. owns s y g) \<Longrightarrow> (\<exists>y. owns ?s y g)" using x [of g] unfolding own by metis
    then show ?thesis using g by auto
  qed
qed

lemma task_inv_run:
  assumes "task_inv s" and "ts_frames s h = Some f" and "fr_detached f' = fr_detached f"
  shows "task_inv (s\<lparr>ts_frames := (ts_frames s)(h \<mapsto> f')\<rparr>)"
proof (rule task_invI)
  note d = task_invD [OF assms(1)]
  let ?s = "s\<lparr>ts_frames := (ts_frames s)(h \<mapsto> f')\<rparr>"
  have own: "owns ?s z g \<longleftrightarrow> owns s z g" for z g by (simp add: owns_def)
  show "y = z" if "owns ?s y g" "owns ?s z g" for y z g using that d(1) unfolding own by blast
  show "(\<exists>f. ts_frames ?s g = Some f \<and> \<not> fr_detached f) \<and> g \<notin> ts_raw ?s" if "owns ?s y g" for y g
    using that d(2,3) [of y g] assms(2,3) unfolding own by (cases "g = h") auto
  show "(\<exists>y. owns ?s y g) \<or> fr_detached f1 \<or> g \<in> ts_raw ?s" if "ts_frames ?s g = Some f1" for g f1
    using that d(4) [of g] assms(2,3) unfolding own by (cases "g = h") auto
qed

lemma task_inv_clean:
  assumes "task_inv s" and "ts_frames s h = Some f" and "fr_detached f"
  shows "task_inv (s\<lparr>ts_frames := (ts_frames s)(h := None)\<rparr>)"
proof (rule task_invI)
  note d = task_invD [OF assms(1)]
  let ?s = "s\<lparr>ts_frames := (ts_frames s)(h := None)\<rparr>"
  have own: "owns ?s z g \<longleftrightarrow> owns s z g" for z g by (simp add: owns_def)
  show "y = z" if "owns ?s y g" "owns ?s z g" for y z g using that d(1) unfolding own by blast
  show "(\<exists>f. ts_frames ?s g = Some f \<and> \<not> fr_detached f) \<and> g \<notin> ts_raw ?s" if "owns ?s y g" for y g
    using that d(2,3) [of y g] assms(2,3) unfolding own by (cases "g = h") auto
  show "(\<exists>y. owns ?s y g) \<or> fr_detached f1 \<or> g \<in> ts_raw ?s" if "ts_frames ?s g = Some f1" for g f1
    using that d(4) [of g] unfolding own by (cases "g = h") auto
qed

lemma task_step_inv: "task_step s s' \<Longrightarrow> task_inv s \<Longrightarrow> task_inv s'"
proof (induction rule: task_step.induct)
  case (create s x h K)
  then show ?case using task_inv_create [of s x h K] by (simp add: get_return_object_def)
next
  case (default s x)
  then show ?case by (simp add: task_null_def task_inv_unowned)
next
  case (move s x y other t other')
  then show ?case by (auto simp: task_move_def task_inv_move)
next
  case (assign s x t y other t' other' fs)
  show ?case
  proof (cases "x = y")
    case True
    then show ?thesis using assign by (auto simp: task_move_assign_def map_upd_triv)
  next
    case False
    have "task_inv (s\<lparr>ts_tasks := (ts_tasks s)(x \<mapsto> None), ts_frames := fs\<rparr>)"
    proof (cases t)
      case None
      then show ?thesis
        using assign False task_inv_unowned [of s x "Some None"] by (auto simp: task_move_assign_def)
    next
      case (Some h)
      then show ?thesis
        using assign False task_inv_give_up [of s x h "Some None" None "ts_raw s"]
        by (auto simp: task_defs split: option.splits)
    qed
    from task_inv_move [OF this, of x y other] False assign
    have "task_inv (s\<lparr>ts_frames := fs, ts_tasks := (ts_tasks s)(x \<mapsto> other, y \<mapsto> None)\<rparr>)"
      "t' = other" "other' = None"
      by (auto simp: task_move_assign_def fun_upd_twist)
    moreover have "s\<lparr>ts_frames := fs, ts_tasks := T\<rparr> = s\<lparr>ts_tasks := T, ts_frames := fs\<rparr>" for T by simp
    ultimately show ?thesis using False by (metis fun_upd_twist)
  qed
next
  case (destruct s x t fs)
  then show ?case
    using task_inv_give_up [of s x _ None None "ts_raw s"] task_inv_unowned [of s x None]
    by (cases t) (auto simp: task_defs split: option.splits)
next
  case (destroy s x t r t' fs)
  then show ?case
    using task_inv_give_up [of s x _ "Some None" None "ts_raw s"] task_inv_unowned [of s x "Some None"]
    by (cases t) (auto simp: task_defs split: option.splits)
next
  case (detach s x t t' fs)
  then obtain h f where "t = Some h" "ts_frames s h = Some f" "t' = None"
    "fs = (ts_frames s)(h \<mapsto> f\<lparr>fr_detached := True\<rparr>)"
    by (auto simp: task_defs split: option.splits)
  with detach task_inv_give_up [of s x h "Some None" "Some (f\<lparr>fr_detached := True\<rparr>)" "ts_raw s"]
  show ?case by simp
next
  case (release s x t hdl t')
  show ?case
  proof (cases t)
    case None
    then show ?thesis using release task_inv_unowned [of s x "Some None"] by (auto simp: task_handle_rvalue_def)
  next
    case (Some h)
    then show ?thesis
      using release task_inv_give_up [of s x h "Some None" "ts_frames s h" "insert h (ts_raw s)"]
      by (auto simp: task_handle_rvalue_def)
  qed
next
  case (run s h f f')
  then show ?case by (simp add: task_inv_run)
next
  case (clean_up s h f fs)
  then show ?case by (auto simp: task_defs task_inv_clean split: if_splits)
qed

lemma task_reach_inv: "task_reach s \<Longrightarrow> task_inv s"
proof (induction rule: task_reach.induct)
  case init
  show ?case by (simp add: task_inv_def task_sys_init_def)
qed (blast intro: task_step_inv)

section \<open>Properties\<close>

text \<open>
  C11. Frames are owned, not shared: however tasks are created, moved, assigned, destroyed,
  detached and cleaned up after, no two task objects hold the same coroutine, no task holds a
  frame that has been destroyed, so destructors and assignments never free twice, and every frame that is still
  allocated has an owner, is detached (and left to the engine), or was given away as a raw
  handle.
\<close>

theorem task_single_owner:
  assumes "task_reach s"
  shows "(\<forall>x y h. ts_tasks s x = Some (Some h) \<and> ts_tasks s y = Some (Some h) \<longrightarrow> x = y) \<and>
    (\<forall>x t. ts_tasks s x = Some t \<longrightarrow> (\<exists>fs. task_destruct t (ts_frames s) = Inr fs)) \<and>
    (\<forall>h f. ts_frames s h = Some f \<longrightarrow> (\<exists>x. ts_tasks s x = Some (Some h)) \<or> fr_detached f \<or> h \<in> ts_raw s)"
proof -
  have inv: "task_inv s" by (rule task_reach_inv [OF assms])
  have "\<exists>fs. task_destruct t (ts_frames s) = Inr fs" if "ts_tasks s x = Some t" for x t
    using inv that by (cases t) (fastforce simp: task_inv_def task_defs)+
  with inv show ?thesis unfolding task_inv_def by blast
qed

theorem task_single_owner_witness:
  "\<exists>fs. task_destruct (Some 9) ((\<lambda>_. None)(9 \<mapsto> (promise_new (Plain 0) :: int frame))) = Inr fs"
proof -
  let ?s = "task_sys_init\<lparr>ts_tasks := [2 \<mapsto> Some 9], ts_frames := [9 \<mapsto> promise_new (Plain 0)]\<rparr> :: int task_sys"
  have "task_reach ?s"
    using task_reach.step [OF task_reach.init task_step.create [of task_sys_init 2 9 "Plain 0"]]
    by (simp add: task_sys_init_def get_return_object_def)
  from task_single_owner [OF this]
  have "\<forall>x t. ts_tasks ?s x = Some t \<longrightarrow> (\<exists>fs. task_destruct t (ts_frames ?s) = Inr fs)" by (elim conjE)
  then have "\<exists>fs. task_destruct (Some 9) (ts_frames ?s) = Inr fs" by (rule allE [of _ 2]) simp
  then show ?thesis by simp
qed

text \<open>What a new promise makes of a value and of an exception.\<close>

fun kept_value :: "'a result_kind \<Rightarrow> 'a \<Rightarrow> 'a" where
  "kept_value (Void u) v = u"
| "kept_value K v = v"

fun keeps_exceptions :: "'a result_kind \<Rightarrow> bool" where
  "keeps_exceptions (Plain d) = False"
| "keeps_exceptions K = True"

text \<open>A store of the kind \<open>K\<close> that the coroutine has not ended in: the variant may be in any state.\<close>

fun store_open :: "'a result_kind \<Rightarrow> 'a promise_store \<Rightarrow> bool" where
  "store_open General (In_Variant s) = True"
| "store_open (Plain d) (In_Union d' c) = (d' = d \<and> c = pod_new)"
| "store_open (Void u) (In_Void u' p) = (u' = u \<and> p = None)"
| "store_open K st = False"

lemma store_open_new [simp]: "store_open K (promise_store_new K)"
  by (cases K) simp_all

lemma store_open_value:
  "store_open K st \<Longrightarrow> promise_result_rvalue (store_value v st) = Inr (kept_value K v)"
  "store_open K st \<Longrightarrow> store_value (kept_value K v) st = store_value v st"
  by (cases "(K, st)" rule: store_open.cases; simp add: container_defs pod_defs void_result_def)+

lemma store_open_exception:
  "store_open K st \<Longrightarrow> keeps_exceptions K \<Longrightarrow> \<exists>st'. store_exception e st = Inr st' \<and> promise_result_rvalue st' = Inl (Thrown e)"
  "store_open K st \<Longrightarrow> \<not> keeps_exceptions K \<Longrightarrow> store_exception e st = Inl Inactive_Member"
  by (cases "(K, st)" rule: store_open.cases; simp add: container_defs pod_defs void_result_def void_unhandled_exception_def)+

text \<open>
  Awaiting transfers control down and back: when coroutine \<open>p\<close> awaits a new task, the
  task's coroutine runs next, and when it reaches its final suspend point \<open>p\<close> is resumed and reads the
  value that the coroutine returned or, unless the result is plain data, the exception it threw, whatever the
  coroutine did to other frames in between. A promise for plain data cannot even store the exception.
\<close>

theorem task_await_roundtrip:
  assumes "fs h = Some (promise_new K)"
  shows "\<exists>fs1 f1. task_await_ready (Some h) fs = Inr False \<and>
    task_await_suspend (Some h) p fs = Inr (h, fs1) \<and> fs1 h = Some f1 \<and>
    (\<forall>fs2 v e f2.
      (fs2 h = Some ((promise_return_value v f1)\<lparr>fr_done := True\<rparr>) \<longrightarrow>
         final_await_suspend h fs2 = Inr p \<and> task_await_resume_rvalue (Some h) fs2 = Inr (kept_value K v)) \<and>
      (promise_unhandled_exception e f1 = Inr f2 \<longrightarrow> fs2 h = Some (f2\<lparr>fr_done := True\<rparr>) \<longrightarrow>
         final_await_suspend h fs2 = Inr p \<and> task_await_resume_rvalue (Some h) fs2 = Inl (Thrown e)) \<and>
      (promise_unhandled_exception e f1 = Inl Inactive_Member \<longleftrightarrow> \<not> keeps_exceptions K))"
proof -
  let ?f1 = "(promise_new K)\<lparr>fr_parent := Some p\<rparr>"
  have "task_await_ready (Some h) fs = Inr False" "task_await_suspend (Some h) p fs = Inr (h, fs(h \<mapsto> ?f1))"
    using assms by (simp_all add: task_await_ready_def task_await_suspend_def task_defs promise_new_def)
  moreover have "final_await_suspend h fs2 = Inr p \<and> task_await_resume_rvalue (Some h) fs2 = Inr (kept_value K v)"
    if "fs2 h = Some ((promise_return_value v ?f1)\<lparr>fr_done := True\<rparr>)" for fs2 v
    using that by (simp add: final_await_suspend_def task_await_resume_rvalue_def promise_return_value_def
        with_frame_def promise_new_def store_open_value)
  moreover have "final_await_suspend h fs2 = Inr p \<and> task_await_resume_rvalue (Some h) fs2 = Inl (Thrown e)"
    if "promise_unhandled_exception e ?f1 = Inr f2" "fs2 h = Some (f2\<lparr>fr_done := True\<rparr>)" for fs2 e f2
    using that store_open_exception [OF store_open_new, of K e]
    by (cases "keeps_exceptions K") (auto simp: final_await_suspend_def task_await_resume_rvalue_def promise_unhandled_exception_def
        with_frame_def promise_new_def)
  moreover have "promise_unhandled_exception e ?f1 = Inl Inactive_Member \<longleftrightarrow> \<not> keeps_exceptions K" for e
    using store_open_exception [OF store_open_new, of K e]
    by (cases "keeps_exceptions K") (auto simp: promise_unhandled_exception_def promise_new_def)
  ultimately show ?thesis by (intro exI [of _ "fs(h \<mapsto> ?f1)"] exI [of _ ?f1]) simp
qed

text \<open>
  A coroutine that nobody awaits flows off the end of \<open>final_awaiter::await_suspend\<close>,
  a function that must return a handle: this is every task handed to the scheduler.
\<close>

theorem final_suspend_without_parent:
  assumes "scheduler_submit_rvalue (Some h) (fs, w) = Inr (t', fs', w')" and "fs h = Some (promise_new K)"
  shows "final_await_suspend h fs' = Inl Missing_Return \<and> t' = None"
  using assms
  by (auto simp: scheduler_submit_rvalue_def submit_rvalue_def task_handle_lvalue_def Let_def task_defs
      final_await_suspend_def promise_new_def)

theorem final_suspend_without_parent_witness:
  "\<exists>t' fs' w'. scheduler_submit_rvalue (Some 9) ((\<lambda>_. None)(9 \<mapsto> (promise_new (Plain 0) :: int frame)), demo_world) = Inr (t', fs', w') \<and>
     final_await_suspend 9 fs' = Inl Missing_Return \<and> t' = None"
proof -
  have "w_room 1 demo_world" by (rule demo_world_room) simp
  then obtain w' where "submit_to_scheduler 9 demo_world = Inr w'" using sched.submit_returns by blast
  then obtain fs' where s: "scheduler_submit_rvalue (Some 9) ((\<lambda>_. None)(9 \<mapsto> (promise_new (Plain 0) :: int frame)), demo_world) = Inr (None, fs', w')"
    by (auto simp: scheduler_submit_rvalue_def submit_rvalue_def task_handle_lvalue_def Let_def task_defs)
  from final_suspend_without_parent [OF s] s show ?thesis by auto
qed

end
