(* ===== verification/Run_Loop.thy ===== *)
theory Run_Loop
  imports Io Task
begin

text \<open>
  \<open>context::run\<close>, \<open>init\<close>, \<open>deinit\<close>, \<open>start\<close> of \<open>src/context.cpp\<close> and
  \<open>engine::exec_one_task\<close> of \<open>src/engine.cpp\<close>: what a worker thread does. First the code of one
  worker as a function, on the state that its thread sees; resuming a coroutine is an
  argument. Then the worker among other threads, as a step relation.
\<close>

section \<open>The worker's code\<close>

definition local_ctx :: "io_state \<Rightarrow> ctx res" where
  "local_ctx s =
     bindE (local_context (io_world s)) (\<lambda>i.
     if i < length (w_ctxs (io_world s)) then Inr (w_ctxs (io_world s) ! i) else Inl Out_Of_Range)"

definition with_local_ctx :: "(ctx \<Rightarrow> ctx res) \<Rightarrow> io_state \<Rightarrow> io_state res" where
  "with_local_ctx f s =
     bindE (local_context (io_world s)) (\<lambda>i.
     bindE (with_ctx i f (io_world s)) (\<lambda>w. Inr (s\<lparr>io_world := w\<rparr>)))"

definition context_init ::
  "bool \<Rightarrow> int \<Rightarrow> int \<Rightarrow> int list \<Rightarrow> int \<Rightarrow> (nat \<Rightarrow> nat) \<Rightarrow> nat \<Rightarrow> world \<Rightarrow> world res" where
  "context_init fixfd res_init res_efd nulls res_files granted i w =
     bindE (with_ctx i (\<lambda>c. bindE (engine_init fixfd res_init res_efd nulls res_files granted (m_engine c))
              (\<lambda>e. Inr (c\<lparr>m_engine := e\<rparr>))) w)
       (\<lambda>w. Inr (w\<lparr>linfo_ctx := Some i\<rparr>))"

definition context_deinit :: "nat \<Rightarrow> world \<Rightarrow> world res" where
  "context_deinit i w =
     with_ctx i (\<lambda>c. Inr (c\<lparr>m_engine := engine_deinit (m_engine c)\<rparr>)) (w\<lparr>linfo_ctx := None\<rparr>)"

text \<open>
  \<open>run h\<close> resumes coroutine \<open>h\<close>: it runs the user's body up to its next suspension, and while it
  does so other threads may run as well, so that its effect on the frames is arbitrary.
\<close>

definition exec_one_task ::
  "(handle \<Rightarrow> 'a frames \<times> io_state \<Rightarrow> ('a frames \<times> io_state) res) \<Rightarrow> 'a frames \<times> io_state \<Rightarrow> ('a frames \<times> io_state) res" where
  "exec_one_task run = (\<lambda>(fs, s).
     bindE (local_engine s) (\<lambda>e.
     bindE (schedule e) (\<lambda>(coro, e).
     bindE (set_local_engine e s) (\<lambda>s.
     bindE (with_frame coro fs (\<lambda>_. run coro (fs, s))) (\<lambda>(fs, s).
     bindE (frame_done coro fs) (\<lambda>d.
     if d then bindE (clean coro fs) (\<lambda>fs. Inr (fs, s)) else Inr (fs, s)))))))"

definition run_continue :: "ctx \<Rightarrow> bool" where
  "run_continue c \<longleftrightarrow> \<not> m_stop c \<or> \<not> empty_io (m_engine c) \<or> engine_ready (m_engine c) \<or> 0 < sint (m_wait_count c)"

definition auto_stop_due :: "ctx \<Rightarrow> bool" where
  "auto_stop_due c \<longleftrightarrow> \<not> m_managed_by_scheduler c \<and> \<not> m_stop c \<and> empty_io (m_engine c) \<and>
     \<not> engine_ready (m_engine c) \<and> m_wait_count c = 0"

definition set_running :: "bool \<Rightarrow> ctx \<Rightarrow> ctx res" where
  "set_running b c = Inr (c\<lparr>m_running_task := b\<rparr>)"

text \<open>The inner and the outer loop, with fuel: none if the fuel does not suffice.\<close>

fun run_ready ::
  "nat \<Rightarrow> (handle \<Rightarrow> 'a frames \<times> io_state \<Rightarrow> ('a frames \<times> io_state) res) \<Rightarrow> 'a frames \<times> io_state \<Rightarrow>
     ('a frames \<times> io_state) res option" where
  "run_ready 0 run x = None"
| "run_ready (Suc n) run (fs, s) =
     (case local_engine s of
        Inl f \<Rightarrow> Some (Inl f)
      | Inr e \<Rightarrow>
          if \<not> engine_ready e then Some (Inr (fs, s))
          else case
            bindE (with_local_ctx (set_running True) s) (\<lambda>s.
            bindE (exec_one_task run (fs, s)) (\<lambda>(fs, s).
            bindE (with_local_ctx (unregister_wait 1) s) (\<lambda>s.
            bindE (with_local_ctx (set_running False) s) (\<lambda>s. Inr (fs, s)))))
          of Inl f \<Rightarrow> Some (Inl f) | Inr x \<Rightarrow> run_ready n run x)"

fun context_run ::
  "nat \<Rightarrow> nat \<Rightarrow> (handle \<Rightarrow> 'a frames \<times> io_state \<Rightarrow> ('a frames \<times> io_state) res) \<Rightarrow> 'a frames \<times> io_state \<Rightarrow>
     ('a frames \<times> io_state) res option" where
  "context_run 0 accepted run x = None"
| "context_run (Suc n) accepted run (fs, s) =
     (case local_ctx s of
        Inl f \<Rightarrow> Some (Inl f)
      | Inr c \<Rightarrow>
          if \<not> run_continue c then Some (Inr (fs, s))
          else case run_ready n run (fs, s) of
            None \<Rightarrow> None
          | Some (Inl f) \<Rightarrow> Some (Inl f)
          | Some (Inr (fs, s)) \<Rightarrow>
              (case
                 bindE (local_ctx s) (\<lambda>c.
                 bindE (if auto_stop_due c then with_local_ctx notify_stop s else Inr s) (poll_submit accepted))
               of Inl f \<Rightarrow> Some (Inl f) | Inr s \<Rightarrow> context_run n accepted run (fs, s)))"

text \<open>
  What the thread that \<open>context::start\<close> creates for context \<open>i\<close> executes: \<open>init\<close>, \<open>run\<close>,
  \<open>deinit\<close>.
\<close>

definition context_start ::
  "bool \<Rightarrow> int \<Rightarrow> int \<Rightarrow> int list \<Rightarrow> int \<Rightarrow> (nat \<Rightarrow> nat) \<Rightarrow> nat \<Rightarrow> nat \<Rightarrow> nat \<Rightarrow>
     (handle \<Rightarrow> 'a frames \<times> io_state \<Rightarrow> ('a frames \<times> io_state) res) \<Rightarrow> 'a frames \<times> io_state \<Rightarrow>
     ('a frames \<times> io_state) res option" where
  "context_start fixfd res_init res_efd nulls res_files granted i fuel accepted run = (\<lambda>(fs, s).
     case context_init fixfd res_init res_efd nulls res_files granted i (io_world s) of
       Inl f \<Rightarrow> Some (Inl f)
     | Inr w \<Rightarrow>
         (case context_run fuel accepted run (fs, s\<lparr>io_world := w\<rparr>) of
            None \<Rightarrow> None
          | Some (Inl f) \<Rightarrow> Some (Inl f)
          | Some (Inr (fs, s)) \<Rightarrow>
              Some (bindE (context_deinit i (io_world s)) (\<lambda>w. Inr (fs, s\<lparr>io_world := w\<rparr>)))))"

section \<open>A worker that runs alone\<close>

text \<open>The state in which a worker has context \<open>c\<close>, the rest being fixed.\<close>

definition put_ctx :: "ctx \<Rightarrow> io_state \<Rightarrow> io_state" where
  "put_ctx c s = s\<lparr>io_world := (io_world s)\<lparr>w_ctxs := (w_ctxs (io_world s))[the (linfo_ctx (io_world s)) := c]\<rparr>\<rparr>"

definition has_worker :: "io_state \<Rightarrow> bool" where
  "has_worker s \<longleftrightarrow> (\<exists>i. linfo_ctx (io_world s) = Some i \<and> i < length (w_ctxs (io_world s)))"

lemma put_ctx_simps [simp]:
  assumes "has_worker s"
  shows "local_ctx (put_ctx c s) = Inr c" "local_engine (put_ctx c s) = Inr (m_engine c)"
    "with_local_ctx f (put_ctx c s) = bindE (f c) (\<lambda>c'. Inr (put_ctx c' s))"
    "set_local_engine e (put_ctx c s) = Inr (put_ctx (c\<lparr>m_engine := e\<rparr>) s)"
proof -
  obtain i where i: "linfo_ctx (io_world s) = Some i" "i < length (w_ctxs (io_world s))"
    using assms by (auto simp: has_worker_def)
  show "local_ctx (put_ctx c s) = Inr c" "local_engine (put_ctx c s) = Inr (m_engine c)"
    using i by (simp_all add: put_ctx_def local_ctx_def local_context_def local_engine_def)
  show "with_local_ctx f (put_ctx c s) = bindE (f c) (\<lambda>c'. Inr (put_ctx c' s))"
    using i by (cases "f c") (simp_all add: put_ctx_def local_context_def with_local_ctx_def with_ctx_def)
  show "set_local_engine e (put_ctx c s) = Inr (put_ctx (c\<lparr>m_engine := e\<rparr>) s)"
    using i by (simp add: put_ctx_def local_context_def set_local_engine_def with_ctx_def)
qed

text \<open>
  A stand-in for a resumption, for the facts below about the loop around it: the body finishes without submitting
  anything, and control comes back to the caller of \<open>resume\<close>. It is no code of the program. For a detached task it assumes an implementation
  in which the missing return of \<open>final_awaiter::await_suspend\<close> resumes nobody; \<open>Nested_Calls\<close> has the bodies with
  their final suspension, and what becomes of them there.
\<close>

definition finish_body :: "handle \<Rightarrow> 'a frames \<times> io_state \<Rightarrow> ('a frames \<times> io_state) res" where
  "finish_body h = (\<lambda>(fs, s). with_frame h fs (\<lambda>f. Inr (fs(h \<mapsto> f\<lparr>fr_done := True\<rparr>), s)))"

definition detached_ready :: "handle list \<Rightarrow> 'a frames \<Rightarrow> bool" where
  "detached_ready hs fs \<longleftrightarrow> distinct hs \<and> (\<forall>h \<in> set hs. \<exists>f. fs h = Some f \<and> fr_detached f)"

definition after_task :: "ctx \<Rightarrow> ctx" where
  "after_task c = c\<lparr>m_wait_count := m_wait_count c - 1,
     m_engine := (m_engine c)\<lparr>m_task_queue := tl (ctx_queue c),
       m_upxy := (m_upxy (m_engine c))\<lparr>efd_count := ctx_efd c + 1\<rparr>\<rparr>, m_running_task := False\<rparr>"

lemma exec_finish:
  assumes "has_worker s" and "ctx_queue c = h # hs" and "detached_ready (h # hs) fs"
  shows "exec_one_task finish_body (fs, put_ctx c s) =
    Inr (fs(h := None), put_ctx (c\<lparr>m_engine := (m_engine c)\<lparr>m_task_queue := hs\<rparr>\<rparr>) s)"
proof -
  obtain f where "fs h = Some f" "fr_detached f" using assms(3) by (auto simp: detached_ready_def)
  then show ?thesis
    using assms(1,2)
    by (simp add: exec_one_task_def schedule_def tq_pop_def finish_body_def with_frame_def frame_done_def clean_def
        frame_destroy_def)
qed

lemma run_ready_finish:
  assumes "has_worker s" and "ctx_queue c = hs" and "detached_ready hs fs" and "ctx_efd_open c"
    and "ctx_efd c + length hs \<le> efd_max" and "length hs < n"
  shows "\<exists>c'. run_ready n finish_body (fs, put_ctx c s) = Some (Inr (fs |` (- set hs), put_ctx c' s)) \<and>
    ctx_queue c' = [] \<and> ctx_efd_open c' \<and> ctx_efd c' = ctx_efd c + length hs \<and>
    m_wait_count c' = m_wait_count c - of_nat (length hs) \<and> eng_io (m_engine c') = eng_io (m_engine c) \<and>
    m_stop c' = m_stop c \<and> m_managed_by_scheduler c' = m_managed_by_scheduler c \<and>
    (m_running_task c' \<longleftrightarrow> m_running_task c \<and> hs = [])"
  using assms
proof (induction hs arbitrary: c fs n)
  case Nil
  then obtain m where "n = Suc m" by (cases n) auto
  then show ?case using Nil by (intro exI [of _ c]) (simp add: engine_ready_def restrict_map_def)
next
  case (Cons h hs)
  then obtain m where n: "n = Suc m" by (cases n) auto
  let ?c1 = "c\<lparr>m_running_task := True\<rparr>" and ?fs = "fs(h := None)"
  have step: "run_ready n finish_body (fs, put_ctx c s) = run_ready m finish_body (?fs, put_ctx (after_task c) s)"
    using Cons.prems exec_finish [OF Cons.prems(1), of ?c1 h hs fs]
    by (simp add: n engine_ready_def set_running_def unregister_wait_def context_write_eventfd_def
        engine_write_eventfd_def write_eventfd_def after_task_def)
  have "detached_ready hs ?fs" using Cons.prems(3) by (auto simp: detached_ready_def)
  moreover have at: "ctx_queue (after_task c) = hs" "ctx_efd_open (after_task c)" "ctx_efd (after_task c) = ctx_efd c + 1"
    "m_wait_count (after_task c) = m_wait_count c - 1" "eng_io (m_engine (after_task c)) = eng_io (m_engine c)"
    "m_stop (after_task c) = m_stop c" "m_managed_by_scheduler (after_task c) = m_managed_by_scheduler c"
    "\<not> m_running_task (after_task c)"
    using Cons.prems(2,4) by (simp_all add: after_task_def eng_io_def)
  ultimately obtain c' where c': "run_ready m finish_body (?fs, put_ctx (after_task c) s) =
      Some (Inr (?fs |` (- set hs), put_ctx c' s))"
    "ctx_queue c' = []" "ctx_efd_open c'" "ctx_efd c' = ctx_efd (after_task c) + length hs"
    "m_wait_count c' = m_wait_count (after_task c) - of_nat (length hs)"
    "eng_io (m_engine c') = eng_io (m_engine (after_task c))"
    "m_stop c' = m_stop (after_task c)" "m_managed_by_scheduler c' = m_managed_by_scheduler (after_task c)"
    "m_running_task c' \<longleftrightarrow> m_running_task (after_task c) \<and> hs = []"
    using Cons.IH [OF Cons.prems(1), of "after_task c" ?fs m] Cons.prems(5,6) n by fastforce
  have "?fs |` (- set hs) = fs |` (- set (h # hs))" by (auto simp: restrict_map_def fun_eq_iff)
  then show ?case using step c' at by (intro exI [of _ c']) simp
qed

lemma poll_idle:
  assumes "has_worker s" and "empty_io (m_engine c)" and "ctx_efd_open c" and "0 < ctx_efd c"
  shows "poll_submit accepted (put_ctx c s) =
    Inr (put_ctx (c\<lparr>m_engine := (m_engine c)\<lparr>m_upxy := (m_upxy (m_engine c))\<lparr>efd_count := 0\<rparr>\<rparr>\<rparr>) s)"
  using assms by (simp add: poll_submit_def poll_flush_def empty_io_def wait_eventfd_def Let_def)

lemma run_drains:
  assumes "has_worker s" and "ctx_queue c = hs" and "detached_ready hs fs" and "ctx_efd_open c"
    and "ctx_efd c + length hs < efd_max" and "empty_io (m_engine c)" and "m_wait_count c = of_nat (length hs)"
    and "\<not> m_stop c" and "\<not> m_managed_by_scheduler c" and "\<not> m_running_task c" and "length hs + 2 \<le> fuel"
  shows "\<exists>c'. context_run fuel accepted finish_body (fs, put_ctx c s) = Some (Inr (fs |` (- set hs), put_ctx c' s)) \<and>
    is_idle c' \<and> m_stop c'"
proof -
  obtain n where n: "fuel = Suc (Suc n)" "length hs \<le> n" using assms(11) by (metis add_2_eq_Suc' le_Suc_ex le_add1 add_Suc)
  obtain c1 where c1: "run_ready (Suc n) finish_body (fs, put_ctx c s) = Some (Inr (fs |` (- set hs), put_ctx c1 s))"
    "ctx_queue c1 = []" "ctx_efd_open c1" "ctx_efd c1 = ctx_efd c + length hs" "m_wait_count c1 = 0"
    "eng_io (m_engine c1) = eng_io (m_engine c)" "\<not> m_stop c1" "\<not> m_managed_by_scheduler c1" "\<not> m_running_task c1"
    using run_ready_finish [OF assms(1-4), of "Suc n"] assms(5,7-10) n(2) by auto
  have io: "empty_io (m_engine c1)" using c1(6) assms(6) by (simp add: empty_io_def eng_io_def)
  then have due: "auto_stop_due c1" using c1 by (simp add: auto_stop_due_def engine_ready_def)
  let ?c2 = "c1\<lparr>m_stop := True, m_engine := (m_engine c1)\<lparr>m_upxy := (m_upxy (m_engine c1))\<lparr>efd_count := ctx_efd c1 + 1\<rparr>\<rparr>\<rparr>"
  have ns: "notify_stop c1 = Inr ?c2"
    using c1(3,4) assms(5) by (simp add: notify_stop_def context_write_eventfd_def engine_write_eventfd_def write_eventfd_def)
  let ?c3 = "?c2\<lparr>m_engine := (m_engine ?c2)\<lparr>m_upxy := (m_upxy (m_engine ?c2))\<lparr>efd_count := 0\<rparr>\<rparr>\<rparr>"
  have poll: "poll_submit accepted (put_ctx ?c2 s) = Inr (put_ctx ?c3 s)"
    by (rule poll_idle [OF assms(1)]) (use io c1(3) in \<open>simp_all add: empty_io_def\<close>)
  have stop: "\<not> run_continue ?c3" "is_idle ?c3" "m_stop ?c3"
    using io c1 by (simp_all add: run_continue_def is_idle_def empty_io_def engine_ready_def)
  have "context_run fuel accepted finish_body (fs, put_ctx c s) = Some (Inr (fs |` (- set hs), put_ctx ?c3 s))"
    unfolding n(1) context_run.simps
    using assms(1,8) c1(1) due ns poll stop(1) by (simp add: run_continue_def del: run_ready.simps)
  then show ?thesis using stop(2,3) by blast
qed

lemma uring_init_keeps:
  "uring_init fixfd res_init res_efd nulls res_files entries p = Inr p' \<Longrightarrow>
     m_efd p' = m_efd p \<and> efd_count p' = efd_count p \<and> up_sq p' = up_sq p \<and> up_kernel p' = up_kernel p \<and> up_cq p' = up_cq p"
  by (auto simp: uring_init_def Let_def split: if_splits)

lemma context_init_Inr:
  assumes "context_init fixfd res_init res_efd nulls res_files granted i w = Inr w'"
  shows "\<exists>p. i < length (w_ctxs w) \<and> m_efd p = m_efd (m_upxy (m_engine (w_ctxs w ! i))) \<and>
    efd_count p = ctx_efd (w_ctxs w ! i) \<and>
    (let p0 = m_upxy (m_engine (w_ctxs w ! i)) in up_sq p = up_sq p0 \<and> up_kernel p = up_kernel p0 \<and> up_cq p = up_cq p0) \<and>
    w' = w\<lparr>w_ctxs := (w_ctxs w)[i := (w_ctxs w ! i)\<lparr>m_engine := (m_engine (w_ctxs w ! i))\<lparr>m_upxy := p\<rparr>\<rparr>], linfo_ctx := Some i\<rparr>"
  using assms by (auto simp: context_init_def with_ctx_def engine_init_def Let_def dest: uring_init_keeps split: if_splits)

section \<open>Properties\<close>

text \<open>
  A context that works alone stops by itself, if the missing return at the end of its tasks does no harm. The thread of context \<open>i\<close>, whose
  queue holds the detached tasks \<open>hs\<close>, each of which finishes when resumed and gives control back, sets up its ring successfully and
  has fuel for one round per task and two more: then it returns. Every one of the tasks has been destroyed
  and no other frame touched; the context is idle, it is the context that requested the stop, its event
  descriptor is closed, and the thread has no local context any more.
\<close>

lemma standalone_context_drains:
  assumes "context_init fixfd res_init res_efd nulls res_files granted i (io_world s) = Inr w"
    and "w_ctxs (io_world s) ! i = c" and "ctx_queue c = hs" and "detached_ready hs fs" and "ctx_efd_open c"
    and "ctx_efd c + length hs < efd_max" and "empty_io (m_engine c)" and "m_wait_count c = of_nat (length hs)"
    and "\<not> m_stop c" and "\<not> m_managed_by_scheduler c" and "\<not> m_running_task c" and "length hs + 2 \<le> fuel"
  shows "\<exists>c'. context_start fixfd res_init res_efd nulls res_files granted i fuel accepted finish_body (fs, s) =
      Some (Inr (fs |` (- set hs), s\<lparr>io_world := (io_world s)\<lparr>w_ctxs := (w_ctxs (io_world s))[i := c'], linfo_ctx := None\<rparr>\<rparr>)) \<and>
    is_idle c' \<and> m_stop c' \<and> \<not> ctx_efd_open c'"
proof -
  obtain p where p: "i < length (w_ctxs (io_world s))" "m_efd p = m_efd (m_upxy (m_engine c))" "efd_count p = ctx_efd c"
    "w = (io_world s)\<lparr>w_ctxs := (w_ctxs (io_world s))[i := c\<lparr>m_engine := (m_engine c)\<lparr>m_upxy := p\<rparr>\<rparr>], linfo_ctx := Some i\<rparr>"
    using context_init_Inr [OF assms(1)] assms(2) by auto
  let ?c = "c\<lparr>m_engine := (m_engine c)\<lparr>m_upxy := p\<rparr>\<rparr>" and ?s = "s\<lparr>io_world := w\<rparr>"
  have s: "has_worker ?s" "put_ctx ?c ?s = ?s" using p(1,4) by (simp_all add: has_worker_def put_ctx_def)
  obtain c1 where c1: "context_run fuel accepted finish_body (fs, ?s) = Some (Inr (fs |` (- set hs), put_ctx c1 ?s))"
    "is_idle c1" "m_stop c1"
    using run_drains [OF s(1), of ?c hs fs fuel accepted] assms(3-12) p(2,3) s(2) by (auto simp: empty_io_def)
  let ?d = "c1\<lparr>m_engine := engine_deinit (m_engine c1)\<rparr>"
  have "context_deinit i (io_world (put_ctx c1 ?s)) =
      Inr ((io_world s)\<lparr>w_ctxs := (w_ctxs (io_world s))[i := ?d], linfo_ctx := None\<rparr>)"
    using p(1,4) by (simp add: context_deinit_def with_ctx_def put_ctx_def)
  then have "context_start fixfd res_init res_efd nulls res_files granted i fuel accepted finish_body (fs, s) =
      Some (Inr (fs |` (- set hs), s\<lparr>io_world := (io_world s)\<lparr>w_ctxs := (w_ctxs (io_world s))[i := ?d], linfo_ctx := None\<rparr>\<rparr>))"
    using assms(1) c1(1) by (simp add: context_start_def put_ctx_def)
  moreover have "is_idle ?d \<and> m_stop ?d \<and> \<not> ctx_efd_open ?d"
    using c1(2,3) by (simp add: is_idle_def empty_io_def engine_ready_def engine_deinit_def uring_deinit_def)
  ultimately show ?thesis by blast
qed

lemma standalone_context_drains_demo:
  "let c = (w_ctxs demo_world ! 0)\<lparr>m_managed_by_scheduler := False, m_wait_count := 2,
             m_engine := (m_engine (w_ctxs demo_world ! 0))\<lparr>m_task_queue := [5, 6]\<rparr>\<rparr>;
       f = (promise_new (Plain 0) :: int frame)\<lparr>fr_detached := True\<rparr>;
       s = (demo_io demo_io_engine)\<lparr>io_world := demo_world\<lparr>w_ctxs := [c], linfo_ctx := None\<rparr>\<rparr>
   in \<exists>c'. context_start False 0 0 [] 0 (\<lambda>_. 16384) 0 4 0 finish_body ([5 \<mapsto> f, 6 \<mapsto> f], s) =
        Some (Inr ([5 \<mapsto> f, 6 \<mapsto> f] |` (- {5, 6}), s\<lparr>io_world := (io_world s)\<lparr>w_ctxs := [c'], linfo_ctx := None\<rparr>\<rparr>)) \<and>
        is_idle c' \<and> m_stop c' \<and> \<not> ctx_efd_open c'"
proof -
  let ?c = "(w_ctxs demo_world ! 0)\<lparr>m_managed_by_scheduler := False, m_wait_count := 2,
             m_engine := (m_engine (w_ctxs demo_world ! 0))\<lparr>m_task_queue := [5, 6]\<rparr>\<rparr>"
  let ?s = "(demo_io demo_io_engine)\<lparr>io_world := demo_world\<lparr>w_ctxs := [?c], linfo_ctx := None\<rparr>\<rparr>"
  let ?fs = "[5 \<mapsto> (promise_new (Plain 0) :: int frame)\<lparr>fr_detached := True\<rparr>, 6 \<mapsto> (promise_new (Plain 0))\<lparr>fr_detached := True\<rparr>]"
  obtain w where w: "context_init False 0 0 [] 0 (\<lambda>_. 16384) 0 (io_world ?s) = Inr w"
    by (simp add: context_init_def with_ctx_def engine_init_def uring_init_def Let_def)
  have "\<exists>c'. context_start False 0 0 [] 0 (\<lambda>_. 16384) 0 4 0 finish_body (?fs, ?s) =
      Some (Inr (?fs |` (- set [5, 6]), ?s\<lparr>io_world := (io_world ?s)\<lparr>w_ctxs := (w_ctxs (io_world ?s))[0 := c'], linfo_ctx := None\<rparr>\<rparr>)) \<and>
      is_idle c' \<and> m_stop c' \<and> \<not> ctx_efd_open c'"
    by (rule standalone_context_drains [OF w, where c = ?c and hs = "[5, 6]"])
      (simp_all add: demo_world_def detached_ready_def efd_max_def empty_io_def)
  then show ?thesis by (simp add: Let_def)
qed

text \<open>
  A thread that submits a task or requests a stop after the worker's \<open>deinit\<close> fails the assertion in \<open>write_eventfd\<close>: the
  descriptor is closed. Nothing in \<open>scheduler::loop\<close> orders \<open>notify_stop\<close> before it, as it sets the flag before it writes.
\<close>

lemma write_after_deinit:
  assumes "context_deinit i w = Inr w'" and "i < length (w_ctxs w)" and "length (ctx_queue (w_ctxs w ! i)) < kQueCap"
  shows "context_submit_task h (w_ctxs w' ! i) = Inl Assert_Failed \<and> notify_stop (w_ctxs w' ! i) = Inl Assert_Failed"
  using assms
  by (auto simp: context_deinit_def with_ctx_def context_submit_task_def notify_stop_def context_write_eventfd_def engine_submit_task_def
      engine_write_eventfd_def write_eventfd_def engine_deinit_def uring_deinit_def tq_push_def register_wait_def Let_def)

text \<open>
  A task submitted as an lvalue stays with its owner: its execution does not destroy the frame. An owner that
  goes out of scope first leaves a handle in the queue whose resumption uses a destroyed frame.
\<close>

lemma exec_lvalue_keeps_frame:
  assumes "has_worker s" and "ctx_queue c = h # hs" and "fs h = Some f" and "\<not> fr_detached f"
  shows "exec_one_task finish_body (fs, put_ctx c s) =
    Inr (fs(h \<mapsto> f\<lparr>fr_done := True\<rparr>), put_ctx (c\<lparr>m_engine := (m_engine c)\<lparr>m_task_queue := hs\<rparr>\<rparr>) s)"
  using assms
  by (simp add: exec_one_task_def schedule_def tq_pop_def finish_body_def with_frame_def frame_done_def clean_def)

lemma lvalue_owner_must_outlive:
  assumes "linfo_ctx w = Some i" and "i < length (w_ctxs w)" and "ctx_queue (w_ctxs w ! i) = []"
    and "context_submit_lvalue (Some h) w = Inr w'" and "task_destruct (Some h) fs = Inr fs'" and "io_world s = w'"
  shows "exec_one_task run (fs', s) = Inl Use_After_Free"
proof -
  obtain c where c: "context_submit_task h (w_ctxs w ! i) = Inr c" "w' = w\<lparr>w_ctxs := (w_ctxs w)[i := c]\<rparr>"
    using assms(1,4)
    by (auto simp: context_submit_lvalue_def submit_lvalue_def task_handle_lvalue_def submit_to_context_def
        local_context_def with_ctx_Inr)
  have q: "ctx_queue c = [h]" using context_submit_task_queue [OF c(1)] assms(3) by simp
  have s: "has_worker s" "put_ctx c s = s"
    using assms(1,2,6) c(2) by (simp_all add: has_worker_def put_ctx_def)
  have "fs' h = None" using assms(5) by (auto simp: task_defs split: option.splits)
  then have "exec_one_task run (fs', put_ctx c s) = Inl Use_After_Free"
    using s(1) q by (simp add: exec_one_task_def schedule_def tq_pop_def with_frame_def)
  then show ?thesis by (simp add: s(2))
qed

text \<open>
  \<open>exec_one_task\<close> asks the coroutine whether it is done after resuming it. A detached
  coroutine that suspended in a primitive may by then have been woken on another worker, have
  finished there and been destroyed: the query then reads a destroyed frame. Here the resumed coroutine
  of worker \<open>i\<close> is run to its end by another worker before \<open>resume\<close> returns.
\<close>

theorem exec_one_task_use_after_free:
  assumes "has_worker s" and "ctx_queue c = h # hs" and "fs h = Some f" and "fr_detached f"
    and "has_worker s2" and "ctx_queue c2 = [h]"
  defines "other \<equiv> (\<lambda>h' (fs, t). bindE (exec_one_task finish_body (fs, put_ctx c2 s2)) (\<lambda>(fs, _). Inr (fs, t)))"
  shows "exec_one_task other (fs, put_ctx c s) = Inl Use_After_Free"
proof -
  have "exec_one_task finish_body (fs, put_ctx c2 s2) =
      Inr (fs(h := None), put_ctx (c2\<lparr>m_engine := (m_engine c2)\<lparr>m_task_queue := []\<rparr>\<rparr>) s2)"
    by (rule exec_finish) (use assms in \<open>simp_all add: detached_ready_def\<close>)
  then have "other h (fs, t) = Inr (fs(h := None), t)" for t by (simp add: other_def)
  then show ?thesis
    using assms(1-3)
    by (simp add: exec_one_task_def [of other] schedule_def tq_pop_def with_frame_def frame_done_def)
qed

theorem exec_one_task_use_after_free_witness:
  "let c = (w_ctxs demo_world ! 0)\<lparr>m_engine := (m_engine (w_ctxs demo_world ! 0))\<lparr>m_task_queue := [5]\<rparr>\<rparr>;
       s = demo_io demo_io_engine;
       other = (\<lambda>h' (fs, t). bindE (exec_one_task finish_body (fs, put_ctx c s)) (\<lambda>(fs, _). Inr (fs, t)))
   in exec_one_task other ([5 \<mapsto> (promise_new (Plain 0) :: int frame)\<lparr>fr_detached := True\<rparr>], put_ctx c s) = Inl Use_After_Free"
proof -
  have w: "has_worker (demo_io demo_io_engine)" by (simp add: has_worker_def demo_io_def demo_world_def)
  show ?thesis unfolding Let_def by (rule exec_one_task_use_after_free [where f = "(promise_new (Plain 0))\<lparr>fr_detached := True\<rparr>"]) (simp_all add: w)
qed

end
