(* ===== verification/Worker.thy ===== *)
theory Worker
  imports Run_Loop
begin

text \<open>
  The worker thread of one context among other threads. A step is one access to shared
  state by the loop of \<open>context::run\<close>, or by another thread: a submit is its three accesses
  (\<open>register_wait\<close>, \<open>push\<close>, \<open>write_eventfd\<close>) and a stop its two. The body of the running
  coroutine may submit as well, by the same steps, and may prepare input and output. The test of
  the outer loop is one step: the stop flag is never cleared, the two request counters change
  only in this thread, and a task is registered before it is pushed, so the answer is the one
  at the moment the wait count is read. The relation ends where the worker leaves \<open>run\<close>: the \<open>deinit\<close> that follows, which
  closes the eventfd, is not a step, and neither is the failure of a write that comes after it (\<open>write_after_deinit\<close> of Run_Loop).
\<close>

section \<open>State and steps\<close>

datatype run_pc = Loop_Test | Ready_Test | Resume | Body | Unregister | Unreg_Write | Unmark
  | Auto_Test | Poll | Poll_Wait | Poll_Harvest | Exited

text \<open>
  \<open>wk_regd\<close>: tasks registered and not yet pushed; \<open>wk_pushed\<close>: submits that have pushed and
  not yet written; \<open>wk_stops\<close>: stops requested whose write is outstanding. The last three are
  ghosts: all tasks ever registered, all tasks ever resumed, the tasks registered after the exit.
\<close>

record worker =
  wk_ctx :: ctx
  wk_pc :: run_pc
  wk_regd :: "handle list"
  wk_pushed :: nat
  wk_stops :: nat
  wk_sub :: "handle list"
  wk_exec :: "handle list"
  wk_late :: "handle list"

definition worker_init :: "ctx \<Rightarrow> worker" where
  "worker_init c = \<lparr>wk_ctx = c, wk_pc = Loop_Test, wk_regd = [], wk_pushed = 0, wk_stops = 0,
     wk_sub = ctx_queue c, wk_exec = [], wk_late = []\<rparr>"

text \<open>Fewer threads than this are in the middle of a submit.\<close>

definition max_submitters :: nat where
  "max_submitters = 2 ^ 30"

definition upd_engine :: "(engine \<Rightarrow> engine) \<Rightarrow> ctx \<Rightarrow> ctx" where
  "upd_engine f c = c\<lparr>m_engine := f (m_engine c)\<rparr>"

inductive worker_step :: "worker \<Rightarrow> worker \<Rightarrow> bool" where
  loop_on: "wk_pc s = Loop_Test \<Longrightarrow> run_continue (wk_ctx s) \<Longrightarrow> worker_step s (s\<lparr>wk_pc := Ready_Test\<rparr>)"
| loop_exit: "wk_pc s = Loop_Test \<Longrightarrow> \<not> run_continue (wk_ctx s) \<Longrightarrow> worker_step s (s\<lparr>wk_pc := Exited\<rparr>)"
| ready: "wk_pc s = Ready_Test \<Longrightarrow> engine_ready (m_engine (wk_ctx s)) \<Longrightarrow> set_running True (wk_ctx s) = Inr c \<Longrightarrow>
    worker_step s (s\<lparr>wk_pc := Resume, wk_ctx := c\<rparr>)"
| not_ready: "wk_pc s = Ready_Test \<Longrightarrow> \<not> engine_ready (m_engine (wk_ctx s)) \<Longrightarrow> worker_step s (s\<lparr>wk_pc := Auto_Test\<rparr>)"
| resume: "wk_pc s = Resume \<Longrightarrow> schedule (m_engine (wk_ctx s)) = Inr (h, e) \<Longrightarrow>
    worker_step s (s\<lparr>wk_pc := Body, wk_ctx := (wk_ctx s)\<lparr>m_engine := e\<rparr>, wk_exec := wk_exec s @ [h]\<rparr>)"
| prepare_io: "wk_pc s = Body \<Longrightarrow>
    unat (m_io_submit_count (m_engine (wk_ctx s))) + unat (m_io_running_count (m_engine (wk_ctx s))) < 2 ^ 63 \<Longrightarrow>
    worker_step s (s\<lparr>wk_ctx := upd_engine add_io_submit (wk_ctx s)\<rparr>)"
| suspend: "wk_pc s = Body \<Longrightarrow> worker_step s (s\<lparr>wk_pc := Unregister\<rparr>)"
| unregister: "wk_pc s = Unregister \<Longrightarrow>
    worker_step s (s\<lparr>wk_pc := Unreg_Write, wk_ctx := (wk_ctx s)\<lparr>m_wait_count := m_wait_count (wk_ctx s) - 1\<rparr>\<rparr>)"
| unreg_write: "wk_pc s = Unreg_Write \<Longrightarrow> context_write_eventfd 1 (wk_ctx s) = Inr c \<Longrightarrow>
    worker_step s (s\<lparr>wk_pc := Unmark, wk_ctx := c\<rparr>)"
| unmark: "wk_pc s = Unmark \<Longrightarrow> set_running False (wk_ctx s) = Inr c \<Longrightarrow>
    worker_step s (s\<lparr>wk_pc := Ready_Test, wk_ctx := c\<rparr>)"
| auto_stop: "wk_pc s = Auto_Test \<Longrightarrow> auto_stop_due (wk_ctx s) \<Longrightarrow> notify_stop (wk_ctx s) = Inr c \<Longrightarrow>
    worker_step s (s\<lparr>wk_pc := Poll, wk_ctx := c\<rparr>)"
| no_auto_stop: "wk_pc s = Auto_Test \<Longrightarrow> \<not> auto_stop_due (wk_ctx s) \<Longrightarrow> worker_step s (s\<lparr>wk_pc := Poll\<rparr>)"
| flush: "wk_pc s = Poll \<Longrightarrow> c = upd_engine (poll_flush accepted) (wk_ctx s) \<Longrightarrow>
    worker_step s (s\<lparr>wk_pc := if m_io_running_count (m_engine c) = 0 then Poll_Wait else Poll_Harvest, wk_ctx := c\<rparr>)"
| wait: "wk_pc s = Poll_Wait \<Longrightarrow> wait_eventfd (m_upxy (m_engine (wk_ctx s))) = Inr (u, p) \<Longrightarrow>
    worker_step s (s\<lparr>wk_pc := Loop_Test, wk_ctx := upd_engine (\<lambda>e. e\<lparr>m_upxy := p\<rparr>) (wk_ctx s)\<rparr>)"
| harvest: "wk_pc s = Poll_Harvest \<Longrightarrow> length hs \<le> unat (m_io_running_count (m_engine (wk_ctx s))) \<Longrightarrow>
    foldE context_submit_task hs (wk_ctx s) = Inr c \<Longrightarrow>
    worker_step s (s\<lparr>wk_pc := Loop_Test, wk_ctx := upd_engine (poll_retire (length hs)) c, wk_sub := wk_sub s @ hs\<rparr>)"
| submit_register: "length (wk_regd s) < max_submitters \<Longrightarrow>
    worker_step s (s\<lparr>wk_ctx := register_wait 1 (wk_ctx s), wk_regd := wk_regd s @ [h], wk_sub := wk_sub s @ [h],
      wk_late := wk_late s @ (if wk_pc s = Exited then [h] else [])\<rparr>)"
| submit_push: "h \<in> set (wk_regd s) \<Longrightarrow> tq_push h (ctx_queue (wk_ctx s)) = Inr q \<Longrightarrow>
    worker_step s (s\<lparr>wk_ctx := upd_engine (\<lambda>e. e\<lparr>m_task_queue := q\<rparr>) (wk_ctx s),
      wk_regd := remove1 h (wk_regd s), wk_pushed := wk_pushed s + 1\<rparr>)"
| submit_write: "0 < wk_pushed s \<Longrightarrow> context_write_eventfd 1 (wk_ctx s) = Inr c \<Longrightarrow>
    worker_step s (s\<lparr>wk_ctx := c, wk_pushed := wk_pushed s - 1\<rparr>)"
| stop_request: "worker_step s (s\<lparr>wk_ctx := (wk_ctx s)\<lparr>m_stop := True\<rparr>, wk_stops := wk_stops s + 1\<rparr>)"
| stop_write: "0 < wk_stops s \<Longrightarrow> context_write_eventfd 1 (wk_ctx s) = Inr c \<Longrightarrow>
    worker_step s (s\<lparr>wk_ctx := c, wk_stops := wk_stops s - 1\<rparr>)"
| completion_event: "ctx_efd (wk_ctx s) < efd_max \<Longrightarrow> worker_step s (s\<lparr>wk_ctx := upd_engine (\<lambda>e. e\<lparr>m_upxy := (m_upxy e)
      \<lparr>efd_count := efd_count (m_upxy e) + 1\<rparr>\<rparr>) (wk_ctx s)\<rparr>)"

text \<open>A fresh context, possibly with tasks submitted before its thread starts.\<close>

definition fresh_ctx :: "ctx \<Rightarrow> bool" where
  "fresh_ctx c \<longleftrightarrow> \<not> m_stop c \<and> \<not> m_running_task c \<and> empty_io (m_engine c) \<and> length (ctx_queue c) \<le> kQueCap \<and>
     m_wait_count c = of_nat (length (ctx_queue c))"

inductive worker_reach :: "worker \<Rightarrow> bool" where
  init: "fresh_ctx c \<Longrightarrow> worker_reach (worker_init c)"
| step: "worker_reach s \<Longrightarrow> worker_step s t \<Longrightarrow> worker_reach t"

section \<open>Invariants\<close>

definition busy :: "run_pc \<Rightarrow> nat" where
  "busy pc = (if pc \<in> {Body, Unregister} then 1 else 0)"

text \<open>The wait count: queued, registered and executing tasks. All are few.\<close>

definition wk_count_ok :: "worker \<Rightarrow> bool" where
  "wk_count_ok s \<longleftrightarrow>
     m_wait_count (wk_ctx s) = of_nat (length (ctx_queue (wk_ctx s)) + length (wk_regd s) + busy (wk_pc s)) \<and>
     length (wk_regd s) \<le> max_submitters \<and> length (ctx_queue (wk_ctx s)) \<le> kQueCap"

text \<open>Every task is resumed, queued or registered, once.\<close>

definition wk_tasks_ok :: "worker \<Rightarrow> bool" where
  "wk_tasks_ok s \<longleftrightarrow>
     mset (wk_sub s) = mset (wk_exec s) + mset (ctx_queue (wk_ctx s)) + mset (wk_regd s) \<and>
     (if wk_pc s = Exited then mset (wk_late s) = mset (ctx_queue (wk_ctx s)) + mset (wk_regd s) else wk_late s = [])"

text \<open>Between finding the queue empty and sleeping, every push is followed by a write that counts.\<close>

definition wk_wake_ok :: "worker \<Rightarrow> bool" where
  "wk_wake_ok s \<longleftrightarrow>
     (wk_pc s \<in> {Auto_Test, Poll, Poll_Wait} \<longrightarrow> length (ctx_queue (wk_ctx s)) \<le> ctx_efd (wk_ctx s) + wk_pushed s)"

text \<open>The request counters do not wrap.\<close>

definition wk_io_ok :: "worker \<Rightarrow> bool" where
  "wk_io_ok s \<longleftrightarrow>
     unat (m_io_submit_count (m_engine (wk_ctx s))) + unat (m_io_running_count (m_engine (wk_ctx s))) \<le> 2 ^ 63 \<and>
     (wk_pc s = Poll_Wait \<longrightarrow> empty_io (m_engine (wk_ctx s)))"

text \<open>After a stop request the worker does not go to sleep without somebody about to wake it.\<close>

definition wk_stop_ok :: "worker \<Rightarrow> bool" where
  "wk_stop_ok s \<longleftrightarrow>
     (wk_pc s = Unmark \<longrightarrow> 0 < ctx_efd (wk_ctx s)) \<and>
     (wk_pc s \<in> {Ready_Test, Auto_Test, Poll, Poll_Wait} \<and> m_stop (wk_ctx s) \<longrightarrow>
        0 < ctx_efd (wk_ctx s) \<or> 0 < wk_stops s \<or> wk_regd s \<noteq> [] \<or> 0 < wk_pushed s \<or>
        \<not> empty_io (m_engine (wk_ctx s)) \<or> wk_pc s = Ready_Test \<and> ctx_queue (wk_ctx s) \<noteq> [])"

section \<open>Effects of the operations\<close>

lemma context_write_Inr:
  "context_write_eventfd 1 c = Inr c' \<longleftrightarrow>
     ctx_efd_open c \<and> ctx_efd c + 1 \<le> efd_max \<and>
     c' = c\<lparr>m_engine := (m_engine c)\<lparr>m_upxy := (m_upxy (m_engine c))\<lparr>efd_count := ctx_efd c + 1\<rparr>\<rparr>\<rparr>"
  by (auto simp: context_write_eventfd_def engine_write_eventfd_def write_eventfd_Inr)

lemma notify_stop_Inr:
  "notify_stop c = Inr c' \<longleftrightarrow>
     ctx_efd_open c \<and> ctx_efd c + 1 \<le> efd_max \<and>
     c' = c\<lparr>m_stop := True, m_engine := (m_engine c)\<lparr>m_upxy := (m_upxy (m_engine c))\<lparr>efd_count := ctx_efd c + 1\<rparr>\<rparr>\<rparr>"
  unfolding notify_stop_def context_write_Inr by simp

lemma schedule_Inr:
  "schedule e = Inr (h, e') \<longleftrightarrow> (\<exists>q. m_task_queue e = h # q \<and> e' = e\<lparr>m_task_queue := q\<rparr>)"
  by (auto simp: schedule_def tq_pop_def split: list.splits)

lemma submit_all:
  assumes "foldE context_submit_task hs c = Inr c'"
  shows "ctx_queue c' = ctx_queue c @ hs \<and> m_wait_count c' = m_wait_count c + of_nat (length hs) \<and>
    ctx_efd c' = ctx_efd c + length hs \<and> m_stop c' = m_stop c \<and> m_running_task c' = m_running_task c \<and>
    m_io_submit_count (m_engine c') = m_io_submit_count (m_engine c) \<and>
    m_io_running_count (m_engine c') = m_io_running_count (m_engine c) \<and>
    (length (ctx_queue c) \<le> kQueCap \<longrightarrow> length (ctx_queue c) + length hs \<le> kQueCap)"
  using assms
proof (induction hs arbitrary: c)
  case (Cons h hs)
  then obtain d where d: "context_submit_task h c = Inr d" "foldE context_submit_task hs d = Inr c'" by auto
  have "ctx_queue d = ctx_queue c @ [h]" "m_wait_count d = m_wait_count c + 1" "ctx_efd d = ctx_efd c + 1"
    "m_stop d = m_stop c" "m_running_task d = m_running_task c"
    "m_io_submit_count (m_engine d) = m_io_submit_count (m_engine c)"
    "m_io_running_count (m_engine d) = m_io_running_count (m_engine c)" "length (ctx_queue d) \<le> kQueCap"
    using d(1) by (simp_all add: context_submit_task_Inr)
  then show ?case using Cons.IH [OF d(2)] by simp
qed simp

lemma poll_flush_keeps [simp]:
  "m_task_queue (poll_flush n e) = m_task_queue e" "efd_count (m_upxy (poll_flush n e)) = efd_count (m_upxy e)"
  by (simp_all add: poll_flush_def Let_def uring_submit_def)

lemma poll_flush_io:
  "m_io_submit_count (poll_flush n e) = 0"
  "m_io_running_count (poll_flush n e) = m_io_running_count e + m_io_submit_count e"
  by (auto simp: poll_flush_def Let_def word_gt_0)

lemma poll_retire_keeps [simp]:
  "m_task_queue (poll_retire n e) = m_task_queue e" "efd_count (m_upxy (poll_retire n e)) = efd_count (m_upxy e)"
  "m_io_submit_count (poll_retire n e) = m_io_submit_count e"
  "m_io_running_count (poll_retire n e) = m_io_running_count e - of_nat n"
  by (simp_all add: poll_retire_def cq_advance_def)

lemmas wk_effects = upd_engine_def set_running_def context_write_Inr context_write_Inr [unfolded One_nat_def] notify_stop_Inr schedule_Inr
  register_wait_def add_io_submit_def wait_eventfd_Inr

section \<open>Preservation\<close>

lemma worker_step_count: "worker_step s t \<Longrightarrow> wk_count_ok s \<Longrightarrow> wk_count_ok t"
proof (induction rule: worker_step.induct)
  case (harvest s hs c)
  then show ?case using submit_all [OF harvest(3)] by (auto simp: wk_count_ok_def wk_effects busy_def)
next
  case (submit_push h s q)
  then have "length (wk_regd s) = Suc (length (remove1 h (wk_regd s)))"
    by (metis Suc_pred length_pos_if_in_set length_remove1 One_nat_def)
  then have "(of_nat (length (wk_regd s)) :: i32) = 1 + of_nat (length (remove1 h (wk_regd s)))"
    "length (remove1 h (wk_regd s)) \<le> length (wk_regd s)"
    by (metis of_nat_Suc, simp)
  moreover have "q = ctx_queue (wk_ctx s) @ [h]" "length (ctx_queue (wk_ctx s)) < kQueCap"
    using submit_push(2) by (auto simp: tq_push_def split: if_splits)
  ultimately show ?case using submit_push(3) by (simp add: wk_count_ok_def wk_effects)
qed (auto simp: wk_count_ok_def wk_effects busy_def engine_ready_def)

lemma worker_step_wake: "worker_step s t \<Longrightarrow> wk_wake_ok s \<Longrightarrow> wk_wake_ok t"
proof (induction rule: worker_step.induct)
  case (submit_push h s q)
  then show ?case by (auto simp: wk_wake_ok_def wk_effects tq_push_def split: if_splits)
qed (auto simp: wk_wake_ok_def wk_effects engine_ready_def split: if_splits)

lemma worker_step_io: "worker_step s t \<Longrightarrow> wk_io_ok s \<Longrightarrow> wk_io_ok t"
proof (induction rule: worker_step.induct)
  case (prepare_io s)
  then have "unat (m_io_submit_count (m_engine (wk_ctx s)) + 1) = unat (m_io_submit_count (m_engine (wk_ctx s))) + 1"
    by (simp add: unat_word_ariths)
  with prepare_io show ?case by (simp add: wk_io_ok_def wk_effects)
next
  case (flush s c accepted)
  let ?e = "m_engine (wk_ctx s)"
  have "unat (m_io_running_count ?e + m_io_submit_count ?e) = unat (m_io_running_count ?e) + unat (m_io_submit_count ?e)"
    using flush(3) by (simp add: wk_io_ok_def unat_word_ariths)
  then show ?case using flush by (auto simp: wk_io_ok_def wk_effects poll_flush_io empty_io_def)
next
  case (harvest s hs c)
  let ?r = "m_io_running_count (m_engine (wk_ctx s))"
  have "unat (?r - of_nat (length hs)) \<le> unat ?r"
  proof -
    have "unat ?r < 2 ^ LENGTH(64)" by (rule unsigned_less)
    then have "length hs < 2 ^ 64" using harvest(2) by simp
    then have u: "unat (of_nat (length hs) :: u64) = length hs" by simp
    then have "(of_nat (length hs) :: u64) \<le> ?r" using harvest(2) by (simp add: word_le_nat_alt)
    then show ?thesis by (simp add: unat_sub)
  qed
  then show ?case using harvest submit_all [OF harvest(3)] by (simp add: wk_io_ok_def wk_effects)
qed (auto simp: wk_io_ok_def wk_effects empty_io_def)

lemma sint_of_nat_i32: "n < 2 ^ 31 \<Longrightarrow> sint (of_nat n :: i32) = int n"
  by (simp add: signed_of_nat signed_take_bit_int_eq_self)

lemma sum_eq_0_u64:
  assumes "unat (a :: u64) + unat b \<le> 2 ^ 63" and "a + b = 0"
  shows "a = 0 \<and> b = 0"
proof -
  have "unat a + unat b = unat (a + b)" using assms(1) by (simp add: unat_word_ariths)
  with assms(2) show ?thesis by (simp add: unat_eq_zero)
qed

lemma wk_count_nat:
  assumes "wk_count_ok s"
  shows "\<not> 0 < sint (m_wait_count (wk_ctx s)) \<Longrightarrow> ctx_queue (wk_ctx s) = [] \<and> wk_regd s = []"
    and "m_wait_count (wk_ctx s) = 0 \<Longrightarrow> ctx_queue (wk_ctx s) = [] \<and> wk_regd s = [] \<and> busy (wk_pc s) = 0"
proof -
  let ?n = "length (ctx_queue (wk_ctx s)) + length (wk_regd s) + busy (wk_pc s)"
  have n: "?n < 2 ^ 31" and w: "m_wait_count (wk_ctx s) = of_nat ?n"
    using assms by (simp_all add: wk_count_ok_def max_submitters_def kQueCap_def busy_def)
  have s: "sint (of_nat ?n :: i32) = int ?n" by (rule sint_of_nat_i32 [OF n])
  show "\<not> 0 < sint (m_wait_count (wk_ctx s)) \<Longrightarrow> ctx_queue (wk_ctx s) = [] \<and> wk_regd s = []"
    unfolding w s by (cases "ctx_queue (wk_ctx s)"; cases "wk_regd s") auto
  show "ctx_queue (wk_ctx s) = [] \<and> wk_regd s = [] \<and> busy (wk_pc s) = 0" if "m_wait_count (wk_ctx s) = 0"
    using that n of_nat_u32_eq_0_iff [of ?n] unfolding w by simp
qed

lemma worker_step_tasks: "worker_step s t \<Longrightarrow> wk_count_ok s \<Longrightarrow> wk_tasks_ok s \<Longrightarrow> wk_tasks_ok t"
proof (induction rule: worker_step.induct)
  case (loop_exit s)
  then have "\<not> 0 < sint (m_wait_count (wk_ctx s))" by (simp add: run_continue_def)
  from wk_count_nat(1) [OF loop_exit(3) this] show ?case using loop_exit by (simp add: wk_tasks_ok_def)
next
  case (harvest s hs c)
  then show ?case using submit_all [OF harvest(3)] by (simp add: wk_tasks_ok_def wk_effects)
next
  case (submit_push h s q)
  then have "q = ctx_queue (wk_ctx s) @ [h]" "add_mset h (mset (remove1 h (wk_regd s))) = mset (wk_regd s)"
    by (auto simp: tq_push_def split: if_splits)
  then show ?case using submit_push(4) by (simp add: wk_tasks_ok_def wk_effects)
qed (auto simp: wk_tasks_ok_def wk_effects split: if_splits)

lemma worker_step_stop: "worker_step s t \<Longrightarrow> wk_count_ok s \<Longrightarrow> wk_io_ok s \<Longrightarrow> wk_stop_ok s \<Longrightarrow> wk_stop_ok t"
proof (induction rule: worker_step.induct)
  case (loop_on s)
  then show ?case by (auto simp: wk_stop_ok_def run_continue_def wk_count_ok_def busy_def engine_ready_def)
next
  case (flush s c accepted)
  then show ?case
    using sum_eq_0_u64 [of "m_io_running_count (m_engine (wk_ctx s))" "m_io_submit_count (m_engine (wk_ctx s))"]
    by (auto simp: wk_stop_ok_def wk_io_ok_def wk_effects empty_io_def poll_flush_io)
next
  case (harvest s hs c)
  then show ?case by (simp add: wk_stop_ok_def)
qed (auto simp: wk_stop_ok_def wk_effects empty_io_def engine_ready_def poll_flush_io tq_push_def split: if_splits)

lemma worker_reach_inv:
  "worker_reach s \<Longrightarrow> wk_count_ok s \<and> wk_tasks_ok s \<and> wk_wake_ok s \<and> wk_io_ok s \<and> wk_stop_ok s"
proof (induction rule: worker_reach.induct)
  case (init c)
  then show ?case
    by (simp add: fresh_ctx_def worker_init_def wk_count_ok_def wk_tasks_ok_def wk_wake_ok_def wk_io_ok_def
        wk_stop_ok_def busy_def max_submitters_def empty_io_def)
next
  case (step s t)
  then show ?case
    using worker_step_count worker_step_tasks worker_step_wake worker_step_io worker_step_stop by metis
qed

text \<open>Two reachable states of a worker with nothing to do: asleep, and stopped.\<close>

definition demo_ctx :: ctx where
  "demo_ctx = w_ctxs demo_world ! 0"

lemma demo_ctx_fresh: "fresh_ctx demo_ctx"
  by (simp add: fresh_ctx_def demo_ctx_def demo_world_def empty_io_def)

lemma demo_asleep: "worker_reach ((worker_init demo_ctx)\<lparr>wk_pc := Poll_Wait\<rparr>)"
proof -
  let ?s = "worker_init demo_ctx"
  note c = demo_ctx_def demo_world_def
  have "worker_reach ?s" by (rule worker_reach.init [OF demo_ctx_fresh])
  then have "worker_reach (?s\<lparr>wk_pc := Ready_Test\<rparr>)"
    by (rule worker_reach.step [OF _ worker_step.loop_on]) (simp_all add: worker_init_def run_continue_def c)
  from worker_reach.step [OF this worker_step.not_ready]
  have "worker_reach (?s\<lparr>wk_pc := Auto_Test\<rparr>)" by (simp add: worker_init_def engine_ready_def c)
  from worker_reach.step [OF this worker_step.no_auto_stop]
  have "worker_reach (?s\<lparr>wk_pc := Poll\<rparr>)" by (simp add: worker_init_def auto_stop_due_def c)
  from worker_reach.step [OF this worker_step.flush [OF _ refl, where accepted = 0]]
  show ?thesis by (simp add: worker_init_def upd_engine_def poll_flush_def c)
qed

lemma demo_stopped:
  "worker_reach ((worker_init demo_ctx)\<lparr>wk_pc := Exited, wk_ctx := demo_ctx\<lparr>m_stop := True\<rparr>, wk_stops := 1\<rparr>)"
proof -
  let ?s = "worker_init demo_ctx"
  have "worker_reach ?s" by (rule worker_reach.init [OF demo_ctx_fresh])
  from worker_reach.step [OF this worker_step.stop_request]
  have "worker_reach (?s\<lparr>wk_ctx := demo_ctx\<lparr>m_stop := True\<rparr>, wk_stops := 1\<rparr>)" by (simp add: worker_init_def)
  from worker_reach.step [OF this worker_step.loop_exit] show ?thesis
    by (simp add: worker_init_def run_continue_def empty_io_def engine_ready_def demo_ctx_def demo_world_def)
qed

section \<open>Properties\<close>

text \<open>
  C3. The worker does not sleep through its wake-up: in every reachable state in which the worker is
  at \<open>wait_eventfd\<close> and the wait would block, its queue is no longer than the number of submitters that
  have pushed their task and have still to write the event counter, so that every queued task
  has a write to come; if a stop has been requested some thread has still to write as well, and
  nothing is in flight for \<open>io_uring\<close>.
\<close>

theorem worker_no_lost_wakeup:
  assumes "worker_reach s" and "wk_pc s = Poll_Wait" and "wait_eventfd (m_upxy (m_engine (wk_ctx s))) = Inl Would_Block"
  shows "length (ctx_queue (wk_ctx s)) \<le> wk_pushed s \<and> empty_io (m_engine (wk_ctx s)) \<and>
    (m_stop (wk_ctx s) \<longrightarrow> 0 < wk_stops s \<or> wk_regd s \<noteq> [] \<or> 0 < wk_pushed s)"
proof -
  have "ctx_efd (wk_ctx s) = 0" using assms(3) by (auto simp: wait_eventfd_def split: if_splits)
  then show ?thesis
    using worker_reach_inv [OF assms(1)] assms(2) by (auto simp: wk_wake_ok_def wk_io_ok_def wk_stop_ok_def)
qed

theorem worker_no_lost_wakeup_witness:
  "let s = (worker_init demo_ctx)\<lparr>wk_pc := Poll_Wait\<rparr>
   in length (ctx_queue (wk_ctx s)) \<le> wk_pushed s \<and> empty_io (m_engine (wk_ctx s)) \<and>
     (m_stop (wk_ctx s) \<longrightarrow> 0 < wk_stops s \<or> wk_regd s \<noteq> [] \<or> 0 < wk_pushed s)"
  unfolding Let_def
  by (rule worker_no_lost_wakeup [OF demo_asleep])
    (simp_all add: worker_init_def wait_eventfd_def demo_ctx_def demo_world_def)

text \<open>
  C2. No task is lost or run twice: in every reachable state the tasks that were submitted are
  the ones resumed, the queued ones and the ones being submitted, each as often as it was submitted;
  and when the worker has left its loop, everything submitted before that moment has been
  resumed, whereas a task submitted later never is.
\<close>

theorem worker_runs_every_task:
  assumes "worker_reach s"
  shows "mset (wk_sub s) = mset (wk_exec s) + mset (ctx_queue (wk_ctx s)) + mset (wk_regd s) \<and>
    (wk_pc s = Exited \<longrightarrow> mset (wk_sub s) = mset (wk_exec s) + mset (wk_late s))"
  using worker_reach_inv [OF assms] by (auto simp: wk_tasks_ok_def)

theorem worker_runs_every_task_witness:
  "let s = (worker_init demo_ctx)\<lparr>wk_pc := Exited, wk_ctx := demo_ctx\<lparr>m_stop := True\<rparr>, wk_stops := 1\<rparr>
   in wk_pc s = Exited \<and> mset (wk_sub s) = mset (wk_exec s) + mset (wk_late s)"
  using worker_runs_every_task [OF demo_stopped, THEN conjunct2] by (simp add: Let_def)

text \<open>
  The idle test is sound for one context: where \<open>is_idle\<close> answers true in a reachable
  state, no task of the context is queued, being submitted or being executed; every task submitted so far
  has been resumed.
\<close>

theorem worker_idle_sound:
  assumes "worker_reach s" and "is_idle (wk_ctx s)"
  shows "ctx_queue (wk_ctx s) = [] \<and> wk_regd s = [] \<and> wk_pc s \<notin> {Body, Unregister} \<and>
    mset (wk_sub s) = mset (wk_exec s)"
proof -
  have inv: "wk_count_ok s" "wk_tasks_ok s" using worker_reach_inv [OF assms(1)] by simp_all
  have "m_wait_count (wk_ctx s) = 0" using assms(2) by (simp add: is_idle_def)
  from wk_count_nat(2) [OF inv(1) this] inv(2) show ?thesis by (auto simp: busy_def wk_tasks_ok_def split: if_splits)
qed

theorem worker_idle_sound_witness:
  "ctx_queue (wk_ctx (worker_init demo_ctx)) = [] \<and> mset (wk_sub (worker_init demo_ctx)) = mset (wk_exec (worker_init demo_ctx))"
proof -
  have "is_idle (wk_ctx (worker_init demo_ctx))"
    by (simp add: worker_init_def is_idle_def empty_io_def engine_ready_def demo_ctx_def demo_world_def)
  from worker_idle_sound [OF worker_reach.init [OF demo_ctx_fresh] this] show ?thesis by simp
qed

text \<open>
  The scheduler's test is not sound for several contexts, because \<open>loop_impl\<close> asks them one after
  the other. Context 0 is idle when asked; then a task running on context 1 submits \<open>h\<close> to
  context 0 and ends; context 1 is idle when asked. The scan found every context idle, and a task
  is pending.
\<close>

theorem scheduler_idle_scan_race:
  assumes "is_idle c0" and "ctx_room 1 c0" and "m_wait_count c1 = 1" and "m_running_task c1"
    and "ctx_queue c1 = []" and "empty_io (m_engine c1)" and "ctx_room 1 c1"
  shows "\<exists>c0' c1'. \<not> is_idle c1 \<and> context_submit_task h c0 = Inr c0' \<and> unregister_wait 1 c1 = Inr c1' \<and>
    is_idle (c1'\<lparr>m_running_task := False\<rparr>) \<and> \<not> is_idle c0' \<and> ctx_queue c0' = [h]"
proof -
  obtain c0' where c0': "context_submit_task h c0 = Inr c0'" using ctx_room_submit [of 0 c0 h] assms(2) by auto
  then have "ctx_queue c0' = [h]" using assms(1) by (simp add: context_submit_task_Inr is_idle_def engine_ready_def)
  moreover from this have "\<not> is_idle c0'" by (simp add: is_idle_def engine_ready_def)
  moreover have "\<exists>c1'. unregister_wait 1 c1 = Inr c1' \<and> is_idle (c1'\<lparr>m_running_task := False\<rparr>)"
    using assms(3-7)
    by (auto simp: unregister_wait_def context_write_Inr [unfolded One_nat_def] context_write_Inr ctx_room_def is_idle_def
        engine_ready_def empty_io_def)
  ultimately show ?thesis using c0' assms(4) by (auto simp: is_idle_def)
qed

theorem scheduler_idle_scan_race_witness:
  "\<exists>c0' c1'. context_submit_task 5 demo_ctx = Inr c0' \<and>
     unregister_wait 1 (demo_ctx\<lparr>m_wait_count := 1, m_running_task := True\<rparr>) = Inr c1' \<and>
     is_idle demo_ctx \<and> is_idle (c1'\<lparr>m_running_task := False\<rparr>) \<and> \<not> is_idle c0' \<and> ctx_queue c0' = [5]"
proof -
  have "is_idle demo_ctx" by (simp add: is_idle_def empty_io_def engine_ready_def demo_ctx_def demo_world_def)
  then show ?thesis
    using scheduler_idle_scan_race [of demo_ctx "demo_ctx\<lparr>m_wait_count := 1, m_running_task := True\<rparr>" 5]
    by (auto simp: demo_ctx_def demo_world_def ctx_room_def kQueCap_def efd_max_def empty_io_def)
qed

end
