(* ===== verification/Spinlock.thy ===== *)
theory Spinlock
  imports Prelude
begin

text \<open>
  \<open>coro/spinlock.hpp\<close>: the lock under which the primitives change their queues. The shared
  state is one atomic boolean, and each access to it is one step. The theories of the primitives
  treat a critical section as one step; the property here is what allows that.
\<close>

section \<open>Operations\<close>

text \<open>\<open>lock_.exchange(true)\<close>: the old value and the new state.\<close>

definition exchange_true :: "bool \<Rightarrow> bool \<times> bool" where
  "exchange_true lk = (lk, True)"

definition spin_unlock :: "bool \<Rightarrow> bool" where
  "spin_unlock lk = False"

text \<open>\<open>lock\<close> and \<open>try_lock\<close> when no other thread runs in between; \<open>lock\<close> spins forever on a lock that is taken.\<close>

definition spin_lock :: "bool \<Rightarrow> bool res" where
  "spin_lock lk = (case exchange_true lk of (old, lk') \<Rightarrow> if \<not> old then Inr lk' else Inl Would_Block)"

definition spin_try_lock :: "bool \<Rightarrow> bool \<times> bool" where
  "spin_try_lock lk = (if lk then (False, lk) else case exchange_true lk of (old, lk') \<Rightarrow> (\<not> old, lk'))"

section \<open>Threads\<close>

text \<open>
  \<open>Sp_Exchange\<close>: about to exchange in \<open>lock\<close>; \<open>Sp_Spin\<close>: in its inner loop; \<open>Sp_Try\<close>:
  in \<open>try_lock\<close> between the load and the exchange; \<open>Sp_Crit\<close>: holding the lock.
\<close>

datatype sp_pc = Sp_Out | Sp_Exchange | Sp_Spin | Sp_Try | Sp_Crit

record sp_sys =
  sp_lock :: bool
  sp_pc :: "nat \<Rightarrow> sp_pc"

definition sp_init :: sp_sys where
  "sp_init = \<lparr>sp_lock = False, sp_pc = (\<lambda>_. Sp_Out)\<rparr>"

inductive sp_step :: "sp_sys \<Rightarrow> sp_sys \<Rightarrow> bool" where
  lock: "sp_pc s t = Sp_Out \<Longrightarrow> sp_step s (s\<lparr>sp_pc := (sp_pc s)(t := Sp_Exchange)\<rparr>)"
| exchange: "sp_pc s t = Sp_Exchange \<Longrightarrow> exchange_true (sp_lock s) = (old, lk) \<Longrightarrow>
    sp_step s (s\<lparr>sp_lock := lk, sp_pc := (sp_pc s)(t := if \<not> old then Sp_Crit else Sp_Spin)\<rparr>)"
| spin: "sp_pc s t = Sp_Spin \<Longrightarrow>
    sp_step s (s\<lparr>sp_pc := (sp_pc s)(t := if sp_lock s then Sp_Spin else Sp_Exchange)\<rparr>)"
| try_load: "sp_pc s t = Sp_Out \<Longrightarrow>
    sp_step s (s\<lparr>sp_pc := (sp_pc s)(t := if sp_lock s then Sp_Out else Sp_Try)\<rparr>)"
| try_exchange: "sp_pc s t = Sp_Try \<Longrightarrow> exchange_true (sp_lock s) = (old, lk) \<Longrightarrow>
    sp_step s (s\<lparr>sp_lock := lk, sp_pc := (sp_pc s)(t := if \<not> old then Sp_Crit else Sp_Out)\<rparr>)"
| unlock: "sp_pc s t = Sp_Crit \<Longrightarrow>
    sp_step s (s\<lparr>sp_lock := spin_unlock (sp_lock s), sp_pc := (sp_pc s)(t := Sp_Out)\<rparr>)"

inductive sp_reach :: "sp_sys \<Rightarrow> bool" where
  init: "sp_reach sp_init"
| step: "sp_reach s \<Longrightarrow> sp_step s s' \<Longrightarrow> sp_reach s'"

text \<open>The invariant names the holder, if there is one.\<close>

definition sp_held :: "nat option \<Rightarrow> sp_sys \<Rightarrow> bool" where
  "sp_held holder s \<longleftrightarrow> (\<forall>t. sp_pc s t = Sp_Crit \<longleftrightarrow> holder = Some t) \<and> (sp_lock s \<longleftrightarrow> holder \<noteq> None)"

definition sp_inv :: "sp_sys \<Rightarrow> bool" where
  [inv_defs]: "sp_inv s \<longleftrightarrow> (\<exists>holder. sp_held holder s)"

lemma sp_held_outside:
  "sp_pc s t \<noteq> Sp_Crit \<Longrightarrow> x \<noteq> Sp_Crit \<Longrightarrow> sp_held holder (s\<lparr>sp_pc := (sp_pc s)(t := x)\<rparr>) = sp_held holder s"
  by (auto simp: sp_held_def)

lemma sp_step_held:
  "sp_step s s' \<Longrightarrow> sp_held holder s \<Longrightarrow> sp_held holder s' \<or> (\<exists>t. sp_held (Some t) s') \<or> sp_held None s'"
proof (induction rule: sp_step.induct)
  case (exchange s t old lk)
  then have "holder \<noteq> Some t" by (force simp: sp_held_def)
  with exchange show ?case by (cases "sp_lock s") (auto simp: sp_held_def exchange_true_def)
next
  case (try_exchange s t old lk)
  then have "holder \<noteq> Some t" by (force simp: sp_held_def)
  with try_exchange show ?case by (cases "sp_lock s") (auto simp: sp_held_def exchange_true_def)
next
  case (unlock s t)
  then show ?case by (auto simp: sp_held_def spin_unlock_def)
qed (simp_all add: sp_held_outside)

lemma sp_step_inv: "sp_step s s' \<Longrightarrow> sp_inv s \<Longrightarrow> sp_inv s'"
  using sp_step_held unfolding sp_inv_def by blast

lemma sp_reach_inv: "sp_reach s \<Longrightarrow> sp_inv s"
proof (induction rule: sp_reach.induct)
  case init
  have "sp_held None sp_init" by (simp add: sp_held_def sp_init_def)
  then show ?case unfolding sp_inv_def by blast
qed (blast intro: sp_step_inv)

section \<open>Properties\<close>

text \<open>
  C37. The spinlock excludes: with any number of threads in \<open>lock\<close>, \<open>try_lock\<close> and
  \<open>unlock\<close>, at most one is in its critical section, and the flag is set exactly while one is.
  A thread about to exchange on a free lock gets it with that step.
\<close>

theorem spinlock_exclusion:
  assumes "sp_reach s"
  shows "(\<forall>t u. sp_pc s t = Sp_Crit \<and> sp_pc s u = Sp_Crit \<longrightarrow> t = u) \<and> (sp_lock s \<longleftrightarrow> (\<exists>t. sp_pc s t = Sp_Crit)) \<and>
    (\<forall>t. sp_pc s t = Sp_Exchange \<and> \<not> sp_lock s \<longrightarrow>
       sp_step s (s\<lparr>sp_lock := True, sp_pc := (sp_pc s)(t := Sp_Crit)\<rparr>))"
proof -
  have "sp_step s (s\<lparr>sp_lock := True, sp_pc := (sp_pc s)(t := Sp_Crit)\<rparr>)"
    if "sp_pc s t = Sp_Exchange" "\<not> sp_lock s" for t
    using sp_step.exchange [OF that(1), of False True] that(2) by (simp add: exchange_true_def)
  moreover obtain holder where "sp_held holder s" using sp_reach_inv [OF assms] by (auto simp: sp_inv_def)
  ultimately show ?thesis by (auto simp: sp_held_def)
qed

theorem spinlock_exclusion_witness:
  "let s = sp_init\<lparr>sp_pc := (\<lambda>_. Sp_Out)(3 := Sp_Exchange)\<rparr>
   in sp_step s (s\<lparr>sp_lock := True, sp_pc := (sp_pc s)(3 := Sp_Crit)\<rparr>)"
proof -
  let ?s = "sp_init\<lparr>sp_pc := (\<lambda>_. Sp_Out)(3 := Sp_Exchange)\<rparr>"
  have "sp_reach ?s"
    using sp_reach.step [OF sp_reach.init sp_step.lock [of sp_init 3]] by (simp add: sp_init_def)
  from spinlock_exclusion [OF this, THEN conjunct2, THEN conjunct2, THEN spec, of 3] show ?thesis
    by (simp add: sp_init_def)
qed

end
