(* ===== verification/Utils.thy ===== *)
theory Utils
  imports Prelude
begin

unbundle bit_operations_syntax

text \<open>
  \<open>coro/utils.hpp\<close> and \<open>src/utils.cpp\<close>: the string helpers. A character is its byte,
  \<open>of_char c :: nat\<close>. The regular expression of \<open>file_extension\<close> is written out as the search
  it describes.
\<close>

section \<open>Definitions\<close>

text \<open>\<open>find_first_not_of\<close> and \<open>find_last_not_of\<close>: an index, or none for \<open>npos\<close>.\<close>

fun find_first_not_of :: "string \<Rightarrow> string \<Rightarrow> nat option" where
  "find_first_not_of to_trim [] = None"
| "find_first_not_of to_trim (c # cs) =
     (if c \<notin> set to_trim then Some 0 else map_option Suc (find_first_not_of to_trim cs))"

definition find_last_not_of :: "string \<Rightarrow> string \<Rightarrow> nat option" where
  "find_last_not_of to_trim s = map_option (\<lambda>i. length s - 1 - i) (find_first_not_of to_trim (rev s))"

text \<open>
  \<open>s.erase(0, npos)\<close> removes everything, and \<open>npos + 1\<close> is 0, so that the second call
  removes everything where nothing is found.
\<close>

definition trim :: "string \<Rightarrow> string \<Rightarrow> string" where
  "trim s to_trim =
     (if s = [] then s
      else let s = (case find_first_not_of to_trim s of None \<Rightarrow> [] | Some i \<Rightarrow> drop i s)
           in case find_last_not_of to_trim s of None \<Rightarrow> take 0 s | Some i \<Rightarrow> take (i + 1) s)"

definition lower_table :: "nat list" where
  "lower_table =
    [0, 1, 2, 3, 4, 5, 6, 7, 8, 9, 10, 11, 12, 13, 14, 15, 16, 17, 18, 19, 20, 21,
     22, 23, 24, 25, 26, 27, 28, 29, 30, 31, 32, 33, 34, 35, 36, 37, 38, 39, 40, 41, 42, 43,
     44, 45, 46, 47, 48, 49, 50, 51, 52, 53, 54, 55, 56, 57, 58, 59, 60, 61, 62, 63, 64, 97,
     98, 99, 100, 101, 102, 103, 104, 105, 106, 107, 108, 109, 110, 111, 112, 113, 114, 115, 116, 117, 118, 119,
     120, 121, 122, 91, 92, 93, 94, 95, 96, 97, 98, 99, 100, 101, 102, 103, 104, 105, 106, 107, 108, 109,
     110, 111, 112, 113, 114, 115, 116, 117, 118, 119, 120, 121, 122, 123, 124, 125, 126, 127, 128, 129, 130, 131,
     132, 133, 134, 135, 136, 137, 138, 139, 140, 141, 142, 143, 144, 145, 146, 147, 148, 149, 150, 151, 152, 153,
     154, 155, 156, 157, 158, 159, 160, 161, 162, 163, 164, 165, 166, 167, 168, 169, 170, 171, 172, 173, 174, 175,
     176, 177, 178, 179, 180, 181, 182, 183, 184, 185, 186, 187, 188, 189, 190, 191, 224, 225, 226, 227, 228, 229,
     230, 231, 232, 233, 234, 235, 236, 237, 238, 239, 240, 241, 242, 243, 244, 245, 246, 215, 248, 249, 250, 251,
     252, 253, 254, 223, 224, 225, 226, 227, 228, 229, 230, 231, 232, 233, 234, 235, 236, 237, 238, 239, 240, 241,
     242, 243, 244, 245, 246, 247, 248, 249, 250, 251, 252, 253, 254, 255]"

definition to_lower :: "char \<Rightarrow> nat" where
  "to_lower c = lower_table ! of_char c"

definition hash_step :: "u64 \<Rightarrow> char \<Rightarrow> u64" where
  "hash_step h c = (drop_bit 6 (- 1) AND (h * 33)) XOR of_nat (to_lower c)"

fun hash_core :: "string \<Rightarrow> u64 \<Rightarrow> u64" where
  "hash_core [] h = h"
| "hash_core (c # s) h = hash_core s (hash_step h c)"

definition utils_hash :: "string \<Rightarrow> u64" where
  "utils_hash key = hash_core key 0"

definition utils_equal :: "string \<Rightarrow> string \<Rightarrow> bool" where
  "utils_equal a b \<longleftrightarrow> length a = length b \<and> list_all2 (\<lambda>ca cb. to_lower ca = to_lower cb) a b"

definition is_digit :: "char \<Rightarrow> bool" where
  "is_digit c \<longleftrightarrow> 48 \<le> (of_char c :: nat) \<and> (of_char c :: nat) \<le> 57"

definition is_alnum :: "char \<Rightarrow> bool" where
  "is_alnum c \<longleftrightarrow> is_digit c \<or> 65 \<le> (of_char c :: nat) \<and> (of_char c :: nat) \<le> 90 \<or>
     97 \<le> (of_char c :: nat) \<and> (of_char c :: nat) \<le> 122"

definition is_numeric :: "string \<Rightarrow> bool" where
  "is_numeric str \<longleftrightarrow> str \<noteq> [] \<and> list_all is_digit str"

fun file_extension :: "string \<Rightarrow> string" where
  "file_extension [] = []"
| "file_extension (c # cs) =
     (if c = CHR ''.'' \<and> cs \<noteq> [] \<and> list_all is_alnum cs then cs else file_extension cs)"

section \<open>Trimming\<close>

lemma find_first_dropWhile:
  "(case find_first_not_of t s of None \<Rightarrow> [] | Some i \<Rightarrow> drop i s) = dropWhile (\<lambda>c. c \<in> set t) s"
  by (induction s) (auto split: option.splits)

lemma find_first_None: "find_first_not_of t s = None \<longleftrightarrow> set s \<subseteq> set t"
  by (induction s) auto

lemma find_first_bound: "find_first_not_of t s = Some i \<Longrightarrow> i < length s \<and> takeWhile (\<lambda>c. c \<in> set t) s = take i s"
  by (induction s arbitrary: i) (auto split: if_splits)

lemma trim_eq: "trim s t = rev (dropWhile (\<lambda>c. c \<in> set t) (rev (dropWhile (\<lambda>c. c \<in> set t) s)))"
proof -
  let ?d = "dropWhile (\<lambda>c. c \<in> set t)"
  have "(case find_last_not_of t u of None \<Rightarrow> take 0 u | Some i \<Rightarrow> take (i + 1) u) = rev (?d (rev u))" for u
  proof (cases "find_first_not_of t (rev u)")
    case None
    then have "?d (rev u) = []" by (simp add: find_first_None subset_iff)
    then show ?thesis using None by (simp add: find_last_not_of_def)
  next
    case (Some i)
    then have "i < length u" "?d (rev u) = drop i (rev u)"
      using find_first_bound [OF Some] find_first_dropWhile [where t = t and s = "rev u"] by simp_all
    then show ?thesis using Some by (simp add: find_last_not_of_def drop_rev Suc_diff_Suc)
  qed
  then show ?thesis by (simp add: trim_def Let_def find_first_dropWhile)
qed

lemma hash_step_cong: "to_lower x = to_lower y \<Longrightarrow> hash_step h x = hash_step h y"
  by (simp only: hash_step_def)

lemma hash_core_equal: "map to_lower a = map to_lower b \<Longrightarrow> hash_core a h = hash_core b h"
proof (induction a arbitrary: b h)
  case (Cons x a)
  then obtain y b' where b: "b = y # b'" "to_lower x = to_lower y" "map to_lower a = map to_lower b'"
    by (cases b) auto
  then show ?case using Cons.IH [OF b(3), of "hash_step h y"] hash_step_cong [OF b(2), of h] by simp
qed simp

lemma utils_equal_iff: "utils_equal a b \<longleftrightarrow> map to_lower a = map to_lower b"
proof -
  have "list_all2 (\<lambda>ca cb. to_lower ca = to_lower cb) a b \<longleftrightarrow> map to_lower a = map to_lower b"
  proof (induction a arbitrary: b)
    case (Cons x a)
    then show ?case by (cases b) auto
  qed auto
  then show ?thesis by (auto simp: utils_equal_def dest: map_eq_imp_length_eq)
qed


lemma to_lower_latin1:
  "to_lower c = (let n = of_char c in if 65 \<le> n \<and> n \<le> 90 \<or> 192 \<le> n \<and> n \<le> 222 \<and> n \<noteq> 215 then n + 32 else n)"
proof -
  let ?f = "\<lambda>n::nat. if 65 \<le> n \<and> n \<le> 90 \<or> 192 \<le> n \<and> n \<le> 222 \<and> n \<noteq> 215 then n + 32 else n"
  have tab: "lower_table = map ?f [0..<256]" by code_simp
  have "lower_table ! n = ?f n" if "n < 256" for n using that unfolding tab by (subst nth_map) simp_all
  moreover have "(of_char c :: nat) < 256" by (rule of_char_mod_256 [THEN subst]) simp
  ultimately show ?thesis unfolding to_lower_def Let_def by blast
qed

lemma dot_not_alnum: "CHR ''.'' \<in> set cs \<Longrightarrow> \<not> list_all is_alnum cs"
  by (force simp: list_all_iff is_alnum_def is_digit_def)

lemma file_extension_skip: "CHR ''.'' \<in> set e \<Longrightarrow> file_extension (p @ e) = file_extension e"
  by (induction p) (auto dest: dot_not_alnum)

lemma file_extension_no_dot: "CHR ''.'' \<notin> set e \<Longrightarrow> file_extension e = []"
  by (induction e) auto

section \<open>Properties\<close>

text \<open>
  \<open>hash\<close> and \<open>equal\<close> fit together, as an unordered container that uses them needs: strings
  that \<open>equal\<close> identifies have the same hash, and \<open>equal\<close> is an equivalence relation.
\<close>

theorem hash_respects_equal:
  "(utils_equal a b \<longrightarrow> utils_hash a = utils_hash b) \<and> utils_equal a a \<and>
   (utils_equal a b \<longrightarrow> utils_equal b a) \<and> (utils_equal a b \<and> utils_equal b c \<longrightarrow> utils_equal a c)"
  unfolding utils_equal_iff utils_hash_def using hash_core_equal by metis

theorem hash_respects_equal_witness:
  "utils_equal ''Host'' ''hOST'' \<and> utils_equal ''hOST'' ''HOST'' \<and> utils_hash ''Host'' = utils_hash ''hOST'' \<and>
   utils_equal ''hOST'' ''Host'' \<and> utils_equal ''Host'' ''HOST''"
proof -
  have "utils_equal ''Host'' ''hOST''" "utils_equal ''hOST'' ''HOST''" by code_simp+
  then show ?thesis using hash_respects_equal [of "''Host''" "''hOST''" "''HOST''"] by blast
qed

text \<open>
  \<open>trim\<close> removes the longest prefix and the longest suffix of characters in \<open>to_trim\<close>, and
  nothing else: the string is a prefix, the result and a suffix, the outer parts consist of
  such characters, and the result neither starts nor ends with one.
\<close>

theorem trim_spec:
  "\<exists>p q. s = p @ trim s t @ q \<and> set p \<subseteq> set t \<and> set q \<subseteq> set t \<and>
     (trim s t \<noteq> [] \<longrightarrow> hd (trim s t) \<notin> set t \<and> last (trim s t) \<notin> set t)"
proof -
  let ?P = "\<lambda>c. c \<in> set t"
  let ?u = "dropWhile ?P s"
  have s: "s = takeWhile ?P s @ ?u" by simp
  have u: "?u = trim s t @ rev (takeWhile ?P (rev ?u))"
    unfolding trim_eq by (metis rev_append rev_rev_ident takeWhile_dropWhile_id)
  have "last (trim s t) \<notin> set t" if "trim s t \<noteq> []"
    using that hd_dropWhile [of ?P "rev ?u"] by (simp add: trim_eq last_rev)
  moreover have "hd (trim s t) \<notin> set t" if "trim s t \<noteq> []"
    using that hd_dropWhile [of ?P s] u by (metis Nil_is_append_conv hd_append2)
  moreover have "s = takeWhile ?P s @ trim s t @ rev (takeWhile ?P (rev ?u))" using s u by metis
  moreover have "set (takeWhile ?P s) \<subseteq> set t" "set (rev (takeWhile ?P (rev ?u))) \<subseteq> set t"
    by (auto dest: set_takeWhileD)
  ultimately show ?thesis by blast
qed

theorem trim_spec_witness:
  "trim '' ab '' '' '' = ''ab'' \<and> hd (trim '' ab '' '' '') \<notin> set '' '' \<and> last (trim '' ab '' '' '') \<notin> set '' ''"
proof -
  have "trim '' ab '' '' '' = ''ab''" by code_simp
  then show ?thesis using trim_spec [of "'' ab ''" "'' ''"] by force
qed

text \<open>
  \<open>file_extension\<close> answers the text after the last dot if that is not empty and alphanumeric,
  and the empty string otherwise.
\<close>

theorem file_extension_last_dot:
  "file_extension (p @ CHR ''.'' # e) =
     (if CHR ''.'' \<in> set e then file_extension e else if e \<noteq> [] \<and> list_all is_alnum e then e else [])"
  using file_extension_skip [of "CHR ''.'' # e" p] dot_not_alnum [of e] file_extension_no_dot [of e] by auto

end
