(* ===== verification/Sched_Loop.thy ===== *)
theory Sched_Loop
  imports Worker
begin

text \<open>
  \<open>scheduler::loop_impl\<close> over any number of contexts: the main thread starts the workers, scans
  the contexts until it finds all of them idle, requests every worker to stop, and joins them;
  meanwhile the workers run as in theory Worker and coroutines submit to any context. The test
  \<open>is_idle\<close> of one context reads its members one after the other, each read a step of its own. As in theory Worker the
  workers end with \<open>run\<close>, so that the write of a stop never meets an eventfd that \<open>deinit\<close> has closed.
  With \<open>local\<close>, coroutines submit to their own context only, and nobody else does, once the
  loop runs; this is what programs do that wait for input and output only.
\<close>

section \<open>Definitions\<close>

datatype loop_pc = L_Start nat | L_Scan nat nat | L_Stop nat | L_Stop_Write nat | L_Join nat | L_Done

record sched_sys =
  sd_ws :: "worker list"
  sd_pc :: loop_pc

definition sched_init :: "ctx list \<Rightarrow> sched_sys" where
  "sched_init cs = \<lparr>sd_ws = map worker_init cs, sd_pc = L_Start 0\<rparr>"

text \<open>The reads of \<open>is_idle\<close>, in their order.\<close>

definition idle_read :: "nat \<Rightarrow> ctx \<Rightarrow> bool" where
  "idle_read k c \<longleftrightarrow> [\<not> m_running_task c, empty_io (m_engine c), \<not> engine_ready (m_engine c), m_wait_count c = 0] ! k"

text \<open>The worker threads that exist: \<open>start\<close> has been called for the first contexts.\<close>

fun started :: "loop_pc \<Rightarrow> nat \<Rightarrow> bool" where
  "started (L_Start j) i \<longleftrightarrow> i < j"
| "started _ i \<longleftrightarrow> True"

definition submits_locally :: "worker \<Rightarrow> worker \<Rightarrow> bool" where
  "submits_locally w w' \<longleftrightarrow> wk_sub w' = wk_sub w \<or> wk_pc w = Body \<or> wk_pc w = Poll_Harvest"

inductive sched_step :: "bool \<Rightarrow> sched_sys \<Rightarrow> sched_sys \<Rightarrow> bool" for local where
  start: "sd_pc s = L_Start i \<Longrightarrow> i < length (sd_ws s) \<Longrightarrow> sched_step local s (s\<lparr>sd_pc := L_Start (i + 1)\<rparr>)"
| started: "sd_pc s = L_Start (length (sd_ws s)) \<Longrightarrow> sched_step local s (s\<lparr>sd_pc := L_Scan 0 0\<rparr>)"
| scan_read: "sd_pc s = L_Scan i k \<Longrightarrow> i < length (sd_ws s) \<Longrightarrow> k < 3 \<Longrightarrow> idle_read k (wk_ctx (sd_ws s ! i)) \<Longrightarrow>
    sched_step local s (s\<lparr>sd_pc := L_Scan i (k + 1)\<rparr>)"
| scan_next: "sd_pc s = L_Scan i 3 \<Longrightarrow> i < length (sd_ws s) \<Longrightarrow> idle_read 3 (wk_ctx (sd_ws s ! i)) \<Longrightarrow>
    sched_step local s (s\<lparr>sd_pc := L_Scan (i + 1) 0\<rparr>)"
| scan_busy: "sd_pc s = L_Scan i k \<Longrightarrow> i < length (sd_ws s) \<Longrightarrow> \<not> idle_read k (wk_ctx (sd_ws s ! i)) \<Longrightarrow>
    sched_step local s (s\<lparr>sd_pc := L_Scan 0 0\<rparr>)"
| all_idle: "sd_pc s = L_Scan (length (sd_ws s)) 0 \<Longrightarrow> sched_step local s (s\<lparr>sd_pc := L_Stop 0\<rparr>)"
| stop: "sd_pc s = L_Stop i \<Longrightarrow> i < length (sd_ws s) \<Longrightarrow> w = sd_ws s ! i \<Longrightarrow>
    sched_step local s (s\<lparr>sd_ws := (sd_ws s)[i := w\<lparr>wk_ctx := (wk_ctx w)\<lparr>m_stop := True\<rparr>, wk_stops := wk_stops w + 1\<rparr>],
      sd_pc := L_Stop_Write i\<rparr>)"
| stop_write: "sd_pc s = L_Stop_Write i \<Longrightarrow> i < length (sd_ws s) \<Longrightarrow> w = sd_ws s ! i \<Longrightarrow> 0 < wk_stops w \<Longrightarrow>
    context_write_eventfd 1 (wk_ctx w) = Inr c \<Longrightarrow>
    sched_step local s (s\<lparr>sd_ws := (sd_ws s)[i := w\<lparr>wk_ctx := c, wk_stops := wk_stops w - 1\<rparr>], sd_pc := L_Stop (i + 1)\<rparr>)"
| stopped: "sd_pc s = L_Stop (length (sd_ws s)) \<Longrightarrow> sched_step local s (s\<lparr>sd_pc := L_Join 0\<rparr>)"
| join: "sd_pc s = L_Join i \<Longrightarrow> i < length (sd_ws s) \<Longrightarrow> wk_pc (sd_ws s ! i) = Exited \<Longrightarrow>
    sched_step local s (s\<lparr>sd_pc := L_Join (i + 1)\<rparr>)"
| joined: "sd_pc s = L_Join (length (sd_ws s)) \<Longrightarrow> sched_step local s (s\<lparr>sd_pc := L_Done\<rparr>)"
| worker: "i < length (sd_ws s) \<Longrightarrow> worker_step (sd_ws s ! i) w' \<Longrightarrow> wk_stops w' = wk_stops (sd_ws s ! i) \<Longrightarrow>
    started (sd_pc s) i \<or> wk_pc w' = wk_pc (sd_ws s ! i) \<Longrightarrow> local \<longrightarrow> submits_locally (sd_ws s ! i) w' \<Longrightarrow>
    sched_step local s (s\<lparr>sd_ws := (sd_ws s)[i := w']\<rparr>)"

inductive sched_reach :: "bool \<Rightarrow> ctx list \<Rightarrow> sched_sys \<Rightarrow> bool" for local cs where
  reach_init: "list_all (\<lambda>c. fresh_ctx c \<and> m_managed_by_scheduler c) cs \<Longrightarrow> sched_reach local cs (sched_init cs)"
| reach_step: "sched_reach local cs s \<Longrightarrow> sched_step local s t \<Longrightarrow> sched_reach local cs t"

section \<open>Invariants\<close>

text \<open>The loop is faithful to \<open>is_idle\<close> when nothing happens between its reads.\<close>

lemma is_idle_reads: "is_idle c \<longleftrightarrow> list_all (\<lambda>k. idle_read k c) [0, 1, 2, 3]"
  by (simp add: is_idle_def idle_read_def numeral_2_eq_2 numeral_3_eq_3)

text \<open>The workers that are known to have exited.\<close>

fun joined_upto :: "nat \<Rightarrow> loop_pc \<Rightarrow> nat" where
  "joined_upto n (L_Join i) = i"
| "joined_upto n L_Done = n"
| "joined_upto n _ = 0"

definition sched_inv :: "bool \<Rightarrow> sched_sys \<Rightarrow> bool" where
  "sched_inv local s \<longleftrightarrow> (\<forall>w \<in> set (sd_ws s). worker_reach w \<and> (local \<longrightarrow> wk_late w = [])) \<and>
     (\<forall>i < length (sd_ws s). i < joined_upto (length (sd_ws s)) (sd_pc s) \<longrightarrow> wk_pc (sd_ws s ! i) = Exited)"

lemma exited_stable: "worker_step w w' \<Longrightarrow> wk_pc w = Exited \<Longrightarrow> wk_pc w' = Exited"
  by (induction rule: worker_step.induct) auto

lemma late_locally: "worker_step w w' \<Longrightarrow> submits_locally w w' \<Longrightarrow> wk_late w' = wk_late w"
  by (induction rule: worker_step.induct) (auto simp: submits_locally_def)

lemma sched_inv_upd:
  assumes "sched_inv local s" "i < length (sd_ws s)" "worker_step (sd_ws s ! i) w'" "local \<Longrightarrow> wk_late w' = []"
    "joined_upto (length (sd_ws s)) pc' \<le> joined_upto (length (sd_ws s)) (sd_pc s)"
  shows "sched_inv local (s\<lparr>sd_ws := (sd_ws s)[i := w'], sd_pc := pc'\<rparr>)"
proof -
  have "worker_reach (sd_ws s ! i)" using assms(1,2) by (simp add: sched_inv_def)
  then have "worker_reach w'" using assms(3) by (rule worker_reach.step)
  moreover have "set ((sd_ws s)[i := w']) \<subseteq> insert w' (set (sd_ws s))" by (rule set_update_subset_insert)
  ultimately have "\<forall>w \<in> set ((sd_ws s)[i := w']). worker_reach w \<and> (local \<longrightarrow> wk_late w = [])"
    using assms(1,4) unfolding sched_inv_def by blast
  moreover have "wk_pc ((sd_ws s)[i := w'] ! j) = Exited"
    if "j < length (sd_ws s)" "j < joined_upto (length (sd_ws s)) pc'" for j
    using that assms(1,5) exited_stable [OF assms(3)] by (cases "j = i") (auto simp: sched_inv_def)
  ultimately show ?thesis by (simp add: sched_inv_def)
qed

lemma sched_step_inv:
  assumes "sched_inv local s" "sched_step local s t"
  shows "sched_inv local t"
  using assms(2)
proof cases
  case (worker i w')
  have "local \<Longrightarrow> wk_late w' = []"
    using worker(2,3,6) late_locally [OF worker(3)] assms(1) by (simp add: sched_inv_def)
  from sched_inv_upd [OF assms(1) worker(2,3) this, of "sd_pc s"] show ?thesis using worker(1) by simp
next
  case (stop i w)
  note st = worker_step.stop_request [of "sd_ws s ! i"]
  have "wk_late (sd_ws s ! i) = []" if "local" using that assms(1) stop(3) by (simp add: sched_inv_def)
  with sched_inv_upd [OF assms(1) stop(3) st, of "L_Stop_Write i"] show ?thesis using stop(1,4) by simp
next
  case (stop_write i w c)
  note st = worker_step.stop_write [of "sd_ws s ! i" c]
  have "wk_late (sd_ws s ! i) = []" if "local" using that assms(1) stop_write(3) by (simp add: sched_inv_def)
  with sched_inv_upd [OF assms(1) stop_write(3) st, of "L_Stop (i + 1)"] show ?thesis using stop_write(1,4-6) by simp
next
  case (join i)
  with assms(1) show ?thesis by (auto simp: sched_inv_def less_Suc_eq)
qed (use assms(1) in \<open>simp_all add: sched_inv_def\<close>)

lemma sched_init_inv: "list_all (\<lambda>c. fresh_ctx c \<and> m_managed_by_scheduler c) cs \<Longrightarrow> sched_inv local (sched_init cs)"
  by (auto simp: sched_inv_def sched_init_def list_all_iff worker_init_def intro: worker_reach.init [unfolded worker_init_def])

lemma sched_reach_inv: "sched_reach local cs s \<Longrightarrow> sched_inv local s"
  by (induction rule: sched_reach.induct) (auto intro: sched_init_inv sched_step_inv)

text \<open>While the main thread scans, no worker has been asked to stop, and none has left its loop.\<close>

fun scanning :: "loop_pc \<Rightarrow> bool" where
  "scanning (L_Start i) = True"
| "scanning (L_Scan i k) = True"
| "scanning _ = False"

definition wk_running_on :: "worker \<Rightarrow> bool" where
  "wk_running_on w \<longleftrightarrow> m_managed_by_scheduler (wk_ctx w) \<and> \<not> m_stop (wk_ctx w) \<and> wk_stops w = 0 \<and> wk_pc w \<noteq> Exited \<and> wk_late w = []"

definition scan_inv :: "sched_sys \<Rightarrow> bool" where
  "scan_inv s \<longleftrightarrow> (scanning (sd_pc s) \<longrightarrow> list_all wk_running_on (sd_ws s))"

lemma submit_all_managed: "foldE context_submit_task hs c = Inr c' \<Longrightarrow> m_managed_by_scheduler c' = m_managed_by_scheduler c"
proof (induction hs arbitrary: c)
  case (Cons h hs)
  then obtain d where "context_submit_task h c = Inr d" "foldE context_submit_task hs d = Inr c'" by auto
  with Cons.IH [of d] show ?case by (auto simp: context_submit_task_Inr)
qed simp

lemma running_on_step: "worker_step w w' \<Longrightarrow> wk_running_on w \<Longrightarrow> wk_stops w' = wk_stops w \<Longrightarrow> wk_running_on w'"
proof (induction rule: worker_step.induct)
  case (harvest s hs c)
  then show ?case using submit_all [OF harvest(3)] submit_all_managed [OF harvest(3)] by (simp add: wk_running_on_def upd_engine_def)
qed (auto simp: wk_running_on_def wk_effects run_continue_def auto_stop_due_def)

lemma scan_step_inv: "scan_inv s \<Longrightarrow> sched_step local s t \<Longrightarrow> scan_inv t"
proof (erule sched_step.cases)
  fix s' i w'
  assume a: "scan_inv s" "s = s'" "t = s'\<lparr>sd_ws := (sd_ws s')[i := w']\<rparr>" "i < length (sd_ws s')" "worker_step (sd_ws s' ! i) w'"
    "wk_stops w' = wk_stops (sd_ws s' ! i)"
  then have "wk_running_on w'" if "list_all wk_running_on (sd_ws s')"
    using that running_on_step [OF a(5) _ a(6)] by (simp add: list_all_length)
  with a show "scan_inv t" by (auto simp: scan_inv_def list_all_length nth_list_update)
qed (auto simp: scan_inv_def)

lemma sched_reach_scan: "sched_reach local cs s \<Longrightarrow> scan_inv s"
proof (induction rule: sched_reach.induct)
  case reach_init
  then show ?case by (auto simp: scan_inv_def sched_init_def list_all_iff wk_running_on_def worker_init_def fresh_ctx_def)
qed (rule scan_step_inv)

section \<open>A run\<close>

definition demo_managed :: ctx where
  "demo_managed = demo_ctx\<lparr>m_managed_by_scheduler := True\<rparr>"

lemma demo_loop_returns: "\<exists>s. sched_reach True [demo_managed] s \<and> sd_pc s = L_Done \<and> length (sd_ws s) = 1"
proof -
  let ?w = "worker_init demo_managed"
  let ?w1 = "?w\<lparr>wk_ctx := (wk_ctx ?w)\<lparr>m_stop := True\<rparr>, wk_stops := wk_stops ?w + 1\<rparr>"
  let ?w2 = "?w1\<lparr>wk_pc := Exited\<rparr>"
  let ?st = "\<lambda>w pc. \<lparr>sd_ws = [w], sd_pc = pc\<rparr>"
  let ?reach = "sched_reach True [demo_managed]"
  note demo = demo_managed_def demo_ctx_def demo_world_def worker_init_def
  have step: "?reach t" if "?reach s" "sched_step True s t" for s t using that by (rule sched_reach.reach_step)
  have idle: "idle_read 0 (wk_ctx ?w)" "idle_read 1 (wk_ctx ?w)" "idle_read 2 (wk_ctx ?w)" "idle_read 3 (wk_ctx ?w)"
    by (simp_all add: idle_read_def demo empty_io_def engine_ready_def)
  have "list_all (\<lambda>c. fresh_ctx c \<and> m_managed_by_scheduler c) [demo_managed]"
    by (simp add: fresh_ctx_def demo empty_io_def)
  then have "?reach (sched_init [demo_managed])" by (rule sched_reach.reach_init)
  then have "?reach (?st ?w (L_Start 0))" by (simp add: sched_init_def)
  from step [OF this sched_step.start] have "?reach (?st ?w (L_Start 1))" by simp
  from step [OF this sched_step.started] have "?reach (?st ?w (L_Scan 0 0))" by simp
  from step [OF this sched_step.scan_read [of _ 0 0]] have "?reach (?st ?w (L_Scan 0 1))" using idle(1) by simp
  from step [OF this sched_step.scan_read [of _ 0 1]] have "?reach (?st ?w (L_Scan 0 2))" using idle(2) by (simp add: numeral_2_eq_2)
  from step [OF this sched_step.scan_read [of _ 0 2]] have "?reach (?st ?w (L_Scan 0 3))" using idle(3) by simp
  from step [OF this sched_step.scan_next [of _ 0]] have "?reach (?st ?w (L_Scan 1 0))" using idle(4) by simp
  from step [OF this sched_step.all_idle] have "?reach (?st ?w (L_Stop 0))" by simp
  from step [OF this sched_step.stop [of _ 0 ?w]] have r: "?reach (?st ?w1 (L_Stop_Write 0))" by simp
  have "worker_step ?w1 ?w2"
    by (rule worker_step.loop_exit) (simp_all add: demo run_continue_def empty_io_def engine_ready_def)
  from step [OF r sched_step.worker [of 0 _ ?w2]] this have r: "?reach (?st ?w2 (L_Stop_Write 0))" by (simp add: submits_locally_def)
  obtain c where "context_write_eventfd 1 (wk_ctx ?w2) = Inr c" using context_write_Inr by (fastforce simp: demo efd_max_def)
  from step [OF r sched_step.stop_write [of _ 0 ?w2 c]] this
  have "?reach (?st (?w2\<lparr>wk_ctx := c, wk_stops := wk_stops ?w2 - 1\<rparr>) (L_Stop 1))" by simp
  from step [OF this sched_step.stopped] have "?reach (?st (?w2\<lparr>wk_ctx := c, wk_stops := wk_stops ?w2 - 1\<rparr>) (L_Join 0))" by simp
  from step [OF this sched_step.join] have "?reach (?st (?w2\<lparr>wk_ctx := c, wk_stops := wk_stops ?w2 - 1\<rparr>) (L_Join 1))" by simp
  from step [OF this sched_step.joined] have "?reach (?st (?w2\<lparr>wk_ctx := c, wk_stops := wk_stops ?w2 - 1\<rparr>) L_Done)" by simp
  then show ?thesis by fastforce
qed

section \<open>Properties\<close>

definition all_done :: "bool \<Rightarrow> sched_sys \<Rightarrow> bool" where
  "all_done local s \<longleftrightarrow> (\<forall>w \<in> set (sd_ws s). wk_pc w = Exited \<and> mset (wk_sub w) = mset (wk_exec w) + mset (wk_late w) \<and>
     (local \<longrightarrow> mset (wk_sub w) = mset (wk_exec w)))"

text \<open>
  C4. When \<open>loop\<close> returns, every worker has left its loop and every task has been run, exactly once,
  except the tasks that were submitted to a context after its worker had left. If coroutines
  submit to their own context only there is no exception. (That \<open>is_idle\<close> can answer wrongly
  in between does no harm then: a stopped worker still empties its queue first.)
\<close>

theorem scheduler_loop_complete:
  assumes "sched_reach local cs s" and "sd_pc s = L_Done"
  shows "all_done local s"
  unfolding all_done_def
proof
  fix w
  assume w: "w \<in> set (sd_ws s)"
  have inv: "sched_inv local s" using assms(1) by (rule sched_reach_inv)
  then have exited: "wk_pc w = Exited" using w assms(2) by (auto simp: sched_inv_def in_set_conv_nth)
  have reach: "worker_reach w" and late: "local \<Longrightarrow> wk_late w = []" using inv w by (auto simp: sched_inv_def)
  have "mset (wk_sub w) = mset (wk_exec w) + mset (wk_late w)"
    using worker_reach_inv [OF reach] exited by (auto simp: wk_tasks_ok_def)
  with exited late show "wk_pc w = Exited \<and> mset (wk_sub w) = mset (wk_exec w) + mset (wk_late w) \<and>
     (local \<longrightarrow> mset (wk_sub w) = mset (wk_exec w))" by simp
qed

theorem scheduler_loop_complete_witness:
  "\<exists>s. sd_pc s = L_Done \<and> length (sd_ws s) = 1 \<and> sched_reach True [demo_managed] s \<and> all_done True s"
  using demo_loop_returns scheduler_loop_complete by blast

text \<open>
  Until \<open>loop\<close> has found all contexts idle no worker leaves its loop, so that a task submitted by
  then is not lost, wherever it is submitted from.
\<close>

theorem scheduler_no_early_exit:
  assumes "sched_reach local cs s" and "scanning (sd_pc s)"
  shows "list_all (\<lambda>w. wk_pc w \<noteq> Exited \<and> wk_late w = []) (sd_ws s)"
  using sched_reach_scan [OF assms(1)] assms(2) by (auto simp: scan_inv_def list_all_iff wk_running_on_def)

theorem scheduler_no_early_exit_witness:
  "list_all (\<lambda>w. wk_pc w \<noteq> Exited \<and> wk_late w = []) (sd_ws (sched_init [demo_managed]))"
proof (rule scheduler_no_early_exit)
  show "sched_reach True [demo_managed] (sched_init [demo_managed])"
    by (rule sched_reach.reach_init) (simp add: fresh_ctx_def demo_managed_def demo_ctx_def demo_world_def empty_io_def)
qed (simp add: sched_init_def)

end
