(* ===== verification/Client.thy ===== *)
theory Client
  imports Prelude
begin

text \<open>
  Programs written with the library. A client runs any number of coroutines in any order; its
  state has the state of a library component as a part, and each of its steps either leaves that
  part alone or is a step the component allows, so that the component's invariant carries over.
  Where moreover every step lowers a measure and only a finished state has no step, every run of
  the client ends, in a finished state. This is stated once, as a locale, and interpreted by the
  example programs.
\<close>

inductive run_of :: "('s \<Rightarrow> 's \<Rightarrow> bool) \<Rightarrow> 's \<Rightarrow> nat \<Rightarrow> 's \<Rightarrow> bool" for stp init where
  run_start: "run_of stp init 0 init"
| run_step: "run_of stp init n s \<Longrightarrow> stp s t \<Longrightarrow> run_of stp init (Suc n) t"

lemma run_of_steps: "stp\<^sup>*\<^sup>* init s \<Longrightarrow> \<exists>n. run_of stp init n s"
  by (induction rule: rtranclp_induct) (auto intro: run_of.intros)

text \<open>The program's contract: whatever the schedule, it takes boundedly many steps and ends with \<open>final\<close>.\<close>

definition ends_with :: "('s \<Rightarrow> 's \<Rightarrow> bool) \<Rightarrow> 's \<Rightarrow> nat \<Rightarrow> ('s \<Rightarrow> bool) \<Rightarrow> bool" where
  "ends_with stp init bound final \<longleftrightarrow>
     (\<forall>n s. run_of stp init n s \<longrightarrow> n \<le> bound \<and> ((\<nexists>t. stp s t) \<longrightarrow> final s)) \<and>
     (\<exists>n s. run_of stp init n s \<and> final s)"

lemma ends_with_mono:
  "ends_with stp init bound final \<Longrightarrow> bound \<le> bound' \<Longrightarrow> (\<And>s. final s \<Longrightarrow> final' s) \<Longrightarrow> ends_with stp init bound' final'"
  unfolding ends_with_def by (meson order_trans)

text \<open>A run that gets into states from which \<open>final\<close> is out of reach refutes the contract.\<close>

lemma not_ends_with:
  assumes "run_of stp init k s" "P s" "\<And>s t. P s \<Longrightarrow> stp s t \<Longrightarrow> P t" "\<And>s. P s \<Longrightarrow> \<not> final s"
  shows "\<not> ends_with stp init b final"
proof
  assume ends: "ends_with stp init b final"
  have "\<exists>t. run_of stp init (k + m) t \<and> P t" for m
  proof (induction m)
    case (Suc m)
    then obtain t where t: "run_of stp init (k + m) t" "P t" by blast
    then obtain u where "stp t u" using ends assms(4) unfolding ends_with_def by blast
    with t assms(3) run_of.run_step show ?case by fastforce
  qed (use assms(1,2) in auto)
  then obtain t where "run_of stp init (k + Suc b) t" by blast
  then show False using ends unfolding ends_with_def by fastforce
qed

locale library_client =
  fixes lib_inv :: "'l \<Rightarrow> bool" and lib_step :: "'l \<Rightarrow> 'l \<Rightarrow> bool"
    and proj :: "'s \<Rightarrow> 'l" and stp :: "'s \<Rightarrow> 's \<Rightarrow> bool" and init :: 's
    and own_inv :: "'s \<Rightarrow> bool"
  assumes lib_step_inv: "lib_inv l \<Longrightarrow> lib_step l l' \<Longrightarrow> lib_inv l'"
    and lib_init: "lib_inv (proj init)"
    and simulates: "own_inv s \<Longrightarrow> stp s t \<Longrightarrow> proj t = proj s \<or> lib_step (proj s) (proj t)"
    and own_init: "own_inv init"
    and own_step: "lib_inv (proj s) \<Longrightarrow> own_inv s \<Longrightarrow> stp s t \<Longrightarrow> own_inv t"
begin

lemma run_inv: "run_of stp init n s \<Longrightarrow> lib_inv (proj s) \<and> own_inv s"
proof (induction rule: run_of.induct)
  case (run_step n s t)
  then show ?case using simulates [of s t] lib_step_inv own_step by metis
qed (simp add: lib_init own_init)

end

locale terminating_client = library_client +
  fixes rank :: "'b \<Rightarrow> nat" and final :: "'b \<Rightarrow> bool"
  assumes rank_less: "lib_inv (proj s) \<Longrightarrow> own_inv s \<Longrightarrow> stp s t \<Longrightarrow> rank t < rank s"
    and progress: "lib_inv (proj s) \<Longrightarrow> own_inv s \<Longrightarrow> \<not> final s \<Longrightarrow> \<exists>t. stp s t"
begin

lemma run_bounded: "run_of stp init n s \<Longrightarrow> n + rank s \<le> rank init"
proof (induction rule: run_of.induct)
  case (run_step n s t)
  then show ?case using rank_less [of s t] run_inv by fastforce
qed simp

lemma run_can_end: "run_of stp init n s \<Longrightarrow> \<exists>n t. run_of stp init n t \<and> final t"
proof (induction "rank s" arbitrary: n s rule: less_induct)
  case less
  show ?case
  proof (cases "final s")
    case False
    then obtain t where "stp s t" using progress run_inv [OF less.prems] by blast
    then show ?thesis
      using less.hyps [of t "Suc n"] rank_less run_inv [OF less.prems] run_of.run_step [OF less.prems] by blast
  qed (use less.prems in blast)
qed

theorem client_ends: "ends_with stp init (rank init) final"
  unfolding ends_with_def
  using run_bounded progress run_inv run_can_end [OF run_of.run_start] by (meson add_leD1)

end

text \<open>Sums over the tasks of which one changes.\<close>

lemma sum_update:
  fixes f g :: "nat \<Rightarrow> nat"
  assumes "h < n" "\<And>i. i \<noteq> h \<Longrightarrow> i < n \<Longrightarrow> g i = f i"
  shows "(\<Sum>i < n. g i) + f h = (\<Sum>i < n. f i) + g h"
proof -
  have "(\<Sum>i \<in> {..<n} - {h}. g i) = (\<Sum>i \<in> {..<n} - {h}. f i)" using assms(2) by (intro sum.cong) auto
  then show ?thesis using assms(1) by (simp add: sum.remove [of "{..<n}" h])
qed

lemma sum_less_one:
  fixes f g :: "nat \<Rightarrow> nat"
  assumes "h < n" "g h < f h" "\<And>i. g i \<le> f i"
  shows "(\<Sum>i < n. g i) < (\<Sum>i < n. f i)"
  using assms by (intro sum_strict_mono_ex1) auto

end
