(* ===== verification/Cv_Example.thy ===== *)
theory Cv_Example
  imports Client Cond_Var
begin

text \<open>
  \<open>examples/cv_notify_all.cpp\<close>: a hundred coroutines that pass a condition variable in the
  order of their numbers; it is also the program that the comment at the end of
  \<open>condition_variable.hpp\<close> walks through. Coroutine \<open>h\<close> takes the mutex with a guard, waits
  until \<open>id\<close> is its number, adds to \<open>data\<close>, increments \<open>id\<close>, notifies everybody and releases
  the mutex. Where the program runs on one worker thread, \<open>await_suspend\<close> of the condition
  variable runs to its end before another coroutine is resumed; with several workers another
  coroutine can run between its unlock and its push (\<open>gap\<close>).
\<close>

section \<open>Definitions\<close>

datatype cvx_pc = Cx_Idle | Cx_Check | Cx_Suspend | Cx_Lock_Wait | Cx_Owner | Cx_Unlocked | Cx_Waiting
  | Cx_Requeued | Cx_Resumed | Cx_Notified | Cx_Done

record cvx_sys =
  cx_ms :: mutexes
  cx_cv :: "nat condvar"
  cx_log :: "handle list"
  cx_pc :: "handle \<Rightarrow> cvx_pc"
  cx_id :: nat
  cx_data :: u64
  cx_lines :: "(nat \<times> u64) list"

definition cvx_init :: cvx_sys where
  "cvx_init = \<lparr>cx_ms = (\<lambda>_. mutex_new), cx_cv = [], cx_log = [], cx_pc = (\<lambda>_. Cx_Idle), cx_id = 0, cx_data = 0, cx_lines = []\<rparr>"

definition cvx_cond :: "handle \<Rightarrow> (nat \<Rightarrow> bool) option" where
  "cvx_cond i = Some (\<lambda>id. i = id)"

text \<open>The loop over \<open>data++\<close>.\<close>

definition cvx_count :: "u64 \<Rightarrow> u64" where
  "cvx_count d = ((\<lambda>d. d + 1) ^^ 100000) d"

text \<open>
  A coroutine that is submitted goes on with the lock, where it had suspended; \<open>cx_handover\<close>
  resumes the submitted ones. \<open>cx_lines\<close> are the lines that \<open>log::info\<close> has written.
\<close>

fun cx_granted :: "cvx_pc \<Rightarrow> cvx_pc" where
  "cx_granted Cx_Lock_Wait = Cx_Owner"
| "cx_granted Cx_Requeued = Cx_Resumed"
| "cx_granted pc = pc"

definition cx_handover :: "handle list \<Rightarrow> (handle \<Rightarrow> cvx_pc) \<Rightarrow> handle \<Rightarrow> cvx_pc" where
  "cx_handover hs pc = (\<lambda>g. if g \<in> set hs then cx_granted (pc g) else pc g)"

inductive cvx_step :: "bool \<Rightarrow> nat \<Rightarrow> cvx_sys \<Rightarrow> cvx_sys \<Rightarrow> bool" for gap n where
  call: "h < n \<Longrightarrow> cx_pc s h = Cx_Idle \<Longrightarrow> cvx_step gap n s (s\<lparr>cx_pc := (cx_pc s)(h := Cx_Check)\<rparr>)"
| ready: "cx_pc s h = Cx_Check \<Longrightarrow> guard_await_ready (cx_ms s 0) = (got, m') \<Longrightarrow>
    cvx_step gap n s (s\<lparr>cx_ms := (cx_ms s)(0 := m'), cx_pc := (cx_pc s)(h := if got then Cx_Owner else Cx_Suspend)\<rparr>)"
| suspend: "cx_pc s h = Cx_Suspend \<Longrightarrow> guard_await_suspend log_submit h (cx_ms s 0) (cx_log s) = Inr (m', log') \<Longrightarrow>
    cvx_step gap n s (s\<lparr>cx_ms := (cx_ms s)(0 := m'), cx_log := log',
      cx_pc := cx_handover (submitted (cx_log s) log') ((cx_pc s)(h := Cx_Lock_Wait))\<rparr>)"
| pass: "cx_pc s h = Cx_Owner \<Longrightarrow> cv_await_ready (cvx_cond h) (cx_id s) \<Longrightarrow>
    cvx_step gap n s (s\<lparr>cx_pc := (cx_pc s)(h := Cx_Resumed)\<rparr>)"
| wait: "\<not> gap \<Longrightarrow> cx_pc s h = Cx_Owner \<Longrightarrow> \<not> cv_await_ready (cvx_cond h) (cx_id s) \<Longrightarrow>
    cv_await_suspend log_submit h 0 (cvx_cond h) (cx_cv s, cx_ms s, cx_log s) = Inr (cv', ms', log') \<Longrightarrow>
    cvx_step gap n s (s\<lparr>cx_cv := cv', cx_ms := ms', cx_log := log',
      cx_pc := cx_handover (submitted (cx_log s) log') ((cx_pc s)(h := Cx_Waiting))\<rparr>)"
| unlock: "gap \<Longrightarrow> cx_pc s h = Cx_Owner \<Longrightarrow> \<not> cv_await_ready (cvx_cond h) (cx_id s) \<Longrightarrow>
    unlock_at log_submit 0 (cx_ms s, cx_log s) = Inr (ms', log') \<Longrightarrow>
    cvx_step gap n s (s\<lparr>cx_ms := ms', cx_log := log', cx_pc := cx_handover (submitted (cx_log s) log') ((cx_pc s)(h := Cx_Unlocked))\<rparr>)"
| push: "cx_pc s h = Cx_Unlocked \<Longrightarrow>
    cvx_step gap n s (s\<lparr>cx_cv := cv_push h 0 (cvx_cond h) (cx_cv s), cx_pc := (cx_pc s)(h := Cx_Waiting)\<rparr>)"
| notify: "cx_pc s h = Cx_Resumed \<Longrightarrow>
    cv_notify_all log_submit (cx_id s + 1) (cx_cv s, cx_ms s, cx_log s) = Inr (cv', ms', log') \<Longrightarrow>
    cvx_step gap n s (s\<lparr>cx_data := cvx_count (cx_data s), cx_lines := cx_lines s @ [(h, cvx_count (cx_data s))],
      cx_id := cx_id s + 1, cx_cv := cv', cx_ms := ms', cx_log := log',
      cx_pc := cx_handover (submitted (cx_log s) log') (\<lambda>g. if g = h then Cx_Notified
        else if g \<in> wt_handle ` set (cx_cv s) - wt_handle ` set cv' then Cx_Requeued else cx_pc s g)\<rparr>)"
| release: "cx_pc s h = Cx_Notified \<Longrightarrow>
    lock_guard_destroy log_submit (lock_guard_new 0) (cx_ms s) (cx_log s) = Inr (ms', log') \<Longrightarrow>
    cvx_step gap n s (s\<lparr>cx_ms := ms', cx_log := log', cx_pc := cx_handover (submitted (cx_log s) log') ((cx_pc s)(h := Cx_Done))\<rparr>)"

definition cvx_lines :: "nat \<Rightarrow> (nat \<times> u64) list" where
  "cvx_lines k = map (\<lambda>i. (i, of_nat ((i + 1) * 100000))) [0..<k]"

definition cvx_end :: "nat \<Rightarrow> cvx_sys \<Rightarrow> bool" where
  "cvx_end n s \<longleftrightarrow> (\<forall>h < n. cx_pc s h = Cx_Done) \<and> cx_id s = n \<and> cx_data s = of_nat (n * 100000) \<and>
     cx_lines s = cvx_lines n"

definition CV_TASK_NUM :: nat where "CV_TASK_NUM = 100"

definition cv_notify_all_example :: "bool \<Rightarrow> cvx_sys \<Rightarrow> cvx_sys \<Rightarrow> bool" where
  "cv_notify_all_example gap = cvx_step gap CV_TASK_NUM"

section \<open>Invariant\<close>

definition cx_holds :: "cvx_pc \<Rightarrow> bool" where
  "cx_holds pc \<longleftrightarrow> pc = Cx_Owner \<or> pc = Cx_Resumed \<or> pc = Cx_Notified"

definition cx_queued :: "cvx_pc \<Rightarrow> bool" where
  "cx_queued pc \<longleftrightarrow> pc = Cx_Lock_Wait \<or> pc = Cx_Requeued"

definition cx_mutex_ok :: "(handle \<Rightarrow> cvx_pc) \<Rightarrow> mutex \<Rightarrow> bool" where
  "cx_mutex_ok pc m \<longleftrightarrow> (mx_locked m \<longleftrightarrow> (\<exists>h. cx_holds (pc h))) \<and> (\<forall>g h. cx_holds (pc g) \<and> cx_holds (pc h) \<longrightarrow> g = h) \<and>
     distinct (mx_waiters m) \<and> (\<forall>h. h \<in> set (mx_waiters m) \<longleftrightarrow> cx_queued (pc h)) \<and> (\<not> mx_locked m \<longrightarrow> mx_waiters m = [])"

definition cx_cv_ok :: "(handle \<Rightarrow> cvx_pc) \<Rightarrow> nat condvar \<Rightarrow> bool" where
  "cx_cv_ok pc cv \<longleftrightarrow> distinct (map wt_handle cv) \<and> (\<forall>h. h \<in> wt_handle ` set cv \<longleftrightarrow> pc h = Cx_Waiting) \<and>
     (\<forall>wt \<in> set cv. wt_mtx wt = 0 \<and> wt_cond wt = cvx_cond (wt_handle wt))"

definition cx_id_ok :: "nat \<Rightarrow> cvx_sys \<Rightarrow> bool" where
  "cx_id_ok n s \<longleftrightarrow> (\<forall>h. cx_pc s h = Cx_Requeued \<or> cx_pc s h = Cx_Resumed \<longrightarrow> h = cx_id s) \<and>
     (\<forall>h. cx_pc s h = Cx_Notified \<or> cx_pc s h = Cx_Done \<longleftrightarrow> h < cx_id s) \<and>
     (\<forall>h. n \<le> h \<longrightarrow> cx_pc s h = Cx_Idle) \<and> cx_id s \<le> n \<and> cx_data s = of_nat (cx_id s * 100000) \<and>
     cx_lines s = cvx_lines (cx_id s)"

definition cx_nogap_ok :: "cvx_sys \<Rightarrow> bool" where
  "cx_nogap_ok s \<longleftrightarrow> (\<forall>h. cx_pc s h \<noteq> Cx_Unlocked) \<and> (\<forall>h. cx_pc s h = Cx_Waiting \<longrightarrow> h \<noteq> cx_id s)"

definition cvx_inv :: "nat \<Rightarrow> cvx_sys \<Rightarrow> bool" where
  "cvx_inv n s \<longleftrightarrow> cx_mutex_ok (cx_pc s) (cx_ms s 0) \<and> cx_cv_ok (cx_pc s) (cx_cv s) \<and> cx_id_ok n s"

lemma cvx_count_eq: "cvx_count d = d + 100000"
proof -
  have "((\<lambda>d. d + 1) ^^ k) d = d + of_nat k" for k :: nat by (induction k) (simp_all add: add_ac)
  then show ?thesis unfolding cvx_count_def by simp
qed

text \<open>What the steps do to the mutex.\<close>

lemma cx_holds_not_queued: "cx_holds p \<Longrightarrow> \<not> cx_queued p"
  by (auto simp: cx_holds_def cx_queued_def)

lemma cx_waiters_iff: "cx_mutex_ok pc m \<Longrightarrow> h \<in> set (mx_waiters m) \<longleftrightarrow> cx_queued (pc h)"
  by (simp add: cx_mutex_ok_def)

lemma cx_sole: "cx_mutex_ok pc m \<Longrightarrow> cx_holds (pc g) \<Longrightarrow> cx_holds (pc h) \<Longrightarrow> g = h"
  by (simp add: cx_mutex_ok_def)

lemma cx_mutex_try:
  assumes "cx_mutex_ok pc m" "guard_await_ready m = (got, m')" "\<not> cx_holds (pc h)" "\<not> cx_queued (pc h)"
  shows "cx_mutex_ok (pc(h := if got then Cx_Owner else Cx_Suspend)) m'"
  using assms by (auto simp: guard_await_ready_def mutex_try_lock_def cx_mutex_ok_def cx_holds_def cx_queued_def split: if_splits)

lemma cx_mutex_move:
  assumes "cx_mutex_ok pc m" "cx_holds (pc h) = cx_holds pc'" "cx_queued (pc h) = cx_queued pc'"
  shows "cx_mutex_ok (pc(h := pc')) m"
proof -
  have "cx_holds ((pc(h := pc')) g) = cx_holds (pc g)" "cx_queued ((pc(h := pc')) g) = cx_queued (pc g)" for g
    using assms(2,3) by simp_all
  with assms(1) show ?thesis unfolding cx_mutex_ok_def by presburger
qed

lemma cx_mutex_enqueue:
  assumes "cx_mutex_ok pc m" "mx_locked m" "\<not> cx_holds (pc h)" "\<not> cx_queued (pc h)" "cx_queued pc'" 
  shows "cx_mutex_ok (pc(h := pc')) (m\<lparr>mx_waiters := mx_waiters m @ [h]\<rparr>)"
proof -
  have "\<not> cx_holds pc'" using assms(5) by (auto simp: cx_queued_def cx_holds_def)
  then have "cx_holds ((pc(h := pc')) g) = cx_holds (pc g)" for g using assms(3) by simp
  moreover have "cx_queued ((pc(h := pc')) g) \<longleftrightarrow> g = h \<or> cx_queued (pc g)" for g using assms(5) by simp
  moreover have "h \<notin> set (mx_waiters m)" using assms(1,4) by (simp add: cx_mutex_ok_def)
  ultimately show ?thesis using assms(1,2) unfolding cx_mutex_ok_def by auto
qed

lemma cx_handover_Nil [simp]: "cx_handover [] pc = pc"
  by (simp add: cx_handover_def)

lemma cx_handover_single: "cx_handover [g] pc = pc(g := cx_granted (pc g))"
  by (auto simp: cx_handover_def)

lemma cx_mutex_suspend:
  assumes "cx_mutex_ok pc m" "pc h = Cx_Suspend" "guard_await_suspend log_submit h m lg = Inr (m', lg')"
  shows "cx_mutex_ok (cx_handover (submitted lg lg') (pc(h := Cx_Lock_Wait))) m'"
proof (cases "mx_locked m")
  case True
  then have "m' = m\<lparr>mx_waiters := mx_waiters m @ [h]\<rparr>" "lg' = lg" using assms(3) by (simp_all add: guard_await_suspend_def)
  then show ?thesis using cx_mutex_enqueue [OF assms(1) True, of h Cx_Lock_Wait] assms(2) by (simp add: cx_holds_def cx_queued_def)
next
  case False
  then have "m' = m\<lparr>mx_locked := True\<rparr>" "submitted lg lg' = [h]"
    using assms(3) by (auto simp: guard_await_suspend_def log_submit_def)
  with False assms(1,2) show ?thesis by (auto simp: cx_handover_single cx_mutex_ok_def cx_holds_def cx_queued_def)
qed

lemma cx_mutex_unlock:
  assumes "cx_mutex_ok pc m" "cx_holds (pc h)" "\<not> cx_holds pc'" "\<not> cx_queued pc'" "mutex_unlock log_submit m lg = Inr (m', lg')"
  shows "cx_mutex_ok (cx_handover (submitted lg lg') (pc(h := pc'))) m'"
proof (cases "mx_waiters m")
  case Nil
  have "\<not> cx_holds ((pc(h := pc')) g)" for g using assms(1,2,3) by (auto simp: cx_mutex_ok_def)
  with Nil assms mutex_unlock_submitted [OF assms(5)] show ?thesis
    by (auto simp: cx_mutex_ok_def mutex_unlock_def cx_holds_def cx_queued_def)
next
  case (Cons g gs)
  have q: "x \<in> set (g # gs) \<longleftrightarrow> cx_queued (pc x)" for x using cx_waiters_iff [OF assms(1)] Cons by simp
  have h: "\<not> cx_queued (pc h)" using assms(2) by (rule cx_holds_not_queued)
  have g: "cx_queued (pc g)" "g \<noteq> h" "g \<notin> set gs" using q [of g] h assms(1) Cons by (auto simp: cx_mutex_ok_def)
  then have granted: "cx_holds (cx_granted (pc g))" "\<not> cx_queued (cx_granted (pc g))" by (auto simp: cx_queued_def cx_holds_def)
  let ?pc = "(pc(h := pc'))(g := cx_granted (pc g))"
  have holds: "cx_holds (?pc x) \<longleftrightarrow> x = g" for x
    using cx_sole [OF assms(1,2)] assms(3) granted(1) g(2) by auto
  have queued: "cx_queued (?pc x) \<longleftrightarrow> x \<in> set gs" for x
    using q [of x] h g(2,3) granted(2) assms(4) by (cases "x = h"; cases "x = g") auto
  have "m' = m\<lparr>mx_waiters := gs\<rparr>" "mx_locked m" "distinct gs"
    using assms(1,2,5) Cons by (auto simp: mutex_unlock_def log_submit_def cx_mutex_ok_def)
  moreover have "cx_handover (submitted lg lg') (pc(h := pc')) = ?pc"
    using Cons g(2) mutex_unlock_submitted [OF assms(5)] by (simp add: cx_handover_single)
  ultimately show ?thesis using holds queued unfolding cx_mutex_ok_def by simp
qed

text \<open>What the steps do to the queue of the condition variable.\<close>

lemma cx_cv_move: "cx_cv_ok pc cv \<Longrightarrow> pc h \<noteq> Cx_Waiting \<Longrightarrow> pc' \<noteq> Cx_Waiting \<Longrightarrow> cx_cv_ok (pc(h := pc')) cv"
  unfolding cx_cv_ok_def by (metis fun_upd_apply)

lemma cx_cv_push: "cx_cv_ok pc cv \<Longrightarrow> pc h \<noteq> Cx_Waiting \<Longrightarrow> cx_cv_ok (pc(h := Cx_Waiting)) (cv_push h 0 (cvx_cond h) cv)"
  by (auto simp: cx_cv_ok_def cv_push_def)

lemma cx_granted_iff [simp]: "cx_granted p = Cx_Waiting \<longleftrightarrow> p = Cx_Waiting" "cx_granted p = Cx_Unlocked \<longleftrightarrow> p = Cx_Unlocked"
  "cx_granted p = Cx_Notified \<longleftrightarrow> p = Cx_Notified" "cx_granted p = Cx_Done \<longleftrightarrow> p = Cx_Done" "cx_granted p = Cx_Idle \<longleftrightarrow> p = Cx_Idle"
  "cx_granted p = Cx_Requeued \<longleftrightarrow> False" "cx_granted p = Cx_Resumed \<longleftrightarrow> p = Cx_Requeued \<or> p = Cx_Resumed"
  by (cases p; simp)+

lemma cx_handover_iff:
  "cx_handover ws pc g = Cx_Waiting \<longleftrightarrow> pc g = Cx_Waiting" "cx_handover ws pc g = Cx_Unlocked \<longleftrightarrow> pc g = Cx_Unlocked"
  "cx_handover ws pc g = Cx_Notified \<longleftrightarrow> pc g = Cx_Notified" "cx_handover ws pc g = Cx_Done \<longleftrightarrow> pc g = Cx_Done"
  "cx_handover ws pc g = Cx_Idle \<longleftrightarrow> pc g = Cx_Idle"
  "cx_handover ws pc g = Cx_Requeued \<or> cx_handover ws pc g = Cx_Resumed \<longleftrightarrow> pc g = Cx_Requeued \<or> pc g = Cx_Resumed"
  by (auto simp: cx_handover_def)

lemma cx_cv_handover: "cx_cv_ok pc cv \<Longrightarrow> cx_cv_ok (cx_handover ws pc) cv"
  by (simp add: cx_cv_ok_def cx_handover_iff)

text \<open>A notification moves the one waiter whose turn it is, if it waits.\<close>

lemma filter_unique: "distinct (map f xs) \<Longrightarrow> map f (filter (\<lambda>x. f x = y) xs) = (if y \<in> f ` set xs then [y] else [])"
  by (induction xs) auto

lemma cx_notify:
  assumes "cx_cv_ok pc cv" "mx_locked (ms 0)" "cv_notify_all log_submit env (cv, ms, lg) = Inr (cv', ms', lg')"
  shows "cv' = filter (\<lambda>wt. wt_handle wt \<noteq> env) cv"
    "ms' 0 = (ms 0)\<lparr>mx_waiters := mx_waiters (ms 0) @ (if pc env = Cx_Waiting then [env] else [])\<rparr>"
    "g \<in> wt_handle ` set cv - wt_handle ` set cv' \<longleftrightarrow> g = env \<and> pc env = Cx_Waiting" "lg' = lg"
proof -
  have pass: "wt_passes env wt \<longleftrightarrow> wt_handle wt = env" if "wt \<in> set cv" for wt
    using assms(1) that by (simp add: cx_cv_ok_def wt_passes_def cvx_cond_def)
  have in_cv: "env \<in> wt_handle ` set cv \<longleftrightarrow> pc env = Cx_Waiting" using assms(1) by (simp add: cx_cv_ok_def)
  have "map wt_handle (filter (wt_passes env) cv) = map wt_handle (filter (\<lambda>wt. wt_handle wt = env) cv)"
    using pass by (metis (mono_tags, lifting) filter_cong)
  also have "\<dots> = (if pc env = Cx_Waiting then [env] else [])"
    using filter_unique [of wt_handle cv env] assms(1) in_cv by (simp add: cx_cv_ok_def)
  finally have moved: "map wt_handle (filter (wt_passes env) cv) = (if pc env = Cx_Waiting then [env] else [])" .
  have "foldE (enqueue_at log_submit) (filter (wt_passes env) cv) (ms, lg) =
      Inr (ms(0 := (ms 0)\<lparr>mx_waiters := mx_waiters (ms 0) @ map wt_handle (filter (wt_passes env) cv)\<rparr>), lg)"
    by (rule enqueue_at_locked) (use assms(1,2) in \<open>auto simp: cx_cv_ok_def\<close>)
  then have res: "cv' = filter (\<lambda>wt. \<not> wt_passes env wt) cv"
      "ms' = ms(0 := (ms 0)\<lparr>mx_waiters := mx_waiters (ms 0) @ map wt_handle (filter (wt_passes env) cv)\<rparr>)" "lg' = lg"
    using assms(3) by (auto simp: notify_all_eq)
  show "lg' = lg" by fact
  from res show cv': "cv' = filter (\<lambda>wt. wt_handle wt \<noteq> env) cv" using pass by (metis (mono_tags, lifting) filter_cong)
  show "ms' 0 = (ms 0)\<lparr>mx_waiters := mx_waiters (ms 0) @ (if pc env = Cx_Waiting then [env] else [])\<rparr>"
    unfolding moved [symmetric] res(2) by simp
  show "g \<in> wt_handle ` set cv - wt_handle ` set cv' \<longleftrightarrow> g = env \<and> pc env = Cx_Waiting"
    unfolding cv' using in_cv by auto
qed

lemma cx_cv_notified:
  assumes "cx_cv_ok pc cv" "pc h = Cx_Resumed"
  shows "cx_cv_ok (\<lambda>g. if g = h then Cx_Notified else if g = env \<and> pc env = Cx_Waiting then Cx_Requeued else pc g)
    (filter (\<lambda>wt. wt_handle wt \<noteq> env) cv)"
  unfolding cx_cv_ok_def
proof (intro conjI allI)
  show "distinct (map wt_handle (filter (\<lambda>wt. wt_handle wt \<noteq> env) cv))" using assms(1) by (simp add: cx_cv_ok_def distinct_map_filter)
  show "\<forall>wt \<in> set (filter (\<lambda>wt. wt_handle wt \<noteq> env) cv). wt_mtx wt = 0 \<and> wt_cond wt = cvx_cond (wt_handle wt)"
    using assms(1) by (simp add: cx_cv_ok_def)
  fix g
  have "g \<in> wt_handle ` set (filter (\<lambda>wt. wt_handle wt \<noteq> env) cv) \<longleftrightarrow> g \<noteq> env \<and> g \<in> wt_handle ` set cv" by auto
  also have "\<dots> \<longleftrightarrow> g \<noteq> env \<and> pc g = Cx_Waiting" using assms(1) by (simp add: cx_cv_ok_def)
  finally show "g \<in> wt_handle ` set (filter (\<lambda>wt. wt_handle wt \<noteq> env) cv) \<longleftrightarrow>
      (if g = h then Cx_Notified else if g = env \<and> pc env = Cx_Waiting then Cx_Requeued else pc g) = Cx_Waiting"
    using assms(2) by auto
qed

lemma cx_mutex_notified:
  assumes "cx_mutex_ok pc m" "pc h = Cx_Resumed"
  shows "cx_mutex_ok (\<lambda>g. if g = h then Cx_Notified else if g = env \<and> pc env = Cx_Waiting then Cx_Requeued else pc g)
    (m\<lparr>mx_waiters := mx_waiters m @ (if pc env = Cx_Waiting then [env] else [])\<rparr>)"
proof -
  have moved: "cx_mutex_ok (pc(h := Cx_Notified)) m"
    using assms by (intro cx_mutex_move) (simp_all add: cx_holds_def cx_queued_def)
  have locked: "mx_locked m" using assms by (auto simp: cx_mutex_ok_def cx_holds_def)
  show ?thesis
  proof (cases "pc env = Cx_Waiting")
    case True
    then have "env \<noteq> h" using assms(2) by auto
    then have "(\<lambda>g. if g = h then Cx_Notified else if g = env \<and> pc env = Cx_Waiting then Cx_Requeued else pc g) =
        (pc(h := Cx_Notified))(env := Cx_Requeued)" using True by auto
    moreover have "cx_mutex_ok ((pc(h := Cx_Notified))(env := Cx_Requeued)) (m\<lparr>mx_waiters := mx_waiters m @ [env]\<rparr>)"
      using True \<open>env \<noteq> h\<close> by (intro cx_mutex_enqueue [OF moved locked]) (simp_all add: cx_holds_def cx_queued_def)
    ultimately show ?thesis using True by simp
  next
    case False
    then have "(\<lambda>g. if g = h then Cx_Notified else if g = env \<and> pc env = Cx_Waiting then Cx_Requeued else pc g) = pc(h := Cx_Notified)"
      by auto
    with moved False show ?thesis by simp
  qed
qed

lemma cx_unlock_at:
  "unlock_at log_submit 0 (ms, lg) = Inr (ms', lg') \<Longrightarrow> \<exists>m'. mutex_unlock log_submit (ms 0) lg = Inr (m', lg') \<and> ms' 0 = m'"
  by (auto simp: unlock_at_def)

lemma cx_guard_unlock:
  "lock_guard_destroy log_submit (lock_guard_new 0) ms lg = Inr (ms', lg') \<Longrightarrow>
     \<exists>m'. mutex_unlock log_submit (ms 0) lg = Inr (m', lg') \<and> ms' 0 = m'"
  by (auto simp: lock_guard_destroy_def lock_guard_new_def)

lemma cx_await_suspend:
  "cv_await_suspend log_submit h 0 cond (cv, ms, lg) = Inr (cv', ms', lg') \<Longrightarrow>
     cv' = cv_push h 0 cond cv \<and> unlock_at log_submit 0 (ms, lg) = Inr (ms', lg')"
  by (auto simp: cv_await_suspend_def)

lemma cx_submitted:
  "\<exists>m'. mutex_unlock log_submit (ms 0) lg = Inr (m', lg') \<and> ms' 0 = m' \<Longrightarrow> submitted lg lg' = take 1 (mx_waiters (ms 0))"
  using mutex_unlock_submitted by blast

lemma cx_suspend_handover:
  assumes "guard_await_suspend log_submit h m lg = Inr (m', lg')"
  shows "cx_handover (submitted lg lg') (pc(h := Cx_Lock_Wait)) = pc(h := if mx_locked m then Cx_Lock_Wait else Cx_Owner)"
  using enqueue_waiter_submitted [of h m lg m' lg'] assms by (simp add: lock_suspend_eq cx_handover_single)

text \<open>The common effect of the three steps that give up the mutex.\<close>

lemma cx_released:
  assumes "cx_mutex_ok (cx_pc s) (cx_ms s 0)" "cx_holds (cx_pc s h)" "\<not> cx_holds p" "\<not> cx_queued p"
    "\<exists>m'. mutex_unlock log_submit (cx_ms s 0) (cx_log s) = Inr (m', lg') \<and> ms' 0 = m'"
  shows "cx_mutex_ok (cx_handover (submitted (cx_log s) lg') ((cx_pc s)(h := p))) (ms' 0)"
  using assms cx_mutex_unlock by blast

lemma cx_notify_step:
  assumes "cvx_inv n s" "cx_pc s h = Cx_Resumed" "cv_notify_all log_submit (cx_id s + 1) (cx_cv s, cx_ms s, cx_log s) = Inr (cv', ms', log')"
  defines "pc \<equiv> \<lambda>g. if g = h then Cx_Notified else if g = cx_id s + 1 \<and> cx_pc s (cx_id s + 1) = Cx_Waiting then Cx_Requeued else cx_pc s g"
  shows "cx_handover (submitted (cx_log s) log')
      (\<lambda>g. if g = h then Cx_Notified else if g \<in> wt_handle ` set (cx_cv s) - wt_handle ` set cv' then Cx_Requeued else cx_pc s g) = pc"
    "cx_mutex_ok pc (ms' 0)" "cx_cv_ok pc cv'"
proof -
  have mx: "cx_mutex_ok (cx_pc s) (cx_ms s 0)" and cv: "cx_cv_ok (cx_pc s) (cx_cv s)" using assms(1) by (auto simp: cvx_inv_def)
  have locked: "mx_locked (cx_ms s 0)" using mx assms(2) by (auto simp: cx_mutex_ok_def cx_holds_def)
  note eff = cx_notify [OF cv locked assms(3)]
  show "cx_handover (submitted (cx_log s) log')
      (\<lambda>g. if g = h then Cx_Notified else if g \<in> wt_handle ` set (cx_cv s) - wt_handle ` set cv' then Cx_Requeued else cx_pc s g) = pc"
    unfolding eff(3,4) pc_def by simp
  show "cx_mutex_ok pc (ms' 0)" unfolding eff(2) pc_def by (rule cx_mutex_notified [OF mx assms(2)])
  show "cx_cv_ok pc cv'" unfolding eff(1) pc_def by (rule cx_cv_notified [OF cv assms(2)])
qed

lemma cx_mutex_step:
  assumes "cvx_inv n s" "cvx_step gap n s t"
  shows "cx_mutex_ok (cx_pc t) (cx_ms t 0)"
proof -
  have mx: "cx_mutex_ok (cx_pc s) (cx_ms s 0)" and cv: "cx_cv_ok (cx_pc s) (cx_cv s)" using assms(1) by (auto simp: cvx_inv_def)
  from assms(2) show ?thesis
  proof cases
    case (ready h got m')
    then show ?thesis using cx_mutex_try [OF mx, of got m' h] by (simp add: cx_holds_def cx_queued_def)
  next
    case (suspend h m' log')
    then show ?thesis using cx_mutex_suspend [OF mx, of h "cx_log s" m' log'] by simp
  next
    case (wait h cv' ms' log')
    with cx_await_suspend cx_unlock_at show ?thesis
      using cx_released [OF mx, of h Cx_Waiting] by (fastforce simp: cx_holds_def cx_queued_def)
  next
    case (unlock h ms' log')
    with cx_unlock_at show ?thesis
      using cx_released [OF mx, of h Cx_Unlocked] by (fastforce simp: cx_holds_def cx_queued_def)
  next
    case (release h ms' log')
    with cx_guard_unlock show ?thesis
      using cx_released [OF mx, of h Cx_Done] by (fastforce simp: cx_holds_def cx_queued_def)
  next
    case (notify h cv' ms' log')
    from cx_notify_step [OF assms(1) notify(2,3)] show ?thesis unfolding notify(1) by simp
  qed (use cx_mutex_move [OF mx] in \<open>simp_all add: cx_holds_def cx_queued_def\<close>)
qed

lemma cx_cv_step:
  assumes "cvx_inv n s" "cvx_step gap n s t"
  shows "cx_cv_ok (cx_pc t) (cx_cv t)"
proof -
  have mx: "cx_mutex_ok (cx_pc s) (cx_ms s 0)" and cv: "cx_cv_ok (cx_pc s) (cx_cv s)" using assms(1) by (auto simp: cvx_inv_def)
  from assms(2) show ?thesis
  proof cases
    case (wait h cv' ms' log')
    from cx_await_suspend [OF wait(5)] cx_cv_handover [OF cx_cv_push [OF cv, of h]] wait(1,3) show ?thesis by simp
  next
    case (notify h cv' ms' log')
    from cx_notify_step [OF assms(1) notify(2,3)] show ?thesis unfolding notify(1) by simp
  next
    case (push h)
    with cx_cv_push [OF cv, of h] show ?thesis by simp
  qed (use cx_cv_move [OF cv] cx_cv_handover in \<open>simp_all\<close>)
qed

lemma cx_id_move:
  assumes "cx_id_ok n s" "h < n \<or> cx_pc s h \<noteq> Cx_Idle" "cx_pc t = cx_handover ws ((cx_pc s)(h := p))"
    "cx_id t = cx_id s" "cx_data t = cx_data s" "cx_lines t = cx_lines s"
    "p = Cx_Notified \<or> p = Cx_Done \<longleftrightarrow> cx_pc s h = Cx_Notified \<or> cx_pc s h = Cx_Done"
    "p = Cx_Requeued \<or> p = Cx_Resumed \<Longrightarrow> h = cx_id s"
  shows "cx_id_ok n t"
proof -
  have "h < n" using assms(1,2) by (metis cx_id_ok_def not_le)
  then have "cx_pc t g = Cx_Idle" if "n \<le> g" for g
    using that assms(1) unfolding assms(3) cx_handover_iff by (simp add: cx_id_ok_def)
  moreover have "cx_pc t g = Cx_Notified \<or> cx_pc t g = Cx_Done \<longleftrightarrow> cx_pc s g = Cx_Notified \<or> cx_pc s g = Cx_Done" for g
    using assms(7) unfolding assms(3) cx_handover_iff by simp
  moreover have "g = cx_id s" if "cx_pc t g = Cx_Requeued \<or> cx_pc t g = Cx_Resumed" for g
    using that assms(1,8) unfolding assms(3) cx_handover_iff by (auto simp: cx_id_ok_def split: if_splits)
  ultimately show ?thesis using assms(1,4,5,6) by (simp add: cx_id_ok_def)
qed

lemma cx_id_step:
  assumes "cvx_inv n s" "cvx_step gap n s t"
  shows "cx_id_ok n t"
proof -
  have id: "cx_id_ok n s" using assms(1) by (simp add: cvx_inv_def)
  from assms(2) show ?thesis
  proof cases
    case (notify h cv' ms' log')
    have h: "h = cx_id s" using id notify(2) by (auto simp: cx_id_ok_def)
    have "h < n" using id notify(2) by (metis cvx_pc.distinct(15) cx_id_ok_def not_le)
    have pc: "cx_pc t = (\<lambda>g. if g = h then Cx_Notified else if g = cx_id s + 1 \<and> cx_pc s (cx_id s + 1) = Cx_Waiting then Cx_Requeued else cx_pc s g)"
      using cx_notify_step(1) [OF assms(1) notify(2,3)] notify(1) by simp
    have idt: "cx_id t = Suc h" "cx_data t = cx_data s + 100000" "cx_lines t = cx_lines s @ [(h, cx_data s + 100000)]"
      using notify(1) h by (simp_all add: cvx_count_eq)
    have "g = Suc h" if "cx_pc t g = Cx_Requeued \<or> cx_pc t g = Cx_Resumed" for g
      using that id h unfolding pc by (auto simp: cx_id_ok_def split: if_splits)
    moreover have "cx_pc t g = Cx_Notified \<or> cx_pc t g = Cx_Done \<longleftrightarrow> g < Suc h" for g
      using id h unfolding pc by (auto simp: cx_id_ok_def less_Suc_eq)
    moreover have "cx_pc t g = Cx_Idle" if "n \<le> g" for g
      using that id \<open>h < n\<close> unfolding pc by (auto simp: cx_id_ok_def)
    ultimately show ?thesis using id h \<open>h < n\<close> unfolding cx_id_ok_def idt by (simp add: cvx_lines_def algebra_simps)
  next
    case (pass h)
    then show ?thesis
      using cx_id_move [OF id, of h t "[]" Cx_Resumed] by (simp add: cv_await_ready_def cvx_cond_def)
  next
    case (call h)
    then show ?thesis using cx_id_move [OF id, of h t "[]" Cx_Check] by simp
  next
    case (push h)
    then show ?thesis using cx_id_move [OF id, of h t "[]" Cx_Waiting] by simp
  next
    case (ready h got m')
    then show ?thesis using cx_id_move [OF id, of h t "[]" "if got then Cx_Owner else Cx_Suspend"]
      by (cases got) simp_all
  next
    case (suspend h m' log')
    then show ?thesis using cx_id_move [OF id, of h t "submitted (cx_log s) log'" Cx_Lock_Wait] by simp
  next
    case (wait h cv' ms' log')
    then show ?thesis using cx_id_move [OF id, of h t "submitted (cx_log s) log'" Cx_Waiting] by simp
  next
    case (unlock h ms' log')
    then show ?thesis using cx_id_move [OF id, of h t "submitted (cx_log s) log'" Cx_Unlocked] by simp
  next
    case (release h ms' log')
    then show ?thesis using cx_id_move [OF id, of h t "submitted (cx_log s) log'" Cx_Done] by simp
  qed
qed

lemma cvx_inv_step: "cvx_inv n s \<Longrightarrow> cvx_step gap n s t \<Longrightarrow> cvx_inv n t"
  using cx_mutex_step cx_cv_step cx_id_step unfolding cvx_inv_def by blast

text \<open>Without the gap nobody waits for its turn while it has it.\<close>

lemma cx_nogap_step:
  assumes "cvx_inv n s" "cx_nogap_ok s" "cvx_step False n s t"
  shows "cx_nogap_ok t"
  using assms(3)
proof cases
  case (notify h cv' ms' log')
  have pc: "cx_pc t = (\<lambda>g. if g = h then Cx_Notified else if g = cx_id s + 1 \<and> cx_pc s (cx_id s + 1) = Cx_Waiting then Cx_Requeued else cx_pc s g)"
    using cx_notify_step(1) [OF assms(1) notify(2,3)] notify(1) by simp
  have "cx_id t = cx_id s + 1" using notify(1) by simp
  with assms(2) show ?thesis unfolding cx_nogap_ok_def pc by auto
next
  case (wait h cv' ms' log')
  then have "h \<noteq> cx_id s" by (simp add: cv_await_ready_def cvx_cond_def)
  with wait assms(2) show ?thesis by (simp add: cx_nogap_ok_def cx_handover_iff)
qed (use assms(2) in \<open>simp_all add: cx_nogap_ok_def cx_handover_iff\<close>)

section \<open>Every run ends\<close>

fun cx_rank1 :: "cvx_pc \<Rightarrow> nat" where
  "cx_rank1 Cx_Idle = 10" | "cx_rank1 Cx_Check = 9" | "cx_rank1 Cx_Suspend = 8" | "cx_rank1 Cx_Lock_Wait = 7" | "cx_rank1 Cx_Owner = 6"
| "cx_rank1 Cx_Unlocked = 5" | "cx_rank1 Cx_Waiting = 4" | "cx_rank1 Cx_Requeued = 3" | "cx_rank1 Cx_Resumed = 2"
| "cx_rank1 Cx_Notified = 1" | "cx_rank1 Cx_Done = 0"

definition cvx_rank :: "nat \<Rightarrow> cvx_sys \<Rightarrow> nat" where
  "cvx_rank n s = (\<Sum>h < n. cx_rank1 (cx_pc s h))"

lemma cx_granted_rank: "cx_rank1 (cx_granted p) \<le> cx_rank1 p"
  by (cases p) simp_all

lemma cx_handover_rank: "cx_rank1 (cx_handover ws pc g) \<le> cx_rank1 (pc g)"
  using cx_granted_rank by (simp add: cx_handover_def)

lemma cx_rank_move:
  assumes "cx_id_ok n s" "h < n \<or> cx_pc s h \<noteq> Cx_Idle" "cx_pc t = cx_handover ws ((cx_pc s)(h := p))" "cx_rank1 p < cx_rank1 (cx_pc s h)"
  shows "cvx_rank n t < cvx_rank n s"
  unfolding cvx_rank_def
proof (rule sum_less_one)
  show "h < n" using assms(1,2) by (metis cx_id_ok_def not_le)
  show "cx_rank1 (cx_pc t h) < cx_rank1 (cx_pc s h)"
    using cx_handover_rank [of ws "(cx_pc s)(h := p)" h] assms(4) unfolding assms(3) by simp
  show "cx_rank1 (cx_pc t g) \<le> cx_rank1 (cx_pc s g)" for g
    using cx_handover_rank [of ws "(cx_pc s)(h := p)" g] assms(4) unfolding assms(3) by (cases "g = h") simp_all
qed

lemma cvx_rank_less:
  assumes "cvx_inv n s" "cvx_step gap n s t"
  shows "cvx_rank n t < cvx_rank n s"
proof -
  have id: "cx_id_ok n s" using assms(1) by (simp add: cvx_inv_def)
  from assms(2) show ?thesis
  proof cases
    case (notify h cv' ms' log')
    have pc: "cx_pc t = (\<lambda>g. if g = h then Cx_Notified else if g = cx_id s + 1 \<and> cx_pc s (cx_id s + 1) = Cx_Waiting then Cx_Requeued else cx_pc s g)"
      using cx_notify_step(1) [OF assms(1) notify(2,3)] notify(1) by simp
    have "h < n" using id notify(2) by (metis cvx_pc.distinct(15) cx_id_ok_def not_le)
    then show ?thesis unfolding cvx_rank_def pc by (rule sum_less_one) (auto simp: notify(2))
  next
    case (pass h)
    then show ?thesis using cx_rank_move [OF id, of h t "[]" Cx_Resumed] by simp
  next
    case (call h)
    then show ?thesis using cx_rank_move [OF id, of h t "[]" Cx_Check] by simp
  next
    case (push h)
    then show ?thesis using cx_rank_move [OF id, of h t "[]" Cx_Waiting] by simp
  next
    case (ready h got m')
    then show ?thesis using cx_rank_move [OF id, of h t "[]" "if got then Cx_Owner else Cx_Suspend"]
      by (cases got) simp_all
  next
    case (suspend h m' log')
    then show ?thesis using cx_rank_move [OF id, of h t "submitted (cx_log s) log'" Cx_Lock_Wait] by simp
  next
    case (wait h cv' ms' log')
    then show ?thesis using cx_rank_move [OF id, of h t "submitted (cx_log s) log'" Cx_Waiting] by simp
  next
    case (unlock h ms' log')
    then show ?thesis using cx_rank_move [OF id, of h t "submitted (cx_log s) log'" Cx_Unlocked] by simp
  next
    case (release h ms' log')
    then show ?thesis using cx_rank_move [OF id, of h t "submitted (cx_log s) log'" Cx_Done] by simp
  qed
qed

text \<open>Where the mutex is held, its holder can go on; where it is free, nobody waits for it.\<close>

lemma cx_unlock_returns: "\<exists>m' lg'. mutex_unlock log_submit m lg = Inr (m', lg')"
  by (cases "mx_waiters m") (simp_all add: mutex_unlock_def log_submit_def)

lemma cx_holder_steps:
  assumes "cvx_inv n s" "cx_holds (cx_pc s h)"
  shows "\<exists>t. cvx_step False n s t"
proof -
  obtain m' lg' where un: "mutex_unlock log_submit (cx_ms s 0) (cx_log s) = Inr (m', lg')" using cx_unlock_returns by blast
  then have at: "unlock_at log_submit 0 (cx_ms s, cx_log s) = Inr ((cx_ms s)(0 := m'), lg')" by (simp add: unlock_at_def)
  consider "cx_pc s h = Cx_Owner" | "cx_pc s h = Cx_Resumed" | "cx_pc s h = Cx_Notified" using assms(2) by (auto simp: cx_holds_def)
  then show ?thesis
  proof cases
    case 1
    have "cv_await_suspend log_submit h 0 (cvx_cond h) (cx_cv s, cx_ms s, cx_log s) = Inr (cv_push h 0 (cvx_cond h) (cx_cv s), (cx_ms s)(0 := m'), lg')"
      using at by (simp add: cv_await_suspend_def)
    then show ?thesis
      using cvx_step.pass [OF 1, of False n] cvx_step.wait [of False s h, OF _ 1, where n = n] by (cases "cv_await_ready (cvx_cond h) (cx_id s)") blast+
  next
    case 2
    have "mx_locked (cx_ms s 0)" using assms by (auto simp: cvx_inv_def cx_mutex_ok_def)
    then have "\<exists>ms'. foldE (enqueue_at log_submit) (filter (wt_passes (cx_id s + 1)) (cx_cv s)) (cx_ms s, cx_log s) = Inr (ms', cx_log s)"
      using assms(1) enqueue_at_locked [of "filter (wt_passes (cx_id s + 1)) (cx_cv s)" 0 "cx_ms s" log_submit "cx_log s"]
      by (simp add: cvx_inv_def cx_cv_ok_def)
    then obtain ms' where "foldE (enqueue_at log_submit) (filter (wt_passes (cx_id s + 1)) (cx_cv s)) (cx_ms s, cx_log s) = Inr (ms', cx_log s)" ..
    then have "cv_notify_all log_submit (cx_id s + 1) (cx_cv s, cx_ms s, cx_log s) =
        Inr (filter (\<lambda>wt. \<not> wt_passes (cx_id s + 1) wt) (cx_cv s), ms', cx_log s)" by (simp add: notify_all_eq)
    from cvx_step.notify [OF 2 this] show ?thesis by blast
  next
    case 3
    have "lock_guard_destroy log_submit (lock_guard_new 0) (cx_ms s) (cx_log s) = Inr ((cx_ms s)(0 := m'), lg')"
      using un by (simp add: lock_guard_destroy_def lock_guard_new_def)
    from cvx_step.release [OF 3 this] show ?thesis by blast
  qed
qed

lemma cvx_progress:
  assumes "cvx_inv n s" "cx_nogap_ok s" "\<not> cvx_end n s"
  shows "\<exists>t. cvx_step False n s t"
proof (cases "\<exists>h. cx_holds (cx_pc s h)")
  case True
  with cx_holder_steps [OF assms(1)] show ?thesis by blast
next
  case False
  have id: "cx_id_ok n s" and free: "\<not> mx_locked (cx_ms s 0)" and queue: "\<And>h. \<not> cx_queued (cx_pc s h)"
    using assms(1) False by (auto simp: cvx_inv_def cx_mutex_ok_def)
  have passed: "\<And>h. cx_pc s h = Cx_Notified \<or> cx_pc s h = Cx_Done \<longleftrightarrow> h < cx_id s" "cx_id s \<le> n"
    "cx_data s = of_nat (cx_id s * 100000)" "cx_lines s = cvx_lines (cx_id s)"
    using id unfolding cx_id_ok_def by blast+
  have lt: "cx_id s < n"
  proof (rule ccontr)
    assume "\<not> cx_id s < n"
    then have "cx_id s = n" using passed(2) by simp
    moreover have "cx_pc s h = Cx_Done" if "h < n" for h
    proof -
      have "cx_pc s h = Cx_Notified \<or> cx_pc s h = Cx_Done" using passed(1) [of h] that \<open>cx_id s = n\<close> by simp
      moreover have "cx_pc s h \<noteq> Cx_Notified" using False unfolding cx_holds_def by blast
      ultimately show ?thesis by blast
    qed
    moreover have "cx_data s = of_nat (n * 100000)" "cx_lines s = cvx_lines n" using passed(3,4) \<open>cx_id s = n\<close> by simp_all
    ultimately show False using assms(3) unfolding cvx_end_def by blast
  qed
  let ?h = "cx_id s"
  have no: "cx_pc s ?h \<noteq> Cx_Notified" "cx_pc s ?h \<noteq> Cx_Done" "cx_pc s ?h \<noteq> Cx_Waiting" "cx_pc s ?h \<noteq> Cx_Unlocked"
    "\<not> cx_holds (cx_pc s ?h)" "\<not> cx_queued (cx_pc s ?h)"
  proof -
    have "\<not> (cx_pc s ?h = Cx_Notified \<or> cx_pc s ?h = Cx_Done)" using passed(1) [of ?h] by simp
    then show "cx_pc s ?h \<noteq> Cx_Notified" "cx_pc s ?h \<noteq> Cx_Done" by blast+
    show "cx_pc s ?h \<noteq> Cx_Waiting" "cx_pc s ?h \<noteq> Cx_Unlocked" using assms(2) unfolding cx_nogap_ok_def by blast+
    show "\<not> cx_holds (cx_pc s ?h)" "\<not> cx_queued (cx_pc s ?h)" using False queue by blast+
  qed
  then consider "cx_pc s ?h = Cx_Idle" | "cx_pc s ?h = Cx_Check" | "cx_pc s ?h = Cx_Suspend"
    by (cases "cx_pc s ?h") (simp_all add: cx_holds_def cx_queued_def)
  then show ?thesis
  proof cases
    case 1
    from cvx_step.call [OF lt 1] show ?thesis by (rule exI)
  next
    case 2
    obtain got m' where "guard_await_ready (cx_ms s 0) = (got, m')" by (cases "guard_await_ready (cx_ms s 0)")
    from cvx_step.ready [OF 2 this] show ?thesis by (rule exI)
  next
    case 3
    have "guard_await_suspend log_submit ?h (cx_ms s 0) (cx_log s) = Inr ((cx_ms s 0)\<lparr>mx_locked := True\<rparr>, cx_log s @ [?h])"
      using free by (simp add: guard_await_suspend_def log_submit_def)
    from cvx_step.suspend [OF 3 this] show ?thesis by (rule exI)
  qed
qed

lemma cvx_init_ok: "cvx_inv n cvx_init" "cx_nogap_ok cvx_init"
  by (simp_all add: cvx_inv_def cvx_init_def cx_mutex_ok_def cx_cv_ok_def cx_id_ok_def cvx_lines_def cx_nogap_ok_def mutex_new_def cx_holds_def cx_queued_def)

interpretation one_worker: terminating_client "cvx_inv n" "cvx_step False n" id "cvx_step False n" cvx_init cx_nogap_ok "cvx_rank n" "cvx_end n" for n
  by unfold_locales (auto simp: cvx_init_ok intro: cvx_inv_step cx_nogap_step cvx_rank_less cvx_progress)

lemma cvx_rank_init: "cvx_rank n cvx_init = 10 * n"
  by (simp add: cvx_rank_def cvx_init_def)

section \<open>Several workers\<close>

definition cvx_lost :: "nat \<Rightarrow> cvx_sys \<Rightarrow> bool" where
  "cvx_lost n s \<longleftrightarrow> cvx_inv n s \<and> (cx_pc s (cx_id s) = Cx_Unlocked \<or> cx_pc s (cx_id s) = Cx_Waiting)"

lemma cvx_lost_step:
  assumes "cvx_lost n s" "cvx_step gap n s t"
  shows "cvx_lost n t"
proof -
  let ?k = "cx_id s"
  have inv: "cvx_inv n s" and k: "cx_pc s ?k = Cx_Unlocked \<or> cx_pc s ?k = Cx_Waiting" using assms(1) by (simp_all add: cvx_lost_def)
  have "cx_pc s h \<noteq> Cx_Resumed" for h
  proof
    assume "cx_pc s h = Cx_Resumed"
    moreover from this have "h = ?k" using inv unfolding cvx_inv_def cx_id_ok_def by blast
    ultimately show False using k by simp
  qed
  with assms(2) have "cx_id t = cx_id s" by cases simp_all
  moreover have "cx_pc t ?k = Cx_Unlocked \<or> cx_pc t ?k = Cx_Waiting"
    using assms(2) k \<open>\<And>h. cx_pc s h \<noteq> Cx_Resumed\<close> by cases (auto simp: cx_handover_iff)
  ultimately show ?thesis using cvx_inv_step [OF inv assms(2)] by (simp add: cvx_lost_def)
qed

lemma cvx_lost_not_end:
  assumes "cvx_lost n s"
  shows "\<not> cvx_end n s"
proof
  assume "cvx_end n s"
  then have "cx_id s = n" by (simp add: cvx_end_def)
  moreover have "cx_pc s n = Cx_Idle" using assms unfolding cvx_lost_def cvx_inv_def cx_id_ok_def by blast
  ultimately show False using assms by (simp add: cvx_lost_def)
qed

text \<open>
  Coroutine 1 finds that it is not its turn and unlocks the mutex; before it pushes itself,
  coroutine 0 locks, passes, and notifies nobody.
\<close>

lemma cvx_run_inv: "run_of (cvx_step gap n) cvx_init k s \<Longrightarrow> cvx_inv n s"
  by (induction rule: run_of.induct) (auto intro: cvx_init_ok cvx_inv_step)

lemma cvx_lost_reachable: "\<exists>k s. run_of (cvx_step True (Suc (Suc n))) cvx_init k s \<and> cvx_lost (Suc (Suc n)) s"
proof -
  let ?n = "Suc (Suc n)" and ?stp = "cvx_step True (Suc (Suc n))" and ?locked = "mutex_new\<lparr>mx_locked := True\<rparr>"
  define s1 where "s1 = cvx_init\<lparr>cx_pc := (cx_pc cvx_init)(Suc 0 := Cx_Check)\<rparr>"
  define s2 where "s2 = s1\<lparr>cx_ms := (cx_ms s1)(0 := ?locked), cx_pc := (cx_pc s1)(Suc 0 := if True then Cx_Owner else Cx_Suspend)\<rparr>"
  define s3 where "s3 = s2\<lparr>cx_ms := (cx_ms s2)(0 := mutex_new), cx_log := [], cx_pc := cx_handover (submitted (cx_log s2) []) ((cx_pc s2)(Suc 0 := Cx_Unlocked))\<rparr>"
  define s4 where "s4 = s3\<lparr>cx_pc := (cx_pc s3)(0 := Cx_Check)\<rparr>"
  define s5 where "s5 = s4\<lparr>cx_ms := (cx_ms s4)(0 := ?locked), cx_pc := (cx_pc s4)(0 := if True then Cx_Owner else Cx_Suspend)\<rparr>"
  define s6 where "s6 = s5\<lparr>cx_pc := (cx_pc s5)(0 := Cx_Resumed)\<rparr>"
  define s7 where "s7 = s6\<lparr>cx_data := cvx_count (cx_data s6), cx_lines := cx_lines s6 @ [(0, cvx_count (cx_data s6))],
      cx_id := cx_id s6 + 1, cx_cv := [], cx_ms := cx_ms s6, cx_log := [],
      cx_pc := cx_handover (submitted (cx_log s6) []) (\<lambda>g. if g = 0 then Cx_Notified else if g \<in> wt_handle ` set (cx_cv s6) - wt_handle ` set ([] :: nat condvar) then Cx_Requeued else cx_pc s6 g)\<rparr>"
  note defs = s1_def s2_def s3_def s4_def s5_def s6_def cvx_init_def mutex_new_def
  have a1: "?stp cvx_init s1" unfolding s1_def by (rule cvx_step.call) (simp_all add: cvx_init_def)
  have a2: "?stp s1 s2" unfolding s2_def by (rule cvx_step.ready) (simp_all add: defs guard_await_ready_def mutex_try_lock_def)
  have a3: "?stp s2 s3" unfolding s3_def
    by (rule cvx_step.unlock) (simp_all add: defs cv_await_ready_def cvx_cond_def unlock_at_def mutex_unlock_def)
  have a4: "?stp s3 s4" unfolding s4_def by (rule cvx_step.call) (simp_all add: defs)
  have a5: "?stp s4 s5" unfolding s5_def by (rule cvx_step.ready) (simp_all add: defs guard_await_ready_def mutex_try_lock_def)
  have a6: "?stp s5 s6" unfolding s6_def by (rule cvx_step.pass) (simp_all add: defs cv_await_ready_def cvx_cond_def)
  have a7: "?stp s6 s7" unfolding s7_def by (rule cvx_step.notify) (simp_all add: defs cv_notify_all_def)
  note go = run_of.run_step [where stp = ?stp and init = cvx_init]
  have run: "run_of ?stp cvx_init (Suc (Suc (Suc (Suc (Suc (Suc (Suc 0))))))) s7"
    by (rule go [OF go [OF go [OF go [OF go [OF go [OF go [OF run_of.run_start a1] a2] a3] a4] a5] a6] a7])
  moreover have "cvx_inv ?n s7" using cvx_run_inv [OF run] .
  moreover have "cx_pc s7 (cx_id s7) = Cx_Unlocked" by (simp add: s7_def defs)
  ultimately show ?thesis by (auto simp: cvx_lost_def)
qed

section \<open>Properties\<close>

text \<open>
  C18. On one worker thread the program keeps the promise of the comment in \<open>condition_variable.hpp\<close>:
  whatever the order in which the coroutines are resumed, it takes at most 1000 steps, nobody is
  stuck, and at the end all hundred coroutines have passed, with \<open>id\<close> at 100 and \<open>data\<close> at
  10000000, and they have passed in the order of their numbers: the lines logged are those of
  coroutine 0, 1, 2 and so on, the \<open>i\<close>-th with the result \<open>(i + 1) * 100000\<close>. A suspended
  coroutine goes on only by being submitted.
\<close>

theorem cv_example_one_worker:
  "ends_with (cv_notify_all_example False) cvx_init 1000 (cvx_end CV_TASK_NUM)"
  using one_worker.client_ends [of CV_TASK_NUM] unfolding cvx_rank_init by (simp add: cv_notify_all_example_def CV_TASK_NUM_def)

text \<open>
  On several workers it does not: whatever bound is allowed, some run ends with a coroutine that
  waits for a turn that has come, because the notification fell between the unlock and the push
  of its \<open>await_suspend\<close>.
\<close>

theorem cv_example_several_workers:
  "\<not> ends_with (cv_notify_all_example True) cvx_init bound (cvx_end CV_TASK_NUM)"
proof -
  have "CV_TASK_NUM = Suc (Suc 98)" by (simp add: CV_TASK_NUM_def)
  then obtain k s where "run_of (cvx_step True CV_TASK_NUM) cvx_init k s" "cvx_lost CV_TASK_NUM s"
    using cvx_lost_reachable [of 98] by auto
  then show ?thesis unfolding cv_notify_all_example_def
    by (rule not_ends_with) (erule (1) cvx_lost_step, erule cvx_lost_not_end)
qed

end
