(* ===== verification/Counter_Example.thy ===== *)
theory Counter_Example
  imports Client Mutex
begin

text \<open>
  \<open>examples/mutex.cpp\<close> and \<open>examples/mutex_guard.cpp\<close>: a hundred coroutines that each add one to
  a shared \<open>int\<close> ten thousand times under the library's mutex. The load and the store of an
  addition are separate steps; the two programs differ in the operations by which they lock
  and unlock, which are arguments of the step relation.
\<close>

section \<open>Definitions\<close>

definition TASK_NUM :: nat where "TASK_NUM = 100"
definition ROUNDS :: nat where "ROUNDS = 10000"

record counter_sys =
  ct_mx :: mx_sys
  ct_fin :: "handle \<Rightarrow> bool"
  ct_i :: "handle \<Rightarrow> nat"
  ct_reg :: "handle \<Rightarrow> i32 option"
  ct_data :: i32

definition counter_init :: counter_sys where
  "counter_init = \<lparr>ct_mx = mx_sys_init, ct_fin = (\<lambda>_. False), ct_i = (\<lambda>_. 0), ct_reg = (\<lambda>_. None), ct_data = 0\<rparr>"

abbreviation ct_pc :: "counter_sys \<Rightarrow> handle \<Rightarrow> mx_pc" where
  "ct_pc s \<equiv> ms_pc (ct_mx s)"

type_synonym lock_ready = "mutex \<Rightarrow> bool \<times> mutex"
type_synonym lock_suspend = "(handle \<Rightarrow> handle list \<Rightarrow> handle list res) \<Rightarrow> handle \<Rightarrow> mutex \<Rightarrow> handle list \<Rightarrow> (mutex \<times> handle list) res"
type_synonym lock_release = "(handle \<Rightarrow> handle list \<Rightarrow> handle list res) \<Rightarrow> mutex \<Rightarrow> handle list \<Rightarrow> (mutex \<times> handle list) res"

inductive counter_step :: "nat \<Rightarrow> nat \<Rightarrow> lock_ready \<Rightarrow> lock_suspend \<Rightarrow> lock_release \<Rightarrow> counter_sys \<Rightarrow> counter_sys \<Rightarrow> bool"
  for n k ready suspend release where
  call: "h < n \<Longrightarrow> \<not> ct_fin s h \<Longrightarrow> ct_pc s h = Mx_Idle \<Longrightarrow>
    counter_step n k ready suspend release s (s\<lparr>ct_mx := (ct_mx s)\<lparr>ms_pc := (ct_pc s)(h := Mx_Check)\<rparr>\<rparr>)"
| ready: "h < n \<Longrightarrow> ct_pc s h = Mx_Check \<Longrightarrow> ready (ms_mutex (ct_mx s)) = (got, m') \<Longrightarrow>
    counter_step n k ready suspend release s (s\<lparr>ct_mx := (ct_mx s)\<lparr>ms_mutex := m',
      ms_pc := (ct_pc s)(h := if got then Mx_Owner else Mx_Suspend)\<rparr>\<rparr>)"
| suspend: "h < n \<Longrightarrow> ct_pc s h = Mx_Suspend \<Longrightarrow>
    suspend log_submit h (ms_mutex (ct_mx s)) (ms_log (ct_mx s)) = Inr (m', log') \<Longrightarrow>
    counter_step n k ready suspend release s (s\<lparr>ct_mx := (ct_mx s)\<lparr>ms_mutex := m', ms_log := log',
      ms_pc := resume_as Mx_Owner (submitted (ms_log (ct_mx s)) log') ((ct_pc s)(h := Mx_Waiting))\<rparr>\<rparr>)"
| load: "h < n \<Longrightarrow> ct_pc s h = Mx_Owner \<Longrightarrow> ct_i s h < k \<Longrightarrow> ct_reg s h = None \<Longrightarrow>
    counter_step n k ready suspend release s (s\<lparr>ct_reg := (ct_reg s)(h \<mapsto> ct_data s)\<rparr>)"
| store: "h < n \<Longrightarrow> ct_pc s h = Mx_Owner \<Longrightarrow> ct_reg s h = Some v \<Longrightarrow>
    counter_step n k ready suspend release s (s\<lparr>ct_data := v + 1, ct_reg := (ct_reg s)(h := None),
      ct_i := (ct_i s)(h := Suc (ct_i s h))\<rparr>)"
| finish: "h < n \<Longrightarrow> ct_pc s h = Mx_Owner \<Longrightarrow> \<not> ct_i s h < k \<Longrightarrow> ct_reg s h = None \<Longrightarrow>
    release log_submit (ms_mutex (ct_mx s)) (ms_log (ct_mx s)) = Inr (m', log') \<Longrightarrow>
    counter_step n k ready suspend release s (s\<lparr>ct_fin := (ct_fin s)(h := True),
      ct_mx := (ct_mx s)\<lparr>ms_mutex := m', ms_log := log',
        ms_pc := resume_as Mx_Owner (submitted (ms_log (ct_mx s)) log') ((ct_pc s)(h := Mx_Idle))\<rparr>\<rparr>)"

text \<open>The coroutine of each program: \<open>lock\<close> and \<open>unlock\<close>, and the guard whose destructor unlocks.\<close>

definition mutex_add_task :: "counter_sys \<Rightarrow> counter_sys \<Rightarrow> bool" where
  "mutex_add_task = counter_step TASK_NUM ROUNDS lock_await_ready lock_await_suspend mutex_unlock"

definition guard_release :: lock_release where
  "guard_release submit m w = bindE (lock_guard_destroy submit (lock_guard_new 0) (\<lambda>_. m) w) (\<lambda>(ms, w'). Inr (ms 0, w'))"

definition guard_add_task :: "counter_sys \<Rightarrow> counter_sys \<Rightarrow> bool" where
  "guard_add_task = counter_step TASK_NUM ROUNDS guard_await_ready guard_await_suspend guard_release"

text \<open>The end of \<open>main\<close>: \<open>scheduler::loop\<close> has run every task to its return, and the assertion holds.\<close>

definition mutex_main_end :: "counter_sys \<Rightarrow> bool" where
  "mutex_main_end s \<longleftrightarrow> (\<forall>h < TASK_NUM. ct_fin s h) \<and> ct_data s = 1000000"

definition counter_final :: "nat \<Rightarrow> nat \<Rightarrow> counter_sys \<Rightarrow> bool" where
  "counter_final n k s \<longleftrightarrow> (\<forall>h < n. ct_fin s h) \<and> ct_data s = of_nat (n * k)"

section \<open>Invariant and measure\<close>

abbreviation mx_step_of :: "nat \<Rightarrow> nat \<Rightarrow> counter_sys \<Rightarrow> counter_sys \<Rightarrow> bool" where
  "mx_step_of n k \<equiv> counter_step n k lock_await_ready lock_await_suspend mutex_unlock"

definition counter_inv :: "nat \<Rightarrow> nat \<Rightarrow> counter_sys \<Rightarrow> bool" where
  "counter_inv n k s \<longleftrightarrow> ct_data s = of_nat (\<Sum>h < n. ct_i s h) \<and>
     (\<forall>h. ct_pc s h \<noteq> Mx_Owner \<longrightarrow> ct_reg s h = None) \<and>
     (\<forall>h v. ct_reg s h = Some v \<longrightarrow> v = ct_data s \<and> ct_i s h < k) \<and>
     (\<forall>h. ct_i s h \<le> k \<and> (ct_pc s h \<noteq> Mx_Owner \<and> \<not> ct_fin s h \<longrightarrow> ct_i s h = 0)) \<and>
     (\<forall>h. ct_fin s h \<longrightarrow> ct_i s h = k \<and> ct_pc s h = Mx_Idle) \<and>
     (\<forall>h. n \<le> h \<longrightarrow> ct_pc s h = Mx_Idle)"

fun task_rank :: "nat \<Rightarrow> bool \<Rightarrow> mx_pc \<Rightarrow> nat \<Rightarrow> bool \<Rightarrow> nat" where
  "task_rank k True pc i loaded = 0"
| "task_rank k False Mx_Owner i loaded = 2 * (k - i) + (if loaded then 0 else 1)"
| "task_rank k False Mx_Waiting i loaded = 2 * k + 2"
| "task_rank k False Mx_Suspend i loaded = 2 * k + 3"
| "task_rank k False Mx_Check i loaded = 2 * k + 4"
| "task_rank k False Mx_Idle i loaded = 2 * k + 5"

definition counter_rank1 :: "nat \<Rightarrow> counter_sys \<Rightarrow> handle \<Rightarrow> nat" where
  "counter_rank1 k s h = task_rank k (ct_fin s h) (ct_pc s h) (ct_i s h) (ct_reg s h \<noteq> None)"

definition counter_rank :: "nat \<Rightarrow> nat \<Rightarrow> counter_sys \<Rightarrow> nat" where
  "counter_rank n k s = (\<Sum>h < n. counter_rank1 k s h)"

definition mx_ok :: "mx_sys \<Rightarrow> bool" where
  "mx_ok m \<longleftrightarrow> (\<exists>owner. mx_inv owner m)"

lemma mx_ok_step: "mx_ok m \<Longrightarrow> mx_step m m' \<Longrightarrow> mx_ok m'"
  unfolding mx_ok_def using mx_step_inv by blast

lemma mx_ok_sole: "mx_ok m \<Longrightarrow> ms_pc m g = Mx_Owner \<Longrightarrow> ms_pc m h = Mx_Owner \<Longrightarrow> g = h"
  unfolding mx_ok_def mx_inv_def by (metis option.inject)

lemma mx_ok_waiter: "mx_ok m \<Longrightarrow> mx_waiters (ms_mutex m) = g # gs \<Longrightarrow> ms_pc m g = Mx_Waiting"
  unfolding mx_ok_def mx_inv_def by (metis list.set_intros(1))

lemma counter_simulates: "mx_step_of n k s t \<Longrightarrow> ct_mx t = ct_mx s \<or> mx_step (ct_mx s) (ct_mx t)"
proof (induction rule: counter_step.induct)
  case (call h s)
  from mx_step.lock [OF this(3)] show ?case by simp
next
  case (ready h s got m')
  from mx_step.ready [OF this(2,3)] show ?case by simp
next
  case (suspend h s m' log')
  from mx_step.suspend [OF this(2,3)] show ?case by simp
next
  case (finish h s m' log')
  from mx_step.unlock [OF this(2,5)] show ?case by simp
qed simp_all

lemma counter_inv_sum:
  assumes "counter_inv n k s" "h < n"
  shows "(\<Sum>i < n. ((ct_i s)(h := Suc (ct_i s h))) i) = Suc (\<Sum>i < n. ct_i s i)"
  using sum_update [of h n "(ct_i s)(h := Suc (ct_i s h))" "ct_i s"] assms by simp

lemma counter_inv_step:
  assumes "mx_ok (ct_mx s)" "counter_inv n k s" "mx_step_of n k s t"
  shows "counter_inv n k t"
  using assms(3)
proof cases
  case (call h)
  with assms(2) show ?thesis by (auto simp: counter_inv_def)
next
  case (ready h got m')
  with assms(2) show ?thesis by (auto simp: counter_inv_def)
next
  case (suspend h m' log')
  with assms(2) lock_suspend_submitted [OF suspend(4)] show ?thesis by (auto simp: counter_inv_def)
next
  case (load h)
  with assms(2) show ?thesis by (auto simp: counter_inv_def)
next
  case (store h v)
  have v: "v = of_nat (\<Sum>i < n. ct_i s i)" "ct_i s h < k" using store(4) assms(2) by (auto simp: counter_inv_def)
  have "ct_reg s g = None" if "g \<noteq> h" for g
    using mx_ok_sole [OF assms(1) store(3), of g] that assms(2) unfolding counter_inv_def by blast
  then show ?thesis using assms(2) store v counter_inv_sum [OF assms(2) store(2)]
    by (auto simp: counter_inv_def Suc_le_eq fun_upd_def simp del: of_nat_sum)
next
  case (finish h m' log')
  note sub = mutex_unlock_submitted [OF finish(6)]
  have i: "ct_i s h = k" using finish(4) assms(2) by (auto simp: counter_inv_def le_antisym)
  show ?thesis
  proof (cases "mx_waiters (ms_mutex (ct_mx s))")
    case Nil
    with finish assms(2) i sub show ?thesis by (auto simp: counter_inv_def)
  next
    case (Cons g gs)
    have "ct_pc s g = Mx_Waiting" by (rule mx_ok_waiter [OF assms(1) Cons])
    with Cons finish assms(2) i sub show ?thesis by (auto simp: counter_inv_def)
  qed
qed

lemma counter_rank_less:
  assumes "mx_ok (ct_mx s)" "counter_inv n k s" "mx_step_of n k s t"
  shows "counter_rank n k t < counter_rank n k s"
proof -
  have "\<exists>h < n. counter_rank1 k t h < counter_rank1 k s h \<and> (\<forall>i. counter_rank1 k t i \<le> counter_rank1 k s i)"
    using assms(3)
  proof cases
    case (finish h m' log')
    note sub = mutex_unlock_submitted [OF finish(6)]
    have fin: "\<not> ct_fin s h" using finish(3) assms(2) by (auto simp: counter_inv_def)
    show ?thesis
    proof (cases "mx_waiters (ms_mutex (ct_mx s))")
      case Nil
      with finish fin sub show ?thesis by (intro exI [of _ h]) (auto simp: counter_rank1_def)
    next
      case (Cons g gs)
      have "ct_pc s g = Mx_Waiting" "g \<noteq> h" using mx_ok_waiter [OF assms(1) Cons] finish(3) by auto
      moreover then have "\<not> ct_fin s g" using assms(2) by (auto simp: counter_inv_def)
      ultimately show ?thesis using Cons finish fin sub assms(2)
        by (intro exI [of _ h]) (auto simp: counter_rank1_def counter_inv_def)
    qed
  next
    case (call h)
    then show ?thesis by (intro exI [of _ h]) (auto simp: counter_rank1_def)
  next
    case (ready h got m')
    then have "\<not> ct_fin s h" using assms(2) by (auto simp: counter_inv_def)
    with ready show ?thesis by (intro exI [of _ h]) (auto simp: counter_rank1_def)
  next
    case (suspend h m' log')
    then have "\<not> ct_fin s h" using assms(2) by (auto simp: counter_inv_def)
    with suspend lock_suspend_submitted [OF suspend(4)] show ?thesis by (intro exI [of _ h]) (auto simp: counter_rank1_def)
  next
    case (load h)
    then have "\<not> ct_fin s h" using assms(2) by (auto simp: counter_inv_def)
    with load show ?thesis by (intro exI [of _ h]) (auto simp: counter_rank1_def)
  next
    case (store h v)
    then have "\<not> ct_fin s h" "ct_i s h < k" using assms(2) by (auto simp: counter_inv_def)
    with store show ?thesis by (intro exI [of _ h]) (auto simp: counter_rank1_def)
  qed
  then show ?thesis unfolding counter_rank_def by (blast intro: sum_less_one)
qed

lemma mutex_unlock_log: "\<exists>m' log'. mutex_unlock log_submit m log = Inr (m', log')"
  by (cases "mx_waiters m") (auto simp: mutex_unlock_def log_submit_def)

lemma counter_progress:
  assumes "mx_ok (ct_mx s)" "counter_inv n k s" "\<not> counter_final n k s"
  shows "\<exists>t. mx_step_of n k s t"
proof -
  obtain h where h: "h < n" "\<not> ct_fin s h"
  proof (rule ccontr)
    assume "\<not> thesis"
    then have fin: "\<forall>h < n. ct_fin s h" using that by blast
    then have "(\<Sum>h < n. ct_i s h) = n * k" using assms(2) by (simp add: counter_inv_def)
    then show False using fin assms(2,3) by (simp add: counter_inv_def counter_final_def del: of_nat_sum of_nat_mult)
  qed
  show ?thesis
  proof (cases "\<exists>g. ct_pc s g = Mx_Owner")
    case True
    then obtain g where g: "ct_pc s g = Mx_Owner" ..
    have "g < n" using g assms(2) by (metis counter_inv_def mx_pc.distinct(7) not_le)
    moreover obtain m' log' where "mutex_unlock log_submit (ms_mutex (ct_mx s)) (ms_log (ct_mx s)) = Inr (m', log')"
      using mutex_unlock_log by blast
    ultimately show ?thesis
      using g counter_step.load [of g n s k] counter_step.store [of g n s] counter_step.finish [of g n s k]
      by (cases "ct_reg s g") blast+
  next
    case False
    then have free: "\<not> mx_locked (ms_mutex (ct_mx s))" using assms(1) by (auto simp: mx_ok_def mx_inv_def)
    then have "ct_pc s h \<noteq> Mx_Waiting" using assms(1) unfolding mx_ok_def mx_inv_def by (metis empty_iff list.set(1))
    moreover obtain got m' where "lock_await_ready (ms_mutex (ct_mx s)) = (got, m')" by fastforce
    moreover obtain m' log' where "lock_await_suspend log_submit h (ms_mutex (ct_mx s)) (ms_log (ct_mx s)) = Inr (m', log')"
      using free by (auto simp: lock_await_suspend_def log_submit_def)
    ultimately show ?thesis
      using False h counter_step.call [of h n s] counter_step.ready [of h n s] counter_step.suspend [of h n s]
      by (cases "ct_pc s h") blast+
  qed
qed

lemma counter_init_ok: "mx_ok (ct_mx counter_init)" "counter_inv n k counter_init"
  by (auto simp: mx_ok_def mx_inv_def counter_inv_def counter_init_def mx_sys_init_def mutex_new_def)

interpretation counter: terminating_client mx_ok mx_step ct_mx "mx_step_of n k" counter_init "counter_inv n k"
    "counter_rank n k" "counter_final n k" for n k
  by unfold_locales
    (erule (1) mx_ok_step, rule counter_init_ok, erule counter_simulates, rule counter_init_ok,
      erule (2) counter_inv_step, erule (2) counter_rank_less, erule (2) counter_progress)

lemma guard_release_eq: "guard_release submit m w = mutex_unlock submit m w"
  by (cases "mutex_unlock submit m w") (auto simp: guard_release_def lock_guard_destroy_def lock_guard_new_def)

lemma guard_ops:
  "guard_await_ready = lock_await_ready" "guard_await_suspend = (lock_await_suspend :: lock_suspend)" "guard_release = mutex_unlock"
  by (intro ext; simp add: guard_await_ready_def lock_await_ready_def lock_suspend_eq guard_release_eq)+

lemma counter_rank_init: "counter_rank n k counter_init = n * (2 * k + 5)"
  by (simp add: counter_rank_def counter_rank1_def counter_init_def mx_sys_init_def)

section \<open>Properties\<close>

text \<open>
  C16. Both programs keep their promise: however the hundred coroutines are scheduled, all steps of all
  of them are at most 2000500, no coroutine is ever stuck waiting for the mutex, and at the end
  every task has returned and the counter is exactly 1000000, as \<open>main\<close> asserts.
\<close>

theorem mutex_examples_count:
  "ends_with mutex_add_task counter_init 2000500 mutex_main_end \<and>
   ends_with guard_add_task counter_init 2000500 mutex_main_end"
proof -
  have "counter_final TASK_NUM ROUNDS = mutex_main_end"
    by (rule ext) (simp add: counter_final_def mutex_main_end_def TASK_NUM_def ROUNDS_def)
  then show ?thesis
    using counter.client_ends [of TASK_NUM ROUNDS] unfolding mutex_add_task_def guard_add_task_def guard_ops counter_rank_init
    by (simp add: TASK_NUM_def ROUNDS_def)
qed

end
