(* ===== verification/Sync_Examples.thy ===== *)
theory Sync_Examples
  imports Client Event Wait_Group
begin

text \<open>
  The example programs of the latch, the wait group and the event (\<open>examples/latch.cpp\<close>,
  \<open>latch_guard.cpp\<close>, \<open>wait_group.cpp\<close>, \<open>event.cpp\<close>, \<open>event_guard.cpp\<close>, \<open>event_value.cpp\<close>):
  some coroutines wait, others count down or set. Their steps are those of the component that
  these coroutines make.
\<close>

section \<open>Counting down\<close>

text \<open>
  The coroutines \<open>ws\<close> wait once each and \<open>n\<close> others count down once each. A step that is not the
  \<open>fetch_sub\<close> of a count-down belongs to a waiter, or to the waking part of a count-down. \<open>step\<close>
  is the component: the latch, or the wait group without further calls of \<open>add\<close>.
\<close>

inductive countdown_step ::
  "('c::len word cd_sys \<Rightarrow> 'c word cd_sys \<Rightarrow> bool) \<Rightarrow> handle set \<Rightarrow> nat \<Rightarrow> 'c word cd_sys \<Rightarrow> 'c word cd_sys \<Rightarrow> bool"
  for step ws n where
  count_down: "step s t \<Longrightarrow> cs_calls t = Suc (cs_calls s) \<Longrightarrow> cs_calls s < n \<Longrightarrow> countdown_step step ws n s t"
| other: "step s t \<Longrightarrow> cs_calls t = cs_calls s \<Longrightarrow> \<forall>h. h \<notin> ws \<longrightarrow> cs_pc t h = cs_pc s h \<Longrightarrow> countdown_step step ws n s t"

definition countdown_end :: "handle set \<Rightarrow> nat \<Rightarrow> 'c::len word cd_sys \<Rightarrow> bool" where
  "countdown_end ws n s \<longleftrightarrow> (\<forall>h \<in> ws. cs_pc s h = Cd_Resumed) \<and> cs_calls s = n \<and> cs_wakers s = 0 \<and> cs_lock s = Cd_Free"

definition countdown_inv :: "handle set \<Rightarrow> nat \<Rightarrow> 'c::len word cd_sys \<Rightarrow> bool" where
  "countdown_inv ws n s \<longleftrightarrow> cs_calls s \<le> n \<and> (\<forall>h. h \<notin> ws \<longrightarrow> cs_pc s h = Cd_Idle)"

fun cd_pc_rank :: "cd_pc \<Rightarrow> nat" where
  "cd_pc_rank Cd_Idle = 6" | "cd_pc_rank Cd_Check = 5" | "cd_pc_rank Cd_Suspend = 4" | "cd_pc_rank Cd_Locked = 3"
| "cd_pc_rank Cd_Push = 2" | "cd_pc_rank Cd_Waiting = 1" | "cd_pc_rank Cd_Resumed = 0"

definition countdown_rank :: "handle set \<Rightarrow> nat \<Rightarrow> 'c::len word cd_sys \<Rightarrow> nat" where
  "countdown_rank ws n s = (\<Sum>h \<in> ws. cd_pc_rank (cs_pc s h)) + 3 * (n - cs_calls s) + 2 * cs_wakers s +
     (if cs_lock s = Cd_By_Waker then 1 else 0)"

text \<open>The programs: their initial state and their coroutines.\<close>

definition latch_example_init :: "u64 cd_sys" where
  "latch_example_init = cd_sys_init (5 - 1)"

definition latch_example :: "u64 cd_sys \<Rightarrow> u64 cd_sys \<Rightarrow> bool" where
  "latch_example = countdown_step cd_step {5 - 1} (5 - 1)"

text \<open>In \<open>latch_guard.cpp\<close> the count-down is the destructor of the guard (\<open>latch_guard_destroy\<close>).\<close>

definition latch_guard_example :: "u64 cd_sys \<Rightarrow> u64 cd_sys \<Rightarrow> bool" where
  "latch_guard_example = countdown_step cd_step {5 - 1} (5 - 1)"

definition wait_group_example_init :: "i32 cd_sys" where
  "wait_group_example_init = (cd_sys_init 0)\<lparr>cs_cd := wait_group_add 3 (wait_group_new 0)\<rparr>"

definition wait_group_example :: "i32 cd_sys \<Rightarrow> i32 cd_sys \<Rightarrow> bool" where
  "wait_group_example = countdown_step (wg_step (\<lambda>_ _. False)) {0} 3"

lemma wait_group_without_add: "wg_step (\<lambda>_ _. False) = cd_step"
  by (intro ext iffI) (auto intro: wg_step_common elim: wg_step_cases)

lemma sum_fun_upd_less:
  fixes f :: "'a \<Rightarrow> nat"
  assumes "finite ws" "h \<in> ws" "f x < f (g h)"
  shows "(\<Sum>i \<in> ws. f ((g(h := x)) i)) < (\<Sum>i \<in> ws. f (g i))"
  using assms by (intro sum_strict_mono_ex1) auto

lemma countdown_inv_step: "countdown_inv ws n s \<Longrightarrow> countdown_step cd_step ws n s t \<Longrightarrow> cd_inv m s \<Longrightarrow> countdown_inv ws n t"
proof (erule countdown_step.cases)
  fix s' t' :: "'a word cd_sys"
  assume a: "countdown_inv ws n s" "cd_inv m s" "s = s'" "t = t'" "cd_step s' t'" "cs_calls t' = Suc (cs_calls s')" "cs_calls s' < n"
  from a(5) have "\<forall>h. cs_pc s' h = Cd_Idle \<longrightarrow> cs_pc t' h = Cd_Idle"
    using a(6) by (cases rule: cd_step.cases) (auto simp: cd_wake_def)
  with a show "countdown_inv ws n t" by (simp add: countdown_inv_def)
qed (auto simp: countdown_inv_def)

lemma countdown_rank_less:
  assumes "finite ws" "cd_inv m s" "countdown_inv ws n s" "countdown_step cd_step ws n s t"
  shows "countdown_rank ws n t < countdown_rank ws n s"
  using assms(4)
proof cases
  case count_down
  from this(1) show ?thesis
    by (cases rule: cd_step.cases) (use count_down(2,3) in \<open>auto simp: countdown_rank_def\<close>)
next
  case other
  note upd = sum_fun_upd_less [OF assms(1), where f = cd_pc_rank and g = "cs_pc s"]
  have ws: "h \<in> ws" if "cs_pc t h \<noteq> cs_pc s h" for h using other(3) that by blast
  from other(1) show ?thesis
  proof (cases rule: cd_step.cases)
    case (waker_wake l' log')
    note sub = cd_wake_submitted [OF waker_wake(3)]
    have "(\<Sum>h \<in> ws. cd_pc_rank (cs_pc t h)) \<le> (\<Sum>h \<in> ws. cd_pc_rank (cs_pc s h))"
      using waker_wake(1) by (intro sum_mono) auto
    with waker_wake show ?thesis by (simp add: countdown_rank_def)
  next
    case (lock h)
    with upd [of h Cd_Locked] ws [of h] show ?thesis by (simp add: countdown_rank_def)
  next
    case (load_zero h log')
    moreover have "cs_lock s \<noteq> Cd_By_Waker" using load_zero(2) assms(2) by (auto simp: cd_inv_def cd_lock_ok_def)
    ultimately show ?thesis using upd [of h Cd_Resumed] ws [of h] by (simp add: countdown_rank_def)
  next
    case (push h)
    moreover have "cs_lock s \<noteq> Cd_By_Waker" using push(2) assms(2) by (auto simp: cd_inv_def cd_lock_ok_def)
    ultimately show ?thesis using upd [of h Cd_Waiting] ws [of h] by (simp add: countdown_rank_def)
  next
    case (wait h)
    with upd [of h Cd_Check] ws [of h] show ?thesis by (simp add: countdown_rank_def)
  next
    case (ready h)
    with upd [of h Cd_Resumed] ws [of h] show ?thesis by (simp add: countdown_rank_def)
  next
    case (not_ready h)
    with upd [of h Cd_Suspend] ws [of h] show ?thesis by (simp add: countdown_rank_def)
  next
    case (load_nonzero h)
    with upd [of h Cd_Push] ws [of h] show ?thesis by (simp add: countdown_rank_def)
  qed (use other(2) in \<open>simp_all add: countdown_rank_def\<close>)
qed

lemma cd_wake_log: "\<exists>l' log'. cd_wake log_submit l lg = Inr (l', log')"
  using logged.wake_all_returns by (fastforce simp: cd_wake_def)

lemma countdown_progress:
  assumes "cd_inv (of_nat n) s" "countdown_inv ws n s" "\<not> countdown_end ws n s"
  shows "\<exists>t. countdown_step cd_step ws n s t"
proof -
  have lock: "\<And>h. cs_lock s = Cd_By_Waiter h \<Longrightarrow> cs_pc s h = Cd_Locked \<or> cs_pc s h = Cd_Push"
    "\<And>h. cs_pc s h = Cd_Locked \<or> cs_pc s h = Cd_Push \<Longrightarrow> cs_lock s = Cd_By_Waiter h"
    and waiters: "\<And>h. h \<in> set (cd_waiters (cs_cd s)) \<longleftrightarrow> cs_pc s h = Cd_Waiting"
    using assms(1) by (auto simp: cd_inv_def cd_lock_ok_def cd_waiters_ok_def)
  have in_ws: "h \<in> ws" if "cs_pc s h \<noteq> Cd_Idle" for h using assms(2) that by (auto simp: countdown_inv_def)
  have own: "\<exists>t. countdown_step cd_step ws n s t"
    if "cd_step s t" "cs_calls t = cs_calls s" "\<forall>h. h \<notin> ws \<longrightarrow> cs_pc t h = cs_pc s h" for t
    using that countdown_step.other by blast
  show ?thesis
  proof (cases "cs_lock s")
    case (Cd_By_Waiter g)
    then have g: "g \<in> ws" "cs_pc s g = Cd_Locked \<or> cs_pc s g = Cd_Push" using lock(1) [of g] in_ws [of g] by auto
    then show ?thesis
      using own [OF cd_step.load_zero [of s g]] own [OF cd_step.load_nonzero [of s g]] own [OF cd_step.push [of s g]]
      by (cases "cd_recheck (cs_cd s)") (auto simp: log_submit_def)
  next
    case Cd_By_Waker
    obtain l' log' where "cd_wake log_submit (cs_cd s) (cs_log s) = Inr (l', log')" using cd_wake_log by blast
    from own [OF cd_step.waker_wake [OF Cd_By_Waker this]] cd_wake_submitted(2) [OF this]
    show ?thesis using in_ws waiters by fastforce
  next
    case Cd_Free
    consider (waker) k where "cs_wakers s = Suc k" | (call) "cs_calls s < n" | (rest) "cs_wakers s = 0" "cs_calls s = n"
      using assms(2) unfolding countdown_inv_def by (metis le_neq_implies_less not0_implies_Suc)
    then show ?thesis
    proof cases
      case waker
      from own [OF cd_step.waker_lock [OF waker Cd_Free]] show ?thesis by simp
    next
      case call
      obtain prev l' where "cd_fetch_sub (cs_cd s) = (prev, l')" by fastforce
      note cd_step.fetch_sub [OF this]
      from countdown_step.count_down [where step = cd_step, OF this] call show ?thesis by auto
    next
      case rest
      then have zero: "cd_count (cs_cd s) = 0" using assms(1) by (simp add: cd_inv_def cd_calls_ok_def)
      then have empty: "cd_waiters (cs_cd s) = []"
        using assms(1) rest(1) Cd_Free by (auto simp: cd_inv_def cd_cover_ok_def)
      obtain h where h: "h \<in> ws" "cs_pc s h \<noteq> Cd_Resumed"
        using assms(3) rest Cd_Free by (auto simp: countdown_end_def)
      then have "cs_pc s h \<in> {Cd_Idle, Cd_Check, Cd_Suspend}"
        using waiters [of h] empty lock(2) [of h] Cd_Free by (cases "cs_pc s h") auto
      with h(1) show ?thesis
        using own [OF cd_step.wait [of s h]] own [OF cd_step.ready [of s h]] own [OF cd_step.lock [of s h]] zero Cd_Free
        by (auto simp: cd_await_ready_def)
    qed
  qed
qed

lemma countdown_init_ok: "cd_inv n (cd_sys_init n)" "countdown_inv ws k (cd_sys_init n)"
  by (simp_all add: cd_inv_def inv_defs cd_sys_init_def cd_new_def countdown_inv_def)

text \<open>The waiters are given as a list, so that there are finitely many.\<close>

interpretation countdown: terminating_client "cd_inv (of_nat n)" cd_step id "countdown_step cd_step (set ws) n"
    "cd_sys_init (of_nat n)" "countdown_inv (set ws) n" "countdown_rank (set ws) n" "countdown_end (set ws) n" for ws n
proof unfold_locales
  show "id t = id s \<or> cd_step (id s) (id t)" if "countdown_step cd_step (set ws) n s t" for s t :: "'a word cd_sys"
    using that by cases simp_all
qed (auto simp: countdown_init_ok intro: cd_step_inv countdown_inv_step countdown_rank_less countdown_progress)

lemma countdown_ends:
  "ends_with (countdown_step cd_step (set ws) n) (cd_sys_init (of_nat n :: 'c::len word)) (6 * card (set ws) + 3 * n)
     (countdown_end (set ws) n)"
proof -
  have "countdown_rank (set ws) n (cd_sys_init (of_nat n :: 'c word)) = 6 * card (set ws) + 3 * n"
    by (simp add: countdown_rank_def cd_sys_init_def)
  then show ?thesis using countdown.client_ends [where ws = ws and n = n and 'a = 'c] by simp
qed

section \<open>Setting an event\<close>

text \<open>
  Four coroutines wait for the event and one sets it to \<open>v\<close>, once. A coroutine that got past the
  wait reads the value (\<open>await_resume\<close>) and returns. The programs on \<open>event<>\<close> are those with a
  value that carries nothing.
\<close>

record 'v event_sys =
  ex_ev :: "'v ev_sys"
  ex_sets :: nat
  ex_val :: "handle \<Rightarrow> 'v option"

definition event_example_init :: "'v \<Rightarrow> 'v event_sys" where
  "event_example_init v0 = \<lparr>ex_ev = ev_sys_init v0, ex_sets = 0, ex_val = (\<lambda>_. None)\<rparr>"

abbreviation ex_pc :: "'v event_sys \<Rightarrow> handle \<Rightarrow> ev_pc" where
  "ex_pc s \<equiv> es_pc (ex_ev s)"

inductive event_example_step :: "handle set \<Rightarrow> 'v \<Rightarrow> 'v event_sys \<Rightarrow> 'v event_sys \<Rightarrow> bool" for ws v where
  call: "h \<in> ws \<Longrightarrow> ex_pc s h = Ev_Idle \<Longrightarrow>
    event_example_step ws v s (s\<lparr>ex_ev := (ex_ev s)\<lparr>es_pc := (ex_pc s)(h := Ev_Check)\<rparr>\<rparr>)"
| ready: "h \<in> ws \<Longrightarrow> ex_pc s h = Ev_Check \<Longrightarrow>
    event_example_step ws v s (s\<lparr>ex_ev := (ex_ev s)\<lparr>es_pc :=
      (ex_pc s)(h := if event_await_ready (es_ev (ex_ev s)) then Ev_Resumed else Ev_Suspend)\<rparr>\<rparr>)"
| suspend: "h \<in> ws \<Longrightarrow> ex_pc s h = Ev_Suspend \<Longrightarrow> \<not> es_setting (ex_ev s) \<Longrightarrow>
    event_await_suspend log_submit h (es_ev (ex_ev s)) (es_log (ex_ev s)) = Inr (ev', log') \<Longrightarrow>
    event_example_step ws v s (s\<lparr>ex_ev := (ex_ev s)\<lparr>es_ev := ev', es_log := log',
      es_pc := resume_as Ev_Resumed (submitted (es_log (ex_ev s)) log') ((ex_pc s)(h := Ev_Waiting))\<rparr>\<rparr>)"
| resume: "h \<in> ws \<Longrightarrow> ex_pc s h = Ev_Resumed \<Longrightarrow> ex_val s h = None \<Longrightarrow>
    event_example_step ws v s (s\<lparr>ex_val := (ex_val s)(h \<mapsto> event_await_resume (es_ev (ex_ev s)))\<rparr>)"
| set_store: "ex_sets s = 0 \<Longrightarrow> \<not> es_setting (ex_ev s) \<Longrightarrow>
    event_example_step ws v s (s\<lparr>ex_sets := 1,
      ex_ev := (ex_ev s)\<lparr>es_ev := event_set_store v (es_ev (ex_ev s)), es_setting := True\<rparr>\<rparr>)"
| set_wake: "es_setting (ex_ev s) \<Longrightarrow>
    event_set_wake log_submit (es_ev (ex_ev s)) (es_log (ex_ev s)) = Inr (ev', log') \<Longrightarrow>
    event_example_step ws v s (s\<lparr>ex_ev := (ex_ev s)\<lparr>es_ev := ev', es_log := log', es_setting := False,
      es_pc := resume_as Ev_Resumed (submitted (es_log (ex_ev s)) log') (ex_pc s)\<rparr>\<rparr>)"

definition event_example_end :: "handle set \<Rightarrow> 'v \<Rightarrow> 'v event_sys \<Rightarrow> bool" where
  "event_example_end ws v s \<longleftrightarrow> (\<forall>h \<in> ws. ex_val s h = Some v) \<and> ex_sets s = 1 \<and> \<not> es_setting (ex_ev s)"

definition event_value_example :: "int event_sys \<Rightarrow> int event_sys \<Rightarrow> bool" where
  "event_value_example = event_example_step (set [0..<5 - 1]) (5 - 1)"

text \<open>In \<open>event_guard.cpp\<close> the event is set by the destructor of the guard (\<open>event_guard_destroy\<close>).\<close>

definition event_guard_example :: "unit event_sys \<Rightarrow> unit event_sys \<Rightarrow> bool" where
  "event_guard_example = event_example_step (set [0..<5 - 1]) ()"

definition event_void_example :: "unit event_sys \<Rightarrow> unit event_sys \<Rightarrow> bool" where
  "event_void_example = event_example_step (set [0..<5 - 1]) ()"

definition event_example_inv :: "handle set \<Rightarrow> 'v \<Rightarrow> 'v event_sys \<Rightarrow> bool" where
  "event_example_inv ws v s \<longleftrightarrow> (\<forall>h. h \<notin> ws \<longrightarrow> ex_pc s h = Ev_Idle) \<and> ex_sets s \<le> 1 \<and>
     (ex_sets s = 1 \<longleftrightarrow> ev_is_set (es_ev (ex_ev s))) \<and>
     (ev_is_set (es_ev (ex_ev s)) \<longrightarrow> ev_value (es_ev (ex_ev s)) = v) \<and>
     (\<forall>h. ex_pc s h \<noteq> Ev_Resumed \<longrightarrow> ex_val s h = None) \<and> (\<forall>h x. ex_val s h = Some x \<longrightarrow> x = v)"

fun ev_task_rank :: "ev_pc \<Rightarrow> 'v option \<Rightarrow> nat" where
  "ev_task_rank Ev_Idle _ = 5" | "ev_task_rank Ev_Check _ = 4" | "ev_task_rank Ev_Suspend _ = 3"
| "ev_task_rank Ev_Waiting _ = 2" | "ev_task_rank Ev_Resumed None = 1" | "ev_task_rank Ev_Resumed (Some _) = 0"

definition event_example_rank :: "handle set \<Rightarrow> 'v event_sys \<Rightarrow> nat" where
  "event_example_rank ws s = (\<Sum>h \<in> ws. ev_task_rank (ex_pc s h) (ex_val s h)) +
     (if ex_sets s = 0 then 2 else 0) + (if es_setting (ex_ev s) then 1 else 0)"

lemma event_example_simulates:
  "event_example_step ws v s t \<Longrightarrow> ex_ev t = ex_ev s \<or> ev_step (ex_ev s) (ex_ev t)"
proof (induction rule: event_example_step.induct)
  case (call h s)
  from ev_step.wait [OF this(2)] show ?case by simp
next
  case (ready h s)
  from ev_step.ready [OF this(2)] ev_step.not_ready [OF this(2)] show ?case by simp
next
  case (suspend h s ev' log')
  from ev_step.suspend [OF this(2,3,4)] show ?case by simp
next
  case (set_store s)
  from ev_step.set_store [OF this(2), of v] show ?case by simp
next
  case (set_wake s ev' log')
  from ev_step.set_wake [OF this] show ?case by simp
qed simp

lemma event_example_inv_step:
  assumes "ev_inv (ex_ev s)" "event_example_inv ws v s" "event_example_step ws v s t"
  shows "event_example_inv ws v t"
  using assms(3)
proof cases
  case (suspend h ev' log')
  with assms(2) show ?thesis by (auto simp: event_example_inv_def event_await_suspend_def log_submit_def split: if_splits)
next
  case (set_wake ev' log')
  with assms event_set_wake_submitted [OF set_wake(3)] show ?thesis by (auto simp: event_example_inv_def ev_inv_def)
next
  case (resume h)
  with assms show ?thesis by (auto simp: event_example_inv_def event_await_resume_def ev_inv_def)
qed (use assms(2) in \<open>auto simp: event_example_inv_def event_set_store_def\<close>)

lemma event_sum_less:
  assumes "finite ws" "h \<in> ws" "ev_task_rank (p h) (x h) < ev_task_rank (q h) (y h)" "\<And>i. i \<noteq> h \<Longrightarrow> p i = q i \<and> x i = y i"
  shows "(\<Sum>i \<in> ws. ev_task_rank (p i) (x i)) < (\<Sum>i \<in> ws. ev_task_rank (q i) (y i))"
proof (rule sum_strict_mono_ex1 [OF assms(1)])
  show "\<forall>i \<in> ws. ev_task_rank (p i) (x i) \<le> ev_task_rank (q i) (y i)" using assms(3,4) by (metis less_or_eq_imp_le)
qed (use assms(2,3) in blast)

lemma event_example_rank_less:
  assumes "finite ws" "ev_inv (ex_ev s)" "event_example_inv ws v s" "event_example_step ws v s t"
  shows "event_example_rank ws t < event_example_rank ws s"
proof -
  note less = event_sum_less [OF assms(1), where p = "ex_pc t" and q = "ex_pc s" and x = "ex_val t" and y = "ex_val s"]
  from assms(4) show ?thesis
  proof cases
    case (call h)
    with less [of h] show ?thesis by (simp add: event_example_rank_def)
  next
    case (ready h)
    then have "ex_val s h = None" using assms(3) by (cases "ex_val s h") (auto simp: event_example_inv_def)
    with ready less [of h] show ?thesis by (simp add: event_example_rank_def split: if_splits)
  next
    case (suspend h ev' log')
    then have "ex_val s h = None" using assms(3) by (cases "ex_val s h") (auto simp: event_example_inv_def)
    with suspend less [of h] event_suspend_submitted [OF suspend(5)] show ?thesis by (simp add: event_example_rank_def split: if_splits)
  next
    case (resume h)
    with less [of h] show ?thesis by (simp add: event_example_rank_def)
  next
    case set_store
    then show ?thesis by (simp add: event_example_rank_def)
  next
    case (set_wake ev' log')
    have "(\<Sum>h \<in> ws. ev_task_rank (ex_pc t h) (ex_val t h)) \<le> (\<Sum>h \<in> ws. ev_task_rank (ex_pc s h) (ex_val s h))"
    proof (rule sum_mono)
      show "ev_task_rank (ex_pc t h) (ex_val t h) \<le> ev_task_rank (ex_pc s h) (ex_val s h)" for h
        using set_wake(1) assms(2) event_set_wake_submitted [OF set_wake(3)] by (cases "ex_val s h") (auto simp: ev_inv_def)
    qed
    with set_wake show ?thesis by (simp add: event_example_rank_def)
  qed
qed

lemma event_set_wake_log: "\<exists>ev' log'. event_set_wake log_submit ev lg = Inr (ev', log')"
  using logged.wake_all_returns by (fastforce simp: event_set_wake_def)

lemma event_example_progress:
  assumes "ev_inv (ex_ev s)" "event_example_inv ws v s" "\<not> event_example_end ws v s"
  shows "\<exists>t. event_example_step ws v s t"
proof (cases "es_setting (ex_ev s)")
  case True
  obtain ev' log' where "event_set_wake log_submit (es_ev (ex_ev s)) (es_log (ex_ev s)) = Inr (ev', log')"
    using event_set_wake_log by blast
  from event_example_step.set_wake [OF True this] show ?thesis by blast
next
  case False
  show ?thesis
  proof (cases "ex_sets s = 0")
    case True
    from event_example_step.set_store [OF this False] show ?thesis by blast
  next
    case sets: False
    then have "ex_sets s = 1" "ev_is_set (es_ev (ex_ev s))" using assms(2) by (auto simp: event_example_inv_def)
    then have waiting: "\<And>h. ex_pc s h \<noteq> Ev_Waiting" using assms(1) False by (auto simp: ev_inv_def)
    obtain h where h: "h \<in> ws" "ex_val s h \<noteq> Some v"
      using assms(3) False \<open>ex_sets s = 1\<close> by (auto simp: event_example_end_def)
    then have none: "ex_val s h = None" using assms(2) by (cases "ex_val s h") (auto simp: event_example_inv_def)
    obtain ev' log' where sus: "event_await_suspend log_submit h (es_ev (ex_ev s)) (es_log (ex_ev s)) = Inr (ev', log')"
      using \<open>ev_is_set (es_ev (ex_ev s))\<close> by (simp add: event_await_suspend_def log_submit_def)
    show ?thesis
    proof (cases "ex_pc s h")
      case Ev_Idle
      from event_example_step.call [OF h(1) this] show ?thesis by blast
    next
      case Ev_Check
      from event_example_step.ready [OF h(1) this] show ?thesis by blast
    next
      case Ev_Suspend
      from event_example_step.suspend [OF h(1) this False sus] show ?thesis by blast
    next
      case Ev_Resumed
      from event_example_step.resume [OF h(1) this none] show ?thesis by blast
    qed (simp add: waiting)
  qed
qed

lemma event_example_init_ok: "ev_inv (ex_ev (event_example_init v0))" "event_example_inv ws v (event_example_init v0)"
  by (simp_all add: ev_inv_def event_example_inv_def event_example_init_def ev_sys_init_def event_new_def)

interpretation event_example: terminating_client ev_inv ev_step ex_ev "event_example_step (set ws) v"
    "event_example_init v0" "event_example_inv (set ws) v" "event_example_rank (set ws)" "event_example_end (set ws) v" for ws v v0
  by unfold_locales
    (erule (1) ev_step_inv [rotated], rule event_example_init_ok, erule event_example_simulates, rule event_example_init_ok,
      erule (2) event_example_inv_step, rule event_example_rank_less, simp_all add: event_example_progress)

lemma event_example_rank_init: "event_example_rank (set ws) (event_example_init v0) = 5 * card (set ws) + 2"
  by (simp add: event_example_rank_def event_example_init_def ev_sys_init_def)

section \<open>Properties\<close>

text \<open>
  The latch and wait-group programs end whatever the schedule: every count-down is made, every
  waiting coroutine gets past its wait, and nobody is left inside the component.
\<close>

theorem countdown_examples_end:
  "ends_with latch_example latch_example_init 18 (countdown_end {4} 4) \<and>
   ends_with latch_guard_example latch_example_init 18 (countdown_end {4} 4) \<and>
   ends_with wait_group_example wait_group_example_init 15 (countdown_end {0} 3)"
proof (intro conjI)
  show "ends_with latch_example latch_example_init 18 (countdown_end {4} 4)"
    using countdown_ends [of "[4]" 4, where 'c = 64] by (simp add: latch_example_def latch_example_init_def)
  then show "ends_with latch_guard_example latch_example_init 18 (countdown_end {4} 4)"
    by (simp add: latch_example_def latch_guard_example_def)
  have "wait_group_example_init = cd_sys_init 3"
    by (simp add: wait_group_example_init_def cd_sys_init_def wait_group_add_def wait_group_new_def cd_new_def)
  then show "ends_with wait_group_example wait_group_example_init 15 (countdown_end {0} 3)"
    using countdown_ends [of "[0]" 3, where 'c = 32] by (simp add: wait_group_example_def wait_group_without_add)
qed

text \<open>
  The event programs end whatever the schedule, with every waiting coroutine past its wait; in
  \<open>event_value.cpp\<close> each of them has read the value 4 that was set.
\<close>

theorem event_examples_end:
  "ends_with event_value_example (event_example_init v0) 22 (event_example_end {0, 1, 2, 3} 4) \<and>
   ends_with event_void_example (event_example_init ()) 22 (event_example_end {0, 1, 2, 3} ()) \<and>
   ends_with event_guard_example (event_example_init ()) 22 (event_example_end {0, 1, 2, 3} ())"
  using event_example.client_ends [of "[0..<4]" "4 :: int" v0] event_example_rank_init [of "[0..<4]" v0]
    event_example.client_ends [of "[0..<4]" "()" "()"] event_example_rank_init [of "[0..<4]" "()"]
  by (simp add: event_value_example_def event_void_example_def event_guard_example_def upt_rec numeral_eq_Suc)

end
