(* ===== verification/Channel_Example.thy ===== *)
theory Channel_Example
  imports Client Channel
begin

text \<open>
  \<open>examples/channel.cpp\<close>: a producer sends the numbers below ten over a channel and closes it, a
  consumer receives until the channel is closed. The producer is coroutine 0, the consumer
  coroutine 2; the capacity and the numbers are arguments.
\<close>

section \<open>Definitions\<close>

record pipe_sys =
  px_ch :: "int ch_sys"
  px_todo :: "int list"
  px_sending :: bool
  px_ended :: bool
  px_got :: "int list"
  px_receiving :: bool
  px_fin :: bool

definition pipe_init :: "int list \<Rightarrow> pipe_sys" where
  "pipe_init vs = \<lparr>px_ch = ch_sys_init demo_sas, px_todo = vs, px_sending = False, px_ended = False,
     px_got = [], px_receiving = False, px_fin = False\<rparr>"

abbreviation px_pc :: "pipe_sys \<Rightarrow> handle \<Rightarrow> ch_pc" where
  "px_pc s \<equiv> cs_pc (px_ch s)"

abbreviation px_chan :: "pipe_sys \<Rightarrow> (int, handle list) chan" where
  "px_chan s \<equiv> cs_chan (px_ch s)"

text \<open>The producer: one \<open>co_await ch.send(i)\<close> per number, the answer of which it ignores, then \<open>close\<close>.\<close>

inductive producer_step :: "nat \<Rightarrow> pipe_sys \<Rightarrow> pipe_sys \<Rightarrow> bool" for capacity where
  send: "px_pc s 0 = Ch_Idle \<Longrightarrow> \<not> px_sending s \<Longrightarrow> px_todo s = v # vs \<Longrightarrow>
    producer_step capacity s (s\<lparr>px_sending := True, px_ch := (px_ch s)\<lparr>cs_chan := channel_send 0 v (px_chan s),
      cs_pc := (px_pc s)(0 := Ch_Send_Check)\<rparr>\<rparr>)"
| send_ready: "px_pc s 0 = Ch_Send_Check \<Longrightarrow> send_await_ready capacity log_submit 0 (px_chan s) = Inr (ok, c) \<Longrightarrow>
    producer_step capacity s (s\<lparr>px_ch := after_send 0 (px_chan s) c (if ok then Ch_Idle else Ch_Send_Suspend) (px_ch s)\<rparr>)"
| send_suspend: "px_pc s 0 = Ch_Send_Suspend \<Longrightarrow> send_await_suspend capacity log_submit 0 0 (px_chan s) = Inr (susp, c) \<Longrightarrow>
    producer_step capacity s (s\<lparr>px_ch := after_send 0 (px_chan s) c (if susp then Ch_Send_Wait else Ch_Idle) (px_ch s)\<rparr>)"
| send_resume: "px_pc s 0 = Ch_Idle \<Longrightarrow> px_sending s \<Longrightarrow>
    producer_step capacity s (s\<lparr>px_sending := False, px_todo := tl (px_todo s)\<rparr>)"
| close: "px_pc s 0 = Ch_Idle \<Longrightarrow> \<not> px_sending s \<Longrightarrow> px_todo s = [] \<Longrightarrow> \<not> px_ended s \<Longrightarrow>
    channel_close log_submit (px_chan s) = Inr c \<Longrightarrow>
    producer_step capacity s (s\<lparr>px_ended := True, px_ch := (px_ch s)\<lparr>cs_chan := c,
      cs_pc := resume_woken (px_chan s) c (px_pc s)\<rparr>\<rparr>)"

text \<open>The consumer: \<open>co_await ch.recv()\<close> until it answers nothing.\<close>

inductive consumer_step :: "pipe_sys \<Rightarrow> pipe_sys \<Rightarrow> bool" where
  recv: "px_pc s 2 = Ch_Idle \<Longrightarrow> \<not> px_receiving s \<Longrightarrow> \<not> px_fin s \<Longrightarrow>
    consumer_step s (s\<lparr>px_receiving := True, px_ch := (px_ch s)\<lparr>cs_chan := channel_recv 2 (px_chan s),
      cs_pc := (px_pc s)(2 := Ch_Recv_Check)\<rparr>\<rparr>)"
| recv_ready: "px_pc s 2 = Ch_Recv_Check \<Longrightarrow> recv_await_ready log_submit 2 (px_chan s) = Inr (ok, c) \<Longrightarrow>
    consumer_step s (s\<lparr>px_ch := after_recv 2 (px_chan s) c (if ok then Ch_Idle else Ch_Recv_Suspend) (px_ch s)\<rparr>)"
| recv_suspend: "px_pc s 2 = Ch_Recv_Suspend \<Longrightarrow> recv_await_suspend log_submit 2 2 (px_chan s) = Inr (susp, c) \<Longrightarrow>
    consumer_step s (s\<lparr>px_ch := after_recv 2 (px_chan s) c (if susp then Ch_Recv_Wait else Ch_Idle) (px_ch s)\<rparr>)"
| recv_data: "px_pc s 2 = Ch_Idle \<Longrightarrow> px_receiving s \<Longrightarrow> recv_await_resume 2 (px_chan s) = Some v \<Longrightarrow>
    consumer_step s (s\<lparr>px_receiving := False, px_got := px_got s @ [v]\<rparr>)"
| recv_end: "px_pc s 2 = Ch_Idle \<Longrightarrow> px_receiving s \<Longrightarrow> recv_await_resume 2 (px_chan s) = None \<Longrightarrow>
    consumer_step s (s\<lparr>px_receiving := False, px_fin := True\<rparr>)"

definition pipe_step :: "nat \<Rightarrow> pipe_sys \<Rightarrow> pipe_sys \<Rightarrow> bool" where
  "pipe_step capacity s t \<longleftrightarrow> producer_step capacity s t \<or> consumer_step s t"

text \<open>The end: both coroutines have returned and the consumer has seen all numbers in order.\<close>

definition pipe_end :: "int list \<Rightarrow> pipe_sys \<Rightarrow> bool" where
  "pipe_end vs s \<longleftrightarrow> px_ended s \<and> px_fin s \<and> px_got s = vs"

text \<open>\<open>channel<int>\<close> has capacity 1.\<close>

definition channel_example :: "pipe_sys \<Rightarrow> pipe_sys \<Rightarrow> bool" where
  "channel_example = pipe_step 1"

section \<open>Invariant\<close>

definition pipe_pcs :: "pipe_sys \<Rightarrow> bool" where
  "pipe_pcs s \<longleftrightarrow> (\<forall>h. h \<noteq> 0 \<and> h \<noteq> 2 \<longrightarrow> px_pc s h = Ch_Idle) \<and>
     px_pc s 0 \<in> {Ch_Idle, Ch_Send_Check, Ch_Send_Suspend, Ch_Send_Wait} \<and>
     px_pc s 2 \<in> {Ch_Idle, Ch_Recv_Check, Ch_Recv_Suspend, Ch_Recv_Wait} \<and>
     (px_pc s 0 \<noteq> Ch_Idle \<longrightarrow> px_sending s) \<and> (px_pc s 2 \<noteq> Ch_Idle \<longrightarrow> px_receiving s) \<and> (px_receiving s \<longrightarrow> \<not> px_fin s)"

definition pipe_producer :: "int list \<Rightarrow> pipe_sys \<Rightarrow> bool" where
  "pipe_producer vs s \<longleftrightarrow>
     (px_sending s \<longrightarrow> px_todo s \<noteq> [] \<and> sa_value (ch_sas (px_chan s) 0) = hd (px_todo s)) \<and>
     (ch_closed (px_chan s) \<longleftrightarrow> px_ended s) \<and> (px_ended s \<longrightarrow> px_todo s = [] \<and> \<not> px_sending s) \<and>
     vs = cs_accepted (px_ch s) @ (if px_sending s \<and> px_pc s 0 = Ch_Idle then tl (px_todo s) else px_todo s)"

definition pipe_consumer :: "pipe_sys \<Rightarrow> bool" where
  "pipe_consumer s \<longleftrightarrow>
     cs_delivered (px_ch s) = px_got s @ (if px_receiving s \<and> px_pc s 2 = Ch_Idle
       then (case recv_await_resume 2 (px_chan s) of None \<Rightarrow> [] | Some v \<Rightarrow> [v]) else []) \<and>
     (px_fin s \<or> (px_receiving s \<and> px_pc s 2 = Ch_Idle \<and> recv_await_resume 2 (px_chan s) = None) \<longrightarrow>
        ch_closed (px_chan s) \<and> ch_buffer (px_chan s) = [])"

definition pipe_inv :: "int list \<Rightarrow> pipe_sys \<Rightarrow> bool" where
  "pipe_inv vs s \<longleftrightarrow> pipe_pcs s \<and> pipe_producer vs s \<and> pipe_consumer s"

lemmas pipe_defs = pipe_inv_def pipe_pcs_def pipe_producer_def pipe_consumer_def

lemma pipe_simulates: "pipe_step capacity s t \<Longrightarrow> px_ch t = px_ch s \<or> ch_step capacity (px_ch s) (px_ch t)"
  unfolding pipe_step_def
proof (elim disjE)
  show "producer_step capacity s t \<Longrightarrow> px_ch t = px_ch s \<or> ch_step capacity (px_ch s) (px_ch t)"
  proof (induction rule: producer_step.induct)
    case (send s v vs)
    from ch_step.send [OF this(1)] show ?case by simp
  next
    case (send_ready s ok c)
    from ch_step.send_ready [OF this] show ?case by simp
  next
    case (send_suspend s susp c)
    from ch_step.send_suspend [OF this] show ?case by simp
  next
    case (close s c)
    from ch_step.close [OF this(5)] show ?case by simp
  qed simp
  show "consumer_step s t \<Longrightarrow> px_ch t = px_ch s \<or> ch_step capacity (px_ch s) (px_ch t)"
  proof (induction rule: consumer_step.induct)
    case (recv s)
    from ch_step.recv [OF this(1)] show ?case by simp
  next
    case (recv_ready s ok c)
    from ch_step.recv_ready [OF this] show ?case by simp
  next
    case (recv_suspend s susp c)
    from ch_step.recv_suspend [OF this] show ?case by simp
  qed simp_all
qed

text \<open>Who waits in which queue.\<close>

lemma pipe_queues:
  assumes "ch_sys_inv capacity (px_ch s)" "pipe_pcs s"
  shows "ch_receivers (px_chan s) = (if px_pc s 2 = Ch_Recv_Wait then [(2, 2)] else [])"
    "ch_senders (px_chan s) = (if px_pc s 0 = Ch_Send_Wait then [(0, 0)] else [])"
proof -
  have single: "q = (if pc h = W then [(h, h)] else [])"
    if "queue_ok q pc W" "\<And>g. pc g = W \<Longrightarrow> g = h" for q pc W h
  proof (cases q)
    case Nil
    with that show ?thesis by (auto simp: queue_ok_def)
  next
    case (Cons p ps)
    have fst: "fst x = h" if "x \<in> set q" for x using that \<open>queue_ok q pc W\<close> \<open>\<And>g. pc g = W \<Longrightarrow> g = h\<close>
      by (auto simp: queue_ok_def)
    then have "ps = []" using that(1) Cons by (cases ps) (auto simp: queue_ok_def)
    then show ?thesis using that(1) Cons fst [of p] by (cases p) (auto simp: queue_ok_def)
  qed
  have "queue_ok (ch_receivers (px_chan s)) (px_pc s) Ch_Recv_Wait" "queue_ok (ch_senders (px_chan s)) (px_pc s) Ch_Send_Wait"
    using assms(1) by (auto simp: ch_sys_inv_def ch_queues_ok_def)
  moreover have "g = 2" if "px_pc s g = Ch_Recv_Wait" for g using assms(2) that unfolding pipe_pcs_def by (cases "g = 0"; cases "g = 2") auto
  moreover have "g = 0" if "px_pc s g = Ch_Send_Wait" for g using assms(2) that unfolding pipe_pcs_def by (cases "g = 0"; cases "g = 2") auto
  ultimately show "ch_receivers (px_chan s) = (if px_pc s 2 = Ch_Recv_Wait then [(2, 2)] else [])"
    "ch_senders (px_chan s) = (if px_pc s 0 = Ch_Send_Wait then [(0, 0)] else [])"
    using single by meson+
qed

lemmas pipe_op_defs = after_send_def after_recv_def send_result_def recv_result_def send_await_resume_def
  recv_await_resume_def log_submit_def resume_none resume_one

lemma pipe_try_send:
  assumes t: "try_send_locked capacity log_submit 0 (px_chan s) = Inr (ok, c)"
    and pc: "px_pc s 0 \<in> {Ch_Send_Check, Ch_Send_Suspend}" and x: "x \<in> {Ch_Send_Suspend, Ch_Send_Wait}"
    and lib: "ch_sys_inv capacity (px_ch s)" and inv: "pipe_inv vs s"
    and c': "c' = (if ok then c else c\<lparr>ch_senders := q\<rparr>)"
  shows "pipe_inv vs (s\<lparr>px_ch := after_send 0 (px_chan s) c' (if ok then Ch_Idle else x) (px_ch s)\<rparr>)"
proof -
  have pcs: "pipe_pcs s" and prod: "pipe_producer vs s" and cons: "pipe_consumer s" using inv by (simp_all add: pipe_inv_def)
  have "px_pc s 0 \<noteq> Ch_Idle" using pc by auto
  then have sending: "px_sending s" using pcs by (simp add: pipe_pcs_def)
  then have prod': "\<not> ch_closed (px_chan s)" "\<not> px_ended s" "px_todo s \<noteq> []"
      "sa_value (ch_sas (px_chan s) 0) = hd (px_todo s)" "vs = cs_accepted (px_ch s) @ px_todo s"
    using prod \<open>px_pc s 0 \<noteq> Ch_Idle\<close> by (auto simp: pipe_producer_def)
  have res: "\<not> sa_result (ch_sas (px_chan s) 0)"
    using lib pc by (auto simp: ch_sys_inv_def ch_results_ok_def aw_ok_def)
  note q = pipe_queues [OF lib pcs]
  let ?t = "s\<lparr>px_ch := after_send 0 (px_chan s) c' (if ok then Ch_Idle else x) (px_ch s)\<rparr>"
  from t have "pipe_pcs ?t \<and> pipe_producer vs ?t \<and> pipe_consumer ?t"
  proof (cases rule: try_send_cases)
    case closed
    then show ?thesis using prod' by simp
  next
    case (handed g aw rs w)
    then have g: "g = 2" "aw = 2" "px_pc s 2 = Ch_Recv_Wait" using q by (auto split: if_splits)
    have r: "px_receiving s" "\<not> px_fin s" using g(3) pcs by (auto simp: pipe_pcs_def)
    have w: "w = ch_world (px_chan s) @ [2]" using handed(4) g by (simp add: log_submit_def)
    note handed = handed(1,2,3) handed(5) [unfolded w g]
    have "pipe_pcs ?t" using handed g r pcs sending c' by (simp add: pipe_pcs_def pipe_op_defs)
    moreover have "pipe_producer vs ?t" using handed g prod' sending c' by (simp add: pipe_producer_def pipe_op_defs)
    moreover have "pipe_consumer ?t" using handed g r cons c' by (simp add: pipe_consumer_def pipe_op_defs)
    ultimately show ?thesis by simp
  next
    case stored
    have "pipe_pcs ?t" using stored pcs sending c' by (simp add: pipe_pcs_def pipe_op_defs)
    moreover have "pipe_producer vs ?t" using stored prod' sending c' by (simp add: pipe_producer_def pipe_op_defs)
    moreover have "pipe_consumer ?t" using stored cons c' prod' by (simp add: pipe_consumer_def pipe_op_defs)
    ultimately show ?thesis by simp
  next
    case full
    have "pipe_pcs ?t" using full pcs sending c' x by (auto simp: pipe_pcs_def pipe_op_defs)
    moreover have "pipe_producer vs ?t" using full prod' sending c' res x by (auto simp: pipe_producer_def pipe_op_defs)
    moreover have "pipe_consumer ?t" using full cons c' res by (simp add: pipe_consumer_def pipe_op_defs)
    ultimately show ?thesis by simp
  qed
  then show ?thesis by (simp add: pipe_inv_def)
qed

lemma pipe_try_recv:
  assumes t: "try_recv_locked log_submit 2 (px_chan s) = Inr (ok, c)"
    and pc: "px_pc s 2 \<in> {Ch_Recv_Check, Ch_Recv_Suspend}" and x: "x \<in> {Ch_Recv_Suspend, Ch_Recv_Wait}"
    and lib: "ch_sys_inv capacity (px_ch s)" and inv: "pipe_inv vs s"
    and c': "c' = (if ok then c else c\<lparr>ch_receivers := q\<rparr>)"
  shows "pipe_inv vs (s\<lparr>px_ch := after_recv 2 (px_chan s) c' (if ok then Ch_Idle else x) (px_ch s)\<rparr>)"
proof -
  have pcs: "pipe_pcs s" and prod: "pipe_producer vs s" and cons: "pipe_consumer s" using inv by (simp_all add: pipe_inv_def)
  have "px_pc s 2 \<noteq> Ch_Idle" using pc by auto
  then have rec: "px_receiving s" "\<not> px_fin s" using pcs by (auto simp: pipe_pcs_def)
  have del: "cs_delivered (px_ch s) = px_got s" using cons \<open>px_pc s 2 \<noteq> Ch_Idle\<close> by (simp add: pipe_consumer_def)
  have res: "ra_result (ch_ras (px_chan s) 2) = None"
    using lib pc by (auto simp: ch_sys_inv_def ch_results_ok_def aw_ok_def)
  note q = pipe_queues [OF lib pcs]
  let ?t = "s\<lparr>px_ch := after_recv 2 (px_chan s) c' (if ok then Ch_Idle else x) (px_ch s)\<rparr>"
  from t have "pipe_pcs ?t \<and> pipe_producer vs ?t \<and> pipe_consumer ?t"
  proof (cases rule: try_recv_cases)
    case (taken v buf)
    have "pipe_pcs ?t" using taken pcs rec c' by (simp add: pipe_pcs_def pipe_op_defs)
    moreover have "pipe_producer vs ?t" using taken prod c' by (simp add: pipe_producer_def pipe_op_defs)
    moreover have "pipe_consumer ?t" using taken del rec c' by (simp add: pipe_consumer_def pipe_op_defs)
    ultimately show ?thesis by simp
  next
    case (refill v buf g aw ps w)
    then have g: "g = 0" "aw = 0" "px_pc s 0 = Ch_Send_Wait" using q by (auto split: if_splits)
    have w: "w = ch_world (px_chan s) @ [0]" using refill(4) g by (simp add: log_submit_def)
    note refill = refill(1,2,3) refill(5) [unfolded w g]
    have sending: "px_sending s" using g(3) pcs by (simp add: pipe_pcs_def)
    then have prod': "px_todo s \<noteq> []" "sa_value (ch_sas (px_chan s) 0) = hd (px_todo s)" "\<not> px_ended s" "\<not> ch_closed (px_chan s)"
        "vs = cs_accepted (px_ch s) @ px_todo s"
      using prod g(3) by (auto simp: pipe_producer_def)
    have "pipe_pcs ?t" using refill g pcs rec sending c' by (simp add: pipe_pcs_def pipe_op_defs)
    moreover have "pipe_producer vs ?t" using refill g prod' sending c' by (simp add: pipe_producer_def pipe_op_defs)
    moreover have "pipe_consumer ?t" using refill del rec c' by (simp add: pipe_consumer_def pipe_op_defs)
    ultimately show ?thesis by simp
  next
    case closed
    have "pipe_pcs ?t" using closed pcs rec c' by (simp add: pipe_pcs_def pipe_op_defs)
    moreover have "pipe_producer vs ?t" using closed prod c' by (simp add: pipe_producer_def pipe_op_defs)
    moreover have "pipe_consumer ?t" using closed del rec c' by (simp add: pipe_consumer_def pipe_op_defs)
    ultimately show ?thesis by simp
  next
    case empty
    have "pipe_pcs ?t" using empty pcs rec c' x by (auto simp: pipe_pcs_def pipe_op_defs)
    moreover have "pipe_producer vs ?t" using empty prod c' res by (simp add: pipe_producer_def pipe_op_defs)
    moreover have "pipe_consumer ?t" using empty del rec c' res x by (auto simp: pipe_consumer_def pipe_op_defs)
    ultimately show ?thesis by simp
  qed
  then show ?thesis by (simp add: pipe_inv_def)
qed

text \<open>The suspension of either coroutine: it tries again under the lock, and queues itself if that fails.\<close>

lemma send_suspend_try:
  assumes "send_await_suspend capacity submit a h s = Inr (susp, c)"
  obtains t where "try_send_locked capacity submit a s = Inr (\<not> susp, t)"
    "c = (if \<not> susp then t else t\<lparr>ch_senders := ch_senders t @ [(h, a)]\<rparr>)"
  using assms by (force simp: send_await_suspend_def split: if_splits)

lemma recv_suspend_try:
  assumes "recv_await_suspend submit a h s = Inr (susp, c)"
  obtains t where "try_recv_locked submit a s = Inr (\<not> susp, t)"
    "c = (if \<not> susp then t else t\<lparr>ch_receivers := ch_receivers t @ [(h, a)]\<rparr>)"
  using assms by (force simp: recv_await_suspend_def split: if_splits)

lemma pipe_close:
  assumes lib: "ch_sys_inv capacity (px_ch s)" and inv: "pipe_inv vs s"
    and p: "px_pc s 0 = Ch_Idle" "\<not> px_sending s" "px_todo s = []" "\<not> px_ended s"
    and c: "channel_close log_submit (px_chan s) = Inr c"
  shows "pipe_inv vs (s\<lparr>px_ended := True, px_ch := (px_ch s)\<lparr>cs_chan := c, cs_pc := resume_woken (px_chan s) c (px_pc s)\<rparr>\<rparr>)"
proof -
  have pcs: "pipe_pcs s" and prod: "pipe_producer vs s" and cons: "pipe_consumer s" using inv by (simp_all add: pipe_inv_def)
  have senders: "ch_senders (px_chan s) = []" and
    receivers: "ch_receivers (px_chan s) = (if px_pc s 2 = Ch_Recv_Wait then [(2, 2)] else [])"
    using pipe_queues [OF lib pcs] p(1) by simp_all
  have c': "c = (ch_closing (px_chan s))\<lparr>ch_world := ch_world (px_chan s) @ map fst (ch_receivers (px_chan s))\<rparr>"
    using c senders by (auto simp: channel_close_eq)
  have open_chan: "\<not> ch_closed (px_chan s)" using prod p(4) by (simp add: pipe_producer_def)
  then have fin: "\<not> px_fin s" "px_receiving s \<Longrightarrow> px_pc s 2 = Ch_Idle \<Longrightarrow> recv_await_resume 2 (px_chan s) \<noteq> None"
    using cons by (auto simp: pipe_consumer_def)
  let ?t = "s\<lparr>px_ended := True, px_ch := (px_ch s)\<lparr>cs_chan := c, cs_pc := resume_woken (px_chan s) c (px_pc s)\<rparr>\<rparr>"
  show ?thesis
  proof (cases "px_pc s 2 = Ch_Recv_Wait")
    case True
    have w: "resume_woken (px_chan s) c (px_pc s) = (px_pc s)(2 := Ch_Idle)" using receivers True c' by (intro resume_one) simp
    have empty: "ch_buffer (px_chan s) = []" using lib receivers True by (simp add: ch_sys_inv_def ch_inv_def)
    have rec: "px_receiving s" using pcs True by (simp add: pipe_pcs_def)
    have "pipe_pcs ?t" unfolding pipe_pcs_def using w rec fin(1) pcs by (simp add: pipe_pcs_def)
    moreover have "pipe_producer vs ?t"
      using w prod p c' by (simp add: pipe_producer_def ch_closing_def end_all_def refuse_all_def)
    moreover have "pipe_consumer ?t" using w cons c' empty rec fin True receivers
      by (simp add: pipe_consumer_def ch_closing_def end_all_def refuse_all_def recv_await_resume_def)
    ultimately show ?thesis by (simp add: pipe_inv_def)
  next
    case False
    have w: "resume_woken (px_chan s) c (px_pc s) = px_pc s" using receivers False c' by (intro resume_none) simp
    have "pipe_pcs ?t" using w pcs by (simp add: pipe_pcs_def)
    moreover have "pipe_producer vs ?t"
      using w prod p c' by (simp add: pipe_producer_def ch_closing_def end_all_def refuse_all_def)
    moreover have "pipe_consumer ?t" using w cons c' fin False receivers
      by (auto simp: pipe_consumer_def ch_closing_def end_all_def refuse_all_def recv_await_resume_def)
    ultimately show ?thesis by (simp add: pipe_inv_def)
  qed
qed

lemma pipe_inv_step:
  assumes "0 < capacity" "ch_sys_inv capacity (px_ch s)" "pipe_inv vs s" "pipe_step capacity s t"
  shows "pipe_inv vs t"
  using assms(4) unfolding pipe_step_def
proof
  assume "producer_step capacity s t"
  then show ?thesis
  proof cases
    case (send v vs')
    with assms(3) show ?thesis by (auto simp: pipe_defs channel_send_def recv_await_resume_def)
  next
    case (send_ready ok c)
    have "try_send_locked capacity log_submit 0 (px_chan s) = Inr (ok, c)" using send_ready(3) by (simp add: send_await_ready_def)
    from pipe_try_send [OF this _ _ assms(2,3), of Ch_Send_Suspend c "ch_senders c"] send_ready show ?thesis by simp
  next
    case (send_suspend susp c)
    from send_suspend_try [OF send_suspend(3)] obtain u where
      u: "try_send_locked capacity log_submit 0 (px_chan s) = Inr (\<not> susp, u)"
        "c = (if \<not> susp then u else u\<lparr>ch_senders := ch_senders u @ [(0, 0)]\<rparr>)" .
    from pipe_try_send [OF u(1) _ _ assms(2,3) u(2), of Ch_Send_Wait] send_suspend show ?thesis by (cases susp) simp_all
  next
    case send_resume
    with assms(3) show ?thesis by (auto simp: pipe_defs)
  next
    case (close c)
    with pipe_close [OF assms(2,3)] show ?thesis by simp
  qed
next
  assume "consumer_step s t"
  then show ?thesis
  proof cases
    case recv
    with assms(3) show ?thesis by (auto simp: pipe_defs channel_recv_def)
  next
    case (recv_ready ok c)
    have "try_recv_locked log_submit 2 (px_chan s) = Inr (ok, c)" using recv_ready(3) by (simp add: recv_await_ready_def)
    from pipe_try_recv [OF this _ _ assms(2,3), of Ch_Recv_Suspend c "ch_receivers c"] recv_ready show ?thesis by simp
  next
    case (recv_suspend susp c)
    from recv_suspend_try [OF recv_suspend(3)] obtain u where
      u: "try_recv_locked log_submit 2 (px_chan s) = Inr (\<not> susp, u)"
        "c = (if \<not> susp then u else u\<lparr>ch_receivers := ch_receivers u @ [(2, 2)]\<rparr>)" .
    from pipe_try_recv [OF u(1) _ _ assms(2,3) u(2), of Ch_Recv_Wait] recv_suspend show ?thesis by (cases susp) simp_all
  next
    case (recv_data v)
    with assms(3) show ?thesis by (auto simp: pipe_defs)
  next
    case recv_end
    with assms(3) show ?thesis by (auto simp: pipe_defs)
  qed
qed

lemma pipe_prefix:
  assumes "ch_sys_inv capacity (px_ch s)" "pipe_inv vs s"
  shows "\<exists>rest. vs = px_got s @ rest"
  using assms by (auto simp: pipe_inv_def pipe_producer_def pipe_consumer_def ch_sys_inv_def ch_logs_ok_def)

section \<open>Measure\<close>

text \<open>How far a coroutine is inside one \<open>co_await\<close>; the last stage is the one after which it goes on.\<close>

fun ch_stage :: "ch_pc \<Rightarrow> bool \<Rightarrow> nat" where
  "ch_stage Ch_Idle inside = (if inside then 4 else 0)"
| "ch_stage Ch_Send_Check _ = 1" | "ch_stage Ch_Send_Suspend _ = 2" | "ch_stage Ch_Send_Wait _ = 3"
| "ch_stage Ch_Recv_Check _ = 1" | "ch_stage Ch_Recv_Suspend _ = 2" | "ch_stage Ch_Recv_Wait _ = 3"

definition producer_rank :: "pipe_sys \<Rightarrow> nat" where
  "producer_rank s = 5 * length (px_todo s) - ch_stage (px_pc s 0) (px_sending s) + (if px_ended s then 0 else 1)"

definition consumer_rank :: "nat \<Rightarrow> pipe_sys \<Rightarrow> nat" where
  "consumer_rank n s = (if px_fin s then 0 else 5 * (Suc n - length (px_got s)) - ch_stage (px_pc s 2) (px_receiving s))"

definition pipe_rank :: "nat \<Rightarrow> pipe_sys \<Rightarrow> nat" where
  "pipe_rank n s = producer_rank s + consumer_rank n s"

lemma ch_stage_le: "ch_stage pc b \<le> 4"
  by (cases pc) auto

text \<open>Waking a coroutine takes it to the last stage.\<close>

lemma ch_stage_resume:
  assumes "pc h \<noteq> Ch_Idle \<longrightarrow> b"
  shows "ch_stage (pc h) b \<le> ch_stage (resume_woken c c' pc h) b"
  using assms ch_stage_le [of "pc h" b] by (auto simp: resume_woken_def)

lemma producer_rank_less:
  assumes "pipe_inv vs s" "producer_step capacity s t"
  shows "producer_rank t < producer_rank s" "ch_stage (px_pc s 2) (px_receiving s) \<le> ch_stage (px_pc t 2) (px_receiving t)"
    "px_fin t = px_fin s" "px_got t = px_got s"
proof -
  have pcs: "pipe_pcs s" and prod: "pipe_producer vs s" using assms(1) by (simp_all add: pipe_inv_def)
  have len: "px_sending s \<Longrightarrow> 1 \<le> length (px_todo s)" using prod by (cases "px_todo s") (auto simp: pipe_producer_def)
  have snd0: "px_pc s 0 \<noteq> Ch_Idle \<Longrightarrow> px_sending s" using pcs by (simp add: pipe_pcs_def)
  have res: "ch_stage (px_pc s h) b \<le> ch_stage (resume_woken c c' (px_pc s) h) b" if "px_pc s h \<noteq> Ch_Idle \<longrightarrow> b" for h b c c'
    using ch_stage_resume [where pc = "px_pc s"] that by blast
  have rec: "px_pc s 2 \<noteq> Ch_Idle \<longrightarrow> px_receiving s" using pcs by (simp add: pipe_pcs_def)
  from assms(2) have "producer_rank t < producer_rank s \<and>
      ch_stage (px_pc s 2) (px_receiving s) \<le> ch_stage (px_pc t 2) (px_receiving t) \<and> px_fin t = px_fin s \<and> px_got t = px_got s"
  proof cases
    case (send v vs')
    then show ?thesis by (simp add: producer_rank_def)
  next
    case (send_ready ok c)
    then show ?thesis using len snd0 res [OF rec] by (auto simp: producer_rank_def after_send_def)
  next
    case (send_suspend susp c)
    then show ?thesis using len snd0 res [OF rec] by (auto simp: producer_rank_def after_send_def)
  next
    case send_resume
    then show ?thesis using len by (auto simp: producer_rank_def)
  next
    case (close c)
    then show ?thesis using res [OF rec] by (auto simp: producer_rank_def)
  qed
  then show "producer_rank t < producer_rank s" "ch_stage (px_pc s 2) (px_receiving s) \<le> ch_stage (px_pc t 2) (px_receiving t)"
    "px_fin t = px_fin s" "px_got t = px_got s" by blast+
qed

lemma consumer_rank_less:
  assumes "pipe_inv vs s" "length (px_got s) \<le> n" "consumer_step s t"
  shows "consumer_rank n t < consumer_rank n s" "ch_stage (px_pc s 0) (px_sending s) \<le> ch_stage (px_pc t 0) (px_sending t)"
    "px_todo t = px_todo s" "px_ended t = px_ended s"
proof -
  have pcs: "pipe_pcs s" using assms(1) by (simp add: pipe_inv_def)
  have rec: "px_receiving s \<Longrightarrow> \<not> px_fin s" "px_pc s 2 \<noteq> Ch_Idle \<Longrightarrow> px_receiving s" using pcs by (auto simp: pipe_pcs_def)
  have snd0: "px_pc s 0 \<noteq> Ch_Idle \<longrightarrow> px_sending s" using pcs by (simp add: pipe_pcs_def)
  note res = ch_stage_resume [where pc = "px_pc s" and h = 0 and b = "px_sending s", OF snd0]
  obtain d where d: "Suc n - length (px_got s) = Suc d" using assms(2) by (metis Suc_diff_le)
  from assms(3) have "consumer_rank n t < consumer_rank n s \<and>
      ch_stage (px_pc s 0) (px_sending s) \<le> ch_stage (px_pc t 0) (px_sending t) \<and> px_todo t = px_todo s \<and> px_ended t = px_ended s"
  proof cases
    case recv
    then show ?thesis using d by (simp add: consumer_rank_def)
  next
    case (recv_ready ok c)
    then show ?thesis using rec res d by (auto simp: consumer_rank_def after_recv_def)
  next
    case (recv_suspend susp c)
    then show ?thesis using rec res d by (auto simp: consumer_rank_def after_recv_def)
  next
    case (recv_data v)
    then show ?thesis using rec d by (auto simp: consumer_rank_def)
  next
    case recv_end
    then show ?thesis using rec d by (auto simp: consumer_rank_def)
  qed
  then show "consumer_rank n t < consumer_rank n s" "ch_stage (px_pc s 0) (px_sending s) \<le> ch_stage (px_pc t 0) (px_sending t)"
    "px_todo t = px_todo s" "px_ended t = px_ended s" by blast+
qed

lemma pipe_rank_less:
  assumes "ch_sys_inv capacity (px_ch s)" "pipe_inv vs s" "pipe_step capacity s t"
  shows "pipe_rank (length vs) t < pipe_rank (length vs) s"
  using assms(3) unfolding pipe_step_def
proof
  assume "producer_step capacity s t"
  note r = producer_rank_less [OF assms(2) this]
  have "consumer_rank (length vs) t \<le> consumer_rank (length vs) s"
    unfolding consumer_rank_def using r(2-) by (simp add: diff_le_mono2)
  with r(1) show ?thesis by (simp add: pipe_rank_def)
next
  assume c: "consumer_step s t"
  have "length (px_got s) \<le> length vs" using pipe_prefix [OF assms(1,2)] by auto
  note r = consumer_rank_less [OF assms(2) this c]
  have "producer_rank t \<le> producer_rank s"
    unfolding producer_rank_def using r(2-) by (simp add: diff_le_mono2)
  with r(1) show ?thesis by (simp add: pipe_rank_def)
qed

section \<open>Progress\<close>

lemma consumer_progress:
  assumes "px_pc s 2 \<in> {Ch_Idle, Ch_Recv_Check, Ch_Recv_Suspend}" "\<not> px_fin s"
  shows "\<exists>t. consumer_step s t"
proof (cases "px_pc s 2")
  case Ch_Idle
  then show ?thesis
    using consumer_step.recv [of s] consumer_step.recv_data [of s] consumer_step.recv_end [of s] assms(2)
    by (cases "px_receiving s"; cases "recv_await_resume 2 (px_chan s)") auto
next
  case Ch_Recv_Check
  obtain ok c where "try_recv_locked log_submit 2 (px_chan s) = Inr (ok, c)"
    using logged.recv_returns [where s = "px_chan s" and a = 2 and h = 0] by (auto simp: recv_await_suspend_def)
  with consumer_step.recv_ready [OF Ch_Recv_Check, of ok c] show ?thesis by (auto simp: recv_await_ready_def)
next
  case Ch_Recv_Suspend
  obtain susp c where "recv_await_suspend log_submit 2 2 (px_chan s) = Inr (susp, c)" using logged.recv_returns by blast
  with consumer_step.recv_suspend [OF Ch_Recv_Suspend] show ?thesis by blast
qed (use assms(1) in auto)

lemma producer_progress:
  assumes "px_pc s 0 \<in> {Ch_Idle, Ch_Send_Check, Ch_Send_Suspend}" "\<not> px_ended s"
  shows "\<exists>t. producer_step capacity s t"
proof (cases "px_pc s 0")
  case Ch_Idle
  obtain c where "channel_close log_submit (px_chan s) = Inr c" using logged.close_releases [of "px_chan s"] by blast
  then show ?thesis
    using producer_step.send [OF Ch_Idle] producer_step.send_resume [OF Ch_Idle] producer_step.close [OF Ch_Idle] assms(2)
    by (cases "px_sending s"; cases "px_todo s") blast+
next
  case Ch_Send_Check
  obtain ok c where "try_send_locked capacity log_submit 0 (px_chan s) = Inr (ok, c)"
    using logged.send_returns [where s = "px_chan s" and capacity = capacity and a = 0 and h = 0] by (auto simp: send_await_suspend_def)
  with producer_step.send_ready [OF Ch_Send_Check, of capacity ok c] show ?thesis by (auto simp: send_await_ready_def)
next
  case Ch_Send_Suspend
  obtain susp c where "send_await_suspend capacity log_submit 0 0 (px_chan s) = Inr (susp, c)"
    using logged.send_returns by blast
  with producer_step.send_suspend [OF Ch_Send_Suspend] show ?thesis by blast
qed (use assms(1) in auto)

lemma pipe_progress:
  assumes "0 < capacity" "ch_sys_inv capacity (px_ch s)" "pipe_inv vs s" "\<not> pipe_end vs s"
  shows "\<exists>t. pipe_step capacity s t"
proof -
  have pcs: "pipe_pcs s" and prod: "pipe_producer vs s" and cons: "pipe_consumer s" using assms(3) by (simp_all add: pipe_inv_def)
  note q = pipe_queues [OF assms(2) pcs]
  have inv: "ch_inv capacity (px_chan s)" using assms(2) by (simp add: ch_sys_inv_def)
  have logs: "cs_accepted (px_ch s) = cs_delivered (px_ch s) @ ch_buffer (px_chan s)"
    using assms(2) by (simp add: ch_sys_inv_def ch_logs_ok_def)
  show ?thesis
  proof (cases "px_ended s \<or> px_pc s 0 = Ch_Send_Wait")
    case True
    have "px_pc s 2 \<noteq> Ch_Recv_Wait"
    proof
      assume w: "px_pc s 2 = Ch_Recv_Wait"
      show False using True
      proof
        assume "px_ended s"
        then show False using w q(1) inv prod by (simp add: ch_inv_def pipe_producer_def)
      next
        assume "px_pc s 0 = Ch_Send_Wait"
        then show False using w q inv by (simp add: ch_inv_def)
      qed
    qed
    moreover have "\<not> px_fin s"
    proof
      assume fin: "px_fin s"
      then have closed: "ch_closed (px_chan s)" "ch_buffer (px_chan s) = []" using cons by (auto simp: pipe_consumer_def)
      then have ended: "px_ended s" "px_todo s = []" using prod by (auto simp: pipe_producer_def)
      have "\<not> px_receiving s" using fin pcs by (auto simp: pipe_pcs_def)
      then have "px_got s = vs" using cons logs closed ended prod by (simp add: pipe_consumer_def pipe_producer_def)
      then show False using assms(4) fin ended by (simp add: pipe_end_def)
    qed
    ultimately show ?thesis using consumer_progress [of s] pcs by (auto simp: pipe_step_def pipe_pcs_def)
  next
    case False
    then show ?thesis using producer_progress [of s capacity] pcs by (auto simp: pipe_step_def pipe_pcs_def)
  qed
qed

lemma pipe_init_ok: "0 < capacity \<Longrightarrow> ch_sys_inv capacity (px_ch (pipe_init vs))" "pipe_inv vs (pipe_init vs)"
  by (simp_all add: pipe_init_def pipe_defs ch_sys_init_def channel_new_def ch_sys_inv_def ch_inv_def ch_queues_ok_def
      queue_ok_def ch_results_ok_def aw_ok_def ch_logs_ok_def)

text \<open>The capacity is one more than a number, so that it is positive.\<close>

interpretation pipe: terminating_client "ch_sys_inv (Suc n)" "ch_step (Suc n)" px_ch "pipe_step (Suc n)" "pipe_init vs"
    "pipe_inv vs" "pipe_rank (length vs)" "pipe_end vs" for n vs
  by unfold_locales
    (erule ch_step_inv [rotated 2], assumption, simp, simp add: pipe_init_ok, erule pipe_simulates, rule pipe_init_ok,
      rule pipe_inv_step [of "Suc n"], simp, assumption+, erule (2) pipe_rank_less, rule pipe_progress, simp_all)

section \<open>Properties\<close>

text \<open>
  \<open>channel.cpp\<close> keeps its promise: whatever the schedule, it takes at most 106 steps, neither
  coroutine is ever stuck, and at the end the producer has closed the channel and the consumer
  has received exactly 0 to 9, in order.
\<close>

theorem channel_example_delivers:
  "ends_with channel_example (pipe_init [0, 1, 2, 3, 4, 5, 6, 7, 8, 9]) 106 (pipe_end [0, 1, 2, 3, 4, 5, 6, 7, 8, 9])"
proof -
  let ?vs = "[0, 1, 2, 3, 4, 5, 6, 7, 8, 9]"
  have "pipe_rank (length ?vs) (pipe_init ?vs) = 106"
    by (simp add: pipe_rank_def producer_rank_def consumer_rank_def pipe_init_def ch_sys_init_def)
  then show ?thesis using pipe.client_ends [of 0 ?vs] by (simp add: channel_example_def)
qed

end
