(* ===== verification/Bench_Programs.thy ===== *)
theory Bench_Programs
  imports Counter_Example Sync_Examples Channel_Example
begin

text \<open>
  The benchmark programs on the library's own components (\<open>benchtests/lab4a_bench.cpp\<close> to
  \<open>lab5c_bench.cpp\<close>, the functions \<open>event_bench\<close>, \<open>latch_bench\<close>, \<open>waitgroup_bench\<close>,
  \<open>mutex_bench\<close> and \<open>channel_bench\<close>), as instances of the clients of the example theories. The
  number of tasks is the number of hardware threads, an argument here. The macro \<open>loop_add\<close>
  counts in a variable of the coroutine and does not touch the component.
\<close>

section \<open>Definitions\<close>

text \<open>\<open>lab4a\<close>: the coroutines \<open>set\<close> and \<open>wait\<close>; all but one wait for the event, the last one sets it.\<close>

definition event_bench_tasks :: "handle set \<Rightarrow> unit event_sys \<Rightarrow> unit event_sys \<Rightarrow> bool" where
  "event_bench_tasks ws = event_example_step ws ()"

definition event_bench :: "nat \<Rightarrow> unit event_sys \<Rightarrow> unit event_sys \<Rightarrow> bool" where
  "event_bench thread_num = event_bench_tasks (set [0..<thread_num - 1])"

text \<open>\<open>lab4b\<close> and \<open>lab4c\<close>: the coroutines count down and wait; the first half counts down, the rest waits.\<close>

definition latch_bench_tasks :: "handle set \<Rightarrow> nat \<Rightarrow> u64 cd_sys \<Rightarrow> u64 cd_sys \<Rightarrow> bool" where
  "latch_bench_tasks ws n = countdown_step cd_step ws n"

definition latch_bench_init :: "nat \<Rightarrow> u64 cd_sys" where
  "latch_bench_init thread_num = cd_sys_init (of_nat (thread_num div 2))"

definition latch_bench :: "nat \<Rightarrow> u64 cd_sys \<Rightarrow> u64 cd_sys \<Rightarrow> bool" where
  "latch_bench thread_num = (let countdown_num = thread_num div 2 in latch_bench_tasks (set [countdown_num..<thread_num]) countdown_num)"

definition waitgroup_bench_tasks :: "handle set \<Rightarrow> nat \<Rightarrow> i32 cd_sys \<Rightarrow> i32 cd_sys \<Rightarrow> bool" where
  "waitgroup_bench_tasks ws n = countdown_step (wg_step (\<lambda>_ _. False)) ws n"

definition waitgroup_bench_init :: "nat \<Rightarrow> i32 cd_sys" where
  "waitgroup_bench_init thread_num = cd_sys_init (of_nat (thread_num div 2))"

definition waitgroup_bench :: "nat \<Rightarrow> i32 cd_sys \<Rightarrow> i32 cd_sys \<Rightarrow> bool" where
  "waitgroup_bench thread_num = (let done_num = thread_num div 2 in waitgroup_bench_tasks (set [done_num..<thread_num]) done_num)"

text \<open>\<open>lab4d\<close>: every coroutine locks, counts on its own and unlocks; none touches the shared counter.\<close>

definition mutex_bench_add :: "nat \<Rightarrow> counter_sys \<Rightarrow> counter_sys \<Rightarrow> bool" where
  "mutex_bench_add n = counter_step n 0 lock_await_ready lock_await_suspend mutex_unlock"

definition mutex_bench :: "nat \<Rightarrow> counter_sys \<Rightarrow> counter_sys \<Rightarrow> bool" where
  "mutex_bench thread_num = mutex_bench_add thread_num"

text \<open>\<open>lab5c\<close>: one coroutine sends default values over a channel of capacity 16, the other receives them.\<close>

definition bench_capacity :: nat where "bench_capacity = 16"

definition channel_bench_tasks :: "nat \<Rightarrow> pipe_sys \<Rightarrow> pipe_sys \<Rightarrow> bool" where
  "channel_bench_tasks capacity = pipe_step capacity"

definition channel_bench_init :: "nat \<Rightarrow> pipe_sys" where
  "channel_bench_init loop_num = pipe_init (replicate (loop_num * bench_capacity) 0)"

definition channel_bench :: "pipe_sys \<Rightarrow> pipe_sys \<Rightarrow> bool" where
  "channel_bench = channel_bench_tasks bench_capacity"

lemmas bench_defs = event_bench_def event_bench_tasks_def latch_bench_def latch_bench_tasks_def latch_bench_init_def
  waitgroup_bench_def waitgroup_bench_tasks_def waitgroup_bench_init_def mutex_bench_def mutex_bench_add_def
  channel_bench_def channel_bench_tasks_def channel_bench_init_def bench_capacity_def Let_def

section \<open>Properties\<close>

lemma event_bench_ends: "ends_with (event_bench n) (event_example_init ()) (5 * (n - 1) + 2) (event_example_end (set [0..<n - 1]) ())"
  using event_example.client_ends [of "[0..<n - 1]" "()" "()"] event_example_rank_init [of "[0..<n - 1]" "()"]
  by (simp add: bench_defs)

lemma mutex_bench_ends: "ends_with (mutex_bench n) counter_init (5 * n) (counter_final n 0)"
  using counter.client_ends [of n 0] unfolding counter_rank_init by (simp add: bench_defs mult.commute)

lemma channel_bench_ends:
  "ends_with channel_bench (channel_bench_init n) (10 * (n * bench_capacity) + 6) (pipe_end (replicate (n * bench_capacity) 0))"
proof -
  let ?vs = "replicate (n * bench_capacity) 0"
  have "pipe_rank (length ?vs) (pipe_init ?vs) = 10 * (n * bench_capacity) + 6"
    by (simp add: pipe_rank_def producer_rank_def consumer_rank_def pipe_init_def ch_sys_init_def)
  then show ?thesis using pipe.client_ends [of 15 ?vs] by (simp add: bench_defs)
qed

text \<open>
  C27. The benchmarks of the library's components end for every number of tasks and whatever the
  schedule: all waiters get past the event, the latch and the wait group, every coroutine has had
  the mutex, and the channel delivers all values before it is closed.
\<close>

theorem coro_benches_end:
  "ends_with (event_bench n) (event_example_init ()) (5 * (n - 1) + 2) (event_example_end (set [0..<n - 1]) ()) \<and>
   ends_with (latch_bench n) (latch_bench_init n) (6 * (n - n div 2) + 3 * (n div 2)) (countdown_end (set [n div 2..<n]) (n div 2)) \<and>
   ends_with (waitgroup_bench n) (waitgroup_bench_init n) (6 * (n - n div 2) + 3 * (n div 2)) (countdown_end (set [n div 2..<n]) (n div 2)) \<and>
   ends_with (mutex_bench n) counter_init (5 * n) (counter_final n 0) \<and>
   ends_with channel_bench (channel_bench_init n) (10 * (n * bench_capacity) + 6) (pipe_end (replicate (n * bench_capacity) 0))"
proof (intro conjI)
  show "ends_with (latch_bench n) (latch_bench_init n) (6 * (n - n div 2) + 3 * (n div 2)) (countdown_end (set [n div 2..<n]) (n div 2))"
    using countdown_ends [of "[n div 2..<n]" "n div 2", where 'c = 64] by (simp add: bench_defs)
  show "ends_with (waitgroup_bench n) (waitgroup_bench_init n) (6 * (n - n div 2) + 3 * (n div 2)) (countdown_end (set [n div 2..<n]) (n div 2))"
    using countdown_ends [of "[n div 2..<n]" "n div 2", where 'c = 32] by (simp add: bench_defs wait_group_without_add)
qed (rule event_bench_ends mutex_bench_ends channel_bench_ends)+

end
