(* ===== verification/Thread_Pool.thy ===== *)
theory Thread_Pool
  imports Client
begin

text \<open>
  The thread pool of the benchmarks (\<open>benchtests/bench_helper.hpp\<close>) and the benchmark programs
  that run blocking tasks on it: \<open>lab4a_bench.cpp\<close> (promise and future), \<open>lab4b_bench.cpp\<close> and
  \<open>lab4c_bench.cpp\<close> (\<open>std::latch\<close>), \<open>lab4d_bench.cpp\<close> (\<open>std::mutex\<close>). The pool deals its tasks
  to the threads in turn before they start; each thread runs its own queue to the end, and
  \<open>join\<close> waits for all of them. A task is the sequence of the calls it makes on the shared
  objects. A blocking call waits on its thread, so that a program ends only if no thread has to
  wait for a task behind it in its own queue.
\<close>

section \<open>The pool\<close>

record 't thread_pool =
  tp_num :: nat
  tp_cur :: nat
  tp_ques :: "'t list list"

definition pool_new :: "nat \<Rightarrow> 't thread_pool" where
  "pool_new n = \<lparr>tp_num = n, tp_cur = 0, tp_ques = replicate n []\<rparr>"

definition pool_submit_task :: "'t \<Rightarrow> 't thread_pool \<Rightarrow> 't thread_pool res" where
  "pool_submit_task t p =
     (if tp_cur p < length (tp_ques p)
      then Inr (p\<lparr>tp_ques := (tp_ques p)[tp_cur p := tp_ques p ! tp_cur p @ [t]], tp_cur := (tp_cur p + 1) mod tp_num p\<rparr>)
      else Inl Out_Of_Range)"

section \<open>Blocking calls\<close>

text \<open>The macro \<open>loop_add\<close>: a counter of the task's own, which nobody reads.\<close>

primrec loop_add :: "nat \<Rightarrow> u64 \<Rightarrow> u64" where
  "loop_add 0 cnt = cnt"
| "loop_add (Suc k) cnt = loop_add k (cnt + 1)"

lemma loop_add_eq: "loop_add k cnt = cnt + of_nat k"
  by (induction k arbitrary: cnt) (simp_all add: add_ac)

datatype std_op = Loop_Add nat | Promise_Set | Future_Wait | Latch_Count_Down | Latch_Wait | Mutex_Lock | Mutex_Unlock

record std_objs =
  so_set :: bool
  so_latch :: int
  so_owner :: "nat option"

text \<open>
  A call by thread \<open>i\<close>: \<open>None\<close> while it blocks. Setting a promise twice throws, and the thread's
  function is \<open>noexcept\<close>; a latch must not be counted below zero and a mutex is unlocked by the
  thread that locked it.
\<close>

fun op_exec :: "nat \<Rightarrow> std_op \<Rightarrow> std_objs \<Rightarrow> std_objs res option" where
  "op_exec i (Loop_Add k) objs = Some (Inr objs)"
| "op_exec i Promise_Set objs = Some (if so_set objs then Inl Terminate else Inr (objs\<lparr>so_set := True\<rparr>))"
| "op_exec i Future_Wait objs = (if so_set objs then Some (Inr objs) else None)"
| "op_exec i Latch_Count_Down objs = Some (if so_latch objs \<le> 0 then Inl Assert_Failed else Inr (objs\<lparr>so_latch := so_latch objs - 1\<rparr>))"
| "op_exec i Latch_Wait objs = (if so_latch objs = 0 then Some (Inr objs) else None)"
| "op_exec i Mutex_Lock objs = (case so_owner objs of None \<Rightarrow> Some (Inr (objs\<lparr>so_owner := Some i\<rparr>)) | Some _ \<Rightarrow> None)"
| "op_exec i Mutex_Unlock objs = Some (if so_owner objs = Some i then Inr (objs\<lparr>so_owner := None\<rparr>) else Inl Assert_Failed)"

section \<open>Running the pool\<close>

record pool_sys =
  ps_pool :: "std_op list thread_pool"
  ps_run :: "nat \<Rightarrow> std_op list option"
  ps_exited :: "nat \<Rightarrow> bool"
  ps_objs :: std_objs
  ps_taken :: "std_op list list"
  ps_failed :: "fault option"

definition pool_start :: "std_objs \<Rightarrow> std_op list thread_pool \<Rightarrow> pool_sys" where
  "pool_start objs p = \<lparr>ps_pool = p, ps_run = (\<lambda>_. None), ps_exited = (\<lambda>_. False), ps_objs = objs, ps_taken = [], ps_failed = None\<rparr>"

abbreviation ps_que :: "pool_sys \<Rightarrow> nat \<Rightarrow> std_op list list" where
  "ps_que s i \<equiv> tp_ques (ps_pool s) ! i"

text \<open>The threads of \<open>start\<close>: each takes the front of its queue, runs it, and ends when the queue is empty.\<close>

inductive pool_step :: "pool_sys \<Rightarrow> pool_sys \<Rightarrow> bool" where
  take: "i < tp_num (ps_pool s) \<Longrightarrow> ps_failed s = None \<Longrightarrow> \<not> ps_exited s i \<Longrightarrow> ps_run s i = None \<Longrightarrow> ps_que s i = t # q \<Longrightarrow>
    pool_step s (s\<lparr>ps_pool := (ps_pool s)\<lparr>tp_ques := (tp_ques (ps_pool s))[i := q]\<rparr>,
      ps_run := (ps_run s)(i \<mapsto> t), ps_taken := ps_taken s @ [t]\<rparr>)"
| exec: "i < tp_num (ps_pool s) \<Longrightarrow> ps_failed s = None \<Longrightarrow> ps_run s i = Some (c # cs) \<Longrightarrow> op_exec i c (ps_objs s) = Some (Inr objs') \<Longrightarrow>
    pool_step s (s\<lparr>ps_run := (ps_run s)(i \<mapsto> cs), ps_objs := objs'\<rparr>)"
| fail: "i < tp_num (ps_pool s) \<Longrightarrow> ps_failed s = None \<Longrightarrow> ps_run s i = Some (c # cs) \<Longrightarrow> op_exec i c (ps_objs s) = Some (Inl e) \<Longrightarrow>
    pool_step s (s\<lparr>ps_failed := Some e\<rparr>)"
| return: "i < tp_num (ps_pool s) \<Longrightarrow> ps_failed s = None \<Longrightarrow> ps_run s i = Some [] \<Longrightarrow>
    pool_step s (s\<lparr>ps_run := (ps_run s)(i := None)\<rparr>)"
| exit: "i < tp_num (ps_pool s) \<Longrightarrow> ps_failed s = None \<Longrightarrow> \<not> ps_exited s i \<Longrightarrow> ps_run s i = None \<Longrightarrow> ps_que s i = [] \<Longrightarrow>
    pool_step s (s\<lparr>ps_exited := (ps_exited s)(i := True)\<rparr>)"

text \<open>\<open>join\<close> has returned for every thread, and every task was run, once.\<close>

definition pool_joined :: "std_op list list \<Rightarrow> pool_sys \<Rightarrow> bool" where
  "pool_joined ts s \<longleftrightarrow> (\<forall>i < tp_num (ps_pool s). ps_exited s i \<and> ps_run s i = None) \<and> ps_failed s = None \<and>
     mset (ps_taken s) = mset ts"

definition pool_run :: "nat \<Rightarrow> std_op list list \<Rightarrow> std_objs \<Rightarrow> pool_sys res" where
  "pool_run n ts objs = bindE (foldE pool_submit_task ts (pool_new n)) (\<lambda>p. Inr (pool_start objs p))"

text \<open>The program gets as far as starting the threads, and then every schedule runs all of its tasks.\<close>

definition pool_ends :: "std_op list list \<Rightarrow> nat \<Rightarrow> pool_sys res \<Rightarrow> bool" where
  "pool_ends ts bound r \<longleftrightarrow> (\<exists>s. r = Inr s \<and> ends_with pool_step s bound (pool_joined ts))"

section \<open>The benchmark programs\<close>

definition set_tp :: "nat \<Rightarrow> std_op list" where "set_tp loop_num = [Loop_Add loop_num, Promise_Set]"
definition wait_tp :: "nat \<Rightarrow> std_op list" where "wait_tp loop_num = [Future_Wait, Loop_Add loop_num]"

definition threadpool_stl_future :: "nat \<Rightarrow> nat \<Rightarrow> std_op list list" where
  "threadpool_stl_future thread_num loop_num = replicate (thread_num - 1) (wait_tp loop_num) @ [set_tp loop_num]"

definition countdown_tp :: "nat \<Rightarrow> std_op list" where "countdown_tp loop_num = [Loop_Add loop_num, Latch_Count_Down]"
definition latch_wait_tp :: "nat \<Rightarrow> std_op list" where "latch_wait_tp loop_num = [Latch_Wait, Loop_Add loop_num]"

definition threadpool_stl_latch :: "nat \<Rightarrow> nat \<Rightarrow> std_op list list" where
  "threadpool_stl_latch thread_num loop_num =
     (let countdown_num = thread_num div 2; wait_num = thread_num - countdown_num
      in replicate countdown_num (countdown_tp loop_num) @ replicate wait_num (latch_wait_tp loop_num))"

definition add_tp :: "nat \<Rightarrow> std_op list" where "add_tp loop_num = [Mutex_Lock, Loop_Add loop_num, Mutex_Unlock]"

definition threadpool_stl_mutex :: "nat \<Rightarrow> nat \<Rightarrow> std_op list list" where
  "threadpool_stl_mutex thread_num loop_num = replicate thread_num (add_tp loop_num)"

definition new_objs :: "nat \<Rightarrow> std_objs" where
  "new_objs n = \<lparr>so_set = False, so_latch = int n, so_owner = None\<rparr>"

section \<open>Dealing out\<close>

text \<open>The tasks that are thread \<open>i\<close>'s share of \<open>ts\<close>, in order.\<close>

definition dealt :: "nat \<Rightarrow> nat \<Rightarrow> 't list \<Rightarrow> 't list" where
  "dealt n i ts = map ((!) ts) (filter (\<lambda>j. j mod n = i) [0..<length ts])"

lemma dealt_snoc: "dealt n i (ts @ [t]) = dealt n i ts @ (if length ts mod n = i then [t] else [])"
  by (auto simp: dealt_def nth_append intro: map_cong)

lemma pool_dealt:
  assumes "0 < n"
  shows "foldE pool_submit_task ts (pool_new n) =
    Inr \<lparr>tp_num = n, tp_cur = length ts mod n, tp_ques = map (\<lambda>i. dealt n i ts) [0..<n]\<rparr>"
proof (induction ts rule: rev_induct)
  case Nil
  show ?case by (simp add: pool_new_def dealt_def map_replicate_const)
next
  case (snoc t ts)
  then show ?case using assms
    by (auto simp: foldE_append pool_submit_task_def dealt_snoc mod_Suc_eq nth_list_update intro: nth_equalityI)
qed

lemma dealt_short:
  assumes "length ts \<le> n" "i < n"
  shows "dealt n i ts = (if i < length ts then [ts ! i] else [])"
proof -
  have "filter (\<lambda>j. j mod n = i) [0..<length ts] = filter (\<lambda>j. j = i) [0..<length ts]"
    using assms by (intro filter_cong) auto
  also have "\<dots> = (if i < length ts then [i] else [])" by (induction ts rule: rev_induct) auto
  finally show ?thesis by (simp add: dealt_def)
qed

lemma mset_dealt: "0 < n \<Longrightarrow> mset (concat (map (\<lambda>i. dealt n i ts) [0..<n])) = mset ts"
proof (induction ts rule: rev_induct)
  case (snoc t ts)
  have "(\<Sum>i \<leftarrow> [0..<n]. mset (if length ts mod n = i then [t] else [])) = {#t#}"
    using snoc.prems by (simp add: interv_sum_list_conv_sum_set_nat if_distrib [of mset] cong: if_cong)
  with snoc show ?case by (simp add: mset_concat comp_def dealt_snoc sum_list_addf)
qed (simp add: dealt_def mset_concat comp_def)

section \<open>Programs on the pool\<close>

definition pool_ok :: "std_op list list \<Rightarrow> pool_sys \<Rightarrow> bool" where
  "pool_ok ts s \<longleftrightarrow> length (tp_ques (ps_pool s)) = tp_num (ps_pool s) \<and>
     (\<forall>i < tp_num (ps_pool s). ps_exited s i \<longrightarrow> ps_run s i = None \<and> ps_que s i = []) \<and>
     mset (ps_taken s) + mset (concat (tp_ques (ps_pool s))) = mset ts"

text \<open>The calls that thread \<open>i\<close> has still to make.\<close>

definition pool_rem :: "pool_sys \<Rightarrow> nat \<Rightarrow> std_op list" where
  "pool_rem s i = (case ps_run s i of None \<Rightarrow> [] | Some cs \<Rightarrow> cs) @ concat (ps_que s i)"

fun thread_rank :: "std_op list option \<Rightarrow> std_op list list \<Rightarrow> bool \<Rightarrow> nat" where
  "thread_rank None q exited = (\<Sum>t \<leftarrow> q. length t + 2) + (if exited then 0 else 1)"
| "thread_rank (Some cs) q exited = Suc (length cs) + (\<Sum>t \<leftarrow> q. length t + 2) + (if exited then 0 else 1)"

definition pool_rank :: "pool_sys \<Rightarrow> nat" where
  "pool_rank s = (\<Sum>i < tp_num (ps_pool s). thread_rank (ps_run s i) (ps_que s i) (ps_exited s i)) + (if ps_failed s = None then 1 else 0)"

lemma mset_concat_take:
  "i < length qs \<Longrightarrow> qs ! i = t # q \<Longrightarrow> mset (concat (qs[i := q])) + {#t#} = mset (concat qs)"
proof (induction qs arbitrary: i)
  case (Cons x qs)
  then show ?case by (cases i) (auto simp: add_ac)
qed simp

lemma pool_ok_step: "pool_ok ts s \<Longrightarrow> pool_step s t \<Longrightarrow> pool_ok ts t"
proof (erule pool_step.cases)
  fix i s' x q
  assume a: "pool_ok ts s" "s = s'" "i < tp_num (ps_pool s')" "\<not> ps_exited s' i" "ps_que s' i = x # q"
    "t = s'\<lparr>ps_pool := (ps_pool s')\<lparr>tp_ques := (tp_ques (ps_pool s'))[i := q]\<rparr>,
      ps_run := (ps_run s')(i \<mapsto> x), ps_taken := ps_taken s' @ [x]\<rparr>"
  then have "add_mset x (mset (concat ((tp_ques (ps_pool s'))[i := q]))) = mset (concat (tp_ques (ps_pool s')))"
    using mset_concat_take [of i "tp_ques (ps_pool s')"] by (simp add: pool_ok_def)
  moreover have "mset (ps_taken s' @ [x]) + mset (concat ((tp_ques (ps_pool s'))[i := q])) =
    mset (ps_taken s') + add_mset x (mset (concat ((tp_ques (ps_pool s'))[i := q])))" by simp
  ultimately have "mset (ps_taken s' @ [x]) + mset (concat ((tp_ques (ps_pool s'))[i := q])) = mset ts"
    using a(1,2) by (simp only: pool_ok_def)
  with a show "pool_ok ts t" by (auto simp: pool_ok_def nth_list_update)
qed (auto simp: pool_ok_def)

lemma pool_rank_less: "pool_ok ts s \<Longrightarrow> pool_step s t \<Longrightarrow> pool_rank t < pool_rank s"
proof (erule pool_step.cases)
  note one = sum_update [where f = "\<lambda>j. thread_rank (ps_run s j) (ps_que s j) (ps_exited s j)"
      and g = "\<lambda>j. thread_rank (ps_run t j) (ps_que t j) (ps_exited t j)" and n = "tp_num (ps_pool s)"]
  show "pool_rank t < pool_rank s"
    if "pool_ok ts s" "s = s'" "i < tp_num (ps_pool s')" "ps_failed s' = None" "\<not> ps_exited s' i" "ps_run s' i = None" "ps_que s' i = x # q"
      "t = s'\<lparr>ps_pool := (ps_pool s')\<lparr>tp_ques := (tp_ques (ps_pool s'))[i := q]\<rparr>,
        ps_run := (ps_run s')(i \<mapsto> x), ps_taken := ps_taken s' @ [x]\<rparr>" for i s' x q
    using that one [of i] by (simp add: pool_rank_def pool_ok_def)
  show "pool_rank t < pool_rank s" if "s = s'" "i < tp_num (ps_pool s')" "ps_failed s' = None" "ps_run s' i = Some (c # cs)"
      "t = s'\<lparr>ps_run := (ps_run s')(i \<mapsto> cs), ps_objs := objs'\<rparr>" for i s' c cs objs'
    using that one [of i] by (simp add: pool_rank_def)
  show "pool_rank t < pool_rank s" if "s = s'" "i < tp_num (ps_pool s')" "ps_failed s' = None" "ps_run s' i = Some []"
      "t = s'\<lparr>ps_run := (ps_run s')(i := None)\<rparr>" for i s'
    using that one [of i] by (simp add: pool_rank_def)
  show "pool_rank t < pool_rank s" if "s = s'" "i < tp_num (ps_pool s')" "ps_failed s' = None" "\<not> ps_exited s' i" "ps_run s' i = None"
      "ps_que s' i = []" "t = s'\<lparr>ps_exited := (ps_exited s')(i := True)\<rparr>" for i s'
    using that one [of i] by (simp add: pool_rank_def)
qed (simp_all add: pool_rank_def)

text \<open>
  A program on the pool: \<open>J\<close> relates the calls that are left on every thread to the shared
  objects. No call of the program fails, and as long as calls are left some thread can make its
  next one.
\<close>

locale pool_program =
  fixes n :: nat and ts :: "std_op list list" and objs0 :: std_objs
    and J :: "(nat \<Rightarrow> std_op list) \<Rightarrow> std_objs \<Rightarrow> bool"
  assumes threads: "0 < n \<or> ts = []"
    and J_init: "J (\<lambda>i. if i < n then concat (dealt n i ts) else []) objs0"
    and J_exec: "J r objs \<Longrightarrow> i < n \<Longrightarrow> r i = c # cs \<Longrightarrow> op_exec i c objs = Some x \<Longrightarrow> \<exists>objs'. x = Inr objs' \<and> J (r(i := cs)) objs'"
    and J_live: "J r objs \<Longrightarrow> i < n \<Longrightarrow> r i \<noteq> [] \<Longrightarrow> \<exists>j c cs. j < n \<and> r j = c # cs \<and> op_exec j c objs \<noteq> None"
begin

definition pool0 :: "std_op list thread_pool" where
  "pool0 = \<lparr>tp_num = n, tp_cur = (if n = 0 then 0 else length ts mod n), tp_ques = map (\<lambda>i. dealt n i ts) [0..<n]\<rparr>"

definition left :: "pool_sys \<Rightarrow> nat \<Rightarrow> std_op list" where
  "left s i = (if i < n then pool_rem s i else [])"

definition holds :: "pool_sys \<Rightarrow> bool" where
  "holds s \<longleftrightarrow> ps_failed s = None \<and> tp_num (ps_pool s) = n \<and> J (left s) (ps_objs s)"

lemma pool_run_eq: "pool_run n ts objs0 = Inr (pool_start objs0 pool0)"
proof (cases "n = 0")
  case True
  then show ?thesis using threads unfolding pool0_def by (simp add: pool_run_def pool_new_def)
qed (simp add: pool_run_def pool_dealt pool0_def)

lemma start_ok: "pool_ok ts (pool_start objs0 pool0)"
proof -
  have "mset (concat (map (\<lambda>i. dealt n i ts) [0..<n])) = mset ts"
    using threads mset_dealt [of n ts] by (cases "n = 0") auto
  then show ?thesis by (simp add: pool_ok_def pool_start_def pool0_def)
qed

lemma start_holds: "holds (pool_start objs0 pool0)"
proof -
  have "left (pool_start objs0 pool0) = (\<lambda>i. if i < n then concat (dealt n i ts) else [])"
    by (rule ext) (simp add: left_def pool_rem_def pool_start_def pool0_def)
  then show ?thesis using J_init by (simp add: holds_def pool_start_def pool0_def)
qed

lemma exec_rem: "ps_run s i = Some (c # cs) \<Longrightarrow> pool_rem s i = c # (cs @ concat (ps_que s i))"
  by (simp add: pool_rem_def)

lemma step_holds: "pool_ok ts s \<Longrightarrow> holds s \<Longrightarrow> pool_step s t \<Longrightarrow> holds t"
proof (erule pool_step.cases)
  fix i s' x q
  assume a: "pool_ok ts s" "holds s" "s = s'" "i < tp_num (ps_pool s')" "ps_failed s' = None" "ps_run s' i = None" "ps_que s' i = x # q"
      "t = s'\<lparr>ps_pool := (ps_pool s')\<lparr>tp_ques := (tp_ques (ps_pool s'))[i := q]\<rparr>,
        ps_run := (ps_run s')(i \<mapsto> x), ps_taken := ps_taken s' @ [x]\<rparr>"
  then have "left t = left s" by (intro ext) (auto simp: left_def pool_rem_def pool_ok_def nth_list_update)
  with a show "holds t" by (simp add: holds_def)
next
  fix i s' c cs objs'
  assume a: "holds s" "s = s'" "i < tp_num (ps_pool s')" "ps_run s' i = Some (c # cs)"
    "op_exec i c (ps_objs s') = Some (Inr objs')" "t = s'\<lparr>ps_run := (ps_run s')(i \<mapsto> cs), ps_objs := objs'\<rparr>"
  then have "left t = (left s)(i := cs @ concat (ps_que s i))" by (intro ext) (auto simp: left_def pool_rem_def holds_def)
  moreover from a exec_rem have "left s i = c # (cs @ concat (ps_que s i))" by (simp add: left_def holds_def)
  ultimately show "holds t" using a J_exec [of "left s" "ps_objs s" i] by (auto simp: holds_def)
next
  fix i s' c cs e
  assume a: "holds s" "s = s'" "i < tp_num (ps_pool s')" "ps_run s' i = Some (c # cs)" "op_exec i c (ps_objs s') = Some (Inl e)"
  with exec_rem have "left s i = c # (cs @ concat (ps_que s i))" by (simp add: left_def holds_def)
  with a J_exec [of "left s" "ps_objs s" i] have False by (auto simp: holds_def)
  then show "holds t" ..
next
  fix i s'
  assume a: "holds s" "s = s'" "ps_run s' i = Some []" "t = s'\<lparr>ps_run := (ps_run s')(i := None)\<rparr>"
  then have "left t = left s" by (intro ext) (auto simp: left_def pool_rem_def)
  with a show "holds t" by (simp add: holds_def)
next
  fix i s'
  assume a: "holds s" "s = s'" "t = s'\<lparr>ps_exited := (ps_exited s')(i := True)\<rparr>"
  then have "left t = left s" by (intro ext) (auto simp: left_def pool_rem_def)
  with a show "holds t" by (simp add: holds_def)
qed

lemma step_exists:
  assumes "pool_ok ts s" "holds s" "\<not> pool_joined ts s"
  shows "\<exists>t. pool_step s t"
proof (cases "\<forall>i < n. left s i = []")
  case True
  have "mset (concat (tp_ques (ps_pool s))) = {#} \<Longrightarrow> mset (ps_taken s) = mset ts"
    using assms(1) by (metis add.right_neutral pool_ok_def)
  moreover have "mset (concat (tp_ques (ps_pool s))) = {#}" if "\<forall>i < n. ps_que s i = []"
    using that assms(1,2) by (auto simp: pool_ok_def holds_def in_set_conv_nth)
  ultimately obtain i where i: "i < n" "ps_que s i \<noteq> [] \<or> \<not> ps_exited s i \<or> ps_run s i \<noteq> None"
    using assms by (auto simp: pool_joined_def holds_def pool_ok_def)
  then have no: "\<not> ps_exited s i" "ps_failed s = None" "i < tp_num (ps_pool s)"
    using assms(1,2) by (auto simp: pool_ok_def holds_def)
  have "ps_run s i = None \<or> ps_run s i = Some []"
    using True i(1) by (cases "ps_run s i") (auto simp: left_def pool_rem_def)
  then show ?thesis
    using pool_step.return [OF no(3,2)] pool_step.take [OF no(3,2,1)] pool_step.exit [OF no(3,2,1)]
    by (cases "ps_que s i") blast+
next
  case False
  then obtain j c cs where j: "j < n" "left s j = c # cs" "op_exec j c (ps_objs s) \<noteq> None"
    using assms(2) J_live by (metis holds_def)
  then have lt: "j < tp_num (ps_pool s)" "ps_failed s = None" and rem: "pool_rem s j = c # cs"
    using assms(2) by (auto simp: holds_def left_def)
  obtain x where x: "op_exec j c (ps_objs s) = Some x" using j(3) by blast
  show ?thesis
  proof (cases "ps_run s j")
    case None
    then obtain t q where q: "ps_que s j = t # q" using rem by (cases "ps_que s j") (auto simp: pool_rem_def)
    then have "\<not> ps_exited s j" using assms(1) lt(1) by (auto simp: pool_ok_def)
    from pool_step.take [OF lt this None q] show ?thesis by blast
  next
    case (Some l)
    show ?thesis
    proof (cases l)
      case Nil
      with Some pool_step.return [OF lt] show ?thesis by blast
    next
      case (Cons c' l')
      with Some rem have run: "ps_run s j = Some (c # l')" by (simp add: pool_rem_def)
      with x pool_step.exec [OF lt run] pool_step.fail [OF lt run] show ?thesis by (cases x) blast+
    qed
  qed
qed

end

sublocale pool_program \<subseteq> run: terminating_client "pool_ok ts" pool_step id pool_step "pool_start objs0 pool0" holds pool_rank "pool_joined ts"
  by unfold_locales (auto simp: start_ok start_holds intro: pool_ok_step step_holds pool_rank_less step_exists)

context pool_program
begin

lemma program_ends: "pool_ends ts (pool_rank (pool_start objs0 pool0)) (pool_run n ts objs0)"
  unfolding pool_ends_def pool_run_eq using run.client_ends by blast

lemma start_rank: "pool_rank (pool_start objs0 pool0) = (\<Sum>t \<leftarrow> ts. length t + 2) + n + 1"
proof -
  have "(\<Sum>i < m. \<Sum>t \<leftarrow> dealt n i ts. length t + 2) = (\<Sum>t \<leftarrow> concat (map (\<lambda>i. dealt n i ts) [0..<m]). length t + 2)" for m
    by (induction m) simp_all
  then have "(\<Sum>i < n. \<Sum>t \<leftarrow> dealt n i ts. length t + 2) = (\<Sum>t \<leftarrow> concat (map (\<lambda>i. dealt n i ts) [0..<n]). length t + 2)" .
  also have "\<dots> = (\<Sum>t \<in># mset (concat (map (\<lambda>i. dealt n i ts) [0..<n])). length t + 2)"
    by (metis mset_map sum_mset_sum_list)
  also have "\<dots> = (\<Sum>t \<leftarrow> ts. length t + 2)"
    using start_ok by (simp add: pool_ok_def pool_start_def pool0_def flip: sum_mset_sum_list mset_map)
  finally show ?thesis by (simp add: pool_rank_def pool_start_def pool0_def sum_Suc)
qed

end

section \<open>The programs\<close>

lemma dealt_own: "length ts \<le> n \<Longrightarrow> i < n \<Longrightarrow> concat (dealt n i ts) = (if i < length ts then ts ! i else [])"
  by (simp add: dealt_short)

text \<open>One thread sets the promise, the others wait for it.\<close>

definition future_J :: "nat \<Rightarrow> nat \<Rightarrow> (nat \<Rightarrow> std_op list) \<Rightarrow> std_objs \<Rightarrow> bool" where
  "future_J n k r objs \<longleftrightarrow> (\<forall>i < n. r i \<in> {[Future_Wait, Loop_Add k], [Loop_Add k], []}) \<and>
     r n \<in> {[Loop_Add k, Promise_Set], [Promise_Set], []} \<and> (so_set objs \<longleftrightarrow> r n = [])"

interpretation future_pool: pool_program "Suc n" "threadpool_stl_future (Suc n) k" "new_objs 0" "future_J n k" for n k
proof
  show "future_J n k (\<lambda>i. if i < Suc n then concat (dealt (Suc n) i (threadpool_stl_future (Suc n) k)) else []) (new_objs 0)"
    by (auto simp: future_J_def threadpool_stl_future_def dealt_own nth_append set_tp_def wait_tp_def new_objs_def)
  show "\<exists>objs'. x = Inr objs' \<and> future_J n k (r(i := cs)) objs'"
    if "future_J n k r objs" "i < Suc n" "r i = c # cs" "op_exec i c objs = Some x" for r objs i c cs x
  proof (cases "i = n")
    case True
    with that show ?thesis by (auto simp: future_J_def)
  next
    case False
    then have "i < n" using that(2) by simp
    with that(1) have "r i \<in> {[Future_Wait, Loop_Add k], [Loop_Add k], []}" by (simp add: future_J_def)
    with that \<open>i < n\<close> show ?thesis by (auto simp: future_J_def split: if_splits)
  qed
  show "\<exists>j c cs. j < Suc n \<and> r j = c # cs \<and> op_exec j c objs \<noteq> None"
    if "future_J n k r objs" "i < Suc n" "r i \<noteq> []" for r objs i
  proof (cases "so_set objs")
    case True
    with that have "i < n" "r i \<in> {[Future_Wait, Loop_Add k], [Loop_Add k], []}" by (auto simp: future_J_def less_Suc_eq)
    with True that(2,3) show ?thesis by (intro exI [of _ i]) auto
  next
    case False
    with that show ?thesis by (intro exI [of _ n]) (auto simp: future_J_def)
  qed
qed simp

text \<open>The first threads count the latch down, the others wait for it.\<close>

definition latch_J :: "nat \<Rightarrow> nat \<Rightarrow> nat \<Rightarrow> (nat \<Rightarrow> std_op list) \<Rightarrow> std_objs \<Rightarrow> bool" where
  "latch_J n c k r objs \<longleftrightarrow> (\<forall>i < c. r i \<in> {[Loop_Add k, Latch_Count_Down], [Latch_Count_Down], []}) \<and>
     (\<forall>i < n. c \<le> i \<longrightarrow> r i \<in> {[Latch_Wait, Loop_Add k], [Loop_Add k], []}) \<and>
     so_latch objs = int (card {i. i < c \<and> r i \<noteq> []})"

lemma card_upd:
  fixes c :: nat
  assumes "i < c" "r i \<noteq> []"
  shows "int (card {j. j < c \<and> (r(i := [])) j \<noteq> []}) = int (card {j. j < c \<and> r j \<noteq> []}) - 1"
    and "0 < card {j. j < c \<and> r j \<noteq> []}"
proof -
  have "{j. j < c \<and> (r(i := [])) j \<noteq> []} = {j. j < c \<and> r j \<noteq> []} - {i}" by auto
  moreover have "finite {j. j < c \<and> r j \<noteq> []}" by (rule finite_subset [of _ "{..<c}"]) auto
  moreover from this show "0 < card {j. j < c \<and> r j \<noteq> []}" using assms by (auto simp: card_gt_0_iff)
  ultimately show "int (card {j. j < c \<and> (r(i := [])) j \<noteq> []}) = int (card {j. j < c \<and> r j \<noteq> []}) - 1"
    using assms by simp
qed

interpretation latch_pool: pool_program n "threadpool_stl_latch n k" "new_objs (n div 2)" "latch_J n (n div 2) k" for n k
proof
  let ?c = "n div 2"
  show "0 < n \<or> threadpool_stl_latch n k = []" by (auto simp: threadpool_stl_latch_def Let_def)
  have own: "concat (dealt n i (threadpool_stl_latch n k)) = (if i < ?c then countdown_tp k else latch_wait_tp k)" if "i < n" for i
    using that by (simp add: threadpool_stl_latch_def Let_def dealt_own nth_append)
  have "{i. i < ?c \<and> (if i < n then concat (dealt n i (threadpool_stl_latch n k)) else []) \<noteq> []} = {..<?c}"
    by (auto simp: own countdown_tp_def)
  then show "latch_J n ?c k (\<lambda>i. if i < n then concat (dealt n i (threadpool_stl_latch n k)) else []) (new_objs ?c)"
    by (simp add: latch_J_def own countdown_tp_def latch_wait_tp_def new_objs_def)
  show "\<exists>objs'. x = Inr objs' \<and> latch_J n ?c k (r(i := cs)) objs'"
    if "latch_J n ?c k r objs" "i < n" "r i = c # cs" "op_exec i c objs = Some x" for r objs i c cs x
  proof (cases "i < ?c")
    case True
    with that(1) have i: "r i \<in> {[Loop_Add k, Latch_Count_Down], [Latch_Count_Down], []}" by (simp add: latch_J_def)
    show ?thesis
    proof (cases "r i = [Latch_Count_Down]")
      case down: True
      then have "0 < so_latch objs" using that(1) card_upd(2) [OF True, of r] by (simp add: latch_J_def)
      with that down have x: "x = Inr (objs\<lparr>so_latch := so_latch objs - 1\<rparr>)" "cs = []" by auto
      with that(1) True card_upd(1) [OF True, of r] down show ?thesis by (simp add: latch_J_def)
    next
      case False
      with i that have "r i = [Loop_Add k, Latch_Count_Down]" "x = Inr objs" "cs = [Latch_Count_Down]" by auto
      moreover from this have "{j. j < ?c \<and> (r(i := cs)) j \<noteq> []} = {j. j < ?c \<and> r j \<noteq> []}" by auto
      ultimately show ?thesis using that(1) True by (simp add: latch_J_def)
    qed
  next
    case False
    then have "{j. j < ?c \<and> (r(i := cs)) j \<noteq> []} = {j. j < ?c \<and> r j \<noteq> []}" by auto
    moreover have "r i \<in> {[Latch_Wait, Loop_Add k], [Loop_Add k], []}" using that(1,2) False by (simp add: latch_J_def)
    moreover from this that(3,4) have "x = Inr objs" "cs \<in> {[Loop_Add k], []}" by (auto split: if_splits)
    ultimately show ?thesis using that(1) False by (simp add: latch_J_def)
  qed
  show "\<exists>j c cs. j < n \<and> r j = c # cs \<and> op_exec j c objs \<noteq> None"
    if "latch_J n ?c k r objs" "i < n" "r i \<noteq> []" for r objs i
  proof (cases "so_latch objs = 0")
    case True
    have "r i \<in> {[Latch_Wait, Loop_Add k], [Loop_Add k], [Loop_Add k, Latch_Count_Down], [Latch_Count_Down], []}"
      using that(1,2) by (cases "i < ?c") (auto simp: latch_J_def)
    with True that(2,3) show ?thesis by (intro exI [of _ i]) auto
  next
    case False
    with that have "{i. i < ?c \<and> r i \<noteq> []} \<noteq> {}" by (auto simp: latch_J_def)
    then obtain j where "j < ?c" "r j \<noteq> []" by auto
    moreover from this that(1) have "r j \<in> {[Loop_Add k, Latch_Count_Down], [Latch_Count_Down], []}" by (auto simp: latch_J_def)
    ultimately show ?thesis by (intro exI [of _ j]) auto
  qed
qed

definition mutex_J :: "nat \<Rightarrow> nat \<Rightarrow> (nat \<Rightarrow> std_op list) \<Rightarrow> std_objs \<Rightarrow> bool" where
  "mutex_J n k r objs \<longleftrightarrow> (\<forall>i < n. r i \<in> {[Mutex_Lock, Loop_Add k, Mutex_Unlock], [Loop_Add k, Mutex_Unlock], [Mutex_Unlock], []}) \<and>
     (\<forall>i < n. r i \<in> {[Loop_Add k, Mutex_Unlock], [Mutex_Unlock]} \<longleftrightarrow> so_owner objs = Some i) \<and> (\<forall>i. so_owner objs = Some i \<longrightarrow> i < n)"

interpretation mutex_pool: pool_program n "threadpool_stl_mutex n k" "new_objs 0" "mutex_J n k" for n k
proof
  show "0 < n \<or> threadpool_stl_mutex n k = []" by (auto simp: threadpool_stl_mutex_def)
  show "mutex_J n k (\<lambda>i. if i < n then concat (dealt n i (threadpool_stl_mutex n k)) else []) (new_objs 0)"
    by (auto simp: mutex_J_def threadpool_stl_mutex_def dealt_own add_tp_def new_objs_def)
  show "\<exists>objs'. x = Inr objs' \<and> mutex_J n k (r(i := cs)) objs'"
    if "mutex_J n k r objs" "i < n" "r i = c # cs" "op_exec i c objs = Some x" for r objs i c cs x
  proof -
    from that(1,2) have "r i \<in> {[Mutex_Lock, Loop_Add k, Mutex_Unlock], [Loop_Add k, Mutex_Unlock], [Mutex_Unlock], []}"
      "r i \<in> {[Loop_Add k, Mutex_Unlock], [Mutex_Unlock]} \<longleftrightarrow> so_owner objs = Some i" by (simp_all add: mutex_J_def)
    with that show ?thesis by (auto simp: mutex_J_def split: option.splits)
  qed
  show "\<exists>j c cs. j < n \<and> r j = c # cs \<and> op_exec j c objs \<noteq> None"
    if "mutex_J n k r objs" "i < n" "r i \<noteq> []" for r objs i
  proof (cases "so_owner objs")
    case None
    with that show ?thesis by (intro exI [of _ i]) (auto simp: mutex_J_def)
  next
    case (Some j)
    with that have "j < n" "r j \<in> {[Loop_Add k, Mutex_Unlock], [Mutex_Unlock]}" by (auto simp: mutex_J_def)
    then show ?thesis by (intro exI [of _ j]) auto
  qed
qed

lemma future_ends:
  "pool_ends (threadpool_stl_future (Suc n) k) (5 * Suc n + 1) (pool_run (Suc n) (threadpool_stl_future (Suc n) k) (new_objs 0))"
proof -
  have "(\<Sum>t \<leftarrow> threadpool_stl_future (Suc n) k. length t + 2) + Suc n + 1 = 5 * Suc n + 1"
    by (simp add: threadpool_stl_future_def set_tp_def wait_tp_def sum_list_replicate)
  then show ?thesis using future_pool.program_ends [of n k] unfolding future_pool.start_rank by metis
qed

lemma latch_ends:
  "pool_ends (threadpool_stl_latch n k) (5 * n + 1) (pool_run n (threadpool_stl_latch n k) (new_objs (n div 2)))"
proof -
  have "(\<Sum>t \<leftarrow> threadpool_stl_latch n k. length t + 2) + n + 1 = 5 * n + 1"
    by (simp add: threadpool_stl_latch_def Let_def countdown_tp_def latch_wait_tp_def sum_list_replicate)
  then show ?thesis using latch_pool.program_ends [of n k] unfolding latch_pool.start_rank by metis
qed

lemma mutex_ends: "pool_ends (threadpool_stl_mutex n k) (6 * n + 1) (pool_run n (threadpool_stl_mutex n k) (new_objs 0))"
proof -
  have "(\<Sum>t \<leftarrow> threadpool_stl_mutex n k. length t + 2) + n + 1 = 6 * n + 1"
    by (simp add: threadpool_stl_mutex_def add_tp_def sum_list_replicate)
  then show ?thesis using mutex_pool.program_ends [of n k] unfolding mutex_pool.start_rank by metis
qed

section \<open>Properties\<close>

text \<open>
  C25. Every benchmark on the pool ends, whatever the schedule and however many threads the machine
  reports: no call fails, no thread stays blocked, every task is run exactly once, and \<open>join\<close>
  returns. (With a single thread the future program has no waiter.)
\<close>

theorem threadpool_benches_end:
  "pool_ends (threadpool_stl_future (Suc n) k) (5 * Suc n + 1) (pool_run (Suc n) (threadpool_stl_future (Suc n) k) (new_objs 0)) \<and>
   pool_ends (threadpool_stl_latch n k) (5 * n + 1) (pool_run n (threadpool_stl_latch n k) (new_objs (n div 2))) \<and>
   pool_ends (threadpool_stl_mutex n k) (6 * n + 1) (pool_run n (threadpool_stl_mutex n k) (new_objs 0))"
using future_ends latch_ends mutex_ends by blast

text \<open>
  The pool deals its tasks out in turn: thread \<open>i\<close> gets the tasks number \<open>i\<close>, \<open>i + n\<close>, and so on,
  in the order of submission, and together the threads have exactly the submitted tasks.
\<close>

theorem thread_pool_round_robin:
  "\<exists>p. foldE pool_submit_task ts (pool_new (Suc n)) = Inr p \<and> tp_ques p = map (\<lambda>i. dealt (Suc n) i ts) [0..<Suc n] \<and>
     mset (concat (tp_ques p)) = mset ts"
  using pool_dealt [of "Suc n" ts] mset_dealt [of "Suc n" ts] by simp

end
