(* ===== verification/Std_Monitor.thy ===== *)
theory Std_Monitor
  imports Client
begin

text \<open>
  The benchmark programs that synchronise with \<open>std::mutex\<close> and \<open>std::condition_variable\<close>:
  the producer and the consumer of \<open>lab5c_bench.cpp\<close> and the two coroutines of
  \<open>lab5b_bench.cpp\<close> that take turns. Each task loops: it locks the mutex, waits for its
  predicate, works on the shared state, notifies, and unlocks. The waiting releases the mutex and
  blocks until it is notified, or wakes up spuriously; the number of spurious wake-ups is a part
  of the initial state, since a program that wakes up spuriously for ever need not end. Every
  task has a thread of its own, as the pool and the scheduler give it on a machine with at least
  two hardware threads.
\<close>

section \<open>Tasks that loop around a wait\<close>

datatype mon_pc = M_Start | M_Test | M_Blocked | M_Woken | M_Done

record 's monitor =
  mo_st :: 's
  mo_owner :: "nat option"
  mo_pc :: "nat \<Rightarrow> mon_pc"
  mo_spurious :: nat

definition monitor_init :: "nat \<Rightarrow> 's \<Rightarrow> 's monitor" where
  "monitor_init w st = \<lparr>mo_st = st, mo_owner = None, mo_pc = (\<lambda>_. M_Start), mo_spurious = w\<rparr>"

text \<open>Whom a notification wakes: all that wait, or one of them if there is one.\<close>

definition notified :: "bool \<Rightarrow> nat set \<Rightarrow> nat set \<Rightarrow> bool" where
  "notified one waiting woken \<longleftrightarrow>
     (if one then woken \<subseteq> waiting \<and> (woken = {} \<longleftrightarrow> waiting = {}) \<and> (\<forall>i \<in> woken. \<forall>j \<in> woken. i = j) else woken = waiting)"

definition mo_waiting :: "'s monitor \<Rightarrow> nat set" where
  "mo_waiting m = {j. mo_pc m j = M_Blocked}"

inductive monitor_step :: "nat \<Rightarrow> bool \<Rightarrow> (nat \<Rightarrow> 's \<Rightarrow> bool) \<Rightarrow> (nat \<Rightarrow> 's \<Rightarrow> bool) \<Rightarrow> (nat \<Rightarrow> 's \<Rightarrow> 's) \<Rightarrow> 's monitor \<Rightarrow> 's monitor \<Rightarrow> bool"
  for n one more pred body where
  lock: "i < n \<Longrightarrow> mo_pc m i = M_Start \<Longrightarrow> more i (mo_st m) \<Longrightarrow> mo_owner m = None \<Longrightarrow>
    monitor_step n one more pred body m (m\<lparr>mo_owner := Some i, mo_pc := (mo_pc m)(i := M_Test)\<rparr>)"
| finish: "i < n \<Longrightarrow> mo_pc m i = M_Start \<Longrightarrow> \<not> more i (mo_st m) \<Longrightarrow>
    monitor_step n one more pred body m (m\<lparr>mo_pc := (mo_pc m)(i := M_Done)\<rparr>)"
| wait: "i < n \<Longrightarrow> mo_pc m i = M_Test \<Longrightarrow> \<not> pred i (mo_st m) \<Longrightarrow>
    monitor_step n one more pred body m (m\<lparr>mo_owner := None, mo_pc := (mo_pc m)(i := M_Blocked)\<rparr>)"
| work: "i < n \<Longrightarrow> mo_pc m i = M_Test \<Longrightarrow> pred i (mo_st m) \<Longrightarrow> notified one (mo_waiting m) woken \<Longrightarrow>
    monitor_step n one more pred body m (m\<lparr>mo_st := body i (mo_st m), mo_owner := None,
      mo_pc := (\<lambda>j. if j \<in> woken then M_Woken else if j = i then M_Start else mo_pc m j)\<rparr>)"
| relock: "i < n \<Longrightarrow> mo_pc m i = M_Woken \<Longrightarrow> mo_owner m = None \<Longrightarrow>
    monitor_step n one more pred body m (m\<lparr>mo_owner := Some i, mo_pc := (mo_pc m)(i := M_Test)\<rparr>)"
| spurious: "i < n \<Longrightarrow> mo_pc m i = M_Blocked \<Longrightarrow> mo_spurious m = Suc w \<Longrightarrow>
    monitor_step n one more pred body m (m\<lparr>mo_spurious := w, mo_pc := (mo_pc m)(i := M_Woken)\<rparr>)"

definition monitor_end :: "nat \<Rightarrow> ('s \<Rightarrow> bool) \<Rightarrow> 's monitor \<Rightarrow> bool" where
  "monitor_end n goal m \<longleftrightarrow> (\<forall>i < n. mo_pc m i = M_Done) \<and> mo_owner m = None \<and> goal (mo_st m)"

section \<open>The producer and the consumer of lab5c\<close>

text \<open>The tasks 0 and 1. A value is what \<open>return_type{}\<close> or \<open>std::string(bench_str)\<close> is; \<open>sq_got\<close> is what was moved out.\<close>

record 'a stl_chan =
  sq_que :: "'a list"
  sq_todo :: "'a list"
  sq_left :: nat
  sq_got :: "'a list"

definition sq_capacity :: nat where "sq_capacity = 16"

definition channel_producer_tp :: "'a stl_chan \<Rightarrow> 'a stl_chan" where
  "channel_producer_tp s =
     (let cnt = sq_capacity - length (sq_que s);
          cnt = (if length (sq_todo s) < cnt then length (sq_todo s) else cnt)
      in s\<lparr>sq_que := sq_que s @ take cnt (sq_todo s), sq_todo := drop cnt (sq_todo s)\<rparr>)"

definition channel_consumer_tp :: "'a stl_chan \<Rightarrow> 'a stl_chan" where
  "channel_consumer_tp s = s\<lparr>sq_que := [], sq_got := sq_got s @ sq_que s, sq_left := sq_left s - length (sq_que s)\<rparr>"

definition sq_more :: "nat \<Rightarrow> 'a stl_chan \<Rightarrow> bool" where
  "sq_more i s = (if i = 0 then 0 < length (sq_todo s) else 0 < sq_left s)"

definition sq_pred :: "nat \<Rightarrow> 'a stl_chan \<Rightarrow> bool" where
  "sq_pred i s = (if i = 0 then length (sq_que s) < sq_capacity else sq_que s \<noteq> [])"

definition sq_body :: "nat \<Rightarrow> 'a stl_chan \<Rightarrow> 'a stl_chan" where
  "sq_body i = (if i = 0 then channel_producer_tp else channel_consumer_tp)"

definition threadpool_stl_channel :: "'a stl_chan monitor \<Rightarrow> 'a stl_chan monitor \<Rightarrow> bool" where
  "threadpool_stl_channel = monitor_step 2 False sq_more sq_pred sq_body"

definition stl_channel_init :: "nat \<Rightarrow> nat \<Rightarrow> 'a \<Rightarrow> 'a stl_chan monitor" where
  "stl_channel_init w loop_num v = monitor_init w \<lparr>sq_que = [], sq_todo = replicate (loop_num * sq_capacity) v,
     sq_left = loop_num * sq_capacity, sq_got = []\<rparr>"

text \<open>
  \<open>coro_stl_channel_int\<close> and \<open>coro_stl_channel_string\<close>: the same loops in two coroutines of the library, which block the
  workers they run on; the scheduler gives them to two different ones.
\<close>

definition coro_stl_channel :: "'a stl_chan monitor \<Rightarrow> 'a stl_chan monitor \<Rightarrow> bool" where
  "coro_stl_channel = monitor_step 2 False sq_more sq_pred sq_body"

definition coro_stl_channel_init :: "nat \<Rightarrow> nat \<Rightarrow> 'a \<Rightarrow> 'a stl_chan monitor" where
  "coro_stl_channel_init w loop_num v = monitor_init w \<lparr>sq_que = [], sq_todo = replicate (loop_num * sq_capacity) v,
     sq_left = loop_num * sq_capacity, sq_got = []\<rparr>"

section \<open>The turns of lab5b\<close>

record turns =
  tn_gid :: nat
  tn_cnt :: "nat \<Rightarrow> nat"

definition notifyone_run_cnt :: nat where "notifyone_run_cnt = 1000"

definition notify_one :: "nat \<Rightarrow> turns \<Rightarrow> turns" where
  "notify_one i s = s\<lparr>tn_gid := (tn_gid s + 1) mod 2, tn_cnt := (tn_cnt s)(i := tn_cnt s i - 1)\<rparr>"

definition cv_notifyone_bench :: "turns monitor \<Rightarrow> turns monitor \<Rightarrow> bool" where
  "cv_notifyone_bench = monitor_step 2 True (\<lambda>i s. 0 < tn_cnt s i) (\<lambda>i s. i = tn_gid s) notify_one"

definition notifyone_init :: "nat \<Rightarrow> turns monitor" where
  "notifyone_init w = monitor_init w \<lparr>tn_gid = 0, tn_cnt = (\<lambda>i. if i < 2 then notifyone_run_cnt else 0)\<rparr>"

section \<open>Programs around a monitor\<close>

text \<open>
  What such a program has to show: an invariant of the shared state that every unit of work
  keeps, a measure that it lowers, tasks that only change their own count, and that while some
  task has work left, some task with work left can do it. With \<open>notify_one\<close> there are at most
  two tasks, so that at most one waits.
\<close>

locale monitor_program =
  fixes n :: nat and one :: bool and more pred :: "nat \<Rightarrow> 's \<Rightarrow> bool" and body :: "nat \<Rightarrow> 's \<Rightarrow> 's"
    and st0 :: 's and w :: nat and inv :: "'s \<Rightarrow> bool" and work_left :: "'s \<Rightarrow> nat"
  assumes few: "one \<Longrightarrow> n \<le> 2"
    and inv_init: "inv st0"
    and inv_body: "inv st \<Longrightarrow> i < n \<Longrightarrow> more i st \<Longrightarrow> pred i st \<Longrightarrow> inv (body i st)"
    and work_body: "inv st \<Longrightarrow> i < n \<Longrightarrow> more i st \<Longrightarrow> pred i st \<Longrightarrow> work_left (body i st) < work_left st"
    and more_body: "i < n \<Longrightarrow> j < n \<Longrightarrow> j \<noteq> i \<Longrightarrow> more j (body i st) \<longleftrightarrow> more j st"
    and live: "inv st \<Longrightarrow> i < n \<Longrightarrow> more i st \<Longrightarrow> \<exists>j. j < n \<and> more j st \<and> pred j st"
begin

definition pc_ok :: "'s monitor \<Rightarrow> bool" where
  "pc_ok m \<longleftrightarrow> (\<forall>i. n \<le> i \<longrightarrow> mo_pc m i = M_Start) \<and> (\<forall>i. mo_owner m = Some i \<longleftrightarrow> mo_pc m i = M_Test) \<and>
     (\<forall>i < n. mo_pc m i \<in> {M_Test, M_Blocked, M_Woken} \<longrightarrow> more i (mo_st m)) \<and>
     (\<forall>i < n. mo_pc m i = M_Done \<longrightarrow> \<not> more i (mo_st m)) \<and>
     (\<forall>i < n. mo_pc m i = M_Blocked \<longrightarrow> \<not> pred i (mo_st m))"

fun pc_rank :: "mon_pc \<Rightarrow> nat" where
  "pc_rank M_Done = 0" | "pc_rank M_Blocked = 1" | "pc_rank M_Test = 2" | "pc_rank M_Woken = 3" | "pc_rank M_Start = 3"

definition mon_rank :: "'s monitor \<Rightarrow> nat" where
  "mon_rank m = (\<Sum>i < n. pc_rank (mo_pc m i)) + (2 * n + 2) * work_left (mo_st m) + 3 * mo_spurious m"

lemma blocked_less: "pc_ok m \<Longrightarrow> mo_pc m j = M_Blocked \<Longrightarrow> j < n"
  by (rule ccontr) (auto simp: pc_ok_def)

lemma owner_tests: "pc_ok m \<Longrightarrow> mo_owner m = Some i \<longleftrightarrow> mo_pc m i = M_Test"
  unfolding pc_ok_def by blast

lemma tests_less: "pc_ok m \<Longrightarrow> mo_pc m i = M_Test \<Longrightarrow> i < n"
  by (rule ccontr) (auto simp: pc_ok_def)

lemma notified_sub: "notified b A woken \<Longrightarrow> woken \<subseteq> A \<and> (woken = {} \<longleftrightarrow> A = {})"
  by (simp add: notified_def split: if_splits)

lemma woken_all:
  assumes "pc_ok m" "i < n" "mo_pc m i = M_Test" "notified one (mo_waiting m) woken"
  shows "woken = mo_waiting m"
proof (cases one)
  case True
  have "j = 1 - i" if "j \<in> mo_waiting m" for j
  proof -
    have "mo_pc m j = M_Blocked" using that by (simp add: mo_waiting_def)
    then have "j < n" "j \<noteq> i" using blocked_less assms(1,3) by auto
    with few [OF True] assms(2) show ?thesis by linarith
  qed
  then show ?thesis using notified_sub [OF assms(4)] by blast
qed (use assms(4) in \<open>simp add: notified_def\<close>)

lemma pc_ok_init: "pc_ok (monitor_init w st0)"
  by (simp add: pc_ok_def monitor_init_def)

text \<open>Work and waiting end with nobody inside; the other steps move one task.\<close>

lemma pc_ok_step:
  assumes "pc_ok m" "monitor_step n one more pred body m m'"
  shows "pc_ok m'"
  using assms(2)
proof cases
  case (work i woken)
  then have "woken = mo_waiting m" using woken_all assms(1) by blast
  then have eq: "mo_pc m' j = (if mo_pc m j = M_Blocked then M_Woken else if j = i then M_Start else mo_pc m j)" for j
    using work(1) by (simp add: mo_waiting_def)
  have sole: "j = i" if "mo_pc m j = M_Test" for j using assms(1) work(3) that by (metis option.inject owner_tests)
  have pc: "mo_pc m' j \<noteq> M_Test" "mo_pc m' j \<noteq> M_Blocked" for j
    using sole [of j] by (cases "mo_pc m j"; simp add: eq)+
  have pc3: "mo_pc m j \<in> {M_Blocked, M_Woken} \<and> j \<noteq> i" if "mo_pc m' j = M_Woken" for j
    using that work(3) by (cases "j = i"; cases "mo_pc m j"; simp add: eq)
  have pc4: "mo_pc m j = M_Done \<and> j \<noteq> i" if "mo_pc m' j = M_Done" for j
    using that work(3) by (cases "j = i"; cases "mo_pc m j"; simp add: eq)
  have pc5: "mo_pc m' j = M_Start" if "n \<le> j" for j
    using that assms(1) unfolding eq by (simp add: pc_ok_def)
  have st: "mo_owner m' = None" "mo_st m' = body i (mo_st m)" using work(1) by simp_all
  have "more j (mo_st m')" if "j < n" "mo_pc m' j = M_Woken" for j
    using pc3 [OF that(2)] assms(1) that(1) more_body [OF work(2) that(1)] st(2) by (auto simp: pc_ok_def)
  moreover have "\<not> more j (mo_st m')" if "j < n" "mo_pc m' j = M_Done" for j
    using pc4 [OF that(2)] assms(1) that(1) more_body [OF work(2) that(1)] st(2) by (auto simp: pc_ok_def)
  ultimately show ?thesis using pc(1,2) pc5 st(1) by (simp add: pc_ok_def)
next
  case (wait i)
  have "\<forall>j. j \<noteq> i \<longrightarrow> mo_pc m j \<noteq> M_Test" using assms(1) wait(3) by (metis option.inject owner_tests)
  with wait assms(1) show ?thesis by (simp add: pc_ok_def)
qed (use assms(1) in \<open>auto simp: pc_ok_def\<close>)

lemma rank_step:
  assumes "pc_ok m" "inv (mo_st m)" "monitor_step n one more pred body m m'"
  shows "mon_rank m' < mon_rank m"
proof -
  note one = sum_update [where f = "\<lambda>i. pc_rank (mo_pc m i)" and g = "\<lambda>i. pc_rank (mo_pc m' i)" and n = n]
  from assms(3) show ?thesis
  proof cases
    case (work i woken)
    have "pc_rank (mo_pc m' j) \<le> pc_rank (mo_pc m j) + 2" for j
      using work(1,3) notified_sub [OF work(5)] by (auto simp: mo_waiting_def)
    then have "(\<Sum>j < n. pc_rank (mo_pc m' j)) \<le> (\<Sum>j < n. pc_rank (mo_pc m j) + 2)" by (intro sum_mono) blast
    also have "\<dots> = (\<Sum>j < n. pc_rank (mo_pc m j)) + 2 * n" by (simp add: sum_Suc)
    finally have pcs: "(\<Sum>j < n. pc_rank (mo_pc m' j)) \<le> (\<Sum>j < n. pc_rank (mo_pc m j)) + 2 * n" .
    have "more i (mo_st m)" using work assms(1) by (auto simp: pc_ok_def)
    then have "Suc (work_left (mo_st m')) \<le> work_left (mo_st m)"
      using work_body [OF assms(2) work(2) _ work(4)] work(1) by simp
    then have "(2 * n + 2) * Suc (work_left (mo_st m')) \<le> (2 * n + 2) * work_left (mo_st m)" by (rule mult_le_mono2)
    with pcs work(1) show ?thesis by (simp add: mon_rank_def)
  next
    case (spurious i w)
    with one [of i] show ?thesis by (simp add: mon_rank_def)
  next
    case (lock i)
    with one [of i] show ?thesis by (simp add: mon_rank_def)
  next
    case (finish i)
    with one [of i] show ?thesis by (simp add: mon_rank_def)
  next
    case (wait i)
    with one [of i] show ?thesis by (simp add: mon_rank_def)
  next
    case (relock i)
    with one [of i] show ?thesis by (simp add: mon_rank_def)
  qed
qed

definition done_goal :: "'s \<Rightarrow> bool" where
  "done_goal st \<longleftrightarrow> inv st \<and> (\<forall>i < n. \<not> more i st)"

lemma notified_ex: "\<exists>woken. notified b A woken"
  by (cases "A = {}") (auto simp: notified_def intro: exI [of _ "{}"] exI [of _ A] exI [of _ "{SOME x. x \<in> A}"] some_in_eq)

lemma step_exists:
  assumes "pc_ok m" "inv (mo_st m)" "\<not> monitor_end n done_goal m"
  shows "\<exists>m'. monitor_step n one more pred body m m'"
proof (cases "mo_owner m")
  case (Some i)
  then have test: "mo_pc m i = M_Test" using owner_tests [OF assms(1)] by simp
  then have lt: "i < n" using tests_less [OF assms(1)] by simp
  obtain woken where "notified one (mo_waiting m) woken" using notified_ex by blast
  with monitor_step.wait [OF lt test] monitor_step.work [OF lt test] show ?thesis by blast
next
  case None
  then have pcs: "mo_pc m i \<noteq> M_Test" for i using owner_tests [OF assms(1), of i] by simp
  show ?thesis
  proof (cases "\<exists>i < n. mo_pc m i \<in> {M_Start, M_Woken}")
    case True
    then obtain i where i: "i < n" and pc: "mo_pc m i = M_Start \<or> mo_pc m i = M_Woken" by blast
    from pc show ?thesis
    proof
      assume start: "mo_pc m i = M_Start"
      show ?thesis
      proof (cases "more i (mo_st m)")
        case True
        from monitor_step.lock [of i n m more, OF i start True None] show ?thesis by blast
      next
        case False
        from monitor_step.finish [of i n m more, OF i start False] show ?thesis by blast
      qed
    next
      assume "mo_pc m i = M_Woken"
      from monitor_step.relock [OF i this None] show ?thesis by blast
    qed
  next
    case False
    then have rest: "mo_pc m i = M_Blocked \<or> mo_pc m i = M_Done" if "i < n" for i
      using that pcs [of i] by (cases "mo_pc m i") auto
    have "\<not> more i (mo_st m)" if "i < n" for i
    proof
      assume "more i (mo_st m)"
      with live assms(2) that obtain j where "j < n" "more j (mo_st m)" "pred j (mo_st m)" by blast
      with rest [of j] assms(1) show False by (auto simp: pc_ok_def)
    qed
    then have "monitor_end n done_goal m"
      using rest assms(1,2) None by (auto simp: monitor_end_def done_goal_def pc_ok_def)
    with assms(3) show ?thesis ..
  qed
qed

end

sublocale monitor_program \<subseteq> run: terminating_client pc_ok "monitor_step n one more pred body" id
    "monitor_step n one more pred body" "monitor_init w st0" "\<lambda>m. inv (mo_st m)" mon_rank "monitor_end n done_goal"
proof
  show "inv (mo_st t)" if "pc_ok (id s)" "inv (mo_st s)" "monitor_step n one more pred body s t" for s t
    using that(3) that(1,2) inv_body by cases (auto simp: pc_ok_def)
qed (auto simp: pc_ok_init inv_init intro: pc_ok_step rank_step step_exists, auto simp: monitor_init_def inv_init)

context monitor_program
begin

lemma monitor_ends:
  "ends_with (monitor_step n one more pred body) (monitor_init w st0) (3 * n + (2 * n + 2) * work_left st0 + 3 * w) (monitor_end n done_goal)"
  using run.client_ends by (simp add: mon_rank_def monitor_init_def mult.commute)

end

section \<open>The programs\<close>

definition sq_inv :: "'a list \<Rightarrow> 'a stl_chan \<Rightarrow> bool" where
  "sq_inv vs s \<longleftrightarrow> sq_got s @ sq_que s @ sq_todo s = vs \<and> sq_left s = length (sq_que s) + length (sq_todo s) \<and>
     length (sq_que s) \<le> sq_capacity"

lemmas sq_defs = sq_more_def sq_pred_def sq_body_def channel_producer_tp_def channel_consumer_tp_def sq_inv_def Let_def

lemma all_less_2: "(\<forall>i < (2 :: nat). P i) \<longleftrightarrow> P 0 \<and> P 1"
  by (auto simp: less_2_cases_iff)

lemma producer_inv: "sq_inv vs s \<Longrightarrow> sq_inv vs (channel_producer_tp s)"
  unfolding channel_producer_tp_def Let_def by (simp add: sq_inv_def) linarith

lemma consumer_inv: "sq_inv vs s \<Longrightarrow> sq_inv vs (channel_consumer_tp s)"
  unfolding channel_consumer_tp_def by (simp add: sq_inv_def)

interpretation stl_channel: monitor_program 2 False sq_more sq_pred sq_body
    "\<lparr>sq_que = [], sq_todo = vs, sq_left = length vs, sq_got = []\<rparr>" w "sq_inv vs" "\<lambda>s. length (sq_todo s) + sq_left s" for vs w
proof
  show "sq_inv vs (sq_body i st)" if "sq_inv vs st" "sq_more i st" "sq_pred i st" for st i
    using that(1) by (simp add: sq_body_def producer_inv consumer_inv)
  show "length (sq_todo (sq_body i st)) + sq_left (sq_body i st) < length (sq_todo st) + sq_left st"
    if "sq_inv vs st" "sq_more i st" "sq_pred i st" for st i
    using that by (cases "i = 0") (auto simp: sq_defs)
  show "sq_more j (sq_body i st) \<longleftrightarrow> sq_more j st" if "i < 2" "j < 2" "j \<noteq> i" for i j and st :: "'a stl_chan"
    using that by (cases "i = 0") (auto simp: sq_defs)
  show "\<exists>j. j < 2 \<and> sq_more j st \<and> sq_pred j st" if "sq_inv vs st" "i < 2" "sq_more i st" for st i
  proof (cases "sq_que st = []")
    case True
    with that show ?thesis by (intro exI [of _ 0]) (auto simp: sq_defs sq_capacity_def split: if_splits)
  next
    case False
    with that show ?thesis by (intro exI [of _ 1]) (auto simp: sq_defs)
  qed
qed (simp_all add: sq_inv_def sq_capacity_def)

definition turns_inv :: "turns \<Rightarrow> bool" where
  "turns_inv s \<longleftrightarrow> (tn_gid s = 0 \<and> tn_cnt s 0 = tn_cnt s 1) \<or> (tn_gid s = 1 \<and> tn_cnt s 1 = Suc (tn_cnt s 0))"

interpretation turns: monitor_program 2 True "\<lambda>i s. 0 < tn_cnt s i" "\<lambda>i s. i = tn_gid s" notify_one
    "\<lparr>tn_gid = 0, tn_cnt = (\<lambda>i. if i < 2 then k else 0)\<rparr>" w turns_inv "\<lambda>s. tn_cnt s 0 + tn_cnt s 1" for k w
proof
  have turn: "\<exists>c. (tn_gid st = 0 \<and> tn_cnt st 0 = c \<and> tn_cnt st 1 = c) \<or> (tn_gid st = 1 \<and> tn_cnt st 0 = c \<and> tn_cnt st 1 = Suc c)"
    if "turns_inv st" for st
    using that unfolding turns_inv_def by blast
  show "turns_inv (notify_one i st)" if st: "turns_inv st" "0 < tn_cnt st i" "i = tn_gid st" for st i
    using turn [OF st(1)] st(2,3) by (elim exE disjE conjE) (simp_all add: turns_inv_def notify_one_def)
  show "tn_cnt (notify_one i st) 0 + tn_cnt (notify_one i st) 1 < tn_cnt st 0 + tn_cnt st 1"
    if st: "turns_inv st" "0 < tn_cnt st i" "i = tn_gid st" for st i
    using turn [OF st(1)] st(2,3) by (elim exE disjE conjE) (simp_all add: notify_one_def)
  show "\<exists>j. j < 2 \<and> 0 < tn_cnt st j \<and> j = tn_gid st" if st: "turns_inv st" "i < 2" "0 < tn_cnt st i" for st i
    using turn [OF st(1)] st(2,3) by (elim exE disjE conjE) (auto simp: less_2_cases_iff)
qed (simp_all add: turns_inv_def notify_one_def)

lemma stl_channel_ends:
  "ends_with threadpool_stl_channel (stl_channel_init w n v) (12 * (n * sq_capacity) + 6 + 3 * w)
     (monitor_end 2 (\<lambda>s. sq_got s = replicate (n * sq_capacity) v \<and> sq_que s = []))"
proof -
  let ?vs = "replicate (n * sq_capacity) v"
  have "stl_channel.done_goal ?vs = (\<lambda>s. sq_got s = ?vs \<and> sq_que s = [] \<and> sq_todo s = [] \<and> sq_left s = 0)"
    by (rule ext) (auto simp: stl_channel.done_goal_def sq_inv_def sq_more_def all_less_2)
  then have "ends_with threadpool_stl_channel (stl_channel_init w n v) (3 * 2 + (2 * 2 + 2) * (length ?vs + length ?vs) + 3 * w)
      (monitor_end 2 (\<lambda>s. sq_got s = ?vs \<and> sq_que s = [] \<and> sq_todo s = [] \<and> sq_left s = 0))"
    using stl_channel.monitor_ends [of w ?vs] by (simp add: threadpool_stl_channel_def stl_channel_init_def)
  then show ?thesis by (rule ends_with_mono) (auto simp: monitor_end_def)
qed

section \<open>Properties\<close>

text \<open>
  \<open>lab5c\<close> on standard primitives: for every number of rounds, every value and every finite number
  of spurious wake-ups, the producer and the consumer end, whatever the schedule, and the
  consumer has received exactly the values that were produced; the queue is empty.
\<close>

theorem stl_channel_delivers:
  "ends_with threadpool_stl_channel (stl_channel_init w n v) (12 * (n * sq_capacity) + 6 + 3 * w)
     (monitor_end 2 (\<lambda>s. sq_got s = replicate (n * sq_capacity) v \<and> sq_que s = [])) \<and>
   ends_with coro_stl_channel (coro_stl_channel_init w n v) (12 * (n * sq_capacity) + 6 + 3 * w)
     (monitor_end 2 (\<lambda>s. sq_got s = replicate (n * sq_capacity) v \<and> sq_que s = []))"
  using stl_channel_ends [of w n v]
  by (simp add: threadpool_stl_channel_def coro_stl_channel_def stl_channel_init_def coro_stl_channel_init_def)

text \<open>
  \<open>lab5b\<close> with \<open>notify_one\<close> on standard primitives: the two coroutines take turns and both make
  all of their rounds; the notification of one is enough because only the other one can wait.
\<close>

theorem stl_turns_end:
  "ends_with cv_notifyone_bench (notifyone_init w) (12006 + 3 * w) (monitor_end 2 (\<lambda>s. tn_cnt s 0 = 0 \<and> tn_cnt s 1 = 0 \<and> tn_gid s = 0))"
proof -
  have "turns.done_goal = (\<lambda>s. tn_cnt s 0 = 0 \<and> tn_cnt s 1 = 0 \<and> tn_gid s = 0)"
    by (rule ext) (auto simp: turns.done_goal_def turns_inv_def less_2_cases_iff)
  then show ?thesis using turns.monitor_ends [of w notifyone_run_cnt]
    by (simp add: cv_notifyone_bench_def notifyone_init_def notifyone_run_cnt_def)
qed

end
