(* ===== verification/Ring_Echo.thy ===== *)
theory Ring_Echo
  imports Prelude
begin

unbundle bit_operations_syntax

text \<open>
  \<open>io_uring/example/echo_server.cpp\<close>: the echo server written directly on the ring, which the
  benchmark \<open>uring_server_bench.cpp\<close> repeats with another port. The requests that are prepared,
  those the kernel works on and the completions are three lists; the kernel is the part of the
  step relation that turns a request into a completion. What the peers send and get is recorded
  per descriptor.
\<close>

section \<open>Definitions\<close>

definition EVENT_ACCEPT :: i32 where "EVENT_ACCEPT = 0"
definition EVENT_READ :: i32 where "EVENT_READ = 1"
definition EVENT_WRITE :: i32 where "EVENT_WRITE = 2"
definition ENTRIES_LENGTH :: nat where "ENTRIES_LENGTH = 1024"
definition BUFFER_LENGTH :: nat where "BUFFER_LENGTH = 1024"

record conn_info =
  ci_fd :: i32
  ci_event :: i32

text \<open>\<open>memcpy\<close> between the structure of two \<open>int\<close>s and the 64 bits of \<open>user_data\<close>.\<close>

definition conn_info_to_data :: "conn_info \<Rightarrow> u64" where
  "conn_info_to_data i = ucast (ci_fd i) OR push_bit 32 (ucast (ci_event i))"

definition data_to_conn_info :: "u64 \<Rightarrow> conn_info" where
  "data_to_conn_info d = \<lparr>ci_fd = ucast d, ci_event = ucast (drop_bit 32 d)\<rparr>"

datatype ring_op = Op_Accept i32 | Op_Recv i32 nat | Op_Send i32 nat

record ring_sqe =
  rq_op :: ring_op
  rq_data :: u64

record ring_cqe =
  rc_data :: u64
  rc_res :: int

record echo_ring =
  er_sq :: "ring_sqe list"
  er_kernel :: "ring_sqe list"
  er_cq :: "ring_cqe list"

text \<open>\<open>io_uring_get_sqe\<close> answers a null pointer when all entries are taken, and it is not tested.\<close>

definition ring_add :: "ring_sqe \<Rightarrow> echo_ring \<Rightarrow> echo_ring res" where
  "ring_add r ring =
     (if length (er_sq ring) < ENTRIES_LENGTH then Inr (ring\<lparr>er_sq := er_sq ring @ [r]\<rparr>) else Inl Null_Deref)"

definition set_event_recv :: "i32 \<Rightarrow> nat \<Rightarrow> echo_ring \<Rightarrow> echo_ring res" where
  "set_event_recv sockfd len ring =
     ring_add \<lparr>rq_op = Op_Recv sockfd len,
       rq_data = conn_info_to_data \<lparr>ci_fd = sockfd, ci_event = EVENT_READ\<rparr>\<rparr> ring"

definition set_event_send :: "i32 \<Rightarrow> nat \<Rightarrow> echo_ring \<Rightarrow> echo_ring res" where
  "set_event_send sockfd len ring =
     ring_add \<lparr>rq_op = Op_Send sockfd len,
       rq_data = conn_info_to_data \<lparr>ci_fd = sockfd, ci_event = EVENT_WRITE\<rparr>\<rparr> ring"

definition set_event_accept :: "i32 \<Rightarrow> echo_ring \<Rightarrow> echo_ring res" where
  "set_event_accept sockfd ring =
     ring_add \<lparr>rq_op = Op_Accept sockfd,
       rq_data = conn_info_to_data \<lparr>ci_fd = sockfd, ci_event = EVENT_ACCEPT\<rparr>\<rparr> ring"

text \<open>\<open>init_server\<close>, with the results of \<open>socket\<close> and \<open>bind\<close> as arguments.\<close>

definition init_server :: "i32 \<Rightarrow> (i32 \<Rightarrow> int) \<Rightarrow> i32" where
  "init_server sockfd bind = (if bind sockfd = - 1 then - 1 else sockfd)"

datatype echo_pc = At_Submit | At_Wait

record echo_server =
  ec_pc :: echo_pc
  ec_ring :: echo_ring
  ec_listen :: i32
  ec_buffer :: "u8 list"
  ec_open :: "i32 set"
  ec_got :: "i32 \<Rightarrow> u8 list"
  ec_sent :: "i32 \<Rightarrow> u8 list"

text \<open>\<open>main\<close> up to its loop.\<close>

definition echo_main :: "i32 \<Rightarrow> (i32 \<Rightarrow> int) \<Rightarrow> echo_server res" where
  "echo_main fd bind =
     (let sockfd = init_server fd bind in
      bindE (set_event_accept sockfd \<lparr>er_sq = [], er_kernel = [], er_cq = []\<rparr>) (\<lambda>ring.
      Inr \<lparr>ec_pc = At_Submit, ec_ring = ring, ec_listen = sockfd, ec_buffer = replicate BUFFER_LENGTH 0,
           ec_open = {}, ec_got = (\<lambda>_. []), ec_sent = (\<lambda>_. [])\<rparr>))"

definition with_ring :: "(echo_ring \<Rightarrow> echo_ring res) \<Rightarrow> echo_server \<Rightarrow> echo_server res" where
  "with_ring f s = bindE (f (ec_ring s)) (\<lambda>r. Inr (s\<lparr>ec_ring := r\<rparr>))"

text \<open>The body of the inner loop: one completion.\<close>

definition echo_handle :: "ring_cqe \<Rightarrow> echo_server \<Rightarrow> echo_server res" where
  "echo_handle entries s =
     (let result = data_to_conn_info (rc_data entries); ret = rc_res entries in
      if ci_event result = EVENT_ACCEPT then
        bindE (with_ring (set_event_accept (ec_listen s)) s) (\<lambda>s.
        with_ring (set_event_recv (word_of_int ret) BUFFER_LENGTH) s)
      else if ci_event result = EVENT_READ then
        (if ret = 0 then Inr (s\<lparr>ec_open := ec_open s - {ci_fd result}\<rparr>)
         else if ret > 0 then with_ring (set_event_send (ci_fd result) (nat ret)) s
         else Inr s)
      else if ci_event result = EVENT_WRITE then
        with_ring (set_event_recv (ci_fd result) BUFFER_LENGTH) s
      else Inr s)"

text \<open>One turn of the outer loop: the submission, and what follows a successful wait.\<close>

definition echo_submit :: "echo_server \<Rightarrow> echo_server" where
  "echo_submit s = s\<lparr>ec_pc := At_Wait,
     ec_ring := (ec_ring s)\<lparr>er_sq := [], er_kernel := er_kernel (ec_ring s) @ er_sq (ec_ring s)\<rparr>\<rparr>"

definition echo_batch :: "echo_server \<Rightarrow> echo_server res" where
  "echo_batch s =
     (let cqes = take 128 (er_cq (ec_ring s)) in
      bindE (foldE echo_handle cqes s) (\<lambda>s.
      Inr (s\<lparr>ec_pc := At_Submit, ec_ring := (ec_ring s)\<lparr>er_cq := drop (length cqes) (er_cq (ec_ring s))\<rparr>\<rparr>)))"

text \<open>
  The kernel ends a request. An accepted descriptor is not negative, was not open, and is one
  of those that \<open>fds\<close> admits; data received overwrite the front of the buffer that the request
  names, which is the same for all connections; a send takes its bytes from the buffer as it is
  when the kernel gets to it. With \<open>full\<close> every send
  succeeds and sends all.
\<close>

definition ring_complete :: "ring_sqe \<Rightarrow> int \<Rightarrow> echo_server \<Rightarrow> echo_server" where
  "ring_complete r res s = s\<lparr>ec_ring := (ec_ring s)\<lparr>er_kernel := remove1 r (er_kernel (ec_ring s)),
     er_cq := er_cq (ec_ring s) @ [\<lparr>rc_data = rq_data r, rc_res = res\<rparr>]\<rparr>\<rparr>"

inductive echo_step :: "i32 set \<Rightarrow> bool \<Rightarrow> echo_server \<Rightarrow> echo_server \<Rightarrow> bool" for fds full where
  submit: "ec_pc s = At_Submit \<Longrightarrow> echo_step fds full s (echo_submit s)"
| batch: "ec_pc s = At_Wait \<Longrightarrow> er_cq (ec_ring s) \<noteq> [] \<Longrightarrow> echo_batch s = Inr t \<Longrightarrow> echo_step fds full s t"
| accepted: "r \<in> set (er_kernel (ec_ring s)) \<Longrightarrow> rq_op r = Op_Accept l \<Longrightarrow> fd \<in> fds \<Longrightarrow> fd \<notin> ec_open s \<Longrightarrow>
    0 \<le> sint fd \<Longrightarrow>
    echo_step fds full s (ring_complete r (sint fd) (s\<lparr>ec_open := insert fd (ec_open s)\<rparr>))"
| received: "r \<in> set (er_kernel (ec_ring s)) \<Longrightarrow> rq_op r = Op_Recv fd len \<Longrightarrow> fd \<in> ec_open s \<Longrightarrow>
    bytes \<noteq> [] \<Longrightarrow> length bytes \<le> len \<Longrightarrow>
    echo_step fds full s (ring_complete r (int (length bytes))
      (s\<lparr>ec_buffer := bytes @ drop (length bytes) (ec_buffer s), ec_got := (ec_got s)(fd := ec_got s fd @ bytes)\<rparr>))"
| end_of_file: "r \<in> set (er_kernel (ec_ring s)) \<Longrightarrow> rq_op r = Op_Recv fd len \<Longrightarrow> fd \<in> ec_open s \<Longrightarrow>
    echo_step fds full s (ring_complete r 0 s)"
| sent: "r \<in> set (er_kernel (ec_ring s)) \<Longrightarrow> rq_op r = Op_Send fd len \<Longrightarrow> fd \<in> ec_open s \<Longrightarrow>
    0 < n \<Longrightarrow> n \<le> len \<Longrightarrow> (full \<longrightarrow> n = len) \<Longrightarrow>
    echo_step fds full s (ring_complete r (int n)
      (s\<lparr>ec_sent := (ec_sent s)(fd := ec_sent s fd @ take n (ec_buffer s))\<rparr>))"
| failed: "r \<in> set (er_kernel (ec_ring s)) \<Longrightarrow> e < 0 \<Longrightarrow> - (2 ^ 31) \<le> e \<Longrightarrow>
    (full \<longrightarrow> (\<forall>fd len. rq_op r \<noteq> Op_Send fd len)) \<Longrightarrow>
    echo_step fds full s (ring_complete r e s)"

inductive echo_reach :: "i32 set \<Rightarrow> bool \<Rightarrow> i32 \<Rightarrow> (i32 \<Rightarrow> int) \<Rightarrow> echo_server \<Rightarrow> bool" for fds full fd bind where
  start: "echo_main fd bind = Inr s \<Longrightarrow> echo_reach fds full fd bind s"
| step: "echo_reach fds full fd bind s \<Longrightarrow> echo_step fds full s t \<Longrightarrow> echo_reach fds full fd bind t"

section \<open>The tag of a request\<close>

lemma conn_info_roundtrip [simp]: "data_to_conn_info (conn_info_to_data i) = i"
proof -
  have "ucast (conn_info_to_data i) = ci_fd i"
    by (rule bit_word_eqI) (auto simp: conn_info_to_data_def bit_simps)
  moreover have "ucast (drop_bit 32 (conn_info_to_data i)) = ci_event i"
    by (rule bit_word_eqI) (auto simp: conn_info_to_data_def bit_simps dest: bit_imp_le_length)
  ultimately show ?thesis by (simp add: data_to_conn_info_def)
qed

lemma event_distinct [simp]:
  "EVENT_READ \<noteq> EVENT_ACCEPT" "EVENT_WRITE \<noteq> EVENT_ACCEPT" "EVENT_WRITE \<noteq> EVENT_READ"
  "EVENT_ACCEPT \<noteq> EVENT_READ" "EVENT_ACCEPT \<noteq> EVENT_WRITE" "EVENT_READ \<noteq> EVENT_WRITE"
  by (simp_all add: EVENT_ACCEPT_def EVENT_READ_def EVENT_WRITE_def)

fun op_info :: "ring_op \<Rightarrow> conn_info" where
  "op_info (Op_Accept l) = \<lparr>ci_fd = l, ci_event = EVENT_ACCEPT\<rparr>"
| "op_info (Op_Recv fd len) = \<lparr>ci_fd = fd, ci_event = EVENT_READ\<rparr>"
| "op_info (Op_Send fd len) = \<lparr>ci_fd = fd, ci_event = EVENT_WRITE\<rparr>"

definition rq_tagged :: "ring_sqe \<Rightarrow> bool" where
  "rq_tagged r \<longleftrightarrow> rq_data r = conn_info_to_data (op_info (rq_op r))"

section \<open>Requests per descriptor\<close>

text \<open>
  What is under way for descriptor \<open>fd\<close>: its receives and sends, prepared, with the kernel or
  completed, and an accept that was completed with it. In what follows \<open>cq\<close> are the completions
  that are not handled yet.
\<close>

definition rq_on :: "i32 \<Rightarrow> ring_sqe \<Rightarrow> bool" where
  "rq_on fd r \<longleftrightarrow> (case rq_op r of Op_Accept l \<Rightarrow> False | Op_Recv g len \<Rightarrow> g = fd | Op_Send g len \<Rightarrow> g = fd)"

definition rc_on :: "i32 \<Rightarrow> ring_cqe \<Rightarrow> bool" where
  "rc_on fd c \<longleftrightarrow>
     (let i = data_to_conn_info (rc_data c)
      in if ci_event i = EVENT_ACCEPT then word_of_int (rc_res c) = fd else ci_fd i = fd)"

definition rq_accept :: "ring_sqe \<Rightarrow> bool" where
  "rq_accept r \<longleftrightarrow> (case rq_op r of Op_Accept l \<Rightarrow> True | _ \<Rightarrow> False)"

definition rc_accept :: "ring_cqe \<Rightarrow> bool" where
  "rc_accept c \<longleftrightarrow> ci_event (data_to_conn_info (rc_data c)) = EVENT_ACCEPT"

abbreviation posted :: "echo_server \<Rightarrow> ring_sqe list" where
  "posted s \<equiv> er_sq (ec_ring s) @ er_kernel (ec_ring s)"

definition owed :: "i32 \<Rightarrow> ring_cqe list \<Rightarrow> echo_server \<Rightarrow> nat" where
  "owed fd cq s = length (filter (rq_on fd) (posted s)) + length (filter (rc_on fd) cq)"

definition accepts :: "ring_cqe list \<Rightarrow> echo_server \<Rightarrow> nat" where
  "accepts cq s = length (filter rq_accept (posted s)) + length (filter rc_accept cq)"

definition echo_inv :: "ring_cqe list \<Rightarrow> echo_server \<Rightarrow> bool" where
  "echo_inv cq s \<longleftrightarrow> (\<forall>r \<in> set (posted s). rq_tagged r) \<and> accepts cq s = 1 \<and>
     (\<forall>fd. 0 \<le> sint fd \<longrightarrow> owed fd cq s \<le> (if fd \<in> ec_open s then 1 else 0))"

lemma length_filter_remove1:
  "r \<in> set xs \<Longrightarrow> length (filter P (remove1 r xs)) + (if P r then 1 else 0) = length (filter P xs)"
  by (induction xs) auto

lemmas ring_op_defs = set_event_accept_def set_event_recv_def set_event_send_def ring_add_def with_ring_def

lemma echo_handle_total:
  assumes "length (er_sq (ec_ring s)) + 2 \<le> ENTRIES_LENGTH"
  shows "\<exists>t. echo_handle c s = Inr t \<and> er_cq (ec_ring t) = er_cq (ec_ring s) \<and>
    length (er_sq (ec_ring t)) \<le> length (er_sq (ec_ring s)) + 2"
  using assms by (auto simp: echo_handle_def Let_def ring_op_defs)

lemma echo_handle_keeps:
  "echo_handle c s = Inr t \<Longrightarrow> er_cq (ec_ring t) = er_cq (ec_ring s) \<and> ec_listen t = ec_listen s \<and>
     ec_buffer t = ec_buffer s \<and> ec_got t = ec_got s \<and> ec_sent t = ec_sent s \<and> ec_open t \<subseteq> ec_open s"
  by (auto simp: echo_handle_def Let_def ring_op_defs split: if_splits)

lemma echo_handle_inv:
  assumes "echo_inv (c # cq) s" "echo_handle c s = Inr t"
  shows "echo_inv cq t"
proof -
  have "\<forall>r \<in> set (posted t). rq_tagged r" "accepts cq t = 1"
    using assms by (auto simp: echo_inv_def echo_handle_def Let_def ring_op_defs rq_tagged_def accepts_def
      rq_accept_def rc_accept_def split: if_splits)
  moreover have "owed fd cq t \<le> (if fd \<in> ec_open t then 1 else 0)" if "0 \<le> sint fd" for fd
  proof -
    have "owed fd (c # cq) s \<le> (if fd \<in> ec_open s then 1 else 0)" using assms(1) that by (simp add: echo_inv_def)
    with assms(2) show ?thesis
      by (auto simp: echo_handle_def Let_def ring_op_defs owed_def rq_on_def rc_on_def split: if_splits)
  qed
  ultimately show ?thesis by (simp add: echo_inv_def)
qed

lemma foldE_handle:
  assumes "length (er_sq (ec_ring s)) + 2 * length cqes \<le> ENTRIES_LENGTH"
  shows "\<exists>t. foldE echo_handle cqes s = Inr t \<and> er_cq (ec_ring t) = er_cq (ec_ring s) \<and>
    length (er_sq (ec_ring t)) \<le> length (er_sq (ec_ring s)) + 2 * length cqes"
  using assms
proof (induction cqes arbitrary: s)
  case (Cons c cqes)
  then have "length (er_sq (ec_ring s)) + 2 \<le> ENTRIES_LENGTH" by simp
  from echo_handle_total [OF this] obtain s' where s': "echo_handle c s = Inr s'"
      "er_cq (ec_ring s') = er_cq (ec_ring s)" "length (er_sq (ec_ring s')) \<le> length (er_sq (ec_ring s)) + 2"
    by blast
  then have "length (er_sq (ec_ring s')) + 2 * length cqes \<le> ENTRIES_LENGTH" using Cons.prems by simp
  from Cons.IH [OF this] s' show ?case by force
qed simp

lemma foldE_handle_inv:
  "echo_inv (cqes @ cq) s \<Longrightarrow> foldE echo_handle cqes s = Inr t \<Longrightarrow> echo_inv cq t"
  by (induction cqes arbitrary: s) (auto dest: echo_handle_inv)

definition echo_ok :: "echo_server \<Rightarrow> bool" where
  "echo_ok s \<longleftrightarrow> echo_inv (er_cq (ec_ring s)) s \<and>
     length (er_sq (ec_ring s)) \<le> (case ec_pc s of At_Submit \<Rightarrow> 256 | At_Wait \<Rightarrow> 0)"

lemma echo_batch_total:
  assumes "echo_ok s" "ec_pc s = At_Wait"
  shows "\<exists>t. echo_batch s = Inr t"
  using assms foldE_handle [of s "take 128 (er_cq (ec_ring s))"]
  by (force simp: echo_ok_def echo_batch_def ENTRIES_LENGTH_def)

lemma echo_inv_frame:
  assumes "echo_inv cq s" "er_sq (ec_ring t) = er_sq (ec_ring s)" "er_kernel (ec_ring t) = er_kernel (ec_ring s)"
    "ec_open t = ec_open s"
  shows "echo_inv cq t"
  using assms by (simp add: echo_inv_def owed_def accepts_def)

lemma drop_length_take: "drop (length (take n xs)) xs = drop n xs"
  by (cases "n \<le> length xs") simp_all

lemma echo_batch_unfold:
  assumes "length (er_sq (ec_ring s)) = 0" "echo_batch s = Inr t"
  obtains u where "foldE echo_handle (take 128 (er_cq (ec_ring s))) s = Inr u"
    "length (er_sq (ec_ring u)) \<le> 256"
    "t = u\<lparr>ec_pc := At_Submit, ec_ring := (ec_ring u)\<lparr>er_cq := drop 128 (er_cq (ec_ring s))\<rparr>\<rparr>"
proof -
  let ?cs = "take 128 (er_cq (ec_ring s))"
  have "length (er_sq (ec_ring s)) + 2 * length ?cs \<le> ENTRIES_LENGTH" using assms(1) by (simp add: ENTRIES_LENGTH_def)
  from foldE_handle [OF this] obtain u where u: "foldE echo_handle ?cs s = Inr u" "er_cq (ec_ring u) = er_cq (ec_ring s)"
      "length (er_sq (ec_ring u)) \<le> length (er_sq (ec_ring s)) + 2 * length ?cs"
    by blast
  moreover have "length (er_sq (ec_ring u)) \<le> 256" using u(3) assms(1) by simp
  ultimately show thesis using that assms(2) unfolding echo_batch_def Let_def by (simp add: drop_length_take del: length_take)
qed

lemma echo_batch_ok:
  assumes "echo_ok s" "ec_pc s = At_Wait" "echo_batch s = Inr t"
  shows "echo_ok t"
proof -
  have "length (er_sq (ec_ring s)) = 0" using assms(1,2) by (simp add: echo_ok_def)
  from echo_batch_unfold [OF this assms(3)] obtain u where
    u: "foldE echo_handle (take 128 (er_cq (ec_ring s))) s = Inr u" "length (er_sq (ec_ring u)) \<le> 256"
    and t: "t = u\<lparr>ec_pc := At_Submit, ec_ring := (ec_ring u)\<lparr>er_cq := drop 128 (er_cq (ec_ring s))\<rparr>\<rparr>" .
  have "echo_inv (take 128 (er_cq (ec_ring s)) @ drop 128 (er_cq (ec_ring s))) s"
    using assms(1) by (simp add: echo_ok_def)
  note foldE_handle_inv [OF this u(1)]
  from echo_inv_frame [OF this, of t] have "echo_inv (er_cq (ec_ring t)) t" by (simp add: t)
  then show ?thesis using u(2) by (simp add: echo_ok_def t)
qed

lemma echo_submit_ok:
  assumes "echo_ok s"
  shows "echo_ok (echo_submit s)"
proof -
  let ?t = "echo_submit s"
  have "owed fd cq ?t = owed fd cq s" "accepts cq ?t = accepts cq s" for fd cq
    by (simp_all add: owed_def accepts_def echo_submit_def)
  moreover have "set (posted ?t) = set (posted s)" "er_cq (ec_ring ?t) = er_cq (ec_ring s)" "ec_open ?t = ec_open s"
    "er_sq (ec_ring ?t) = []"
    by (auto simp: echo_submit_def)
  ultimately show ?thesis using assms by (simp add: echo_ok_def echo_inv_def)
qed

text \<open>A completion moves a request from the kernel's list to the completions.\<close>

lemma ring_complete_ok:
  assumes ok: "echo_ok s" and r: "r \<in> set (er_kernel (ec_ring s))"
    and op: "ec_open s \<subseteq> ec_open s'" "ec_ring s' = ec_ring s" "ec_pc s' = ec_pc s"
    and acc: "rq_accept r \<Longrightarrow> 0 \<le> sint (word_of_int e :: i32) \<Longrightarrow> (word_of_int e :: i32) \<in> ec_open s' - ec_open s"
  shows "echo_ok (ring_complete r e s')"
proof -
  let ?c = "\<lparr>rc_data = rq_data r, rc_res = e\<rparr>" and ?t = "ring_complete r e s'" and ?cq = "er_cq (ec_ring s)"
  have inv: "echo_inv ?cq s" and tag: "rq_tagged r" using ok r by (auto simp: echo_ok_def echo_inv_def)
  have posted: "posted ?t = er_sq (ec_ring s) @ remove1 r (er_kernel (ec_ring s))"
    using op by (simp add: ring_complete_def)
  note cnt = length_filter_remove1 [OF r]
  have "\<forall>q \<in> set (posted ?t). rq_tagged q" using inv posted by (auto simp: echo_inv_def dest: notin_set_remove1)
  moreover have "accepts (?cq @ [?c]) ?t = accepts ?cq s"
  proof -
    have "rc_accept ?c \<longleftrightarrow> rq_accept r" using tag by (simp add: rq_accept_def rc_accept_def rq_tagged_def split: ring_op.split)
    then show ?thesis using cnt [of rq_accept] by (simp add: accepts_def posted split: if_splits)
  qed
  moreover have "owed fd (?cq @ [?c]) ?t \<le> (if fd \<in> ec_open ?t then 1 else 0)" if fd: "0 \<le> sint fd" for fd
  proof -
    have old: "owed fd ?cq s \<le> (if fd \<in> ec_open s then 1 else 0)" using inv fd by (simp add: echo_inv_def)
    have o: "ec_open ?t = ec_open s'" by (simp add: ring_complete_def)
    have new: "owed fd (?cq @ [?c]) ?t + (if rq_on fd r then 1 else 0) = owed fd ?cq s + (if rc_on fd ?c then 1 else 0)"
      using cnt [of "rq_on fd"] unfolding owed_def posted by simp
    show ?thesis
    proof (cases "rq_accept r")
      case True
      then have "\<not> rq_on fd r" "rc_on fd ?c \<longleftrightarrow> word_of_int e = fd"
        using tag by (simp_all add: rq_on_def rq_accept_def rc_on_def rq_tagged_def split: ring_op.splits)
      then show ?thesis using old new acc [OF True] fd op(1) by (auto simp: o split: if_splits)
    next
      case False
      then have "rc_on fd ?c \<longleftrightarrow> rq_on fd r"
        using tag by (auto simp: rq_on_def rq_accept_def rc_on_def rq_tagged_def split: ring_op.splits)
      then show ?thesis using old new op(1) by (auto simp: o split: if_splits)
    qed
  qed
  ultimately have "echo_inv (er_cq (ec_ring ?t)) ?t" using op inv by (simp add: echo_inv_def ring_complete_def)
  then show ?thesis using ok op by (simp add: echo_ok_def ring_complete_def)
qed

lemma sint_negative: "- (2 ^ 31) \<le> e \<Longrightarrow> e < 0 \<Longrightarrow> sint (word_of_int e :: i32) = e"
  by (simp add: sint_sbintrunc' signed_take_bit_int_eq_self)

lemma echo_step_ok:
  assumes "echo_step fds full s t" "echo_ok s"
  shows "echo_ok t"
  using assms(1)
proof cases
  case submit
  with assms(2) show ?thesis by (simp add: echo_submit_ok)
next
  case batch
  with assms(2) show ?thesis by (simp add: echo_batch_ok)
next
  case (accepted r l fd)
  with assms(2) show ?thesis by (auto intro!: ring_complete_ok)
next
  case (failed r e)
  with assms(2) show ?thesis by (auto intro!: ring_complete_ok simp: sint_negative)
qed (use assms(2) in \<open>auto intro!: ring_complete_ok simp: rq_accept_def\<close>)

lemma echo_main_ok: "echo_main fd bind = Inr s \<Longrightarrow> echo_ok s"
  by (auto simp: echo_main_def Let_def ring_op_defs ENTRIES_LENGTH_def echo_ok_def echo_inv_def owed_def accepts_def
      rq_tagged_def rq_accept_def rq_on_def)

lemma echo_reach_ok: "echo_reach fds full fd bind s \<Longrightarrow> echo_ok s"
  by (induction rule: echo_reach.induct) (auto intro: echo_main_ok echo_step_ok)

section \<open>Data of a single connection\<close>

text \<open>
  \<open>sending c n\<close>: there are \<open>n\<close> bytes in the buffer that came from a peer and are not sent back
  yet, either with a send under way or with the completion of their receive waiting.
\<close>

definition rq_sends :: "ring_sqe \<Rightarrow> (i32 \<times> nat) option" where
  "rq_sends r = (case rq_op r of Op_Send fd n \<Rightarrow> Some (fd, n) | _ \<Rightarrow> None)"

definition rc_sends :: "ring_cqe \<Rightarrow> (i32 \<times> nat) option" where
  "rc_sends c = (let i = data_to_conn_info (rc_data c)
     in if ci_event i = EVENT_READ \<and> rc_res c > 0 then Some (ci_fd i, nat (rc_res c)) else None)"

definition to_send :: "ring_cqe list \<Rightarrow> echo_server \<Rightarrow> (i32 \<times> nat) set" where
  "to_send cq s = {x. Some x \<in> rq_sends ` set (posted s) \<union> rc_sends ` set cq}"

definition echo_data :: "i32 \<Rightarrow> ring_cqe list \<Rightarrow> echo_server \<Rightarrow> bool" where
  "echo_data c cq s \<longleftrightarrow> ec_open s \<subseteq> {c} \<and>
     (\<forall>(fd, n) \<in> to_send cq s. fd = c \<and> ec_got s c = ec_sent s c @ take n (ec_buffer s)) \<and>
     (to_send cq s = {} \<longrightarrow> ec_got s c = ec_sent s c)"

lemma echo_handle_to_send:
  "echo_handle c s = Inr t \<Longrightarrow> to_send cq t = to_send (c # cq) s"
  by (auto simp: echo_handle_def Let_def ring_op_defs to_send_def rq_sends_def rc_sends_def split: if_splits)

lemma foldE_handle_data:
  "echo_data c (cqes @ cq) s \<Longrightarrow> foldE echo_handle cqes s = Inr t \<Longrightarrow> echo_data c cq t"
proof (induction cqes arbitrary: s)
  case (Cons x cqes)
  then obtain u where u: "echo_handle x s = Inr u" "foldE echo_handle cqes u = Inr t" by auto
  have "echo_data c (cqes @ cq) u"
    using Cons.prems(1) echo_handle_keeps [OF u(1)] echo_handle_to_send [OF u(1), of "cqes @ cq"]
    by (auto simp: echo_data_def)
  with u(2) show ?case by (rule Cons.IH [rotated])
qed simp

lemma to_send_complete_neutral:
  assumes "r \<in> set (er_kernel (ec_ring s))" "ec_ring s' = ec_ring s" "rq_sends r = None"
    "rc_sends \<lparr>rc_data = rq_data r, rc_res = e\<rparr> = None"
  shows "to_send (er_cq (ec_ring (ring_complete r e s'))) (ring_complete r e s') = to_send (er_cq (ec_ring s)) s"
proof -
  have "rq_sends ` set (remove1 r xs) \<union> {None} = rq_sends ` set xs \<union> {None}" for xs
    using assms(3) by (induction xs) auto
  then have "Some x \<in> rq_sends ` set (remove1 r xs) \<longleftrightarrow> Some x \<in> rq_sends ` set xs" for x xs by blast
  then show ?thesis using assms(2,4) by (auto simp: to_send_def ring_complete_def image_Un)
qed

text \<open>The request that has just completed is the only one under way for its descriptor.\<close>

lemma complete_alone:
  assumes ok: "echo_ok (ring_complete r e s')" and "ec_ring s' = ec_ring s"
    and on: "rc_on c \<lparr>rc_data = rq_data r, rc_res = e\<rparr>" "0 \<le> sint c"
  shows "q \<in> set (posted s) \<Longrightarrow> rq_on c q \<Longrightarrow> q = r" "x \<in> set (er_cq (ec_ring s)) \<Longrightarrow> \<not> rc_on c x"
    "q \<in> set (posted (ring_complete r e s')) \<Longrightarrow> \<not> rq_on c q"
proof -
  let ?t = "ring_complete r e s'"
  have "owed c (er_cq (ec_ring s) @ [\<lparr>rc_data = rq_data r, rc_res = e\<rparr>]) ?t \<le> 1"
    using ok on(2) assms(2) by (auto simp: echo_ok_def echo_inv_def ring_complete_def split: if_splits)
  then have none: "filter (rq_on c) (posted ?t) = []" "filter (rc_on c) (er_cq (ec_ring s)) = []"
    using on(1) by (auto simp: owed_def)
  have "set (posted s) \<subseteq> insert r (set (posted ?t))"
    using assms(2) by (auto simp: ring_complete_def in_set_remove1)
  then show "q \<in> set (posted s) \<Longrightarrow> rq_on c q \<Longrightarrow> q = r" using none(1) by (auto simp: filter_empty_conv)
  show "x \<in> set (er_cq (ec_ring s)) \<Longrightarrow> \<not> rc_on c x" "q \<in> set (posted ?t) \<Longrightarrow> \<not> rq_on c q"
    using none by (auto simp: filter_empty_conv)
qed

lemma rq_sends_on: "rq_sends r = Some (fd, n) \<Longrightarrow> rq_on fd r"
  by (auto simp: rq_sends_def rq_on_def split: ring_op.splits)

lemma rc_sends_on: "rc_sends x = Some (fd, n) \<Longrightarrow> rc_on fd x"
  by (auto simp: rc_sends_def rc_on_def Let_def split: if_splits)

lemma in_to_send:
  "y \<in> to_send cq s \<longleftrightarrow> (\<exists>q \<in> set (posted s). rq_sends q = Some y) \<or> (\<exists>x \<in> set cq. rc_sends x = Some y)"
  unfolding to_send_def by (simp add: image_iff) metis

lemma to_send_complete:
  assumes ok: "echo_ok (ring_complete r e s')" and eq: "ec_ring s' = ec_ring s" and "0 \<le> sint c"
    and on: "rc_on c \<lparr>rc_data = rq_data r, rc_res = e\<rparr>"
    and c: "\<forall>(fd, n) \<in> to_send (er_cq (ec_ring s)) s. fd = c"
  shows "to_send (er_cq (ec_ring (ring_complete r e s'))) (ring_complete r e s') =
      {y. rc_sends \<lparr>rc_data = rq_data r, rc_res = e\<rparr> = Some y}"
    and "to_send (er_cq (ec_ring s)) s \<subseteq> {y. rq_sends r = Some y}"
proof -
  note alone = complete_alone [OF ok eq on \<open>0 \<le> sint c\<close>]
  have sub: "set (posted (ring_complete r e s')) \<subseteq> set (posted s)"
    using eq by (auto simp: ring_complete_def dest: notin_set_remove1)
  have cq: "er_cq (ec_ring (ring_complete r e s')) = er_cq (ec_ring s) @ [\<lparr>rc_data = rq_data r, rc_res = e\<rparr>]"
    using eq by (simp add: ring_complete_def)
  have no_cq: "rc_sends x \<noteq> Some y" if "x \<in> set (er_cq (ec_ring s))" for x y
  proof (cases y)
    case (Pair fd n)
    then show ?thesis using c that alone(2) [OF that] rc_sends_on [of x fd n] by (force simp: to_send_def)
  qed
  have no_posted: "rq_sends q \<noteq> Some y" if "q \<in> set (posted (ring_complete r e s'))" for q y
  proof (cases y)
    case (Pair fd n)
    have "q \<in> set (posted s)" using that sub by blast
    with Pair show ?thesis using c alone(3) [OF that] rq_sends_on [of q fd n] by (force simp: to_send_def)
  qed
  show "to_send (er_cq (ec_ring (ring_complete r e s'))) (ring_complete r e s') =
      {y. rc_sends \<lparr>rc_data = rq_data r, rc_res = e\<rparr> = Some y}"
    using no_cq no_posted by (intro set_eqI) (simp only: in_to_send cq set_append list.set Un_iff mem_Collect_eq, blast)
  show "to_send (er_cq (ec_ring s)) s \<subseteq> {y. rq_sends r = Some y}"
  proof
    fix y
    assume y: "y \<in> to_send (er_cq (ec_ring s)) s"
    obtain n where n: "y = (c, n)" using c y by (cases y) auto
    from y no_cq obtain q where q: "q \<in> set (posted s)" "rq_sends q = Some (c, n)"
      using n unfolding in_to_send by blast
    with alone(1) [OF q(1)] rq_sends_on [OF q(2)] n show "y \<in> {y. rq_sends r = Some y}" by simp
  qed
qed

lemma echo_data_frame:
  assumes "echo_data c cq s" "to_send cq' t = to_send cq s" "ec_open t \<subseteq> insert c (ec_open s)"
    "ec_got t = ec_got s" "ec_sent t = ec_sent s" "ec_buffer t = ec_buffer s"
  shows "echo_data c cq' t"
  using assms by (auto simp: echo_data_def)

lemma echo_data_on: "echo_data c cq s \<Longrightarrow> \<forall>(fd, n) \<in> to_send cq s. fd = c"
  by (auto simp: echo_data_def)

lemma received_data:
  assumes ok: "echo_ok (ring_complete r (int (length bytes)) s')" and d: "echo_data c (er_cq (ec_ring s)) s"
    and r: "rq_tagged r" "rq_op r = Op_Recv c len" "bytes \<noteq> []" "0 \<le> sint c"
    and s': "s' = s\<lparr>ec_buffer := bytes @ drop (length bytes) (ec_buffer s), ec_got := (ec_got s)(c := ec_got s c @ bytes)\<rparr>"
  shows "echo_data c (er_cq (ec_ring (ring_complete r (int (length bytes)) s'))) (ring_complete r (int (length bytes)) s')"
proof -
  let ?x = "\<lparr>rc_data = rq_data r, rc_res = int (length bytes)\<rparr>"
  have x: "rc_on c ?x" "rc_sends ?x = Some (c, length bytes)" "rq_sends r = None"
    using r by (simp_all add: rc_on_def rc_sends_def rq_sends_def rq_tagged_def)
  have eq: "ec_ring s' = ec_ring s" by (simp add: s')
  note ts = to_send_complete [OF ok eq r(4) x(1) echo_data_on [OF d]]
  have "to_send (er_cq (ec_ring s)) s = {}" using ts(2) x(3) by auto
  then have "ec_got s c = ec_sent s c" using d by (simp add: echo_data_def)
  moreover have "ec_open s \<subseteq> {c}" using d by (simp add: echo_data_def)
  ultimately show ?thesis unfolding echo_data_def ts(1) x(2) by (simp add: ring_complete_def s')
qed

lemma sent_data:
  assumes ok: "echo_ok (ring_complete r (int n) s')" and d: "echo_data c (er_cq (ec_ring s)) s"
    and r: "rq_tagged r" "rq_op r = Op_Send c n" "r \<in> set (er_kernel (ec_ring s))" "0 \<le> sint c"
    and s': "s' = s\<lparr>ec_sent := (ec_sent s)(c := ec_sent s c @ take n (ec_buffer s))\<rparr>"
  shows "echo_data c (er_cq (ec_ring (ring_complete r (int n) s'))) (ring_complete r (int n) s')"
proof -
  let ?x = "\<lparr>rc_data = rq_data r, rc_res = int n\<rparr>"
  have x: "rc_on c ?x" "rc_sends ?x = None" "rq_sends r = Some (c, n)"
    using r by (simp_all add: rc_on_def rc_sends_def rq_sends_def rq_tagged_def)
  have eq: "ec_ring s' = ec_ring s" by (simp add: s')
  note ts = to_send_complete [OF ok eq r(4) x(1) echo_data_on [OF d]]
  have "(c, n) \<in> to_send (er_cq (ec_ring s)) s" using x(3) r(3) unfolding in_to_send by auto
  then have "ec_got s c = ec_sent s c @ take n (ec_buffer s)" using d by (auto simp: echo_data_def)
  moreover have "ec_open s \<subseteq> {c}" using d by (simp add: echo_data_def)
  ultimately show ?thesis unfolding echo_data_def ts(1) x(2) by (simp add: ring_complete_def s')
qed

lemma echo_ok_tagged: "echo_ok s \<Longrightarrow> r \<in> set (er_kernel (ec_ring s)) \<Longrightarrow> rq_tagged r"
  by (simp add: echo_ok_def echo_inv_def)

lemma echo_step_data:
  assumes st: "echo_step {c} True s t" and ok: "echo_ok s" and d: "echo_data c (er_cq (ec_ring s)) s" and c: "0 \<le> sint c"
  shows "echo_data c (er_cq (ec_ring t)) t"
proof -
  have okt: "echo_ok t" by (rule echo_step_ok [OF st ok])
  have o: "ec_open s \<subseteq> {c}" using d by (simp add: echo_data_def)
  from st show ?thesis
  proof cases
    case submit
    then show ?thesis
      by (intro echo_data_frame [OF d]) (auto simp: echo_submit_def to_send_def)
  next
    case batch
    then have "length (er_sq (ec_ring s)) = 0" using ok by (simp add: echo_ok_def)
    from echo_batch_unfold [OF this batch(3)] obtain u where
      u: "foldE echo_handle (take 128 (er_cq (ec_ring s))) s = Inr u"
      and t: "t = u\<lparr>ec_pc := At_Submit, ec_ring := (ec_ring u)\<lparr>er_cq := drop 128 (er_cq (ec_ring s))\<rparr>\<rparr>" .
    have "echo_data c (take 128 (er_cq (ec_ring s)) @ drop 128 (er_cq (ec_ring s))) s" using d by simp
    from foldE_handle_data [OF this u] show ?thesis
      by (rule echo_data_frame) (auto simp: t to_send_def)
  next
    case (accepted r l fd)
    with echo_ok_tagged [OF ok] show ?thesis
      using to_send_complete_neutral [of r s "s\<lparr>ec_open := insert fd (ec_open s)\<rparr>" "sint fd"]
      by (intro echo_data_frame [OF d])
        (auto simp: rq_sends_def rc_sends_def rq_tagged_def ring_complete_def)
  next
    case (received r fd len bytes)
    with o okt d c echo_ok_tagged [OF ok] show ?thesis by (auto intro!: received_data)
  next
    case (end_of_file r fd len)
    with echo_ok_tagged [OF ok] show ?thesis
      using to_send_complete_neutral [of r s s 0]
      by (intro echo_data_frame [OF d]) (auto simp: rq_sends_def rc_sends_def rq_tagged_def ring_complete_def)
  next
    case (sent r fd len n)
    with o okt d c echo_ok_tagged [OF ok] show ?thesis by (auto intro!: sent_data)
  next
    case (failed r e)
    with echo_ok_tagged [OF ok] show ?thesis
      using to_send_complete_neutral [of r s s e]
      by (intro echo_data_frame [OF d])
        (auto simp: rq_sends_def rc_sends_def ring_complete_def split: ring_op.splits)
  qed
qed

lemma echo_main_data: "echo_main fd bind = Inr s \<Longrightarrow> echo_data c (er_cq (ec_ring s)) s"
  by (auto simp: echo_main_def Let_def ring_op_defs ENTRIES_LENGTH_def echo_data_def to_send_def rq_sends_def)

lemma echo_reach_data:
  assumes "echo_reach {c} True fd bind s" "0 \<le> sint c"
  shows "echo_data c (er_cq (ec_ring s)) s"
  using assms(1)
proof induction
  case (step s t)
  then show ?case using echo_step_data echo_reach_ok assms(2) by blast
qed (rule echo_main_data)

section \<open>Runs\<close>

text \<open>A turn of the loop, and completions of the request of one connection, on the states of a run.\<close>

definition run_turn :: "echo_server \<Rightarrow> echo_server" where
  "run_turn s = echo_submit (projr (echo_batch s))"

definition sqe_for :: "ring_op \<Rightarrow> ring_sqe" where
  "sqe_for op = \<lparr>rq_op = op, rq_data = conn_info_to_data (op_info op)\<rparr>"

definition run_accept :: "i32 \<Rightarrow> echo_server \<Rightarrow> echo_server" where
  "run_accept fd s = ring_complete (sqe_for (Op_Accept 3)) (sint fd) (s\<lparr>ec_open := insert fd (ec_open s)\<rparr>)"

definition run_recv :: "i32 \<Rightarrow> u8 \<Rightarrow> echo_server \<Rightarrow> echo_server" where
  "run_recv fd b s = ring_complete (sqe_for (Op_Recv fd BUFFER_LENGTH)) 1
     (s\<lparr>ec_buffer := [b] @ drop 1 (ec_buffer s), ec_got := (ec_got s)(fd := ec_got s fd @ [b])\<rparr>)"

definition run_send :: "i32 \<Rightarrow> echo_server \<Rightarrow> echo_server" where
  "run_send fd s = ring_complete (sqe_for (Op_Send fd 1)) 1
     (s\<lparr>ec_sent := (ec_sent s)(fd := ec_sent s fd @ take 1 (ec_buffer s))\<rparr>)"

definition run_start :: echo_server where
  "run_start = echo_submit (projr (echo_main 3 (\<lambda>_. 0)))"

abbreviation demo_reach :: "i32 set \<Rightarrow> echo_server \<Rightarrow> bool" where
  "demo_reach fds \<equiv> echo_reach fds True 3 (\<lambda>_. 0)"

lemma run_start_reach: "demo_reach fds run_start"
  by (rule echo_reach.step [OF echo_reach.start])
    (auto simp: run_start_def echo_main_def Let_def ring_op_defs ENTRIES_LENGTH_def intro!: echo_step.submit)

lemma run_turn_reach:
  assumes "demo_reach fds s" "ec_pc s = At_Wait \<and> er_cq (ec_ring s) \<noteq> []"
  shows "demo_reach fds (run_turn s)"
proof -
  obtain t where t: "echo_batch s = Inr t" using echo_batch_total [OF echo_reach_ok [OF assms(1)]] assms(2) by blast
  have "ec_pc t = At_Submit" using t by (auto simp: echo_batch_def Let_def)
  moreover have "demo_reach fds t" using assms t by (blast intro: echo_reach.step echo_step.batch)
  ultimately show ?thesis unfolding run_turn_def t by (auto intro: echo_reach.step echo_step.submit)
qed

lemma run_accept_reach:
  assumes "demo_reach fds s" "sqe_for (Op_Accept 3) \<in> set (er_kernel (ec_ring s)) \<and> fd \<notin> ec_open s \<and> 0 \<le> sint fd" "fd \<in> fds"
  shows "demo_reach fds (run_accept fd s)"
  using assms unfolding run_accept_def
  by (intro echo_reach.step [OF assms(1)] echo_step.accepted [where l = 3]) (auto simp: sqe_for_def)

lemma run_recv_reach:
  assumes "demo_reach fds s" "sqe_for (Op_Recv fd BUFFER_LENGTH) \<in> set (er_kernel (ec_ring s)) \<and> fd \<in> ec_open s"
  shows "demo_reach fds (run_recv fd b s)"
  using assms echo_step.received [of "sqe_for (Op_Recv fd BUFFER_LENGTH)" s fd BUFFER_LENGTH "[b]"]
  unfolding run_recv_def by (intro echo_reach.step [OF assms(1)]) (auto simp: sqe_for_def BUFFER_LENGTH_def)

lemma run_send_reach:
  assumes "demo_reach fds s" "sqe_for (Op_Send fd 1) \<in> set (er_kernel (ec_ring s)) \<and> fd \<in> ec_open s"
  shows "demo_reach fds (run_send fd s)"
  using assms echo_step.sent [of "sqe_for (Op_Send fd 1)" s fd 1 1]
  unfolding run_send_def by (intro echo_reach.step [OF assms(1)]) (auto simp: sqe_for_def)

definition demo_echo :: echo_server where
  "demo_echo = run_send 5 (run_turn (run_recv 5 7 (run_turn (run_accept 5 run_start))))"

lemma demo_echo_reach: "demo_reach {5} demo_echo"
  unfolding demo_echo_def
  by (intro run_send_reach run_turn_reach run_recv_reach run_accept_reach run_start_reach; (code_simp | simp))

section \<open>Properties\<close>

text \<open>
  C28. The server's bookkeeping is sound for any clients and any results of the kernel: exactly one
  accept is under way, at most one receive or send is under way for a connection and none for a
  descriptor that is not open, so that nothing is posted on a closed one; every request that is
  prepared or with the kernel carries the descriptor and the kind of its operation as user data,
  as the loop will read them from the completion; and no turn of the loop runs out of ring entries.
\<close>

theorem ring_echo_one_request:
  assumes "echo_reach fds full lfd bind s"
  shows "accepts (er_cq (ec_ring s)) s = 1 \<and>
    (\<forall>fd. 0 \<le> sint fd \<longrightarrow> owed fd (er_cq (ec_ring s)) s \<le> (if fd \<in> ec_open s then 1 else 0)) \<and>
    (\<forall>r \<in> set (er_sq (ec_ring s) @ er_kernel (ec_ring s)). data_to_conn_info (rq_data r) =
       (case rq_op r of
          Op_Accept l \<Rightarrow> \<lparr>ci_fd = l, ci_event = EVENT_ACCEPT\<rparr>
        | Op_Recv fd len \<Rightarrow> \<lparr>ci_fd = fd, ci_event = EVENT_READ\<rparr>
        | Op_Send fd len \<Rightarrow> \<lparr>ci_fd = fd, ci_event = EVENT_WRITE\<rparr>)) \<and>
    (ec_pc s = At_Wait \<longrightarrow> (\<exists>t. echo_batch s = Inr t))"
proof -
  have ok: "echo_ok s" by (rule echo_reach_ok [OF assms])
  then have inv: "echo_inv (er_cq (ec_ring s)) s" by (simp add: echo_ok_def)
  then have "\<forall>r \<in> set (posted s). rq_tagged r" unfolding echo_inv_def by blast
  then have "\<forall>r \<in> set (posted s). data_to_conn_info (rq_data r) =
      (case rq_op r of Op_Accept l \<Rightarrow> \<lparr>ci_fd = l, ci_event = EVENT_ACCEPT\<rparr>
       | Op_Recv fd len \<Rightarrow> \<lparr>ci_fd = fd, ci_event = EVENT_READ\<rparr>
       | Op_Send fd len \<Rightarrow> \<lparr>ci_fd = fd, ci_event = EVENT_WRITE\<rparr>)"
    by (auto simp: rq_tagged_def split: ring_op.split)
  with inv show ?thesis using echo_batch_total [OF ok] unfolding echo_inv_def by blast
qed

theorem ring_echo_one_request_witness:
  "accepts (er_cq (ec_ring demo_echo)) demo_echo = 1 \<and> owed 5 (er_cq (ec_ring demo_echo)) demo_echo \<le> 1 \<and>
   (\<exists>t. echo_batch demo_echo = Inr t)"
proof -
  have at: "5 \<in> ec_open demo_echo" "ec_pc demo_echo = At_Wait" "0 \<le> sint (5 :: i32)" by code_simp+
  note one = ring_echo_one_request [OF demo_echo_reach]
  have "owed 5 (er_cq (ec_ring demo_echo)) demo_echo \<le> (if 5 \<in> ec_open demo_echo then 1 else 0)"
    using conjunct1 [OF conjunct2 [OF one]] at(3) by (elim allE impE)
  moreover have "\<exists>t. echo_batch demo_echo = Inr t"
    using conjunct2 [OF conjunct2 [OF conjunct2 [OF one]]] at(2) by (elim impE)
  ultimately show ?thesis using conjunct1 [OF one] at(1) by simp
qed

text \<open>
  With one connection, and sends that succeed, the server echoes: what the client got back is
  a prefix of what it sent, and all of it whenever nothing waits to be sent.
\<close>

theorem ring_echo_single_client:
  assumes "echo_reach {c} True lfd bind s" "0 \<le> sint c"
  shows "\<exists>rest. ec_got s c = ec_sent s c @ rest \<and> (to_send (er_cq (ec_ring s)) s = {} \<longrightarrow> rest = [])"
proof (cases "to_send (er_cq (ec_ring s)) s = {}")
  case False
  then show ?thesis using echo_reach_data [OF assms] unfolding echo_data_def by blast
qed (use echo_reach_data [OF assms] in \<open>auto simp: echo_data_def\<close>)

theorem ring_echo_single_client_witness:
  "ec_got demo_echo 5 = [7] \<and> (\<exists>rest. ec_got demo_echo 5 = ec_sent demo_echo 5 @ rest)"
proof -
  have "ec_got demo_echo 5 = [7]" "0 \<le> sint (5 :: i32)" by code_simp+
  then show ?thesis using ring_echo_single_client [OF demo_echo_reach] by blast
qed

text \<open>
  C29. All connections share one buffer, so that two clients get each other's data: client 5 sends
  the byte 1, client 6 the byte 2 before the first is sent back, and 5 gets 2.
\<close>

theorem ring_echo_shared_buffer_leaks:
  "\<exists>s. demo_reach UNIV s \<and> ec_got s 5 = [1] \<and> ec_got s 6 = [2] \<and> ec_sent s 5 = [2]"
proof -
  let ?s = "run_send 5 (run_turn (run_recv 6 2 (run_recv 5 1 (run_turn (run_accept 6 (run_turn (run_accept 5 run_start)))))))"
  have "demo_reach UNIV ?s"
    by (intro run_send_reach run_turn_reach run_recv_reach run_accept_reach run_start_reach; (code_simp | simp))
  moreover have "ec_got ?s 5 = [1] \<and> ec_got ?s 6 = [2] \<and> ec_sent ?s 5 = [2]" by code_simp
  ultimately show ?thesis by blast
qed

end
