(* ===== verification/Epoll_Echo.thy ===== *)
theory Epoll_Echo
  imports Prelude
begin

unbundle bit_operations_syntax

text \<open>
  \<open>benchmark/base_model/epoll_server_bench.cpp\<close>: the echo server on epoll that the library is
  compared with. What the system calls answer while an event is handled is an argument of the
  handler (record \<open>ep_io\<close>); the state is the kernel's view of the server's descriptors, the one
  buffer, and what was read from and written to each connection.
\<close>

section \<open>Definitions\<close>

definition EPOLLIN :: u32 where "EPOLLIN = 0x001"
definition EPOLLERR :: u32 where "EPOLLERR = 0x008"
definition EPOLLHUP :: u32 where "EPOLLHUP = 0x010"
definition ep_buff_size :: nat where "ep_buff_size = 16384 + 16"

record epoll_event =
  ev_events :: u32
  ev_fd :: int

record ep_io =
  io_accept :: int
  io_getfl :: int
  io_setfl :: int
  io_bytes :: "u8 list option"
  io_write :: nat

record epoll_server =
  ep_socket :: int
  ep_interest :: "int set"
  ep_open :: "int set"
  ep_nonblock :: "int set"
  ep_buff :: "u8 list"
  ep_read :: "int \<Rightarrow> u8 list"
  ep_written :: "int \<Rightarrow> u8 list"

definition epoll_add :: "int \<Rightarrow> epoll_server \<Rightarrow> epoll_server" where
  "epoll_add fd s = s\<lparr>ep_interest := insert fd (ep_interest s)\<rparr>"

definition epoll_close :: "int \<Rightarrow> epoll_server \<Rightarrow> epoll_server" where
  "epoll_close fd s = s\<lparr>ep_interest := ep_interest s - {fd}, ep_open := ep_open s - {fd}\<rparr>"

text \<open>
  \<open>main\<close> up to its loop, with the results of \<open>socket\<close>, \<open>bind\<close> and \<open>listen\<close>; \<open>Inl\<close> is a return
  of -1.
\<close>

definition epoll_main :: "int \<Rightarrow> int \<Rightarrow> int \<Rightarrow> int + epoll_server" where
  "epoll_main socketFd bind listen =
     (if bind = - 1 then Inl (- 1)
      else if listen = - 1 then Inl (- 1)
      else Inr (epoll_add socketFd \<lparr>ep_socket = socketFd, ep_interest = {}, ep_open = {socketFd}, ep_nonblock = {},
        ep_buff = replicate ep_buff_size 0, ep_read = (\<lambda>_. []), ep_written = (\<lambda>_. [])\<rparr>))"

text \<open>The branch for a new connection; each \<open>continue\<close> leaves the rest of it out.\<close>

definition epoll_accept :: "ep_io \<Rightarrow> epoll_server \<Rightarrow> epoll_server" where
  "epoll_accept io s =
     (let fd = io_accept io in
      if fd > 0 then
        let s = s\<lparr>ep_open := insert fd (ep_open s)\<rparr>; flags = io_getfl io in
        if flags < 0 then s
        else if io_setfl io < 0 then s
        else epoll_add fd (s\<lparr>ep_nonblock := insert fd (ep_nonblock s)\<rparr>)
      else s)"

text \<open>The branch for data: \<open>read\<close> fills the front of the buffer or fails, \<open>write\<close> takes some of it.\<close>

definition epoll_echo :: "int \<Rightarrow> ep_io \<Rightarrow> epoll_server \<Rightarrow> epoll_server" where
  "epoll_echo fd io s =
     (case io_bytes io of
        None \<Rightarrow> epoll_close fd s
      | Some bytes \<Rightarrow>
          let buff = bytes @ drop (length bytes) (ep_buff s) in
          s\<lparr>ep_buff := buff, ep_read := (ep_read s)(fd := ep_read s fd @ bytes),
            ep_written := (ep_written s)(fd := ep_written s fd @ take (min (io_write io) (length bytes)) buff)\<rparr>)"

definition epoll_handle :: "epoll_event \<times> ep_io \<Rightarrow> epoll_server \<Rightarrow> epoll_server" where
  "epoll_handle = (\<lambda>(ev, io) s.
     if ev_fd ev = ep_socket s then
       (if ev_events ev AND EPOLLIN \<noteq> 0 then epoll_accept io s else s)
     else if ev_events ev AND EPOLLERR \<noteq> 0 \<or> ev_events ev AND EPOLLHUP \<noteq> 0 then epoll_close (ev_fd ev) s
     else if ev_events ev AND EPOLLIN \<noteq> 0 then epoll_echo (ev_fd ev) io s
     else s)"

text \<open>The loop: \<open>None\<close> is a failed \<open>epoll_wait\<close>, which ends the program.\<close>

fun epoll_loop :: "(epoll_event \<times> ep_io) list option list \<Rightarrow> epoll_server \<Rightarrow> int + epoll_server" where
  "epoll_loop [] s = Inr s"
| "epoll_loop (None # turns) s = Inl (- 1)"
| "epoll_loop (Some events # turns) s = epoll_loop turns (fold epoll_handle events s)"

section \<open>The kernel's side\<close>

text \<open>
  What the kernel promises for the events of a run: events come only for registered
  descriptors, a new connection has a descriptor that was not open, and a read does not
  overrun the buffer. A list of events is checked along the states in which they are handled.
\<close>

definition ep_event_ok :: "epoll_event \<times> ep_io \<Rightarrow> epoll_server \<Rightarrow> bool" where
  "ep_event_ok = (\<lambda>(ev, io) s. ev_fd ev \<in> ep_interest s \<and> io_accept io \<notin> ep_open s \<and>
     (case io_bytes io of None \<Rightarrow> True | Some bytes \<Rightarrow> length bytes \<le> ep_buff_size))"

fun ep_events_ok :: "(epoll_event \<times> ep_io) list \<Rightarrow> epoll_server \<Rightarrow> bool" where
  "ep_events_ok [] s = True"
| "ep_events_ok (x # xs) s = (ep_event_ok x s \<and> ep_events_ok xs (epoll_handle x s))"

text \<open>All events of a run, in order.\<close>

definition ep_all :: "(epoll_event \<times> ep_io) list option list \<Rightarrow> (epoll_event \<times> ep_io) list" where
  "ep_all turns = concat (map the turns)"

lemma epoll_loop_fold: "epoll_loop turns s = Inr t \<Longrightarrow> t = fold epoll_handle (ep_all turns) s"
  by (induction turns s rule: epoll_loop.induct) (auto simp: ep_all_def)

definition ep_writes_all :: "epoll_event \<times> ep_io \<Rightarrow> bool" where
  "ep_writes_all = (\<lambda>(ev, io). case io_bytes io of None \<Rightarrow> True | Some bytes \<Rightarrow> length bytes \<le> io_write io)"

definition ep_inv :: "epoll_server \<Rightarrow> bool" where
  "ep_inv s \<longleftrightarrow> ep_socket s \<in> ep_interest s \<and> ep_interest s \<subseteq> ep_open s \<and> ep_interest s - {ep_socket s} \<subseteq> ep_nonblock s \<and>
     length (ep_buff s) = ep_buff_size"

lemmas ep_defs = epoll_handle_def epoll_accept_def epoll_echo_def epoll_close_def epoll_add_def Let_def

lemma epoll_handle_inv:
  assumes "ep_inv s" "ep_event_ok x s"
  shows "ep_inv (epoll_handle x s)" "ep_socket (epoll_handle x s) = ep_socket s"
  using assms by (cases x; auto simp: ep_inv_def ep_event_ok_def ep_defs split: option.splits)+

lemma epoll_handle_data:
  assumes "ep_writes_all x" "ep_written s = ep_read s"
  shows "ep_written (epoll_handle x s) = ep_read (epoll_handle x s)"
  using assms by (cases x) (auto simp: ep_writes_all_def ep_defs split: option.splits)

lemma fold_handle_inv:
  "ep_inv s \<Longrightarrow> ep_events_ok xs s \<Longrightarrow> ep_inv (fold epoll_handle xs s) \<and> ep_socket (fold epoll_handle xs s) = ep_socket s"
  by (induction xs arbitrary: s) (simp_all add: epoll_handle_inv)

lemma fold_handle_data:
  "list_all ep_writes_all xs \<Longrightarrow> ep_written s = ep_read s \<Longrightarrow>
     ep_written (fold epoll_handle xs s) = ep_read (fold epoll_handle xs s)"
  by (induction xs arbitrary: s) (simp_all add: epoll_handle_data)

lemma epoll_main_ok: "epoll_main fd b l = Inr s \<Longrightarrow> ep_inv s \<and> ep_written s = ep_read s \<and> ep_socket s = fd"
  by (auto simp: epoll_main_def ep_inv_def epoll_add_def split: if_splits)

section \<open>Properties\<close>

text \<open>
  The epoll server echoes: as long as the kernel keeps its promises and each write takes all it is
  given, every connection has got back exactly what was read from it; the server waits only for
  descriptors that are open and do not block, the listening one always among them.
\<close>

theorem epoll_echo_exact:
  assumes "epoll_main fd b l = Inr s" "ep_events_ok (ep_all turns) s" "epoll_loop turns s = Inr t"
  shows "ep_inv t \<and> ep_socket t = fd \<and> (list_all ep_writes_all (ep_all turns) \<longrightarrow> ep_written t = ep_read t)"
  using epoll_main_ok [OF assms(1)] epoll_loop_fold [OF assms(3)] fold_handle_inv [OF _ assms(2)] fold_handle_data
  by (metis (no_types))

definition ep_demo :: "(epoll_event \<times> ep_io) list option list" where
  "ep_demo =
     [Some [(\<lparr>ev_events = 1, ev_fd = 3\<rparr>, \<lparr>io_accept = 5, io_getfl = 2, io_setfl = 0, io_bytes = None, io_write = 0\<rparr>)],
      Some [(\<lparr>ev_events = 1, ev_fd = 5\<rparr>, \<lparr>io_accept = -1, io_getfl = 2, io_setfl = 0, io_bytes = Some [7, 8], io_write = 2\<rparr>)]]"

theorem epoll_echo_exact_witness:
  "\<exists>s t. epoll_main 3 0 0 = Inr s \<and> epoll_loop ep_demo s = Inr t \<and> ep_written t = ep_read t"
proof -
  obtain s where s: "epoll_main 3 0 0 = Inr s" by (simp add: epoll_main_def)
  have "ep_events_ok (ep_all ep_demo) s" using s
    by (auto simp: ep_all_def ep_demo_def ep_event_ok_def epoll_main_def ep_defs EPOLLIN_def ep_buff_size_def)
  moreover obtain t where t: "epoll_loop ep_demo s = Inr t" by (simp add: ep_demo_def)
  moreover have "list_all ep_writes_all (ep_all ep_demo)" by (simp add: ep_all_def ep_demo_def ep_writes_all_def)
  ultimately show ?thesis using epoll_echo_exact [OF s _ t] s t by blast
qed

text \<open>
  A client that closes its side is not noticed: \<open>read\<close> answers 0 for it, which is not -1, so that
  the server writes nothing and keeps the connection registered; and a connection whose flags
  cannot be changed stays open without being registered.
\<close>

theorem epoll_end_of_file_leaks:
  assumes "ev_fd ev \<noteq> ep_socket s" "ev_events ev = EPOLLIN" "io_bytes io = Some []"
  shows "epoll_handle (ev, io) s = s"
  using assms by (simp add: ep_defs EPOLLIN_def EPOLLERR_def EPOLLHUP_def)

end
