(* ===== verification/Generator.thy ===== *)
theory Generator
  imports Prelude
begin

text \<open>
  \<open>C++20_coroutine/promise_test.cpp\<close>: a generator. What a suspended coroutine has still to do is
  a finite tree of output, yields and its end; the frames are a map from handles. A \<open>Task\<close> is the
  handle it stores, none for the null handle.
\<close>

section \<open>Definitions\<close>

datatype gen_body = Print string gen_body | Co_Yield int gen_body | Co_Return string | Throw string

record gen_promise =
  m_exception :: "string option"
  m_result :: "string option"
  m_yield :: "int option"

record gen_frame =
  gf_promise :: gen_promise
  gf_body :: gen_body
  gf_done :: bool

type_synonym gen_frames = "handle \<Rightarrow> gen_frame option"
type_synonym gen_task = "handle option"

text \<open>The program's state: the frames and what it wrote to \<open>std::cout\<close>.\<close>

record gen_state =
  gs_frames :: gen_frames
  gs_out :: "string list"

definition return_value :: "string \<Rightarrow> gen_promise \<Rightarrow> gen_promise" where
  "return_value result p = p\<lparr>m_result := Some result\<rparr>"

definition yield_value :: "int \<Rightarrow> gen_promise \<Rightarrow> gen_promise" where
  "yield_value v p = p\<lparr>m_yield := Some v\<rparr>"

definition unhandled_exception :: "string \<Rightarrow> gen_promise \<Rightarrow> gen_promise" where
  "unhandled_exception e p = p\<lparr>m_exception := Some e\<rparr>"

text \<open>
  The call of a coroutine: the promise is constructed, the coroutine suspends before its body
  (\<open>initial_suspend\<close>) and the caller gets the task. The handle is fresh.
\<close>

definition gen_call :: "handle \<Rightarrow> gen_body \<Rightarrow> gen_state \<Rightarrow> gen_task \<times> gen_state" where
  "gen_call h body s =
     (Some h, s\<lparr>gs_frames := (gs_frames s)(h \<mapsto> \<lparr>gf_promise = \<lparr>m_exception = None, m_result = None, m_yield = None\<rparr>,
        gf_body = body, gf_done = False\<rparr>)\<rparr>)"

text \<open>The body runs to its next suspension; at its end it suspends for good (\<open>final_suspend\<close>).\<close>

fun run_body :: "gen_body \<Rightarrow> gen_promise \<Rightarrow> string list \<Rightarrow> gen_frame \<times> string list" where
  "run_body (Print x b) p out = run_body b p (out @ [x])"
| "run_body (Co_Yield v b) p out = (\<lparr>gf_promise = yield_value v p, gf_body = b, gf_done = False\<rparr>, out)"
| "run_body (Co_Return r) p out = (\<lparr>gf_promise = return_value r p, gf_body = Co_Return r, gf_done = True\<rparr>, out)"
| "run_body (Throw e) p out = (\<lparr>gf_promise = unhandled_exception e p, gf_body = Throw e, gf_done = True\<rparr>, out)"

definition with_gen :: "gen_task \<Rightarrow> gen_state \<Rightarrow> (handle \<Rightarrow> gen_frame \<Rightarrow> 'b res) \<Rightarrow> 'b res" where
  "with_gen t s f = (case t of None \<Rightarrow> Inl Null_Deref
     | Some h \<Rightarrow> (case gs_frames s h of None \<Rightarrow> Inl Use_After_Free | Some fr \<Rightarrow> f h fr))"

definition gen_handle_resume :: "handle \<Rightarrow> gen_frame \<Rightarrow> gen_state \<Rightarrow> gen_state res" where
  "gen_handle_resume h fr s =
     (if gf_done fr then Inl Resumed_Done
      else case run_body (gf_body fr) (gf_promise fr) (gs_out s) of
        (fr', out) \<Rightarrow> Inr \<lparr>gs_frames = (gs_frames s)(h \<mapsto> fr'), gs_out = out\<rparr>)"

definition gen_destroy :: "gen_task \<Rightarrow> gen_state \<Rightarrow> gen_state res" where
  "gen_destroy t s = with_gen t s (\<lambda>h _. Inr (s\<lparr>gs_frames := (gs_frames s)(h := None)\<rparr>))"

text \<open>Move construction: the new task and what is left of the other.\<close>

definition gen_move :: "gen_task \<Rightarrow> gen_task \<times> gen_task" where
  "gen_move other = (other, None)"

text \<open>
  Move assignment: the task, the other and the state afterwards. With \<open>same\<close> both are one
  object, which is not tested: the second assignment then overwrites the first.
\<close>

definition gen_move_assign :: "bool \<Rightarrow> gen_task \<Rightarrow> gen_task \<Rightarrow> gen_state \<Rightarrow> (gen_task \<times> gen_task \<times> gen_state) res" where
  "gen_move_assign same t other s =
     bindE (if t \<noteq> None then gen_destroy t s else Inr s) (\<lambda>s.
     Inr (if same then None else other, None, s))"

text \<open>The destructor does not test for the null handle.\<close>

definition gen_destruct :: "gen_task \<Rightarrow> gen_state \<Rightarrow> gen_state res" where
  "gen_destruct t s = gen_destroy t s"

definition gen_task_resume :: "gen_task \<Rightarrow> gen_state \<Rightarrow> gen_state res" where
  "gen_task_resume t s = with_gen t s (\<lambda>h fr. gen_handle_resume h fr s)"

text \<open>\<open>next\<close>: the value that the body yields, none at its end; an exception of the body goes on to the caller.\<close>

definition gen_next :: "gen_task \<Rightarrow> gen_state \<Rightarrow> int option res \<times> gen_state" where
  "gen_next t s =
     (case with_gen t s (\<lambda>h fr.
        let fr = fr\<lparr>gf_promise := (gf_promise fr)\<lparr>m_yield := None, m_exception := None\<rparr>\<rparr>;
            s = s\<lparr>gs_frames := (gs_frames s)(h \<mapsto> fr)\<rparr>
        in if \<not> gf_done fr then gen_handle_resume h fr s else Inr s)
      of Inl f \<Rightarrow> (Inl f, s)
       | Inr s \<Rightarrow>
           (with_gen t s (\<lambda>h fr.
              case m_exception (gf_promise fr) of Some e \<Rightarrow> Inl (Thrown e) | None \<Rightarrow> Inr (m_yield (gf_promise fr))), s))"

definition gen_result :: "gen_task \<Rightarrow> gen_state \<Rightarrow> string option res" where
  "gen_result t s = with_gen t s (\<lambda>_ fr. Inr (m_result (gf_promise fr)))"

text \<open>The coroutine \<open>run\<close>; \<open>pr\<close> prints an integer.\<close>

definition gen_run :: "(int \<Rightarrow> string) \<Rightarrow> int \<Rightarrow> gen_body" where
  "gen_run pr i =
     Print (''task '' @ pr i @ '' start'') (Co_Yield 1
       (foldr Co_Yield [2, 3, 4, 5]
         (Print (''task '' @ pr i @ '' end'') (Co_Return ''task run finish''))))"

text \<open>The loop of \<open>main\<close>, with fuel: how often \<open>next\<close> is called at most.\<close>

definition gen_print :: "string \<Rightarrow> gen_state \<Rightarrow> gen_state" where
  "gen_print x s = s\<lparr>gs_out := gs_out s @ [x]\<rparr>"

fun gen_loop :: "nat \<Rightarrow> (int \<Rightarrow> string) \<Rightarrow> gen_task \<Rightarrow> gen_state \<Rightarrow> gen_state res option" where
  "gen_loop 0 pr t s = None"
| "gen_loop (Suc n) pr t s =
     (case gen_next t s of
        (Inl f, _) \<Rightarrow> Some (Inl f)
      | (Inr None, s) \<Rightarrow> Some (Inr s)
      | (Inr (Some v), s) \<Rightarrow> gen_loop n pr t (gen_print (''get yield value: '' @ pr v) s))"

definition gen_main :: "nat \<Rightarrow> (int \<Rightarrow> string) \<Rightarrow> gen_body \<Rightarrow> gen_state res option" where
  "gen_main fuel pr body =
     (let (task, s) = gen_call 7 body \<lparr>gs_frames = (\<lambda>_. None), gs_out = []\<rparr> in
      case gen_loop fuel pr task s of
        None \<Rightarrow> None
      | Some r \<Rightarrow> Some
          (bindE r (\<lambda>s.
           bindE (gen_result task s) (\<lambda>x. case x of None \<Rightarrow> Inl Null_Deref
             | Some x \<Rightarrow> gen_destruct task (gen_print (''get return value: '' @ x) s)))))"

section \<open>What a body does\<close>

text \<open>The reference: the values a body yields, how it ends, and what \<open>main\<close> prints with it.\<close>

fun gen_yields :: "gen_body \<Rightarrow> int list" where
  "gen_yields (Print _ b) = gen_yields b"
| "gen_yields (Co_Yield v b) = v # gen_yields b"
| "gen_yields _ = []"

fun gen_end :: "gen_body \<Rightarrow> string + string" where
  "gen_end (Print _ b) = gen_end b"
| "gen_end (Co_Yield _ b) = gen_end b"
| "gen_end (Co_Return r) = Inr r"
| "gen_end (Throw e) = Inl e"

fun gen_trace :: "(int \<Rightarrow> string) \<Rightarrow> gen_body \<Rightarrow> string list" where
  "gen_trace pr (Print x b) = x # gen_trace pr b"
| "gen_trace pr (Co_Yield v b) = (''get yield value: '' @ pr v) # gen_trace pr b"
| "gen_trace pr (Co_Return r) = [''get return value: '' @ r]"
| "gen_trace pr (Throw e) = []"

text \<open>The three ways in which running a body to its next suspension ends.\<close>

lemma run_body_cases:
  obtains
    (yields) v b' out' where "run_body b p out = (\<lparr>gf_promise = yield_value v p, gf_body = b', gf_done = False\<rparr>, out')"
      "gen_yields b = v # gen_yields b'" "gen_end b' = gen_end b"
      "out @ gen_trace pr b = out' @ (''get yield value: '' @ pr v) # gen_trace pr b'"
  | (returns) r out' where "run_body b p out = (\<lparr>gf_promise = return_value r p, gf_body = Co_Return r, gf_done = True\<rparr>, out')"
      "gen_yields b = []" "gen_end b = Inr r" "out @ gen_trace pr b = out' @ [''get return value: '' @ r]"
  | (throws) e out' where "run_body b p out = (\<lparr>gf_promise = unhandled_exception e p, gf_body = Throw e, gf_done = True\<rparr>, out')"
      "gen_yields b = []" "gen_end b = Inl e"
proof (induction b arbitrary: out thesis)
  case (Print x b)
  show ?case by (rule Print.IH [where out = "out @ [x]"]) (use Print.prems in \<open>force+\<close>)
qed force+

text \<open>A frame that a call of \<open>next\<close> may find: suspended before \<open>b\<close>, or finished with result \<open>r\<close>.\<close>

definition gen_at :: "handle \<Rightarrow> gen_body \<Rightarrow> gen_state \<Rightarrow> bool" where
  "gen_at h b s \<longleftrightarrow> (\<exists>fr. gs_frames s h = Some fr \<and> gf_body fr = b \<and> \<not> gf_done fr \<and> m_result (gf_promise fr) = None)"

definition gen_finished :: "handle \<Rightarrow> string option \<Rightarrow> gen_state \<Rightarrow> bool" where
  "gen_finished h r s \<longleftrightarrow> (\<exists>fr. gs_frames s h = Some fr \<and> gf_done fr \<and> m_result (gf_promise fr) = r)"

lemmas gen_defs = with_gen_def gen_handle_resume_def yield_value_def return_value_def unhandled_exception_def

lemma gen_next_at [consumes 1, case_names yields returns throws]:
  assumes "gen_at h b s"
  obtains
    (yields) v b' s' where "gen_next (Some h) s = (Inr (Some v), s')" "gen_at h b' s'" "gen_yields b = v # gen_yields b'"
      "gen_end b' = gen_end b" "gs_out s @ gen_trace pr b = gs_out s' @ (''get yield value: '' @ pr v) # gen_trace pr b'"
      "dom (gs_frames s') = dom (gs_frames s)"
  | (returns) r s' where "gen_next (Some h) s = (Inr None, s')" "gen_finished h (Some r) s'" "gen_yields b = []"
      "gen_end b = Inr r" "gs_out s @ gen_trace pr b = gs_out s' @ [''get return value: '' @ r]"
      "dom (gs_frames s') = dom (gs_frames s)"
  | (throws) e s' where "gen_next (Some h) s = (Inl (Thrown e), s')" "gen_finished h None s'" "gen_yields b = []"
      "gen_end b = Inl e"
proof -
  obtain fr where fr: "gs_frames s h = Some fr" "gf_body fr = b" "\<not> gf_done fr" "m_result (gf_promise fr) = None"
    using assms by (auto simp: gen_at_def)
  let ?p = "(gf_promise fr)\<lparr>m_yield := None, m_exception := None\<rparr>"
  let ?t = "\<lambda>fr' out'. \<lparr>gs_frames = (gs_frames s)(h \<mapsto> fr'), gs_out = out'\<rparr>"
  have nxt: "gen_next (Some h) s =
      (case m_exception (gf_promise fr') of Some e \<Rightarrow> Inl (Thrown e) | None \<Rightarrow> Inr (m_yield (gf_promise fr')), ?t fr' out')"
    if "run_body b ?p (gs_out s) = (fr', out')" for fr' out'
    using fr that by (simp add: gen_next_def gen_defs Let_def split: option.splits)
  show thesis
  proof (cases rule: run_body_cases [of b ?p "gs_out s" pr])
    case (yields v b' out')
    show thesis
      by (rule that(1) [OF _ _ yields(2,3), where s' = "?t \<lparr>gf_promise = yield_value v ?p, gf_body = b', gf_done = False\<rparr> out'"])
        (use fr yields(4) nxt [OF yields(1)] in \<open>auto simp: gen_at_def yield_value_def\<close>)
  next
    case (returns r out')
    show thesis
      by (rule that(2) [OF _ _ returns(2,3), where s' = "?t \<lparr>gf_promise = return_value r ?p, gf_body = Co_Return r, gf_done = True\<rparr> out'"])
        (use fr returns(4) nxt [OF returns(1)] in \<open>auto simp: gen_finished_def return_value_def\<close>)
  next
    case (throws e out')
    show thesis
      by (rule that(3) [OF _ _ throws(2,3), where s' = "?t \<lparr>gf_promise = unhandled_exception e ?p, gf_body = Throw e, gf_done = True\<rparr> out'"])
        (use fr nxt [OF throws(1)] in \<open>auto simp: gen_finished_def unhandled_exception_def\<close>)
  qed
qed

lemma gen_next_finished:
  assumes "gen_finished h r s"
  shows "\<exists>s'. gen_next (Some h) s = (Inr None, s') \<and> gen_finished h r s' \<and> gs_out s' = gs_out s"
  using assms by (auto simp: gen_next_def gen_finished_def gen_defs Let_def)

lemma gen_loop_at:
  assumes "gen_at h b s" "length (gen_yields b) < fuel"
  shows "case gen_end b of
      Inr r \<Rightarrow> \<exists>s'. gen_loop fuel pr (Some h) s = Some (Inr s') \<and> gen_finished h (Some r) s' \<and>
        gs_out s @ gen_trace pr b = gs_out s' @ [''get return value: '' @ r] \<and> dom (gs_frames s') = dom (gs_frames s)
    | Inl e \<Rightarrow> gen_loop fuel pr (Some h) s = Some (Inl (Thrown e))"
  using assms
proof (induction fuel arbitrary: b s)
  case (Suc n)
  from Suc.prems(1) show ?case
  proof (cases rule: gen_next_at [where pr = pr])
    case (yields v b' s')
    let ?s = "gen_print (''get yield value: '' @ pr v) s'"
    have at: "gen_at h b' ?s" using yields(2) by (simp add: gen_at_def gen_print_def)
    from Suc.IH [OF this] Suc.prems(2) yields show ?thesis by (simp add: gen_print_def split: sum.splits)
  next
    case (returns r s')
    then show ?thesis by simp
  next
    case (throws e s')
    then show ?thesis by simp
  qed
qed simp

text \<open>What \<open>n\<close> calls of \<open>next\<close> answer, exceptions included.\<close>

fun gen_nexts :: "nat \<Rightarrow> gen_task \<Rightarrow> gen_state \<Rightarrow> int option res list" where
  "gen_nexts 0 t s = []"
| "gen_nexts (Suc n) t s = (case gen_next t s of (r, s') \<Rightarrow> r # gen_nexts n t s')"

lemma gen_nexts_finished: "gen_finished h r s \<Longrightarrow> gen_nexts n (Some h) s = replicate n (Inr None)"
proof (induction n arbitrary: s)
  case (Suc n)
  then show ?case using gen_next_finished [OF Suc.prems] by auto
qed simp

lemma take_replicate_more: "take n (x # replicate n x) = replicate n x"
  by (subst replicate_Suc [symmetric], subst take_replicate) simp

lemma gen_nexts_at:
  assumes "gen_at h b s"
  shows "gen_nexts n (Some h) s =
    take n (map (\<lambda>v. Inr (Some v)) (gen_yields b) @ (case gen_end b of Inr r \<Rightarrow> Inr None | Inl e \<Rightarrow> Inl (Thrown e)) #
      replicate n (Inr None))"
  using assms
proof (induction n arbitrary: b s)
  case (Suc n)
  from Suc.prems show ?case
  proof (cases rule: gen_next_at [where pr = "\<lambda>_. []"])
    case (yields v b' s')
    have "take n (xs @ y # replicate (Suc n) z) = take n (xs @ y # replicate n z)" for xs and y z :: "int option res"
    proof -
      have "xs @ y # replicate (Suc n) z = (xs @ y # replicate n z) @ [z]" by (simp add: replicate_append_same)
      then show ?thesis by (simp only: take_append) simp
    qed
    note take_more = this [symmetric]
    show ?thesis using yields by (simp add: Suc.IH [OF yields(2)] take_more del: take_append replicate_Suc)
  next
    case (returns r s')
    then show ?thesis using gen_nexts_finished [OF returns(2)] by (simp add: take_replicate_more)
  next
    case (throws e s')
    then show ?thesis using gen_nexts_finished [OF throws(2)] by (simp add: take_replicate_more)
  qed
qed simp

section \<open>Properties\<close>

text \<open>
  C30. A generator is its list of values: calling \<open>next\<close> any number of times on a new task answers
  the values the body yields, in order, then the end once, an empty answer or the exception
  that left the body, and empty answers from then on.
\<close>

theorem generator_next_sequence:
  "(let (t, s') = gen_call h b s in gen_nexts n t s') =
    take n (map (\<lambda>v. Inr (Some v)) (gen_yields b) @ (case gen_end b of Inr r \<Rightarrow> Inr None | Inl e \<Rightarrow> Inl (Thrown e)) #
      replicate n (Inr None))"
  by (simp add: gen_call_def gen_nexts_at gen_at_def)

text \<open>
  The program ends: with a body that returns, and fuel for one call of \<open>next\<close> more than it
  yields values, \<open>main\<close> prints the body's output and the values as they come, and the result,
  and leaves no frame behind.
\<close>

theorem generator_main_terminates:
  assumes "gen_end b = Inr r" "length (gen_yields b) < fuel"
  shows "\<exists>s. gen_main fuel pr b = Some (Inr s) \<and> gs_out s = gen_trace pr b \<and> gs_frames s = Map.empty"
proof -
  define s0 where "s0 = snd (gen_call 7 b \<lparr>gs_frames = (\<lambda>_. None), gs_out = []\<rparr>)"
  have c: "gen_call 7 b \<lparr>gs_frames = (\<lambda>_. None), gs_out = []\<rparr> = (Some 7, s0)" by (simp add: s0_def gen_call_def)
  have at: "gen_at 7 b s0" "gs_out s0 = []" "dom (gs_frames s0) = {7}" by (simp_all add: s0_def gen_call_def gen_at_def)
  obtain s' where s': "gen_loop fuel pr (Some 7) s0 = Some (Inr s')" "gen_finished 7 (Some r) s'"
      "gen_trace pr b = gs_out s' @ [''get return value: '' @ r]" "dom (gs_frames s') = {7}"
    using gen_loop_at [OF at(1) assms(2), of pr] assms(1) at by (auto split: sum.splits)
  obtain fr where fr: "gs_frames s' 7 = Some fr" "m_result (gf_promise fr) = Some r"
    using s'(2) by (auto simp: gen_finished_def)
  have "gs_frames s' x = None" if "x \<noteq> 7" for x using s'(4) that by (metis domIff singletonD)
  then have "(gs_frames s')(7 := None) = Map.empty" by auto
  with s' fr show ?thesis
    by (simp add: gen_main_def c gen_result_def gen_destruct_def gen_destroy_def gen_print_def with_gen_def)
qed

theorem generator_main_terminates_witness:
  "\<exists>s. gen_main 6 (\<lambda>_. ''n'') (gen_run (\<lambda>_. ''n'') 5) = Some (Inr s) \<and>
     gs_out s = gen_trace (\<lambda>_. ''n'') (gen_run (\<lambda>_. ''n'') 5)"
proof -
  have "gen_end (gen_run (\<lambda>_. ''n'') 5) = Inr ''task run finish''" "length (gen_yields (gen_run (\<lambda>_. ''n'') 5)) < 6"
    by (simp_all add: gen_run_def)
  from generator_main_terminates [OF this] show ?thesis by blast
qed

text \<open>
  The destructor of a task that was moved from destroys the null handle, and a task that is
  assigned to itself loses its frame.
\<close>

theorem generator_moved_from_destructor:
  "gen_destruct (snd (gen_move t)) s = Inl Null_Deref \<and>
   (case gen_call h b s of (t', s') \<Rightarrow> case gen_move_assign True t' t' s' of
      Inr (t'', _, s'') \<Rightarrow> gs_frames s'' h = None \<and> fst (gen_next t'' s'') = Inl Null_Deref
    | Inl _ \<Rightarrow> False)"
  by (simp add: gen_move_def gen_destruct_def gen_destroy_def gen_call_def gen_move_assign_def gen_next_def with_gen_def)

end
