(* ===== verification/Nested_Calls.thy ===== *)
theory Nested_Calls
  imports Run_Loop
begin

text \<open>
  Coroutines that await coroutines: \<open>co_await\<close> on a \<open>task\<close> of \<open>coro/task.hpp\<close>, with the
  transfers of control between the frames. A coroutine body is a datatype of the points at which it
  meets the library: it returns, throws, writes a line to the log, awaits a task that it creates
  in the same expression, or awaits a primitive that suspends it and later answers a number. The
  machine executes the members of \<open>promise_base\<close>, \<open>awaitable_base\<close> and \<open>task\<close> in the order the
  language prescribes. Each task has its own kind of result, \<open>void\<close>, plain data or any other type, which decides
  what its promise can store.
\<close>

section \<open>Bodies and what they compute\<close>

text \<open>What follows an awaited task is given its result or the exception it ended with.\<close>

datatype 'a body =
    Co_Return 'a
  | Co_Throw string
  | Co_Log 'a "'a body"
  | Co_Await "'a result_kind" "'a body" "'a res \<Rightarrow> 'a body"
  | Co_Suspend "int \<Rightarrow> 'a body"

text \<open>
  The meaning of a body if awaiting a task were a plain call: its result, the log lines, and what is
  left of the answers \<open>vs\<close> of the primitives; or they do not suffice; or the program is lost, because a task whose result
  is plain data, of a kind \<open>Plain\<close>, is left by an exception. \<open>K\<close> is the kind of the task whose body this is.
\<close>

datatype 'a outcome = Ends "'a res" "'a list" "int list" | Needs_Answers | Crashes

fun after_log :: "'a list \<Rightarrow> 'a outcome \<Rightarrow> 'a outcome" where
  "after_log l (Ends r l' vs) = Ends r (l @ l') vs"
| "after_log l Needs_Answers = Needs_Answers"
| "after_log l Crashes = Crashes"

primrec body_eval :: "'a body \<Rightarrow> 'a result_kind \<Rightarrow> int list \<Rightarrow> 'a outcome" where
  "body_eval (Co_Return v) = (\<lambda>K vs. Ends (Inr (kept_value K v)) [] vs)"
| "body_eval (Co_Throw e) = (\<lambda>K vs. if keeps_exceptions K then Ends (Inl (Thrown e)) [] vs else Crashes)"
| "body_eval (Co_Log x b) = (\<lambda>K vs. after_log [x] (body_eval b K vs))"
| "body_eval (Co_Await K' c k) = (\<lambda>K vs.
     case body_eval c K' vs of
       Ends r l vs \<Rightarrow> after_log l (body_eval (k r) K vs)
     | Needs_Answers \<Rightarrow> Needs_Answers
     | Crashes \<Rightarrow> Crashes)"
| "body_eval (Co_Suspend k) = (\<lambda>K vs. case vs of [] \<Rightarrow> Needs_Answers | v # vs \<Rightarrow> body_eval (k v) K vs)"

lemma after_log_eq [simp]:
  "after_log l x = Ends r l' vs \<longleftrightarrow> (\<exists>l2. x = Ends r l2 vs \<and> l' = l @ l2)"
  "after_log l x = Needs_Answers \<longleftrightarrow> x = Needs_Answers"
  "after_log l x = Crashes \<longleftrightarrow> x = Crashes"
  by (cases x; auto)+

section \<open>The machine\<close>

text \<open>Where a frame stands: executing or about to, in a \<open>co_await\<close> of a task, in one of a primitive, at its end.\<close>

datatype 'a code =
    Runs "'a body"
  | Awaits task "'a res \<Rightarrow> 'a body"
  | Parked "int \<Rightarrow> 'a body"
  | At_End

text \<open>
  \<open>co_cur\<close> is the coroutine that executes, none when control is back in the caller of
  \<open>resume\<close>; \<open>co_parked\<close> is the handle that a primitive was given.
\<close>

record 'a co_sys =
  co_frames :: "'a frames"
  co_code :: "handle \<Rightarrow> 'a code option"
  co_cur :: "handle option"
  co_parked :: "handle option"
  co_log :: "'a list"

text \<open>A body ends: the result is stored, the coroutine is done and its \<open>final_awaiter\<close> says who goes on.\<close>

definition co_finish :: "handle \<Rightarrow> ('a frame \<Rightarrow> 'a frame res) \<Rightarrow> 'a co_sys \<Rightarrow> 'a co_sys res" where
  "co_finish h store s =
     with_frame h (co_frames s) (\<lambda>f.
     bindE (store f) (\<lambda>f.
     let fs = (co_frames s)(h \<mapsto> f\<lparr>fr_done := True\<rparr>) in
     bindE (final_await_suspend h fs) (\<lambda>p.
     Inr (s\<lparr>co_frames := fs, co_code := (co_code s)(h \<mapsto> At_End), co_cur := Some p\<rparr>))))"

text \<open>
  \<open>co_await f(...)\<close> up to the suspension: the new frame, at the address \<open>alloc\<close> answers, stops at
  its start, and \<open>await_suspend\<close> hands control to it.
\<close>

definition co_call ::
  "('a frames \<Rightarrow> handle) \<Rightarrow> handle \<Rightarrow> 'a result_kind \<Rightarrow> 'a body \<Rightarrow> ('a res \<Rightarrow> 'a body) \<Rightarrow> 'a co_sys \<Rightarrow> 'a co_sys res" where
  "co_call alloc h K c k s =
     (let h' = alloc (co_frames s);
          t = get_return_object h';
          s = s\<lparr>co_frames := (co_frames s)(h' \<mapsto> promise_new K), co_code := (co_code s)(h' \<mapsto> Runs c, h \<mapsto> Awaits t k)\<rparr>
      in bindE (task_await_ready t (co_frames s)) (\<lambda>rdy.
         if rdy then Inr s
         else bindE (task_await_suspend t h (co_frames s)) (\<lambda>(next, fs). Inr (s\<lparr>co_frames := fs, co_cur := Some next\<rparr>))))"

definition forget :: "task \<Rightarrow> (handle \<Rightarrow> 'a code option) \<Rightarrow> handle \<Rightarrow> 'a code option" where
  "forget t m = (case t of None \<Rightarrow> m | Some h \<Rightarrow> m(h := None))"

text \<open>The rest of the \<open>co_await\<close>: \<open>await_resume\<close>, and the temporary task dies at the end of the expression.\<close>

definition co_await_end :: "handle \<Rightarrow> task \<Rightarrow> ('a res \<Rightarrow> 'a body) \<Rightarrow> 'a co_sys \<Rightarrow> 'a co_sys res" where
  "co_await_end h t k s =
     (let go = (\<lambda>r. bindE (task_destruct t (co_frames s)) (\<lambda>fs.
                 Inr (s\<lparr>co_frames := fs, co_code := (forget t (co_code s))(h \<mapsto> Runs (k r))\<rparr>)))
      in case task_await_resume_rvalue t (co_frames s) of
           Inr v \<Rightarrow> go (Inr v)
         | Inl (Thrown e) \<Rightarrow> go (Inl (Thrown e))
         | Inl f \<Rightarrow> Inl f)"

text \<open>One step of coroutine \<open>h\<close>.\<close>

definition co_step :: "('a frames \<Rightarrow> handle) \<Rightarrow> handle \<Rightarrow> 'a co_sys \<Rightarrow> 'a co_sys res" where
  "co_step alloc h s =
     (case co_code s h of
        None \<Rightarrow> Inl Use_After_Free
      | Some At_End \<Rightarrow> Inl Resumed_Done
      | Some (Parked k) \<Rightarrow> Inl Resumed_Done
      | Some (Awaits t k) \<Rightarrow> co_await_end h t k s
      | Some (Runs b) \<Rightarrow>
          (case b of
             Co_Return v \<Rightarrow> co_finish h (\<lambda>f. Inr (promise_return_value v f)) s
           | Co_Throw e \<Rightarrow> co_finish h (promise_unhandled_exception e) s
           | Co_Log x b \<Rightarrow> Inr (s\<lparr>co_log := co_log s @ [x], co_code := (co_code s)(h \<mapsto> Runs b)\<rparr>)
           | Co_Await K c k \<Rightarrow> co_call alloc h K c k s
           | Co_Suspend k \<Rightarrow>
               Inr (s\<lparr>co_code := (co_code s)(h \<mapsto> Parked k), co_cur := None, co_parked := Some h\<rparr>)))"

text \<open>\<open>resume()\<close> of a suspended coroutine, with the answer \<open>v\<close> of the primitive it waits for.\<close>

definition co_resume :: "handle \<Rightarrow> int \<Rightarrow> 'a co_sys \<Rightarrow> 'a co_sys res" where
  "co_resume h v s =
     (case co_code s h of
        None \<Rightarrow> Inl Use_After_Free
      | Some At_End \<Rightarrow> Inl Resumed_Done
      | Some (Parked k) \<Rightarrow> Inr (s\<lparr>co_code := (co_code s)(h \<mapsto> Runs (k v)), co_cur := Some h, co_parked := None\<rparr>)
      | Some c \<Rightarrow> Inr (s\<lparr>co_cur := Some h\<rparr>))"

text \<open>
  The machine with an environment that answers each primitive with the next of the numbers \<open>vs\<close>. When
  there is none left and nothing executes, it stands still.
\<close>

definition co_next :: "('a frames \<Rightarrow> handle) \<Rightarrow> 'a co_sys \<times> int list \<Rightarrow> ('a co_sys \<times> int list) res" where
  "co_next alloc = (\<lambda>(s, vs).
     case co_cur s of
       Some h \<Rightarrow> bindE (co_step alloc h s) (\<lambda>s. Inr (s, vs))
     | None \<Rightarrow>
         (case (co_parked s, vs) of
            (Some h, v # vs) \<Rightarrow> bindE (co_resume h v s) (\<lambda>s. Inr (s, vs))
          | _ \<Rightarrow> Inr (s, vs)))"

fun co_drive :: "('a frames \<Rightarrow> handle) \<Rightarrow> nat \<Rightarrow> 'a co_sys \<times> int list \<Rightarrow> ('a co_sys \<times> int list) res" where
  "co_drive alloc 0 x = Inr x"
| "co_drive alloc (Suc n) x = bindE (co_next alloc x) (co_drive alloc n)"

text \<open>The allocator answers an address that no frame has.\<close>

definition fresh_alloc :: "('a frames \<Rightarrow> handle) \<Rightarrow> bool" where
  "fresh_alloc alloc \<longleftrightarrow> (\<forall>fs. finite (dom fs) \<longrightarrow> fs (alloc fs) = None)"

text \<open>A state in which coroutine \<open>h\<close> executes and code and frames belong together.\<close>

definition co_ok :: "handle \<Rightarrow> 'a co_sys \<Rightarrow> bool" where
  [inv_defs]: "co_ok h s \<longleftrightarrow> co_cur s = Some h \<and> co_parked s = None \<and> finite (dom (co_frames s)) \<and>
     dom (co_code s) = dom (co_frames s) \<and> co_frames s h \<noteq> None"

section \<open>Runs\<close>

lemma co_drive_add: "co_drive alloc (m + n) x = bindE (co_drive alloc m x) (co_drive alloc n)"
proof (induction m arbitrary: x)
  case (Suc m)
  then show ?case by (cases "co_next alloc x") simp_all
qed simp

lemma co_drive_trans:
  assumes "\<exists>m. co_drive alloc m x = Inr y" "\<exists>n. co_drive alloc n y = z"
  shows "\<exists>n. co_drive alloc n x = z"
proof -
  obtain m n where "co_drive alloc m x = Inr y" "co_drive alloc n y = z" using assms by blast
  then have "co_drive alloc (m + n) x = z" by (simp add: co_drive_add)
  then show ?thesis ..
qed

lemma co_drive_step: "co_next alloc x = Inr y \<Longrightarrow> \<exists>n. co_drive alloc n y = z \<Longrightarrow> \<exists>n. co_drive alloc n x = z"
  using co_drive_trans [of alloc x y z] by (metis bindE.simps(2) co_drive.simps)

lemma co_drive_one: "co_next alloc x = z \<Longrightarrow> \<exists>n. co_drive alloc n x = z"
  by (rule exI [of _ 1], cases z) simp_all

lemma co_drive_still:
  "co_cur s = None \<Longrightarrow> co_drive alloc n (s, []) = Inr (s, [])"
  by (induction n) (simp_all add: co_next_def split: option.splits)

lemma co_next_cur: "co_cur s = Some h \<Longrightarrow> co_next alloc (s, vs) = bindE (co_step alloc h s) (\<lambda>s. Inr (s, vs))"
  by (simp add: co_next_def)

text \<open>The frame of a coroutine that ended with \<open>r\<close>, a result that a promise of kind \<open>K\<close> can have.\<close>

fun ended :: "'a res \<Rightarrow> 'a frame \<Rightarrow> 'a frame" where
  "ended (Inr v) f = (promise_return_value v f)\<lparr>fr_done := True\<rparr>"
| "ended (Inl (Thrown e)) f = (case promise_unhandled_exception e f of Inr f' \<Rightarrow> f'\<lparr>fr_done := True\<rparr> | Inl _ \<Rightarrow> f)"
| "ended (Inl x) f = f"

fun fits :: "'a result_kind \<Rightarrow> 'a res \<Rightarrow> bool" where
  "fits K (Inr v) = (kept_value K v = v)"
| "fits K (Inl (Thrown e)) = keeps_exceptions K"
| "fits K (Inl x) = False"

lemma kept_value_kept [simp]: "kept_value K (kept_value K v) = kept_value K v"
  by (cases K) simp_all

lemma body_eval_fits: "body_eval b K vs = Ends r l vs' \<Longrightarrow> fits K r"
proof (induction b arbitrary: K vs r l vs')
  case (Co_Await K' c k)
  then show ?case using Co_Await.IH(2) [OF rangeI] by (auto split: outcome.splits)
next
  case (Co_Suspend k)
  then show ?case using Co_Suspend.IH [OF rangeI] by (auto split: list.splits)
qed (auto split: if_splits)

lemma fitsE:
  assumes "fits K r"
  obtains v where "r = Inr v" "kept_value K v = v" | e where "r = Inl (Thrown e)" "keeps_exceptions K"
  using assms by (cases "(K, r)" rule: fits.cases) auto

lemma ended_result:
  assumes "fits K r" "store_open K (fr_storage f)"
  shows "task_await_resume_rvalue (Some h) (fs(h \<mapsto> ended r f)) = r"
  using assms(1)
proof (cases rule: fitsE)
  case (1 v)
  then show ?thesis
    using store_open_value [OF assms(2), of v] by (simp add: task_await_resume_rvalue_def with_frame_def promise_return_value_def)
next
  case (2 e)
  then show ?thesis
    using store_open_exception(1) [OF assms(2), of e]
    by (auto simp: task_await_resume_rvalue_def with_frame_def promise_unhandled_exception_def)
qed

lemma co_finish_value:
  assumes "co_frames s h = Some f" "store_open K (fr_storage f)" "fr_parent f = Some p"
  shows "co_finish h (\<lambda>f. Inr (promise_return_value v f)) s =
    Inr (s\<lparr>co_frames := (co_frames s)(h \<mapsto> ended (Inr (kept_value K v)) f), co_code := (co_code s)(h \<mapsto> At_End), co_cur := Some p\<rparr>)"
  using assms store_open_value(2) [OF assms(2), of v]
  by (simp add: co_finish_def with_frame_def final_await_suspend_def promise_return_value_def Let_def)

lemma co_finish_exception:
  assumes "co_frames s h = Some f" "store_open K (fr_storage f)"
  shows "keeps_exceptions K \<Longrightarrow> fr_parent f = Some p \<Longrightarrow> co_finish h (promise_unhandled_exception e) s =
      Inr (s\<lparr>co_frames := (co_frames s)(h \<mapsto> ended (Inl (Thrown e)) f), co_code := (co_code s)(h \<mapsto> At_End), co_cur := Some p\<rparr>)"
    "\<not> keeps_exceptions K \<Longrightarrow> co_finish h (promise_unhandled_exception e) s = Inl Inactive_Member"
  using assms store_open_exception [OF assms(2), of e]
  by (auto simp: co_finish_def with_frame_def final_await_suspend_def promise_unhandled_exception_def Let_def)

lemma co_call_fresh:
  assumes "co_frames s (alloc (co_frames s)) = None"
  defines "h' \<equiv> alloc (co_frames s)"
  shows "co_call alloc h K c k s =
    Inr (s\<lparr>co_frames := (co_frames s)(h' \<mapsto> (promise_new K)\<lparr>fr_parent := Some h\<rparr>),
           co_code := (co_code s)(h' \<mapsto> Runs c, h \<mapsto> Awaits (Some h') k), co_cur := Some h'\<rparr>)"
  by (simp add: co_call_def h'_def get_return_object_def task_await_ready_def task_await_suspend_def frame_done_def
      with_frame_def promise_new_def Let_def)

lemma co_await_end_result:
  assumes "fits K r" "store_open K (fr_storage f)" "co_frames s h' = Some (ended r f)" "h' \<noteq> h"
  shows "co_await_end h (Some h') k s =
    Inr (s\<lparr>co_frames := (co_frames s)(h' := None), co_code := (co_code s)(h' := None, h \<mapsto> Runs (k r))\<rparr>)"
proof -
  have "co_frames s = (co_frames s)(h' \<mapsto> ended r f)" using assms(3) by auto
  then have "task_await_resume_rvalue (Some h') (co_frames s) = r" using ended_result [OF assms(1,2)] by metis
  moreover have "task_destruct (Some h') (co_frames s) = Inr ((co_frames s)(h' := None))"
    using assms(3) by (simp add: task_destruct_def frame_destroy_def with_frame_def)
  ultimately show ?thesis
    using assms(1) by (auto simp: co_await_end_def forget_def Let_def elim: fitsE)
qed

text \<open>A body that is executed in the frame \<open>h\<close>, on behalf of \<open>p\<close>, ends there with the result of the call.\<close>

definition returned :: "handle \<Rightarrow> 'a res \<Rightarrow> 'a list \<Rightarrow> 'a co_sys \<Rightarrow> 'a co_sys" where
  "returned h r l s =
     s\<lparr>co_frames := (co_frames s)(h \<mapsto> ended r (the (co_frames s h))), co_code := (co_code s)(h \<mapsto> At_End),
       co_cur := fr_parent (the (co_frames s h)), co_log := co_log s @ l\<rparr>"

text \<open>Entering and leaving an awaited task.\<close>

definition entered :: "handle \<Rightarrow> handle \<Rightarrow> 'a result_kind \<Rightarrow> 'a body \<Rightarrow> ('a res \<Rightarrow> 'a body) \<Rightarrow> 'a co_sys \<Rightarrow> 'a co_sys" where
  "entered h' h K c k s =
     s\<lparr>co_frames := (co_frames s)(h' \<mapsto> (promise_new K)\<lparr>fr_parent := Some h\<rparr>),
       co_code := (co_code s)(h' \<mapsto> Runs c, h \<mapsto> Awaits (Some h') k), co_cur := Some h'\<rparr>"

definition continued :: "handle \<Rightarrow> 'a body \<Rightarrow> 'a list \<Rightarrow> 'a co_sys \<Rightarrow> 'a co_sys" where
  "continued h b l s = s\<lparr>co_code := (co_code s)(h \<mapsto> Runs b), co_cur := Some h, co_log := co_log s @ l\<rparr>"

lemma co_call_enters:
  assumes "fresh_alloc alloc" "co_ok h s" "co_code s h = Some (Runs (Co_Await K c k))"
  defines "h' \<equiv> alloc (co_frames s)"
  shows "co_next alloc (s, vs) = Inr (entered h' h K c k s, vs)" "co_ok h' (entered h' h K c k s)"
    "co_code (entered h' h K c k s) h' = Some (Runs c)" "co_frames s h' = None" "co_code s h' = None" "h' \<noteq> h"
    "co_frames (entered h' h K c k s) h' = Some ((promise_new K)\<lparr>fr_parent := Some h\<rparr>)"
    "store_open K (fr_storage ((promise_new K)\<lparr>fr_parent := Some h\<rparr>))"
proof -
  show fresh: "co_frames s h' = None" "co_code s h' = None" "h' \<noteq> h"
    using assms by (auto simp: fresh_alloc_def co_ok_def)
  show "co_next alloc (s, vs) = Inr (entered h' h K c k s, vs)"
    using assms(2,3) co_call_fresh [of s alloc h K c k] fresh
    by (simp add: co_ok_def co_next_cur co_step_def entered_def h'_def)
  show "co_ok h' (entered h' h K c k s)" "co_code (entered h' h K c k s) h' = Some (Runs c)"
    using assms(2) fresh by (auto simp: co_ok_def entered_def)
qed (simp_all add: entered_def promise_new_def)

lemma co_return_continues:
  assumes "fits K r" "co_ok h s" "co_frames s h' = None" "co_code s h' = None" "h' \<noteq> h"
  shows "co_next alloc (returned h' r l (entered h' h K c k s), vs) = Inr (continued h (k r) l s, vs)"
    "co_ok h (continued h (k r) l s)"
proof -
  have undo: "(co_frames s)(h' := None) = co_frames s" "(co_code s)(h \<mapsto> x, h' := None) = (co_code s)(h \<mapsto> x)" for x
    using assms(3-5) by auto
  show "co_next alloc (returned h' r l (entered h' h K c k s), vs) = Inr (continued h (k r) l s, vs)"
    using co_await_end_result [OF assms(1), of "(promise_new K)\<lparr>fr_parent := Some h\<rparr>" "returned h' r l (entered h' h K c k s)" h' h k]
      assms(5) undo
    by (simp add: returned_def entered_def continued_def co_next_def co_step_def fun_upd_twist [of h' h] promise_new_def)
  show "co_ok h (continued h (k r) l s)" using assms(2) by (auto simp: co_ok_def continued_def)
qed

lemma co_body_runs:
  assumes "fresh_alloc alloc" "co_ok h s" "co_code s h = Some (Runs b)" "co_frames s h = Some f" "fr_parent f = Some p"
    "store_open K (fr_storage f)" "body_eval b K vs = Ends r l vs'"
  shows "\<exists>n. co_drive alloc n (s, vs) = Inr (returned h r l s, vs')"
  using assms(2-)
proof (induction b arbitrary: h s f p K vs r l vs')
  case (Co_Return v)
  have "co_next alloc (s, vs) = Inr (returned h r l s, vs')"
    using Co_Return co_finish_value [of s h f K p v]
    by (auto simp: co_ok_def co_next_cur co_step_def returned_def)
  then show ?case by (rule co_drive_one)
next
  case (Co_Throw e)
  have "co_next alloc (s, vs) = Inr (returned h r l s, vs')"
    using Co_Throw co_finish_exception(1) [of s h f K p e]
    by (auto simp: co_ok_def co_next_cur co_step_def returned_def split: if_splits)
  then show ?case by (rule co_drive_one)
next
  case (Co_Log x b)
  let ?s = "s\<lparr>co_log := co_log s @ [x], co_code := (co_code s)(h \<mapsto> Runs b)\<rparr>"
  obtain l' where l': "body_eval b K vs = Ends r l' vs'" "l = x # l'" using Co_Log.prems(6) by auto
  have "co_next alloc (s, vs) = Inr (?s, vs)"
    using Co_Log.prems by (simp add: co_ok_def co_next_cur co_step_def)
  moreover have "co_ok h ?s" using Co_Log.prems(1,3) by (auto simp: co_ok_def)
  then have "\<exists>n. co_drive alloc n (?s, vs) = Inr (returned h r l' ?s, vs')"
    using Co_Log.IH [of h ?s f p K vs r l' vs'] Co_Log.prems l' by simp
  moreover have "returned h r l' ?s = returned h r l s" by (simp add: returned_def l'(2))
  ultimately show ?case using co_drive_step by metis
next
  case (Co_Suspend k)
  let ?s = "s\<lparr>co_code := (co_code s)(h \<mapsto> Parked k), co_cur := None, co_parked := Some h\<rparr>"
  obtain v ws where v: "vs = v # ws" "body_eval (k v) K ws = Ends r l vs'"
    using Co_Suspend.prems(6) by (auto split: list.splits)
  let ?t = "s\<lparr>co_code := (co_code s)(h \<mapsto> Runs (k v))\<rparr>"
  have "co_next alloc (s, vs) = Inr (?s, vs)"
    using Co_Suspend.prems by (simp add: co_ok_def co_next_cur co_step_def)
  moreover have "co_next alloc (?s, vs) = Inr (?t, ws)"
    using Co_Suspend.prems(1) by (simp add: co_ok_def co_next_def co_resume_def v(1))
  moreover have "co_ok h ?t" using Co_Suspend.prems(1,3) by (auto simp: co_ok_def)
  then have "\<exists>n. co_drive alloc n (?t, ws) = Inr (returned h r l ?t, vs')"
    using Co_Suspend.IH [OF rangeI, of h ?t] Co_Suspend.prems v(2) by simp
  moreover have "returned h r l ?t = returned h r l s" by (simp add: returned_def)
  ultimately show ?case using co_drive_step by metis
next
  case (Co_Await K' c k)
  let ?h = "alloc (co_frames s)" let ?e = "entered ?h h K' c k s"
  obtain r1 l1 ws where c: "body_eval c K' vs = Ends r1 l1 ws" using Co_Await.prems(6) by (auto split: outcome.splits)
  then obtain l2 where k: "body_eval (k r1) K ws = Ends r l2 vs'" "l = l1 @ l2"
    using Co_Await.prems(6) by auto
  note enter = co_call_enters [OF assms(1) Co_Await.prems(1,2)]
  note leave = co_return_continues [OF body_eval_fits [OF c] Co_Await.prems(1) enter(4-6)]
  have child: "\<exists>n. co_drive alloc n (?e, vs) = Inr (returned ?h r1 l1 ?e, ws)"
    by (rule Co_Await.IH(1) [OF enter(2,3,7) _ enter(8) c, where p = h]) simp
  have "\<exists>n. co_drive alloc n (continued h (k r1) l1 s, ws) = Inr (returned h r l2 (continued h (k r1) l1 s), vs')"
    by (rule Co_Await.IH(2) [OF rangeI leave(2) _ _ Co_Await.prems(4,5) k(1)])
      (use Co_Await.prems(3) in \<open>simp_all add: continued_def\<close>)
  moreover have "returned h r l2 (continued h (k r1) l1 s) = returned h r l s" by (simp add: returned_def continued_def k(2))
  ultimately show ?case
    using co_drive_step [OF enter(1)] co_drive_trans [OF child] co_drive_step [OF leave(1)] by metis
qed

text \<open>
  A body that runs out of answers is suspended in a primitive, and no frame that was there before is
  touched.
\<close>

definition parked_above :: "'a co_sys \<Rightarrow> 'a co_sys \<Rightarrow> bool" where
  "parked_above s t \<longleftrightarrow> co_cur t = None \<and> co_parked t \<noteq> None \<and> co_frames s \<subseteq>\<^sub>m co_frames t"

lemma co_drive_step_ex:
  "co_next alloc x = Inr y \<Longrightarrow> \<exists>n t. co_drive alloc n y = Inr (t, vs) \<and> Q t \<Longrightarrow> \<exists>n t. co_drive alloc n x = Inr (t, vs) \<and> Q t"
  using co_drive_step by blast

lemma co_body_parks:
  assumes "fresh_alloc alloc" "co_ok h s" "co_code s h = Some (Runs b)" "body_eval b K vs = Needs_Answers"
  shows "\<exists>n t. co_drive alloc n (s, vs) = Inr (t, []) \<and> parked_above s t"
  using assms(2-)
proof (induction b arbitrary: h s K vs)
  case (Co_Log x b)
  let ?s = "s\<lparr>co_log := co_log s @ [x], co_code := (co_code s)(h \<mapsto> Runs b)\<rparr>"
  have "co_next alloc (s, vs) = Inr (?s, vs)"
    using Co_Log.prems by (simp add: co_ok_def co_next_cur co_step_def)
  moreover have "co_ok h ?s" using Co_Log.prems(1) by (auto simp: co_ok_def)
  then have "\<exists>n t. co_drive alloc n (?s, vs) = Inr (t, []) \<and> parked_above s t"
    using Co_Log.IH [of h ?s K vs] Co_Log.prems(3) by (simp add: parked_above_def)
  ultimately show ?case by (rule co_drive_step_ex)
next
  case (Co_Suspend k)
  let ?s = "s\<lparr>co_code := (co_code s)(h \<mapsto> Parked k), co_cur := None, co_parked := Some h\<rparr>"
  have step: "co_next alloc (s, vs) = Inr (?s, vs)"
    using Co_Suspend.prems by (simp add: co_ok_def co_next_cur co_step_def)
  show ?case
  proof (cases vs)
    case Nil
    then have "co_drive alloc 0 (?s, vs) = Inr (?s, []) \<and> parked_above s ?s" by (simp add: parked_above_def)
    then show ?thesis using co_drive_step_ex [OF step] by blast
  next
    case (Cons v ws)
    let ?t = "s\<lparr>co_code := (co_code s)(h \<mapsto> Runs (k v))\<rparr>"
    have resume: "co_next alloc (?s, vs) = Inr (?t, ws)"
      using Co_Suspend.prems(1) by (simp add: co_ok_def co_next_def co_resume_def Cons)
    have "co_ok h ?t" using Co_Suspend.prems(1) by (auto simp: co_ok_def)
    then have "\<exists>n t. co_drive alloc n (?t, ws) = Inr (t, []) \<and> parked_above s t"
      using Co_Suspend.IH [OF rangeI, of h ?t v K ws] Co_Suspend.prems(3) by (simp add: Cons parked_above_def)
    then show ?thesis using co_drive_step_ex [OF step] co_drive_step_ex [OF resume] by blast
  qed
next
  case (Co_Await K' c k)
  let ?h = "alloc (co_frames s)" let ?e = "entered ?h h K' c k s"
  note enter = co_call_enters [OF assms(1) Co_Await.prems(1,2)]
  show ?case
  proof (cases "body_eval c K' vs")
    case Needs_Answers
    then obtain n t where "co_drive alloc n (?e, vs) = Inr (t, [])" "parked_above ?e t"
      using Co_Await.IH(1) [OF enter(2,3)] by blast
    moreover have "co_frames s \<subseteq>\<^sub>m co_frames ?e" using enter(4) by (auto simp: entered_def map_le_def)
    then have "parked_above ?e t \<Longrightarrow> parked_above s t" for t
      unfolding parked_above_def using map_le_trans by blast
    ultimately show ?thesis using co_drive_step_ex [OF enter(1)] by blast
  next
    case (Ends r l ws)
    note leave = co_return_continues [OF body_eval_fits [OF Ends] Co_Await.prems(1) enter(4-6)]
    obtain m where child: "co_drive alloc m (?e, vs) = Inr (returned ?h r l ?e, ws)"
      using co_body_runs [OF assms(1) enter(2,3,7) _ enter(8) Ends, of h] by auto
    have "body_eval (k r) K ws = Needs_Answers" using Co_Await.prems(3) Ends by simp
    then have "\<exists>n t. co_drive alloc n (continued h (k r) l s, ws) = Inr (t, []) \<and> parked_above s t"
      using Co_Await.IH(2) [OF rangeI [of k r] leave(2) [where k = k and l = l]] by (simp add: continued_def parked_above_def)
    then obtain n t where "co_drive alloc n (returned ?h r l ?e, ws) = Inr (t, [])" "parked_above s t"
      using co_drive_step_ex [OF leave(1)] by blast
    then have "co_drive alloc (m + n) (?e, vs) = Inr (t, []) \<and> parked_above s t"
      using child by (simp add: co_drive_add)
    then show ?thesis using co_drive_step_ex [OF enter(1)] by blast
  next
    case Crashes
    then show ?thesis using Co_Await.prems(3) by simp
  qed
qed (simp_all split: if_splits)

text \<open>
  How a run goes wrong. An exception that leaves a task for plain data ends in the assignment to a member of the union that is not
  there; a body that ends in a frame without parent ends in a function that returns nothing.
\<close>

definition body_faults :: "'a body \<Rightarrow> 'a result_kind \<Rightarrow> handle option \<Rightarrow> int list \<Rightarrow> fault \<Rightarrow> bool" where
  "body_faults b K p vs x \<longleftrightarrow>
     (case body_eval b K vs of
        Ends r l vs' \<Rightarrow> p = None \<and> x = Missing_Return
      | Needs_Answers \<Rightarrow> False
      | Crashes \<Rightarrow> x = Inactive_Member)"

lemma body_faults_log: "body_faults (Co_Log y b) K p vs x \<longleftrightarrow> body_faults b K p vs x"
  by (cases "body_eval b K vs") (simp_all add: body_faults_def)

lemma co_finish_orphan:
  assumes "co_frames s h = Some f" "fr_parent f = None"
  shows "co_finish h (\<lambda>f. Inr (promise_return_value v f)) s = Inl Missing_Return"
    "store_open K (fr_storage f) \<Longrightarrow> keeps_exceptions K \<Longrightarrow> co_finish h (promise_unhandled_exception e) s = Inl Missing_Return"
  using assms store_open_exception(1) [of K "fr_storage f" e]
  by (auto simp: co_finish_def with_frame_def final_await_suspend_def promise_return_value_def promise_unhandled_exception_def Let_def)

lemma co_body_faults:
  assumes "fresh_alloc alloc" "co_ok h s" "co_code s h = Some (Runs b)" "co_frames s h = Some f"
    "store_open K (fr_storage f)" "body_faults b K (fr_parent f) vs x"
  shows "\<exists>n. co_drive alloc n (s, vs) = Inl x"
  using assms(2-)
proof (induction b arbitrary: h s f K vs)
  case (Co_Return v)
  have "co_next alloc (s, vs) = Inl x"
    using Co_Return co_finish_orphan(1) [of s h f v] by (auto simp: co_ok_def co_next_cur co_step_def body_faults_def)
  then show ?case by (rule co_drive_one)
next
  case (Co_Throw e)
  have "co_next alloc (s, vs) = Inl x"
    using Co_Throw co_finish_exception(2) [of s h f K e] co_finish_orphan(2) [of s h f K e]
    by (auto simp: co_ok_def co_next_cur co_step_def body_faults_def split: if_splits)
  then show ?case by (rule co_drive_one)
next
  case (Co_Log y b)
  let ?s = "s\<lparr>co_log := co_log s @ [y], co_code := (co_code s)(h \<mapsto> Runs b)\<rparr>"
  have "co_next alloc (s, vs) = Inr (?s, vs)"
    using Co_Log.prems by (simp add: co_ok_def co_next_cur co_step_def)
  moreover have "co_ok h ?s" using Co_Log.prems(1) by (auto simp: co_ok_def)
  then have "\<exists>n. co_drive alloc n (?s, vs) = Inl x"
    using Co_Log.IH [of h ?s f K vs] Co_Log.prems by (simp add: body_faults_log)
  ultimately show ?case by (rule co_drive_step)
next
  case (Co_Suspend k)
  let ?s = "s\<lparr>co_code := (co_code s)(h \<mapsto> Parked k), co_cur := None, co_parked := Some h\<rparr>"
  obtain v ws where v: "vs = v # ws" "body_faults (k v) K (fr_parent f) ws x"
    using Co_Suspend.prems(5) by (auto simp: body_faults_def split: list.splits)
  let ?t = "s\<lparr>co_code := (co_code s)(h \<mapsto> Runs (k v))\<rparr>"
  have "co_next alloc (s, vs) = Inr (?s, vs)"
    using Co_Suspend.prems by (simp add: co_ok_def co_next_cur co_step_def)
  moreover have "co_next alloc (?s, vs) = Inr (?t, ws)"
    using Co_Suspend.prems(1) by (simp add: co_ok_def co_next_def co_resume_def v(1))
  moreover have "co_ok h ?t" using Co_Suspend.prems(1) by (auto simp: co_ok_def)
  then have "\<exists>n. co_drive alloc n (?t, ws) = Inl x"
    using Co_Suspend.IH [OF rangeI, of h ?t v f K ws] Co_Suspend.prems v(2) by simp
  ultimately show ?case using co_drive_step by metis
next
  case (Co_Await K' c k)
  let ?h = "alloc (co_frames s)" let ?e = "entered ?h h K' c k s"
  note enter = co_call_enters [OF assms(1) Co_Await.prems(1,2)]
  have "\<exists>n. co_drive alloc n (?e, vs) = Inl x"
  proof (cases "body_eval c K' vs")
    case (Ends r l ws)
    note leave = co_return_continues [OF body_eval_fits [OF Ends] Co_Await.prems(1) enter(4-6)]
    have child: "\<exists>n. co_drive alloc n (?e, vs) = Inr (returned ?h r l ?e, ws)"
      by (rule co_body_runs [OF assms(1) enter(2,3,7) _ enter(8) Ends, where p = h]) simp
    have "body_faults (k r) K (fr_parent f) ws x" using Co_Await.prems(5) Ends by (cases "body_eval (k r) K ws") (simp_all add: body_faults_def)
    then have "\<exists>n. co_drive alloc n (continued h (k r) l s, ws) = Inl x"
      using Co_Await.IH(2) [OF rangeI [of k r] leave(2) [where k = k and l = l], of f K ws] Co_Await.prems(3,4)
      by (simp add: continued_def)
    then have "\<exists>n. co_drive alloc n (returned ?h r l ?e, ws) = Inl x" by (rule co_drive_step [OF leave(1)])
    with child show ?thesis by (rule co_drive_trans)
  next
    case Crashes
    then show ?thesis using Co_Await.IH(1) [OF enter(2,3,7,8)] Co_Await.prems(5) by (simp add: body_faults_def)
  qed (use Co_Await.prems(5) in \<open>simp add: body_faults_def\<close>)
  from co_drive_step [OF enter(1) this] show ?case .
qed

lemma co_await_runs:
  assumes "fresh_alloc alloc" "co_ok h s" "co_code s h = Some (Runs (Co_Await K c k))" "body_eval c K vs = Ends r l vs'"
  shows "\<exists>n. co_drive alloc n (s, vs) = Inr (continued h (k r) l s, vs')"
proof -
  let ?h = "alloc (co_frames s)" let ?e = "entered ?h h K c k s"
  note enter = co_call_enters [OF assms(1-3)]
  note leave = co_return_continues [OF body_eval_fits [OF assms(4)] assms(2) enter(4-6)]
  have "\<exists>n. co_drive alloc n (?e, vs) = Inr (returned ?h r l ?e, vs')"
    by (rule co_body_runs [OF assms(1) enter(2,3,7) _ enter(8) assms(4), where p = h]) simp
  moreover have "\<exists>n. co_drive alloc n (continued h (k r) l s, vs') = Inr (continued h (k r) l s, vs')"
    by (rule exI [of _ 0]) simp
  ultimately show ?thesis using co_drive_step [OF enter(1)] co_drive_trans co_drive_step [OF leave(1)] by metis
qed

lemma co_await_crashes:
  assumes "fresh_alloc alloc" "co_ok h s" "co_code s h = Some (Runs (Co_Await K c k))" "body_eval c K vs = Crashes"
  shows "\<exists>n. co_drive alloc n (s, vs) = Inl Inactive_Member"
proof -
  note enter = co_call_enters [OF assms(1-3)]
  from co_drive_step [OF enter(1) co_body_faults [OF assms(1) enter(2,3,7,8)]] assms(4) show ?thesis by (simp add: body_faults_def)
qed

section \<open>Engine and nested coroutines\<close>

text \<open>
  \<open>resume()\<close> as the engine calls it, for frames whose code is \<open>code\<close>: the machine runs for \<open>n\<close>
  steps or until control comes back; \<open>v\<close> is what the primitive answers.
\<close>

definition co_resumption ::
  "('a frames \<Rightarrow> handle) \<Rightarrow> nat \<Rightarrow> (handle \<Rightarrow> 'a code option) \<Rightarrow> int \<Rightarrow>
     handle \<Rightarrow> 'a frames \<times> io_state \<Rightarrow> ('a frames \<times> io_state) res" where
  "co_resumption alloc n code v h = (\<lambda>(fs, s).
     bindE (co_resume h v \<lparr>co_frames = fs, co_code = code, co_cur = None, co_parked = None, co_log = []\<rparr>) (\<lambda>t.
     bindE (co_drive alloc n (t, [])) (\<lambda>(t, _). Inr (co_frames t, s))))"

lemma co_drive_long:
  assumes "co_drive alloc m (s, []) = Inr (t, [])" "co_cur t = None" "m \<le> n"
  shows "co_drive alloc n (s, []) = Inr (t, [])"
  using assms co_drive_add [of alloc m "n - m" "(s, [])"] co_drive_still [OF assms(2)] by simp

text \<open>An awaited coroutine that is resumed, ends, and whose awaiting coroutine then suspends: its frame is gone.\<close>

lemma co_inner_ends:
  assumes "fresh_alloc alloc" "finite (dom fs)" "dom code = dom fs" "fs h = Some f" "fr_parent f = Some p" "p \<noteq> h"
    "code h = Some (Parked kc)" "code p = Some (Awaits (Some h) k)" "body_eval (kc v) K [] = Ends r l []" "k r = Co_Suspend k'"
    "store_open K (fr_storage f)"
  shows "\<exists>m. \<forall>n \<ge> m. co_resumption alloc n code v h (fs, s) = Inr (fs(h := None), s)"
proof -
  let ?t = "\<lparr>co_frames = fs, co_code = code(h \<mapsto> Runs (kc v)), co_cur = Some h, co_parked = None, co_log = []\<rparr>"
  have resume: "co_resume h v \<lparr>co_frames = fs, co_code = code, co_cur = None, co_parked = None, co_log = []\<rparr> = Inr ?t"
    using assms(7) by (simp add: co_resume_def)
  have "co_ok h ?t" using assms(2-4) by (auto simp: co_ok_def)
  then obtain m1 where m1: "co_drive alloc m1 (?t, []) = Inr (returned h r l ?t, [])"
    using co_body_runs [OF assms(1), of h ?t "kc v" f p K "[]" r l "[]"] assms(4,5,9,11) by auto
  let ?u = "\<lparr>co_frames = fs(h := None), co_code = code(h := None, p \<mapsto> Runs (Co_Suspend k')), co_cur = Some p, co_parked = None, co_log = l\<rparr>"
  have "co_next alloc (returned h r l ?t, []) = Inr (?u, [])"
    using co_await_end_result [OF body_eval_fits [OF assms(9)] assms(11), of "returned h r l ?t" h p k] assms(4-6,8,10)
    by (simp add: returned_def co_next_def co_step_def)
  moreover have "co_next alloc (?u, []) = Inr (?u\<lparr>co_code := (co_code ?u)(p \<mapsto> Parked k'), co_cur := None, co_parked := Some p\<rparr>, [])"
    by (simp add: co_next_def co_step_def)
  ultimately have "co_drive alloc 2 (returned h r l ?t, []) =
      Inr (?u\<lparr>co_code := (co_code ?u)(p \<mapsto> Parked k'), co_cur := None, co_parked := Some p\<rparr>, [])"
    by (simp add: numeral_2_eq_2)
  then have "co_drive alloc (m1 + 2) (?t, []) =
      Inr (?u\<lparr>co_code := (co_code ?u)(p \<mapsto> Parked k'), co_cur := None, co_parked := Some p\<rparr>, [])"
    by (simp only: co_drive_add m1 bindE.simps)
  then have "co_drive alloc n (?t, []) =
      Inr (?u\<lparr>co_code := (co_code ?u)(p \<mapsto> Parked k'), co_cur := None, co_parked := Some p\<rparr>, [])" if "m1 + 2 \<le> n" for n
    using co_drive_long that by fastforce
  then show ?thesis using resume by (intro exI [of _ "m1 + 2"]) (simp add: co_resumption_def)
qed

section \<open>An example\<close>

text \<open>\<open>examples/stack_call.cpp\<close>. The log line of \<open>func\<close> is its number; no exception is caught.\<close>

definition add_body :: "int \<Rightarrow> int \<Rightarrow> int body" where
  "add_body x y = Co_Return (x + y)"

definition func_body :: "int \<Rightarrow> int \<Rightarrow> int body" where
  "func_body x y = Co_Await (Plain 0) (add_body x y) (\<lambda>r.
     case r of Inr result \<Rightarrow> Co_Log result (Co_Return 0) | Inl (Thrown e) \<Rightarrow> Co_Throw e | Inl _ \<Rightarrow> Co_Throw [])"

section \<open>Properties\<close>

text \<open>
  C13. \<open>co_await\<close> on a task is a call. A coroutine that awaits a task it creates in the same expression goes on with
  exactly the result, value or exception, that the body of the task computes, after the log lines of the body, however deep
  the body itself awaits tasks and however often it is suspended in primitives and resumed by the
  engine; all frames are as before, so that every frame created on the way has been destroyed and no other touched. If
  the primitives do not answer often enough, control is back with the engine, one coroutine is
  suspended in a primitive, and all earlier frames are still as they were. The exception is one that
  leaves a task whose result is plain data, such as \<open>task<int>\<close>: it does not reach the awaiting coroutine, as its
  promise assigns it to a member of a union that was never made.
\<close>

theorem nested_await_is_call:
  assumes "fresh_alloc alloc" and "co_ok h s" and "co_code s h = Some (Runs (Co_Await K c k))"
  shows "case body_eval c K vs of
      Ends r l vs' \<Rightarrow> \<exists>n. co_drive alloc n (s, vs) =
        Inr (s\<lparr>co_code := (co_code s)(h \<mapsto> Runs (k r)), co_log := co_log s @ l\<rparr>, vs')
    | Needs_Answers \<Rightarrow> \<exists>n t. co_drive alloc n (s, vs) = Inr (t, []) \<and> co_cur t = None \<and> co_parked t \<noteq> None \<and>
        co_frames s \<subseteq>\<^sub>m co_frames t
    | Crashes \<Rightarrow> \<exists>n. co_drive alloc n (s, vs) = Inl Inactive_Member"
proof (cases "body_eval c K vs")
  case (Ends r l vs')
  have "continued h (k r) l s = s\<lparr>co_code := (co_code s)(h \<mapsto> Runs (k r)), co_log := co_log s @ l\<rparr>"
    using assms(2) by (simp add: continued_def co_ok_def)
  then show ?thesis using co_await_runs [OF assms Ends] Ends by simp
next
  case Needs_Answers
  then have "body_eval (Co_Await K c k) General vs = Needs_Answers" by simp
  from co_body_parks [OF assms this] show ?thesis using Needs_Answers by (simp add: parked_above_def)
next
  case Crashes
  then show ?thesis using co_await_crashes [OF assms] by simp
qed

definition demo_alloc :: "'a frames \<Rightarrow> handle" where
  "demo_alloc fs = (if finite (dom fs) then Suc (Max (insert 0 (dom fs))) else 0)"

lemma demo_alloc_fresh: "fresh_alloc demo_alloc"
proof -
  have "fs (Suc (Max (insert 0 (dom fs)))) = None" if "finite (dom fs)" for fs :: "'a frames"
  proof (rule ccontr)
    assume "fs (Suc (Max (insert 0 (dom fs)))) \<noteq> None"
    then have "Suc (Max (insert 0 (dom fs))) \<le> Max (insert 0 (dom fs))" using that by (intro Max_ge) auto
    then show False by simp
  qed
  then show ?thesis by (simp add: fresh_alloc_def demo_alloc_def)
qed

definition demo_root :: "int body \<Rightarrow> int co_sys" where
  "demo_root b = \<lparr>co_frames = [5 \<mapsto> promise_new (Void 0)], co_code = [5 \<mapsto> Runs b], co_cur = Some 5, co_parked = None, co_log = []\<rparr>"

lemma demo_root_ok: "co_ok 5 (demo_root b)" "co_code (demo_root b) 5 = Some (Runs b)"
  by (auto simp: co_ok_def demo_root_def)

text \<open>\<open>stack_call.cpp\<close>, and a caller of an \<open>add\<close> that throws, with an answer of a general type and with an \<open>int\<close>.\<close>

theorem nested_await_is_call_witness:
  "(\<exists>n. co_drive demo_alloc n (demo_root (func_body 3 4), []) =
     Inr ((demo_root (func_body 3 4))\<lparr>co_code := [5 \<mapsto> Runs (Co_Log 7 (Co_Return 0))]\<rparr>, [])) \<and>
   (\<exists>n. co_drive demo_alloc n (demo_root (Co_Await General (Co_Throw ''overflow'') (\<lambda>r. Co_Log 1 (Co_Return 0))), []) =
     Inr ((demo_root (Co_Log 1 (Co_Return 0))), [])) \<and>
   (\<exists>n. co_drive demo_alloc n (demo_root (Co_Await (Plain 0) (Co_Throw ''overflow'') (\<lambda>r. Co_Log 1 (Co_Return 0))), []) =
     Inl Inactive_Member)"
proof (intro conjI)
  have code: "co_code (demo_root (func_body 3 4)) 5 = Some (Runs (Co_Await (Plain 0) (add_body 3 4) (\<lambda>r.
     case r of Inr result \<Rightarrow> Co_Log result (Co_Return 0) | Inl (Thrown e) \<Rightarrow> Co_Throw e | Inl _ \<Rightarrow> Co_Throw [])))"
    by (simp add: demo_root_def func_body_def)
  show "\<exists>n. co_drive demo_alloc n (demo_root (func_body 3 4), []) =
     Inr ((demo_root (func_body 3 4))\<lparr>co_code := [5 \<mapsto> Runs (Co_Log 7 (Co_Return 0))]\<rparr>, [])"
    using nested_await_is_call [OF demo_alloc_fresh demo_root_ok(1) code, of "[]"]
    by (simp add: add_body_def) (simp add: demo_root_def)
  show "\<exists>n. co_drive demo_alloc n (demo_root (Co_Await General (Co_Throw ''overflow'') (\<lambda>r. Co_Log 1 (Co_Return 0))), []) =
     Inr ((demo_root (Co_Log 1 (Co_Return 0))), [])"
    using nested_await_is_call [OF demo_alloc_fresh demo_root_ok, of General "Co_Throw ''overflow''" "\<lambda>r. Co_Log 1 (Co_Return 0)" "[]"]
    by simp (simp add: demo_root_def)
  show "\<exists>n. co_drive demo_alloc n (demo_root (Co_Await (Plain 0) (Co_Throw ''overflow'') (\<lambda>r. Co_Log 1 (Co_Return 0))), []) =
     Inl Inactive_Member"
    using nested_await_is_call [OF demo_alloc_fresh demo_root_ok, of "Plain 0" "Co_Throw ''overflow''" "\<lambda>r. Co_Log 1 (Co_Return 0)" "[]"]
    by simp
qed

text \<open>
  C38. The engine reads a destroyed frame after it resumed a nested coroutine: let \<open>h\<close> be awaited as a temporary by \<open>p\<close> and
  be suspended in a primitive, so that the wake-up puts \<open>h\<close> in the queue of a context. If \<open>h\<close> then runs to
  its end and \<open>p\<close>, which goes on within the same \<open>resume()\<close>, suspends in its next primitive, the frame of \<open>h\<close> has
  died with the temporary when \<open>exec_one_task\<close> asks whether \<open>h\<close> is done.
\<close>

theorem nested_resume_use_after_free:
  assumes "has_worker s" and "ctx_queue c = h # hs" and "fresh_alloc alloc" and "finite (dom fs)" and "dom code = dom fs"
    and "fs h = Some f" and "fr_parent f = Some p" and "p \<noteq> h" and "code h = Some (Parked kc)"
    and "code p = Some (Awaits (Some h) k)" and "body_eval (kc v) K [] = Ends r l []" and "k r = Co_Suspend k'"
    and "store_open K (fr_storage f)"
  shows "\<exists>m. \<forall>n \<ge> m. exec_one_task (co_resumption alloc n code v) (fs, put_ctx c s) = Inl Use_After_Free"
proof -
  let ?s = "put_ctx (c\<lparr>m_engine := (m_engine c)\<lparr>m_task_queue := hs\<rparr>\<rparr>) s"
  obtain m where m: "\<And>n. m \<le> n \<Longrightarrow> co_resumption alloc n code v h (fs, ?s) = Inr (fs(h := None), ?s)"
    using co_inner_ends [OF assms(3-13)] by blast
  show ?thesis
    using assms(1,2,6) m
    by (intro exI [of _ m]) (simp add: exec_one_task_def schedule_def tq_pop_def with_frame_def frame_done_def)
qed

theorem nested_resume_use_after_free_witness:
  "let c = (w_ctxs demo_world ! 0)\<lparr>m_engine := (m_engine (w_ctxs demo_world ! 0))\<lparr>m_task_queue := [6]\<rparr>\<rparr>;
       fs = [5 \<mapsto> (promise_new (Void 0) :: int frame)\<lparr>fr_detached := True\<rparr>, 6 \<mapsto> (promise_new (Plain 0))\<lparr>fr_parent := Some 5\<rparr>];
       code = [5 \<mapsto> Awaits (Some 6) (\<lambda>_. Co_Suspend Co_Return), 6 \<mapsto> Parked Co_Return]
   in \<exists>m. \<forall>n \<ge> m. exec_one_task (co_resumption demo_alloc n code 3) (fs, put_ctx c (demo_io demo_io_engine)) = Inl Use_After_Free"
proof -
  have w: "has_worker (demo_io demo_io_engine)" by (simp add: has_worker_def demo_io_def demo_world_def)
  show ?thesis unfolding Let_def
    by (rule nested_resume_use_after_free [OF w _ demo_alloc_fresh, where h = 6 and p = 5 and hs = "[]" and r = "Inr 3" and l = "[]"
          and f = "(promise_new (Plain 0))\<lparr>fr_parent := Some 5\<rparr>" and K = "Plain 0" and kc = Co_Return and k = "\<lambda>_. Co_Suspend Co_Return" and k' = Co_Return])
      (auto simp: promise_new_def)
qed

text \<open>
  C8. A task that was handed to the engine, and is awaited by nobody, ends in undefined behaviour: when \<open>exec_one_task\<close> resumes a
  coroutine without parent at its start and its body runs to the end, by a result or by an exception that its promise can store, then
  \<open>final_awaiter::await_suspend\<close>, which is to return a handle, flows off its end.
\<close>

theorem engine_task_flows_off_end:
  assumes "has_worker s" and "ctx_queue c = h # hs" and "fresh_alloc alloc" and "finite (dom fs)" and "dom code = dom fs"
    and "fs h = Some f" and "fr_parent f = None" and "store_open K (fr_storage f)" and "code h = Some (Runs b)"
    and "body_eval b K [] = Ends r l []"
  shows "\<exists>n. exec_one_task (co_resumption alloc n code v) (fs, put_ctx c s) = Inl Missing_Return"
proof -
  let ?t = "\<lparr>co_frames = fs, co_code = code, co_cur = Some h, co_parked = None, co_log = []\<rparr>"
  have "co_ok h ?t" using assms(4-6) by (auto simp: co_ok_def)
  then obtain n where "co_drive alloc n (?t, []) = Inl Missing_Return"
    using co_body_faults [OF assms(3), of h ?t b f K "[]" Missing_Return] assms(6-10) by (auto simp: body_faults_def)
  then have "co_resumption alloc n code v h (fs, t) = Inl Missing_Return" for t
    using assms(9) by (simp add: co_resumption_def co_resume_def)
  then show ?thesis
    using assms(1,2,6) by (intro exI [of _ n]) (simp add: exec_one_task_def schedule_def tq_pop_def with_frame_def)
qed

theorem engine_task_flows_off_end_witness:
  "let c = (w_ctxs demo_world ! 0)\<lparr>m_engine := (m_engine (w_ctxs demo_world ! 0))\<lparr>m_task_queue := [5]\<rparr>\<rparr>;
       fs = [5 \<mapsto> (promise_new (Void 0) :: int frame)\<lparr>fr_detached := True\<rparr>]
   in \<exists>n. exec_one_task (co_resumption demo_alloc n [5 \<mapsto> Runs (func_body 3 4)] 0) (fs, put_ctx c (demo_io demo_io_engine)) = Inl Missing_Return"
proof -
  have w: "has_worker (demo_io demo_io_engine)" by (simp add: has_worker_def demo_io_def demo_world_def)
  show ?thesis unfolding Let_def
    by (rule engine_task_flows_off_end [OF w _ demo_alloc_fresh, where h = 5 and hs = "[]" and f = "(promise_new (Void 0))\<lparr>fr_detached := True\<rparr>"
          and K = "Void 0" and b = "func_body 3 4" and r = "Inr 0" and l = "[7]"])
      (auto simp: promise_new_def func_body_def add_body_def)
qed

text \<open>\<open>stack_call.cpp\<close>: \<open>func(3, 4)\<close> logs 7 and is at its end, the frame of \<open>add\<close> is gone.\<close>

lemma stack_call_logs:
  assumes "fresh_alloc alloc" and "co_ok h s" and "co_code s h = Some (Runs (func_body 3 4))" and "co_frames s h = Some f"
    and "fr_parent f = Some p" and "store_open (Void 0) (fr_storage f)"
  shows "\<exists>n. co_drive alloc n (s, []) =
    Inr (s\<lparr>co_frames := (co_frames s)(h \<mapsto> (promise_return_value 0 f)\<lparr>fr_done := True\<rparr>),
           co_code := (co_code s)(h \<mapsto> At_End), co_cur := Some p, co_log := co_log s @ [7]\<rparr>, [])"
proof -
  have "body_eval (func_body 3 4) (Void 0) [] = Ends (Inr 0) [7] []" by (simp add: func_body_def add_body_def)
  from co_body_runs [OF assms(1-6) this] show ?thesis using assms(4,5) by (simp add: returned_def)
qed

end
