(* ===== verification/When_All.thy ===== *)
theory When_All
  imports Nested_Calls
begin

text \<open>
  \<open>coro/comp/when_all.hpp\<close> and \<open>coro/parallel/parallel.hpp\<close>, with the programs \<open>when_all.cpp\<close>,
  \<open>when_all_value.cpp\<close> and \<open>parallel_calc.cpp\<close>. \<open>when_all\<close> is a placeholder: its awaiter is
  \<open>std::suspend_always\<close> with an \<open>await_resume\<close> that answers a value-initialised container. The
  states are those of the machine of \<open>Nested_Calls\<close>.
\<close>

section \<open>The placeholder\<close>

definition when_all_await_ready :: bool where
  "when_all_await_ready = False"

text \<open>\<open>await_suspend\<close> does not keep the handle: nobody can resume \<open>h\<close>, which would go on with \<open>k\<close>.\<close>

definition when_all_await_suspend :: "handle \<Rightarrow> 'a body \<Rightarrow> 'a co_sys \<Rightarrow> 'a co_sys" where
  "when_all_await_suspend h k s = s\<lparr>co_code := (co_code s)(h \<mapsto> Parked (\<lambda>_. k)), co_cur := None\<rparr>"

text \<open>\<open>await_resume\<close> of \<open>awaiter<int>\<close> and of \<open>awaiter<std::vector<int>>\<close>.\<close>

definition when_all_await_resume :: "int list" where
  "when_all_await_resume = [0]"

definition when_all_range_await_resume :: "int list" where
  "when_all_range_await_resume = []"

text \<open>
  The tasks passed to the variadic version are its parameters. The language leaves it to the
  implementation whether they die when it returns (\<open>early\<close>) or at the end of the full
  expression, which the \<open>co_await\<close> is a part of. The other version has a reference to a range.
\<close>

definition drop_task :: "task \<Rightarrow> 'a co_sys \<Rightarrow> 'a co_sys res" where
  "drop_task t s = bindE (task_destruct t (co_frames s)) (\<lambda>fs. Inr (s\<lparr>co_frames := fs, co_code := forget t (co_code s)\<rparr>))"

definition when_all :: "bool \<Rightarrow> task list \<Rightarrow> 'a co_sys \<Rightarrow> 'a co_sys res" where
  "when_all early awaitables s = (if early then foldE drop_task (rev awaitables) s else Inr s)"

definition when_all_range :: "task list \<Rightarrow> 'a co_sys \<Rightarrow> 'a co_sys res" where
  "when_all_range awaitables s = Inr s"

text \<open>The calls of coroutine functions that only create frames, one after the other; \<open>K\<close> is the kind of their result.\<close>

fun make_tasks :: "('a frames \<Rightarrow> handle) \<Rightarrow> 'a result_kind \<Rightarrow> 'a body list \<Rightarrow> 'a co_sys \<Rightarrow> task list \<times> 'a co_sys" where
  "make_tasks alloc K [] s = ([], s)"
| "make_tasks alloc K (b # bs) s =
     (let h = alloc (co_frames s);
          (ts, s) = make_tasks alloc K bs (s\<lparr>co_frames := (co_frames s)(h \<mapsto> promise_new K), co_code := (co_code s)(h \<mapsto> Runs b)\<rparr>)
      in (get_return_object h # ts, s))"

text \<open>
  \<open>parallel_func\<close> on tasks with results: its frame \<open>h\<close> awaits \<open>when_all\<close> on the range and would return what
  \<open>reduce\<close> makes of the answer; and the version without results.
\<close>

definition parallel_func :: "(int list \<Rightarrow> 'a) \<Rightarrow> task list \<Rightarrow> handle \<Rightarrow> 'a co_sys \<Rightarrow> 'a co_sys res" where
  "parallel_func reduce tasks h s =
     bindE (when_all_range tasks s) (\<lambda>s.
     if when_all_await_ready then Inr s
     else Inr (when_all_await_suspend h (Co_Return (reduce when_all_range_await_resume)) s))"

definition parallel_func_void :: "'a \<Rightarrow> task list \<Rightarrow> handle \<Rightarrow> 'a co_sys \<Rightarrow> 'a co_sys res" where
  "parallel_func_void unit tasks h s = parallel_func (\<lambda>_. unit) tasks h s"

section \<open>Programs\<close>

datatype line = Line string "int list"

definition nothing :: line where "nothing = Line [] []"

text \<open>The results of \<open>task<>\<close> and of \<open>task<int>\<close>.\<close>

definition line_void :: "line result_kind" where "line_void = Void nothing"

definition line_int :: "line result_kind" where "line_int = Plain (Line [] [0])"

text \<open>\<open>when_all.cpp\<close> and \<open>when_all_value.cpp\<close>: a task that logs and returns, and the one that awaits three of them.\<close>

definition sub_func :: "int \<Rightarrow> line body" where
  "sub_func i = Co_Log (Line ''sub func running'' [i]) (Co_Return nothing)"

definition sub_func_value :: "int \<Rightarrow> line body" where
  "sub_func_value i = Co_Log (Line ''sub func running'' [i]) (Co_Return (Line [] [i]))"

definition log_line :: "'a \<Rightarrow> 'a co_sys \<Rightarrow> 'a co_sys" where
  "log_line x s = s\<lparr>co_log := co_log s @ [x]\<rparr>"

definition when_all_func ::
  "bool \<Rightarrow> (line frames \<Rightarrow> handle) \<Rightarrow> line result_kind \<Rightarrow> (int \<Rightarrow> line body) \<Rightarrow> line body \<Rightarrow> int \<Rightarrow> handle \<Rightarrow> line co_sys \<Rightarrow> line co_sys res" where
  "when_all_func early alloc K sub rest i h s =
     (let (ts, s) = make_tasks alloc K [sub (i + 1), sub (i + 2), sub (i + 3)] (log_line (Line ''ready to wait all sub task'' []) s)
      in bindE (when_all early ts s) (\<lambda>s.
         if when_all_await_ready then Inr s else Inr (when_all_await_suspend h rest s)))"

definition when_all_example :: "bool \<Rightarrow> (line frames \<Rightarrow> handle) \<Rightarrow> handle \<Rightarrow> line co_sys \<Rightarrow> line co_sys res" where
  "when_all_example early alloc =
     when_all_func early alloc line_void sub_func (Co_Log (Line ''wait all sub task finish'' []) (Co_Return nothing)) 0"

definition when_all_value_example :: "bool \<Rightarrow> (line frames \<Rightarrow> handle) \<Rightarrow> handle \<Rightarrow> line co_sys \<Rightarrow> line co_sys res" where
  "when_all_value_example early alloc =
     when_all_func early alloc line_int sub_func_value
       (fold (\<lambda>it. Co_Log (Line ''receive data'' [it])) when_all_await_resume
         (Co_Log (Line ''wait all sub task finish'' []) (Co_Return nothing))) 0"

text \<open>\<open>parallel_calc.cpp\<close>: five tasks in a vector, awaited through \<open>parallel_func\<close>, whose frame \<open>alloc\<close> places.\<close>

definition square :: "int \<Rightarrow> line body" where
  "square i = Co_Return (Line [] [i * i])"

definition parallel_compute :: "(line frames \<Rightarrow> handle) \<Rightarrow> handle \<Rightarrow> line co_sys \<Rightarrow> line co_sys res" where
  "parallel_compute alloc h s =
     (let (vec, s) = make_tasks alloc line_int (map square [1..5]) s;
          p = alloc (co_frames s)
      in bindE (co_call alloc h line_int (Co_Return nothing) (\<lambda>r. case r of Inr answer \<Rightarrow> Co_Log answer (Co_Return nothing) | Inl _ \<Rightarrow> Co_Throw []) s)
           (parallel_func (\<lambda>xs. Line ''final answer'' [sum_list xs]) vec p))"

section \<open>Facts\<close>

lemma stuck:
  assumes "co_cur s = None" "co_parked s = None"
  shows "co_drive alloc n (s, vs) = Inr (s, vs)"
  using assms by (induction n) (simp_all add: co_next_def)

definition wf_frames :: "'a co_sys \<Rightarrow> bool" where
  "wf_frames s \<longleftrightarrow> finite (dom (co_frames s)) \<and> dom (co_code s) = dom (co_frames s)"

lemma make_tasks_undo:
  assumes "fresh_alloc alloc" "wf_frames s" "make_tasks alloc K bs s = (ts, t)"
  shows "foldE drop_task (rev ts) t = Inr s"
  using assms(2,3)
proof (induction bs arbitrary: s ts)
  case (Cons b bs)
  let ?h = "alloc (co_frames s)"
  let ?s = "s\<lparr>co_frames := (co_frames s)(?h \<mapsto> promise_new K), co_code := (co_code s)(?h \<mapsto> Runs b)\<rparr>"
  have fresh: "co_frames s ?h = None" "co_code s ?h = None"
    using assms(1) Cons.prems(1) by (auto simp: fresh_alloc_def wf_frames_def)
  obtain us where us: "make_tasks alloc K bs ?s = (us, t)" "ts = Some ?h # us"
    using Cons.prems(2) by (auto simp: Let_def get_return_object_def split: prod.splits)
  have "wf_frames ?s" using Cons.prems(1) by (auto simp: wf_frames_def)
  from Cons.IH [OF this us(1)] have "foldE drop_task (rev us) t = Inr ?s" .
  moreover have "drop_task (Some ?h) ?s = Inr s"
    using fresh by (simp add: drop_task_def task_destruct_def frame_destroy_def with_frame_def forget_def fun_upd_idem)
  ultimately show ?case by (simp add: us(2) foldE_append)
qed simp

lemma make_tasks_more:
  assumes "make_tasks alloc K bs s = (ts, t)"
  shows "co_cur t = co_cur s \<and> co_parked t = co_parked s \<and> co_log t = co_log s"
  using assms by (induction bs arbitrary: s ts) (fastforce simp: Let_def split: prod.splits)+

lemma make_tasks_grows:
  assumes "fresh_alloc alloc" "wf_frames s" "make_tasks alloc K bs s = (ts, t)"
  shows "co_frames s \<subseteq>\<^sub>m co_frames t"
  using assms(2,3)
proof (induction bs arbitrary: s ts)
  case (Cons b bs)
  let ?h = "alloc (co_frames s)"
  let ?s = "s\<lparr>co_frames := (co_frames s)(?h \<mapsto> promise_new K), co_code := (co_code s)(?h \<mapsto> Runs b)\<rparr>"
  have "co_frames s ?h = None" using assms(1) Cons.prems(1) by (auto simp: fresh_alloc_def wf_frames_def)
  then have "co_frames s \<subseteq>\<^sub>m co_frames ?s" by (auto simp: map_le_def)
  moreover have "wf_frames ?s" using Cons.prems(1) by (auto simp: wf_frames_def)
  then have "co_frames ?s \<subseteq>\<^sub>m co_frames t"
    using Cons.IH [of ?s] Cons.prems(2) by (auto simp: Let_def simp del: fun_upd_apply split: prod.splits)
  ultimately show ?case using map_le_trans by blast
qed simp

lemma when_all_func_stuck:
  assumes "fresh_alloc alloc" "co_ok h s"
  shows "\<exists>t. when_all_func early alloc K sub rest i h s = Inr t \<and> co_frames s \<subseteq>\<^sub>m co_frames t \<and>
    (early \<longrightarrow> co_frames t = co_frames s) \<and> co_cur t = None \<and> co_parked t = None \<and>
    co_log t = co_log s @ [Line ''ready to wait all sub task'' []]"
proof -
  let ?s = "log_line (Line ''ready to wait all sub task'' []) s"
  obtain ts t where ts: "make_tasks alloc K [sub (i + 1), sub (i + 2), sub (i + 3)] ?s = (ts, t)" by fastforce
  have wf: "wf_frames ?s" using assms(2) by (simp add: wf_frames_def co_ok_def log_line_def)
  show ?thesis
    using make_tasks_undo [OF assms(1) wf ts] make_tasks_grows [OF assms(1) wf ts] make_tasks_more [OF ts] assms(2)
    unfolding when_all_func_def ts
    by (cases early) (simp_all add: when_all_def when_all_await_ready_def when_all_await_suspend_def log_line_def co_ok_def)
qed

section \<open>Properties\<close>

text \<open>
  C39. \<open>co_await when_all(...)\<close> never comes back: in \<open>when_all.cpp\<close> and \<open>when_all_value.cpp\<close> the three tasks do
  not run, and are destroyed if parameters die early; the awaiting coroutine is suspended with its handle kept by nobody,
  and from then on nothing happens, whatever the primitives answer; its frame is never destroyed.
\<close>

theorem when_all_never_returns:
  assumes "fresh_alloc alloc" and "co_ok h s"
  shows "\<forall>example \<in> {when_all_example early alloc, when_all_value_example early alloc}. \<exists>t. example h s = Inr t \<and>
    co_frames s \<subseteq>\<^sub>m co_frames t \<and> (early \<longrightarrow> co_frames t = co_frames s) \<and> co_cur t = None \<and>
    co_log t = co_log s @ [Line ''ready to wait all sub task'' []] \<and> (\<forall>n vs. co_drive alloc n (t, vs) = Inr (t, vs))"
proof -
  have "\<exists>t. when_all_func early alloc K sub rest i h s = Inr t \<and>
    co_frames s \<subseteq>\<^sub>m co_frames t \<and> (early \<longrightarrow> co_frames t = co_frames s) \<and> co_cur t = None \<and>
    co_log t = co_log s @ [Line ''ready to wait all sub task'' []] \<and>
    (\<forall>n vs. co_drive alloc n (t, vs) = Inr (t, vs))" for K sub rest i
    using when_all_func_stuck [OF assms, of early K sub rest i] stuck by blast
  then show ?thesis by (simp add: when_all_example_def when_all_value_example_def)
qed

theorem when_all_never_returns_witness:
  "\<exists>t. when_all_example True demo_alloc 5 \<lparr>co_frames = [5 \<mapsto> promise_new line_void], co_code = [5 \<mapsto> Runs (Co_Return nothing)],
      co_cur = Some 5, co_parked = None, co_log = []\<rparr> = Inr t \<and> co_log t = [Line ''ready to wait all sub task'' []] \<and>
    (\<forall>n vs. co_drive demo_alloc n (t, vs) = Inr (t, vs))"
proof -
  have "co_ok 5 \<lparr>co_frames = [5 \<mapsto> promise_new line_void], co_code = [5 \<mapsto> Runs (Co_Return nothing)],
      co_cur = Some 5, co_parked = None, co_log = []\<rparr>" by (auto simp: co_ok_def)
  from when_all_never_returns [OF demo_alloc_fresh this, of True] show ?thesis by auto
qed

text \<open>Nor does \<open>parallel_func\<close>: \<open>parallel_calc.cpp\<close> logs no answer.\<close>

lemma make_tasks_wf: "make_tasks alloc K bs s = (ts, t) \<Longrightarrow> wf_frames s \<Longrightarrow> wf_frames t"
proof (induction bs arbitrary: s ts)
  case (Cons b bs)
  then show ?case by (fastforce simp: Let_def wf_frames_def split: prod.splits)
qed simp

lemma parallel_compute_never_returns:
  assumes "fresh_alloc alloc" and "co_ok h s"
  shows "\<exists>t. parallel_compute alloc h s = Inr t \<and> co_log t = co_log s \<and> (\<forall>n vs. co_drive alloc n (t, vs) = Inr (t, vs))"
proof -
  obtain vec u where u: "make_tasks alloc line_int (map square [1..5]) s = (vec, u)" by fastforce
  have "wf_frames s" using assms(2) by (simp add: wf_frames_def co_ok_def)
  then have "finite (dom (co_frames u))" using make_tasks_wf [OF u] by (simp add: wf_frames_def)
  then have fresh: "co_frames u (alloc (co_frames u)) = None" using assms(1) by (simp add: fresh_alloc_def)
  have "co_parked u = None" "co_log u = co_log s" using make_tasks_more [OF u] assms(2) by (simp_all add: co_ok_def)
  then show ?thesis
    unfolding parallel_compute_def u
    by (simp add: co_call_fresh [where s = u and alloc = alloc, OF fresh] parallel_func_def when_all_range_def when_all_await_ready_def
        when_all_await_suspend_def stuck Let_def)
qed

end
