(* ===== verification/Worker_Io.thy ===== *)
theory Worker_Io
  imports Tcp Run_Loop
begin

text \<open>
  Input and output on any number of workers: what the awaiters, the poll and the submissions of \<open>Io\<close>,
  \<open>Tcp\<close> and \<open>Runtime\<close> do to the contexts, as equations and inversions, and the places in which the
  handle of a coroutine can be: the task queue of a context, a prepared request, a request with the
  kernel, a completion. A coroutine keeps the awaiter of its current \<open>co_await\<close> in its frame,
  here at the address of the frame.
\<close>

section \<open>One worker's view\<close>

definition on_worker :: "nat \<Rightarrow> io_state \<Rightarrow> io_state" where
  "on_worker i s = s\<lparr>io_world := (io_world s)\<lparr>linfo_ctx := Some i\<rparr>\<rparr>"

definition worker_at :: "nat \<Rightarrow> io_state \<Rightarrow> bool" where
  "worker_at i s \<longleftrightarrow> linfo_ctx (io_world s) = Some i \<and> i < length (w_ctxs (io_world s))"

definition ctx_at :: "nat \<Rightarrow> io_state \<Rightarrow> ctx" where
  "ctx_at i s = w_ctxs (io_world s) ! i"

definition set_ctx :: "nat \<Rightarrow> ctx \<Rightarrow> io_state \<Rightarrow> io_state" where
  "set_ctx i c s = s\<lparr>io_world := (io_world s)\<lparr>w_ctxs := (w_ctxs (io_world s))[i := c]\<rparr>\<rparr>"

abbreviation set_eng :: "nat \<Rightarrow> engine \<Rightarrow> io_state \<Rightarrow> io_state" where
  "set_eng i e s \<equiv> set_ctx i ((ctx_at i s)\<lparr>m_engine := e\<rparr>) s"

abbreviation eng_at :: "nat \<Rightarrow> io_state \<Rightarrow> engine" where
  "eng_at i s \<equiv> m_engine (ctx_at i s)"

lemma worker_at_on [simp]: "worker_at i (on_worker i s) \<longleftrightarrow> i < length (w_ctxs (io_world s))"
  by (simp add: worker_at_def on_worker_def)

lemma on_worker_simps [simp]:
  "io_infos (on_worker i s) = io_infos s" "w_ctxs (io_world (on_worker i s)) = w_ctxs (io_world s)"
  "ctx_at j (on_worker i s) = ctx_at j s"
  by (simp_all add: on_worker_def ctx_at_def)

lemma set_ctx_simps [simp]:
  "io_infos (set_ctx i c s) = io_infos s" "w_ctxs (io_world (set_ctx i c s)) = (w_ctxs (io_world s))[i := c]"
  "worker_at j (set_ctx i c s) \<longleftrightarrow> worker_at j s" "set_ctx i c (set_ctx i d s) = set_ctx i c s"
  "worker_at i s \<Longrightarrow> ctx_at i (set_ctx i c s) = c" "worker_at i s \<Longrightarrow> set_ctx i (ctx_at i s) s = s"
  by (simp_all add: set_ctx_def worker_at_def ctx_at_def)

lemma set_info_simps [simp]:
  "ctx_at i (set_info a f s) = ctx_at i s" "worker_at i (set_info a f s) \<longleftrightarrow> worker_at i s"
  "set_ctx i c (set_info a f s) = set_info a f (set_ctx i c s)" "io_infos (set_info a f s) = (io_infos s)(a := f (io_infos s a))"
  by (simp_all add: set_info_def set_ctx_def worker_at_def ctx_at_def)

lemma worker_local [simp]:
  assumes "worker_at i s"
  shows "local_engine s = Inr (eng_at i s)" "set_local_engine e s = Inr (set_eng i e s)" "local_ctx s = Inr (ctx_at i s)"
    "with_local_ctx f s = bindE (f (ctx_at i s)) (\<lambda>c. Inr (set_ctx i c s))"
proof -
  have i: "linfo_ctx (io_world s) = Some i" "i < length (w_ctxs (io_world s))" using assms by (simp_all add: worker_at_def)
  show "local_engine s = Inr (eng_at i s)" "local_ctx s = Inr (ctx_at i s)" "set_local_engine e s = Inr (set_eng i e s)"
    using i by (simp_all add: local_engine_def local_ctx_def local_context_def set_local_engine_def with_ctx_def ctx_at_def set_ctx_def)
  show "with_local_ctx f s = bindE (f (ctx_at i s)) (\<lambda>c. Inr (set_ctx i c s))"
    using i by (cases "f (ctx_at i s)") (simp_all add: with_local_ctx_def local_context_def with_ctx_def ctx_at_def set_ctx_def)
qed

section \<open>Awaiters\<close>

text \<open>Every constructor of an awaiter adds one request.\<close>

definition add_req :: "sqe \<Rightarrow> engine \<Rightarrow> engine" where
  "add_req q e = e\<lparr>m_upxy := (m_upxy e)\<lparr>up_sq := up_sq (m_upxy e) @ [q]\<rparr>, m_io_submit_count := m_io_submit_count e + 1\<rparr>"

definition await_req :: "nat \<Rightarrow> sqe_op \<Rightarrow> int \<Rightarrow> (io_info \<Rightarrow> io_info) \<Rightarrow> nat \<Rightarrow> io_state \<Rightarrow> io_state res" where
  "await_req i op fl f a s =
     (if length (up_sq (m_upxy (eng_at i s))) < sq_entries (m_upxy (eng_at i s))
      then Inr (set_info a f (set_eng i (add_req \<lparr>sqe_op = op, sqe_flags = fl, sqe_data = a\<rparr> (eng_at i s)) s))
      else Inl Assert_Failed)"

lemma awaiters_add_req:
  assumes "worker_at i s"
  shows "tcp_read_awaiter_new a fd len io_flag fl s =
      await_req i (Prep_Recv fd len io_flag) fl (\<lambda>i. i\<lparr>io_type := Io_Tcp_Read, io_cb := Read_Callback\<rparr>) a s"
    "tcp_write_awaiter_new a fd len io_flag fl s =
      await_req i (Prep_Send fd len io_flag) fl (\<lambda>i. i\<lparr>io_type := Io_Tcp_Write, io_cb := Write_Callback\<rparr>) a s"
    "tcp_accept_awaiter_new a fd io_flag fl s =
      await_req i (Prep_Accept fd io_flag) fl (\<lambda>i. i\<lparr>io_type := Io_Tcp_Accept, io_cb := Accept_Callback\<rparr>) a s"
    "tcp_close_awaiter_new a fd s =
      await_req i (Prep_Close fd) 0 (\<lambda>i. i\<lparr>io_type := Io_Tcp_Close, io_cb := Close_Callback\<rparr>) a s"
    "tcp_connect_awaiter_new a fd s =
      await_req i (Prep_Connect fd) 0 (\<lambda>i. i\<lparr>io_type := Io_Tcp_Connect, io_cb := Connect_Callback, io_data := word_of_int fd\<rparr>) a s"
    "stdin_awaiter_new a len io_flag fl s =
      await_req i (Prep_Read 0 len io_flag) fl (\<lambda>i. i\<lparr>io_type := Io_Stdin, io_cb := Stdin_Callback\<rparr>) a s"
  using assms
  by (simp_all add: tcp_read_awaiter_new_def tcp_write_awaiter_new_def tcp_accept_awaiter_new_def tcp_close_awaiter_new_def
      tcp_connect_awaiter_new_def stdin_awaiter_new_def base_io_awaiter_new_def get_free_urs_def get_free_sqe_def Let_def
      upd_sqe_def sqe_prep_def sqe_set_flags_def sqe_set_data_def add_io_submit_def await_req_def add_req_def)

text \<open>With \<open>config::kEnableFixfd\<close> off, as it is, a connector uses the descriptor itself.\<close>

definition plain_conn :: "int \<Rightarrow> tcp_connector" where
  "plain_conn fd = \<lparr>tc_sockfd = fd, tc_original_fd = fd, tc_fixed_fd = invalid_fd_item, tc_sqe_flag = 0\<rparr>"

lemma connector_plain:
  assumes "worker_at i s"
  shows "tcp_connector_new False res fd s = Inr (plain_conn fd, s)" "tcp_connector_destroy False res (plain_conn fd) s = Inr s"
    "tcp_connector_read a len 0 (plain_conn fd) s = tcp_read_awaiter_new a fd len 0 0 s"
    "tcp_connector_write a len 0 (plain_conn fd) s = tcp_write_awaiter_new a fd len 0 0 s"
    "tcp_connector_close False res a (plain_conn fd) s = bindE (tcp_close_awaiter_new a fd s) (\<lambda>s. Inr (plain_conn fd, s))"
  using assms
  by (simp_all add: plain_conn_def tcp_connector_new_def tcp_connector_destroy_def tcp_connector_close_def fixed_fds_new_def
      tcp_connector_read_def tcp_connector_write_def
      with_local_proxy_def get_fixed_fd_def fixed_assign_def fixed_return_back_def item_valid_def invalid_fd_item_def)

lemma server_plain:
  assumes "worker_at i s" "tcp_server_new False res os addr port s = Inr (v, s')"
  shows "s' = s \<and> sv_sqe_flag v = 0"
  using assms
  by (auto simp: tcp_server_new_def fixed_fds_new_def with_local_proxy_def get_fixed_fd_def fixed_assign_def item_valid_def
      invalid_fd_item_def split: if_splits)

section \<open>The poll\<close>

lemma fold_complete_at:
  assumes "distinct (map cqe_data cqes)" "x \<in> set cqes"
  shows "fold complete cqes infos (cqe_data x) = (infos (cqe_data x))\<lparr>io_result := cb_result (infos (cqe_data x)) (cqe_res x)\<rparr>"
  using assms
proof (induction cqes arbitrary: infos)
  case (Cons d cqes)
  show ?case
  proof (cases "x = d")
    case True
    then have "cqe_data x \<notin> cqe_data ` set cqes" using Cons.prems(1) by auto
    then show ?thesis using True by (simp add: fold_complete_other) (simp add: complete_def)
  next
    case False
    then have "x \<in> set cqes" "cqe_data x \<noteq> cqe_data d" using Cons.prems by (auto simp: image_iff)
    then show ?thesis using Cons.IH [of "complete d infos"] Cons.prems(1) by (simp add: complete_other)
  qed
qed simp

lemma handle_cqes_inv:
  assumes "foldE handle_cqe_entry cqes s = Inr s'" "worker_at i s"
  shows "\<exists>c'. s' = (set_ctx i c' s)\<lparr>io_infos := fold complete cqes (io_infos s)\<rparr> \<and>
    ctx_queue c' = ctx_queue (ctx_at i s) @ map (\<lambda>x. io_handle (io_infos s (cqe_data x))) cqes \<and>
    eng_io (m_engine c') = eng_io (eng_at i s)"
  using assms
proof (induction cqes arbitrary: s)
  case Nil
  then show ?case by (intro exI [of _ "ctx_at i s"]) simp
next
  case (Cons x cqes)
  let ?h = "io_handle (io_infos s (cqe_data x))"
  obtain t where t: "handle_cqe_entry x s = Inr t" "foldE handle_cqe_entry cqes t = Inr s'" using Cons.prems(1) by auto
  have i: "linfo_ctx (io_world s) = Some i" "i < length (w_ctxs (io_world s))" using Cons.prems(2) by (simp_all add: worker_at_def)
  obtain c where c: "context_submit_task ?h (ctx_at i s) = Inr c"
    "t = (set_ctx i c s)\<lparr>io_infos := complete x (io_infos s)\<rparr>"
    using t(1) i by (auto simp: handle_cqe_eq submit_to_context_def local_context_def with_ctx_Inr ctx_at_def set_ctx_def
        set_info_def complete_def)
  have at: "worker_at i t" "ctx_at i t = c" using Cons.prems(2) c(2) by (auto simp: worker_at_def ctx_at_def set_ctx_def)
  have q: "ctx_queue c = ctx_queue (ctx_at i s) @ [?h]" "eng_io (m_engine c) = eng_io (eng_at i s)"
    using c(1) by (auto simp: context_submit_task_Inr eng_io_def)
  obtain c' where c': "s' = (set_ctx i c' t)\<lparr>io_infos := fold complete cqes (io_infos t)\<rparr>"
    "ctx_queue c' = ctx_queue c @ map (\<lambda>x. io_handle (io_infos t (cqe_data x))) cqes"
    "eng_io (m_engine c') = eng_io (m_engine c)"
    using Cons.IH [OF t(2) at(1)] at(2) by auto
  then show ?case using q c(2) by (intro exI [of _ c']) (simp add: set_ctx_def)
qed

text \<open>
  What a poll that returns has done: the first \<open>k\<close> prepared requests are with the kernel, the first \<open>n\<close> completions
  are retired, their coroutines runnable and their results stored.
\<close>

definition polled :: "nat \<Rightarrow> nat \<Rightarrow> nat \<Rightarrow> io_state \<Rightarrow> io_state \<Rightarrow> bool" where
  "polled i k n s s' \<longleftrightarrow>
     (let p = m_upxy (eng_at i s) in
      \<exists>c'. s' = (set_ctx i c' s)\<lparr>io_infos := fold complete (take n (up_cq p)) (io_infos s)\<rparr> \<and>
        ctx_queue c' = ctx_queue (ctx_at i s) @ map (\<lambda>x. io_handle (io_infos s (cqe_data x))) (take n (up_cq p)) \<and>
        up_sq (m_upxy (m_engine c')) = drop k (up_sq p) \<and> up_kernel (m_upxy (m_engine c')) = up_kernel p @ take k (up_sq p) \<and>
        up_cq (m_upxy (m_engine c')) = drop n (up_cq p))"

lemma polled_none:
  assumes "ctx_queue c' = ctx_queue (ctx_at i s)" "up_sq (m_upxy (m_engine c')) = drop k (up_sq (m_upxy (eng_at i s)))"
    "up_kernel (m_upxy (m_engine c')) = up_kernel (m_upxy (eng_at i s)) @ take k (up_sq (m_upxy (eng_at i s)))"
    "up_cq (m_upxy (m_engine c')) = up_cq (m_upxy (eng_at i s))"
  shows "polled i k 0 s (set_ctx i c' s)"
  using assms unfolding polled_def Let_def by (intro exI [of _ c']) (simp add: set_ctx_def)

lemma poll_flush_lists:
  "\<exists>k. up_sq (m_upxy (poll_flush accepted e)) = drop k (up_sq (m_upxy e)) \<and>
     up_kernel (m_upxy (poll_flush accepted e)) = up_kernel (m_upxy e) @ take k (up_sq (m_upxy e)) \<and>
     up_cq (m_upxy (poll_flush accepted e)) = up_cq (m_upxy e) \<and> m_task_queue (poll_flush accepted e) = m_task_queue e"
  by (cases "m_io_submit_count e > 0")
    (auto simp: poll_flush_def uring_submit_def Let_def intro: exI [of _ 0] exI [of _ "min accepted (length (up_sq (m_upxy e)))"])

lemma poll_submit_inv:
  assumes "poll_submit accepted s = Inr s'" "worker_at i s"
  shows "\<exists>k n. polled i k n s s'"
proof -
  let ?e = "poll_flush accepted (eng_at i s)"
  let ?s = "set_eng i ?e s"
  obtain k where k: "up_sq (m_upxy ?e) = drop k (up_sq (m_upxy (eng_at i s)))"
    "up_kernel (m_upxy ?e) = up_kernel (m_upxy (eng_at i s)) @ take k (up_sq (m_upxy (eng_at i s)))"
    "up_cq (m_upxy ?e) = up_cq (m_upxy (eng_at i s))" "m_task_queue ?e = m_task_queue (eng_at i s)"
    using poll_flush_lists [of accepted "eng_at i s"] by blast
  have at: "worker_at i ?s" "ctx_at i ?s = (ctx_at i s)\<lparr>m_engine := ?e\<rparr>" using assms(2) by simp_all
  consider (wait) "m_io_running_count ?e = 0" | (none) "m_io_running_count ?e \<noteq> 0" "\<not> peek_uring (m_upxy ?e)"
    | (some) "m_io_running_count ?e \<noteq> 0" "peek_uring (m_upxy ?e)" by blast
  then show ?thesis
  proof cases
    case wait
    then obtain p where "wait_eventfd (m_upxy ?e) = Inr p" "s' = set_eng i (?e\<lparr>m_upxy := snd p\<rparr>) ?s"
      using assms at by (auto simp: poll_submit_def Let_def split: prod.splits)
    then have "polled i k 0 s s'"
      using k at(2) polled_none by (auto simp: wait_eventfd_def split: if_splits)
    then show ?thesis by blast
  next
    case none
    then have "s' = ?s" using assms at by (simp add: poll_submit_def Let_def)
    then have "polled i k 0 s s'" using k polled_none by simp
    then show ?thesis by blast
  next
    case some
    let ?cqes = "take kQueCap (up_cq (m_upxy (eng_at i s)))"
    obtain t where t: "foldE handle_cqe_entry ?cqes ?s = Inr t"
      "bindE (local_engine t) (\<lambda>e. set_local_engine (poll_retire (length ?cqes) e) t) = Inr s'"
      using assms at some k(3) by (auto simp: poll_submit_def Let_def peek_batch_cqe_def)
    obtain c where c: "t = (set_ctx i c ?s)\<lparr>io_infos := fold complete ?cqes (io_infos ?s)\<rparr>"
      "ctx_queue c = ctx_queue (ctx_at i ?s) @ map (\<lambda>x. io_handle (io_infos ?s (cqe_data x))) ?cqes"
      "eng_io (m_engine c) = eng_io (eng_at i ?s)"
      using handle_cqes_inv [OF t(1) at(1)] by blast
    have at': "worker_at i t" "ctx_at i t = c" using assms(2) c(1) by (auto simp: worker_at_def ctx_at_def set_ctx_def)
    let ?c = "c\<lparr>m_engine := poll_retire (length ?cqes) (m_engine c)\<rparr>"
    have s': "s' = set_ctx i ?c t" using t(2) at' by simp
    have "up_sq (m_upxy (m_engine c)) = up_sq (m_upxy ?e)" "up_kernel (m_upxy (m_engine c)) = up_kernel (m_upxy ?e)"
      "up_cq (m_upxy (m_engine c)) = up_cq (m_upxy (eng_at i s))"
      using c(3) at(2) k(3) by (auto simp: eng_io_def)
    then have "polled i k kQueCap s s'"
      unfolding polled_def Let_def using s' c(1,2) k at(2)
      by (intro exI [of _ ?c]) (simp add: poll_retire_def cq_advance_def set_ctx_def min_def)
    then show ?thesis by blast
  qed
qed

section \<open>Where a handle is\<close>

definition eng_tok :: "engine \<Rightarrow> handle multiset" where
  "eng_tok e = mset (map sqe_data (up_sq (m_upxy e))) + mset (map sqe_data (up_kernel (m_upxy e))) +
     mset (map cqe_data (up_cq (m_upxy e))) + mset (m_task_queue e)"

definition io_tok :: "io_state \<Rightarrow> handle multiset" where
  "io_tok s = (\<Sum>c\<leftarrow>w_ctxs (io_world s). eng_tok (m_engine c))"

text \<open>
  What holds of a coroutine is said with its awaiter and what the program knows of it, \<open>D h\<close>: \<open>sqf\<close> while its request is
  prepared or with the kernel, \<open>cqf\<close> while its completion waits to be handled, \<open>rdf\<close> while it
  is runnable.
\<close>

definition eng_fits ::
  "(io_info \<Rightarrow> 'd \<Rightarrow> sqe \<Rightarrow> bool) \<Rightarrow> (io_info \<Rightarrow> 'd \<Rightarrow> cqe \<Rightarrow> bool) \<Rightarrow> (io_info \<Rightarrow> 'd \<Rightarrow> bool) \<Rightarrow>
     (handle \<Rightarrow> io_info) \<Rightarrow> (handle \<Rightarrow> 'd) \<Rightarrow> engine \<Rightarrow> bool" where
  "eng_fits sqf cqf rdf I D e \<longleftrightarrow>
     (\<forall>q \<in> set (up_sq (m_upxy e)) \<union> set (up_kernel (m_upxy e)). sqf (I (sqe_data q)) (D (sqe_data q)) q) \<and>
     (\<forall>x \<in> set (up_cq (m_upxy e)). cqf (I (cqe_data x)) (D (cqe_data x)) x) \<and>
     (\<forall>h \<in> set (m_task_queue e). rdf (I h) (D h))"

text \<open>Each coroutine of \<open>L\<close> is in exactly one place, no other handle is anywhere, and all is well with each.\<close>

definition in_flight ::
  "(io_info \<Rightarrow> 'd \<Rightarrow> sqe \<Rightarrow> bool) \<Rightarrow> (io_info \<Rightarrow> 'd \<Rightarrow> cqe \<Rightarrow> bool) \<Rightarrow> (io_info \<Rightarrow> 'd \<Rightarrow> bool) \<Rightarrow>
     (handle \<Rightarrow> 'd) \<Rightarrow> handle set \<Rightarrow> io_state \<Rightarrow> bool" where
  [inv_defs]: "in_flight sqf cqf rdf D L s \<longleftrightarrow> finite L \<and> io_tok s = mset_set L \<and>
     (\<forall>c \<in> set (w_ctxs (io_world s)). eng_fits sqf cqf rdf (io_infos s) D (m_engine c))"

lemma eng_fits_cong:
  assumes "\<And>g. g \<in># eng_tok e \<Longrightarrow> I' g = I g \<and> D' g = D g"
  shows "eng_fits sqf cqf rdf I' D' e = eng_fits sqf cqf rdf I D e"
proof -
  have "I' (sqe_data q) = I (sqe_data q) \<and> D' (sqe_data q) = D (sqe_data q)"
    if "q \<in> set (up_sq (m_upxy e)) \<union> set (up_kernel (m_upxy e))" for q using assms that by (auto simp: eng_tok_def)
  moreover have "I' (cqe_data x) = I (cqe_data x) \<and> D' (cqe_data x) = D (cqe_data x)" if "x \<in> set (up_cq (m_upxy e))" for x
    using assms that by (auto simp: eng_tok_def)
  moreover have "I' h = I h \<and> D' h = D h" if "h \<in> set (m_task_queue e)" for h using assms that by (auto simp: eng_tok_def)
  ultimately show ?thesis by (simp add: eng_fits_def ball_Un cong: ball_cong)
qed

lemma mset_map_split: "mset (map f xs) = mset (map f (take n xs)) + mset (map f (drop n xs))"
  by (metis append_take_drop_id map_append mset_append)

lemma ctx_at_mem: "i < length (w_ctxs (io_world s)) \<Longrightarrow> ctx_at i s \<in> set (w_ctxs (io_world s))"
  by (simp add: ctx_at_def)

lemma in_sum_list_mset: "x \<in># (\<Sum>c\<leftarrow>cs. f c) \<Longrightarrow> \<exists>c \<in> set cs. x \<in># f c"
  by (induction cs) auto

lemma io_tok_member: "c \<in> set (w_ctxs (io_world s)) \<Longrightarrow> eng_tok (m_engine c) \<subseteq># io_tok s"
  by (auto simp: io_tok_def in_set_conv_decomp)

lemma in_flight_places:
  assumes "in_flight sqf cqf rdf D L s" "c \<in> set (w_ctxs (io_world s))"
  shows "eng_fits sqf cqf rdf (io_infos s) D (m_engine c)" "set_mset (eng_tok (m_engine c)) \<subseteq> L"
    "\<And>g. count (eng_tok (m_engine c)) g \<le> 1"
proof -
  have sub: "eng_tok (m_engine c) \<subseteq># mset_set L" using io_tok_member [OF assms(2)] assms(1) by (simp add: in_flight_def)
  then show "set_mset (eng_tok (m_engine c)) \<subseteq> L" using assms(1) set_mset_mono [OF sub] by (simp add: in_flight_def)
  show "count (eng_tok (m_engine c)) g \<le> 1" for g
    using mset_subset_eq_count [OF sub, of g] by (simp add: count_mset_set' split: if_splits)
  show "eng_fits sqf cqf rdf (io_infos s) D (m_engine c)" using assms by (simp add: in_flight_def)
qed

lemma in_flight_cong:
  assumes "in_flight sqf cqf rdf D L s" "\<And>g. g \<in> L \<Longrightarrow> io_infos t g = io_infos s g \<and> D' g = D g"
    "w_ctxs (io_world t) = w_ctxs (io_world s)"
  shows "in_flight sqf cqf rdf D' L t"
proof -
  have "eng_fits sqf cqf rdf (io_infos t) D' (m_engine c)" if "c \<in> set (w_ctxs (io_world s))" for c
    using in_flight_places [OF assms(1) that] eng_fits_cong [of "m_engine c" "io_infos t" "io_infos s" D' D] assms(2) by blast
  then show ?thesis using assms(1,3) by (simp add: in_flight_def io_tok_def)
qed

lemma in_flight_set_ctx:
  assumes "in_flight sqf cqf rdf D L s" "i < length (w_ctxs (io_world s))"
    "eng_fits sqf cqf rdf (io_infos s) D (m_engine c)" "eng_tok (m_engine c) + M = eng_tok (eng_at i s) + N"
    "finite L'" "mset_set L' + M = mset_set L + N"
  shows "in_flight sqf cqf rdf D L' (set_ctx i c s)"
proof -
  let ?f = "\<lambda>c. eng_tok (m_engine c)"
  have "io_tok (set_ctx i c s) + ?f (ctx_at i s) = io_tok s + ?f c"
    using list_update_sum_list [OF assms(2), of ?f c] by (simp add: io_tok_def ctx_at_def)
  then have "io_tok (set_ctx i c s) + ?f (ctx_at i s) + M = mset_set L + ?f (ctx_at i s) + N"
    using assms(1,4) by (simp add: in_flight_def ac_simps)
  then have "io_tok (set_ctx i c s) + M = mset_set L' + M" using assms(6) by (simp add: ac_simps)
  moreover have "\<forall>d \<in> set ((w_ctxs (io_world s))[i := c]). eng_fits sqf cqf rdf (io_infos s) D (m_engine d)"
    using assms(1,3) set_update_subset_insert [of "w_ctxs (io_world s)" i c] by (auto simp: in_flight_def)
  ultimately show ?thesis using assms(5) by (simp add: in_flight_def)
qed

text \<open>A request is completed by the kernel.\<close>

definition kernel_done :: "nat \<Rightarrow> nat \<Rightarrow> int \<Rightarrow> io_state \<Rightarrow> io_state" where
  "kernel_done i j res s = set_eng i ((eng_at i s)\<lparr>m_upxy := kernel_complete j res (m_upxy (eng_at i s))\<rparr>) s"

lemma submit_task_impl_inv:
  assumes "submit_task_impl h w = Inr w'"
  obtains d i c where "i < length (w_ctxs w)" "context_submit_task h (w_ctxs w ! i) = Inr c"
    "w' = w\<lparr>w_dispatcher := d, w_ctxs := (w_ctxs w)[i := c]\<rparr>"
  using assms by (auto simp: submit_task_impl_def with_ctx_Inr split: prod.splits)

text \<open>The contract of a program whose coroutines do input and output: a completion fits what its coroutine finds when it runs.\<close>

locale coroutine_io =
  fixes sqf :: "io_info \<Rightarrow> 'd \<Rightarrow> sqe \<Rightarrow> bool" and cqf :: "io_info \<Rightarrow> 'd \<Rightarrow> cqe \<Rightarrow> bool" and rdf :: "io_info \<Rightarrow> 'd \<Rightarrow> bool"
  assumes cq_handle: "cqf v d x \<Longrightarrow> io_handle v = cqe_data x"
    and cq_ready: "cqf v d x \<Longrightarrow> rdf (v\<lparr>io_result := cb_result v (cqe_res x)\<rparr>) d"
begin

lemma pop:
  assumes "in_flight sqf cqf rdf D L s" "i < length (w_ctxs (io_world s))" "ctx_queue (ctx_at i s) = h # q"
  shows "h \<in> L" "rdf (io_infos s h) (D h)" "in_flight sqf cqf rdf D (L - {h}) (set_eng i ((eng_at i s)\<lparr>m_task_queue := q\<rparr>) s)"
proof -
  note here = in_flight_places [OF assms(1) ctx_at_mem [OF assms(2)]]
  show h: "h \<in> L" using here(2) assms(3) by (auto simp: eng_tok_def)
  show "rdf (io_infos s h) (D h)" using here(1) assms(3) by (simp add: eng_fits_def)
  have fin: "finite L" using assms(1) by (simp add: in_flight_def)
  show "in_flight sqf cqf rdf D (L - {h}) (set_eng i ((eng_at i s)\<lparr>m_task_queue := q\<rparr>) s)"
  proof (rule in_flight_set_ctx [OF assms(1,2), where M = "{#h#}" and N = "{#}"])
    show "eng_fits sqf cqf rdf (io_infos s) D (m_engine ((ctx_at i s)\<lparr>m_engine := (eng_at i s)\<lparr>m_task_queue := q\<rparr>\<rparr>))"
      using here(1) assms(3) by (simp add: eng_fits_def)
    show "mset_set (L - {h}) + {#h#} = mset_set L + {#}" using fin h by (simp add: mset_set_Diff)
  qed (use assms(3) fin in \<open>simp_all add: eng_tok_def\<close>)
qed

lemma request:
  assumes "in_flight sqf cqf rdf D L s" "i < length (w_ctxs (io_world s))" "h \<notin> L" "sqe_data q = h" "sqf (io_infos s h) (D h) q"
  shows "in_flight sqf cqf rdf D (insert h L) (set_eng i (add_req q (eng_at i s)) s)"
proof -
  note here = in_flight_places [OF assms(1) ctx_at_mem [OF assms(2)]]
  have fin: "finite L" using assms(1) by (simp add: in_flight_def)
  show ?thesis
  proof (rule in_flight_set_ctx [OF assms(1,2), where M = "{#}" and N = "{#h#}"])
    show "eng_fits sqf cqf rdf (io_infos s) D (m_engine ((ctx_at i s)\<lparr>m_engine := add_req q (eng_at i s)\<rparr>))"
      using here(1) assms(4,5) by (simp add: eng_fits_def add_req_def)
  qed (use assms(3,4) fin in \<open>simp_all add: eng_tok_def add_req_def\<close>)
qed

lemma submitted:
  assumes "in_flight sqf cqf rdf D L s" "submit_task_impl h (io_world s) = Inr w" "h \<notin> L" "rdf (io_infos s h) (D h)"
  shows "in_flight sqf cqf rdf D (insert h L) (s\<lparr>io_world := w\<rparr>)"
proof -
  obtain d i c where w: "i < length (w_ctxs (io_world s))" "context_submit_task h (ctx_at i s) = Inr c"
    "w = (io_world s)\<lparr>w_dispatcher := d, w_ctxs := (w_ctxs (io_world s))[i := c]\<rparr>"
    using assms(2) by (auto simp: ctx_at_def elim: submit_task_impl_inv)
  note here = in_flight_places [OF assms(1) ctx_at_mem [OF w(1)]]
  have fin: "finite L" using assms(1) by (simp add: in_flight_def)
  have "in_flight sqf cqf rdf D (insert h L) (set_ctx i c s)"
  proof (rule in_flight_set_ctx [OF assms(1) w(1), where M = "{#}" and N = "{#h#}"])
    show "eng_fits sqf cqf rdf (io_infos s) D (m_engine c)"
      using here(1) assms(4) w(2) by (auto simp: eng_fits_def context_submit_task_Inr)
  qed (use assms(3) fin w(2) in \<open>auto simp: eng_tok_def context_submit_task_Inr\<close>)
  then show ?thesis by (rule in_flight_cong) (simp_all add: w(3))
qed

lemma unchanged:
  assumes "in_flight sqf cqf rdf D L s" "i < length (w_ctxs (io_world s))" "eng_io (m_engine c) = eng_io (eng_at i s)"
    "ctx_queue c = ctx_queue (ctx_at i s)"
  shows "in_flight sqf cqf rdf D L (set_ctx i c s)"
proof -
  note here = in_flight_places [OF assms(1) ctx_at_mem [OF assms(2)]]
  show ?thesis
  proof (rule in_flight_set_ctx [OF assms(1,2), where M = "{#}" and N = "{#}"])
    show "eng_fits sqf cqf rdf (io_infos s) D (m_engine c)" using here(1) assms(3,4) by (simp add: eng_fits_def eng_io_def)
  qed (use assms in \<open>simp_all add: eng_tok_def eng_io_def in_flight_def\<close>)
qed

lemma completed:
  assumes "in_flight sqf cqf rdf D L s" "i < length (w_ctxs (io_world s))" "j < length (up_kernel (m_upxy (eng_at i s)))"
    "h = sqe_data (up_kernel (m_upxy (eng_at i s)) ! j)" "\<And>g. g \<noteq> h \<Longrightarrow> D' g = D g"
    "cqf (io_infos s h) (D' h) \<lparr>cqe_data = h, cqe_res = res\<rparr>"
  shows "in_flight sqf cqf rdf D' L (kernel_done i j res s)"
proof -
  let ?p = "m_upxy (eng_at i s)"
  let ?k = "take j (up_kernel ?p) @ drop (Suc j) (up_kernel ?p)"
  let ?e0 = "(eng_at i s)\<lparr>m_upxy := ?p\<lparr>up_kernel := ?k\<rparr>\<rparr>"
  note here = in_flight_places [OF assms(1) ctx_at_mem [OF assms(2)]]
  have ker: "up_kernel ?p = take j (up_kernel ?p) @ up_kernel ?p ! j # drop (Suc j) (up_kernel ?p)" using assms(3) by (rule id_take_nth_drop)
  have sub: "set ?k \<subseteq> set (up_kernel ?p)" using set_take_subset [of j] set_drop_subset [of "Suc j"] by fastforce
  have tok: "mset (map sqe_data ?k) + {#h#} = mset (map sqe_data (up_kernel ?p))" by (subst (3) ker) (simp add: assms(4))
  have fin: "finite L" using assms(1) by (simp add: in_flight_def)
  have "h \<in># eng_tok (eng_at i s)" using assms(3,4) by (force simp: eng_tok_def)
  then have h: "h \<in> L" using here(2) by blast
  have "in_flight sqf cqf rdf D (L - {h}) (set_eng i ?e0 s)"
  proof (rule in_flight_set_ctx [OF assms(1,2), where M = "{#h#}" and N = "{#}"])
    show "eng_fits sqf cqf rdf (io_infos s) D (m_engine ((ctx_at i s)\<lparr>m_engine := ?e0\<rparr>))"
      using here(1) sub by (auto simp: eng_fits_def)
    show "mset_set (L - {h}) + {#h#} = mset_set L + {#}" using fin h by (simp add: mset_set_Diff)
  qed (use fin tok in \<open>simp_all add: eng_tok_def\<close>)
  then have 1: "in_flight sqf cqf rdf D' (L - {h}) (set_eng i ?e0 s)"
    by (rule in_flight_cong) (use assms(5) in auto)
  have i: "i < length (w_ctxs (io_world (set_eng i ?e0 s)))" and at0: "ctx_at i (set_eng i ?e0 s) = (ctx_at i s)\<lparr>m_engine := ?e0\<rparr>"
    using assms(2) by (simp_all add: ctx_at_def)
  note here1 = in_flight_places [OF 1 ctx_at_mem [OF i]]
  let ?e1 = "?e0\<lparr>m_upxy := (m_upxy ?e0)\<lparr>up_cq := up_cq ?p @ [\<lparr>cqe_data = h, cqe_res = res\<rparr>], efd_count := min efd_max (Suc (efd_count ?p))\<rparr>\<rparr>"
  have "in_flight sqf cqf rdf D' L (set_ctx i ((ctx_at i s)\<lparr>m_engine := ?e1\<rparr>) (set_eng i ?e0 s))"
  proof (rule in_flight_set_ctx [OF 1 i, where M = "{#}" and N = "{#h#}"])
    show "eng_fits sqf cqf rdf (io_infos (set_eng i ?e0 s)) D' (m_engine ((ctx_at i s)\<lparr>m_engine := ?e1\<rparr>))"
      using here1(1) assms(6) at0 by (simp add: eng_fits_def)
    show "mset_set L + {#} = mset_set (L - {h}) + {#h#}" using fin h by (simp add: mset_set_Diff)
  qed (use fin at0 in \<open>simp_all add: eng_tok_def\<close>)
  then show ?thesis by (simp add: kernel_done_def kernel_complete_def assms(4))
qed

lemma poll:
  assumes "in_flight sqf cqf rdf D L s" "worker_at i s" "polled i k n s s'"
  shows "in_flight sqf cqf rdf D L s'"
proof -
  let ?p = "m_upxy (eng_at i s)"
  let ?b = "take n (up_cq ?p)" and ?I = "io_infos s"
  obtain c where s': "s' = (set_ctx i c s)\<lparr>io_infos := fold complete ?b ?I\<rparr>"
    and c: "ctx_queue c = ctx_queue (ctx_at i s) @ map (\<lambda>x. io_handle (?I (cqe_data x))) ?b"
      "up_sq (m_upxy (m_engine c)) = drop k (up_sq ?p)" "up_kernel (m_upxy (m_engine c)) = up_kernel ?p @ take k (up_sq ?p)"
      "up_cq (m_upxy (m_engine c)) = drop n (up_cq ?p)"
    using assms(3) by (auto simp: polled_def Let_def)
  have i: "i < length (w_ctxs (io_world s))" using assms(2) by (simp add: worker_at_def)
  note here = in_flight_places [OF assms(1) ctx_at_mem [OF i]]
  have cq: "cqf (?I (cqe_data x)) (D (cqe_data x)) x" if "x \<in> set (up_cq ?p)" for x using here(1) that by (simp add: eng_fits_def)
  have "map (\<lambda>x. io_handle (?I (cqe_data x))) ?b = map cqe_data ?b" using cq_handle [OF cq] by (auto dest: in_set_takeD)
  then have q: "ctx_queue c = ctx_queue (ctx_at i s) @ map cqe_data ?b" using c(1) by simp
  have toks: "mset (map cqe_data (up_cq ?p)) = mset (map cqe_data ?b) + mset (map cqe_data (drop n (up_cq ?p)))"
    "mset (map sqe_data (up_sq ?p)) = mset (map sqe_data (take k (up_sq ?p))) + mset (map sqe_data (drop k (up_sq ?p)))"
    by (rule mset_map_split)+
  have tok: "eng_tok (m_engine c) = eng_tok (eng_at i s)" using q c(2-4) toks by (simp add: eng_tok_def)
  have "count (mset (map cqe_data ?b)) g \<le> 1" for g
  proof -
    have "mset (map cqe_data ?b) \<subseteq># eng_tok (eng_at i s)" by (simp only: eng_tok_def toks(1)) (simp add: ac_simps)
    from mset_subset_eq_count [OF this, of g] here(3) [of g] show ?thesis by linarith
  qed
  then have dist: "distinct (map cqe_data ?b)"
    by (metis distinct_count_atmost_1 count_eq_zero_iff le_Suc_eq le_zero_eq One_nat_def set_mset_mset)
  have ready: "rdf (fold complete ?b ?I (cqe_data x)) (D (cqe_data x))" if "x \<in> set ?b" for x
  proof -
    have "fold complete ?b ?I (cqe_data x) = (?I (cqe_data x))\<lparr>io_result := cb_result (?I (cqe_data x)) (cqe_res x)\<rparr>"
      using fold_complete_at [OF dist that] .
    then show ?thesis using cq_ready [OF cq] that by (auto dest: in_set_takeD)
  qed
  let ?H = "set (map cqe_data ?b)"
  let ?c0 = "c\<lparr>m_engine := (m_engine c)\<lparr>m_task_queue := ctx_queue (ctx_at i s)\<rparr>\<rparr>"
  have fin: "finite L" using assms(1) by (simp add: in_flight_def)
  have H: "?H \<subseteq> L" using here(2) by (force simp: eng_tok_def dest: in_set_takeD)
  have L: "mset_set (L - ?H) + mset (map cqe_data ?b) = mset_set L"
    using subset_mset.diff_add [OF subset_imp_msubset_mset_set [OF H fin]] mset_set_set [OF dist]
    unfolding mset_set_Diff [OF fin H] by simp
  have "in_flight sqf cqf rdf D (L - ?H) (set_ctx i ?c0 s)"
  proof (rule in_flight_set_ctx [OF assms(1) i, where M = "mset (map cqe_data ?b)" and N = "{#}"])
    show "eng_fits sqf cqf rdf ?I D (m_engine ?c0)"
      using here(1) c(2-4) by (auto simp: eng_fits_def dest: in_set_takeD in_set_dropD)
  qed (use fin L q c(2-4) toks in \<open>simp_all add: eng_tok_def\<close>)
  then have 1: "in_flight sqf cqf rdf D (L - ?H) ((set_ctx i ?c0 s)\<lparr>io_infos := fold complete ?b ?I\<rparr>)" (is "in_flight _ _ _ _ _ ?t")
    by (rule in_flight_cong) (auto simp: fold_complete_other)
  have t: "i < length (w_ctxs (io_world ?t))" "ctx_at i ?t = ?c0" "set_ctx i c ?t = s'"
    using i by (simp_all add: s' ctx_at_def set_ctx_def)
  have "eng_fits sqf cqf rdf (io_infos ?t) D (m_engine ?c0)"
    using in_flight_places(1) [OF 1 ctx_at_mem [OF t(1)]] t(2) by simp
  then have "eng_fits sqf cqf rdf (io_infos ?t) D (m_engine c)"
    using ready q by (auto simp: eng_fits_def)
  then have "in_flight sqf cqf rdf D L (set_ctx i c ?t)"
    by (rule in_flight_set_ctx [OF 1 t(1), where M = "{#}" and N = "mset (map cqe_data ?b)"])
      (use fin L t(2) q in \<open>simp_all add: eng_tok_def\<close>)
  then show ?thesis by (simp only: t(3))
qed

end

end
