(* ===== verification/Socket_Programs.thy ===== *)
theory Socket_Programs
  imports Worker_Io Scheduler
begin

text \<open>
  The programs over sockets: \<open>examples/tcp_echo_server.cpp\<close>, \<open>tcp_echo_client.cpp\<close>,
  \<open>stdin_client.cpp\<close> and the three servers of \<open>benchmark/tinycoro_model\<close>. Each coroutine is a
  state machine whose states are its suspension points, with the local variables that are live
  there; \<open>resume\<close> runs it from one to the next through the library's operations. Any number of
  workers execute the coroutines of their queues and poll their rings, in any order, while the kernel completes requests in any
  order. What the kernel receives for and sends from the buffer of a coroutine is recorded.
\<close>

section \<open>Definitions\<close>

datatype coro =
    Server_Start int
  | Server_Accept tcp_server
  | Client_Start "string option" int
  | Client_Connect tcp_client
  | Session_Start int
  | Session_Read tcp_connector
  | Session_Write tcp_connector nat
  | Session_Close tcp_connector
  | Chat_Start "string option" int
  | Chat_Connect tcp_client
  | Chat_Read tcp_connector
  | Chat_Close tcp_connector
  | Typing_Start int
  | Typing_Read tcp_connector
  | Typing_Write tcp_connector nat

record net_sys =
  ns_io :: io_state
  ns_co :: "handle \<Rightarrow> coro option"
  ns_buf :: "handle \<Rightarrow> u8 list"
  ns_got :: "handle \<Rightarrow> u8 list"
  ns_sent :: "handle \<Rightarrow> u8 list"

text \<open>What varies between the programs: \<open>BUFFLEN\<close>, whether a failed write ends the session, and what \<open>main\<close> submits.\<close>

record net_prog =
  np_len :: nat
  np_stop :: bool
  np_start :: coro

text \<open>
  A \<open>co_await\<close>: the awaiter has been constructed, \<open>await_ready\<close> is false and \<open>await_suspend\<close> notes the
  handle; the coroutine is then in state \<open>c\<close>.
\<close>

definition suspend_at :: "handle \<Rightarrow> coro \<Rightarrow> net_sys \<Rightarrow> io_state res \<Rightarrow> net_sys res" where
  "suspend_at h c s awaiter =
     bindE awaiter (\<lambda>io. Inr (s\<lparr>ns_io := base_await_suspend h h io, ns_co := (ns_co s)(h \<mapsto> c)\<rparr>))"

definition co_ends :: "handle \<Rightarrow> net_sys \<Rightarrow> net_sys" where
  "co_ends h s = s\<lparr>ns_co := (ns_co s)(h := None)\<rparr>"

definition clear_buf :: "nat \<Rightarrow> handle \<Rightarrow> net_sys \<Rightarrow> net_sys" where
  "clear_buf len h s = s\<lparr>ns_buf := (ns_buf s)(h := replicate len 0)\<rparr>"

text \<open>\<open>submit_to_scheduler\<close> of a new coroutine in state \<open>c\<close>, whose frame is at \<open>g\<close>.\<close>

definition spawn :: "handle \<Rightarrow> coro \<Rightarrow> net_sys \<Rightarrow> net_sys res" where
  "spawn g c s =
     bindE (submit_to_scheduler g (io_world (ns_io s))) (\<lambda>w.
     Inr (s\<lparr>ns_io := (ns_io s)\<lparr>io_world := w\<rparr>, ns_co := (ns_co s)(g \<mapsto> c),
            ns_got := (ns_got s)(g := []), ns_sent := (ns_sent s)(g := [])\<rparr>))"

text \<open>
  \<open>session\<close>: the connection is read and what was read is written back, until a read does not
  answer a positive number; the answer of the write is only looked at in the benchmark programs. The
  log line that \<open>tcp_echo_server.cpp\<close> makes of the buffer, as a string although nothing terminates it, is left out.
\<close>

definition session_close :: "handle \<Rightarrow> tcp_connector \<Rightarrow> net_sys \<Rightarrow> net_sys res" where
  "session_close h conn s =
     bindE (tcp_connector_close False 0 h conn (ns_io s)) (\<lambda>(conn, io). suspend_at h (Session_Close conn) s (Inr io))"

definition session_read :: "nat \<Rightarrow> handle \<Rightarrow> tcp_connector \<Rightarrow> net_sys \<Rightarrow> net_sys res" where
  "session_read len h conn s = suspend_at h (Session_Read conn) s (tcp_connector_read h len 0 conn (ns_io s))"

definition session_resume :: "bool \<Rightarrow> nat \<Rightarrow> handle \<Rightarrow> coro \<Rightarrow> net_sys \<Rightarrow> net_sys res" where
  "session_resume stop len h c s =
     (let ret = base_await_resume h (ns_io s) in
      case c of
        Session_Start fd \<Rightarrow>
          bindE (tcp_connector_new False 0 fd (ns_io s)) (\<lambda>(conn, io).
          session_read len h conn (clear_buf len h (s\<lparr>ns_io := io\<rparr>)))
      | Session_Read conn \<Rightarrow>
          if ret > 0
          then suspend_at h (Session_Write conn (nat ret)) s (tcp_connector_write h (nat ret) 0 conn (ns_io s))
          else session_close h conn s
      | Session_Write conn n \<Rightarrow> if stop \<and> ret \<le> 0 then session_close h conn s else session_read len h conn s
      | Session_Close conn \<Rightarrow>
          if ret = 0
          then bindE (tcp_connector_destroy False 0 conn (ns_io s)) (\<lambda>io. Inr (co_ends h (s\<lparr>ns_io := io\<rparr>)))
          else Inl Assert_Failed
      | _ \<Rightarrow> Inl Resumed_Done)"

text \<open>\<open>server\<close>: every accepted descriptor gets a session, with its frame at \<open>g\<close>.\<close>

definition server_accept :: "handle \<Rightarrow> tcp_server \<Rightarrow> net_sys \<Rightarrow> net_sys res" where
  "server_accept h v s = suspend_at h (Server_Accept v) s (tcp_server_accept h 0 v (ns_io s))"

definition server_resume :: "os_net \<Rightarrow> handle \<Rightarrow> handle \<Rightarrow> coro \<Rightarrow> net_sys \<Rightarrow> net_sys res" where
  "server_resume os g h c s =
     (case c of
        Server_Start port \<Rightarrow>
          bindE (tcp_server_new False 0 os None port (ns_io s)) (\<lambda>(v, io). server_accept h v (s\<lparr>ns_io := io\<rparr>))
      | Server_Accept v \<Rightarrow>
          (let client_fd = base_await_resume h (ns_io s) in
           if client_fd > 0 then bindE (spawn g (Session_Start client_fd) s) (server_accept h v)
           else Inr (co_ends h s))
      | _ \<Rightarrow> Inl Resumed_Done)"

text \<open>\<open>client\<close> of \<open>tcp_echo_client.cpp\<close>: after the connection it does what a session does.\<close>

definition client_resume :: "os_net \<Rightarrow> nat \<Rightarrow> handle \<Rightarrow> coro \<Rightarrow> net_sys \<Rightarrow> net_sys res" where
  "client_resume os len h c s =
     (case c of
        Client_Start addr port \<Rightarrow>
          bindE (tcp_client_new os addr port) (\<lambda>k. suspend_at h (Client_Connect k) s (tcp_client_connect h k (ns_io s)))
      | Client_Connect k \<Rightarrow>
          (let sockfd = base_await_resume h (ns_io s) in
           if sockfd > 0 then session_resume False len h (Session_Start sockfd) s else Inl Assert_Failed)
      | _ \<Rightarrow> Inl Resumed_Done)"

text \<open>\<open>client\<close> of \<open>stdin_client.cpp\<close>: it starts \<open>echo\<close> on the socket, at \<open>g\<close>, and reads until the end.\<close>

definition chat_read :: "nat \<Rightarrow> handle \<Rightarrow> tcp_connector \<Rightarrow> net_sys \<Rightarrow> net_sys res" where
  "chat_read len h conn s = suspend_at h (Chat_Read conn) s (tcp_connector_read h len 0 conn (ns_io s))"

definition chat_resume :: "os_net \<Rightarrow> nat \<Rightarrow> handle \<Rightarrow> handle \<Rightarrow> coro \<Rightarrow> net_sys \<Rightarrow> net_sys res" where
  "chat_resume os len g h c s =
     (let ret = base_await_resume h (ns_io s) in
      case c of
        Chat_Start addr port \<Rightarrow>
          bindE (tcp_client_new os addr port) (\<lambda>k. suspend_at h (Chat_Connect k) s (tcp_client_connect h k (ns_io s)))
      | Chat_Connect k \<Rightarrow>
          if ret > 0
          then bindE (spawn g (Typing_Start ret) s) (\<lambda>s.
               bindE (tcp_connector_new False 0 ret (ns_io s)) (\<lambda>(conn, io).
               chat_read len h conn (clear_buf len h (s\<lparr>ns_io := io\<rparr>))))
          else Inl Assert_Failed
      | Chat_Read conn \<Rightarrow>
          if ret > 0 then chat_read len h conn s
          else bindE (tcp_connector_close False 0 h conn (ns_io s)) (\<lambda>(conn, io). suspend_at h (Chat_Close conn) s (Inr io))
      | Chat_Close conn \<Rightarrow>
          if ret = 0
          then bindE (tcp_connector_destroy False 0 conn (ns_io s)) (\<lambda>io. Inr (co_ends h (s\<lparr>ns_io := io\<rparr>)))
          else Inl Assert_Failed
      | _ \<Rightarrow> Inl Resumed_Done)"

text \<open>
  \<open>echo\<close> of \<open>stdin_client.cpp\<close>: what is typed is written to the socket. The answer of the read
  is passed on as a \<open>size_t\<close> without a test.
\<close>

definition typing_read :: "nat \<Rightarrow> handle \<Rightarrow> tcp_connector \<Rightarrow> net_sys \<Rightarrow> net_sys res" where
  "typing_read len h conn s = suspend_at h (Typing_Read conn) s (stdin_awaiter_new h len 0 0 (ns_io s))"

definition typing_resume :: "nat \<Rightarrow> handle \<Rightarrow> coro \<Rightarrow> net_sys \<Rightarrow> net_sys res" where
  "typing_resume len h c s =
     (case c of
        Typing_Start fd \<Rightarrow>
          bindE (tcp_connector_new False 0 fd (ns_io s)) (\<lambda>(conn, io).
          typing_read len h conn (clear_buf len h (s\<lparr>ns_io := io\<rparr>)))
      | Typing_Read conn \<Rightarrow>
          (let n = unat (word_of_int (base_await_resume h (ns_io s)) :: u64) in
           suspend_at h (Typing_Write conn n) s (tcp_connector_write h n 0 conn (ns_io s)))
      | Typing_Write conn n \<Rightarrow> typing_read len h conn s
      | _ \<Rightarrow> Inl Resumed_Done)"

definition coro_resume :: "net_prog \<Rightarrow> os_net \<Rightarrow> handle \<Rightarrow> handle \<Rightarrow> net_sys \<Rightarrow> net_sys res" where
  "coro_resume P os g h s =
     (case ns_co s h of
        None \<Rightarrow> Inl Use_After_Free
      | Some c \<Rightarrow>
          (case c of
             Server_Start _ \<Rightarrow> server_resume os g h c s
           | Server_Accept _ \<Rightarrow> server_resume os g h c s
           | Client_Start _ _ \<Rightarrow> client_resume os (np_len P) h c s
           | Client_Connect _ \<Rightarrow> client_resume os (np_len P) h c s
           | Chat_Start _ _ \<Rightarrow> chat_resume os (np_len P) g h c s
           | Chat_Connect _ \<Rightarrow> chat_resume os (np_len P) g h c s
           | Chat_Read _ \<Rightarrow> chat_resume os (np_len P) g h c s
           | Chat_Close _ \<Rightarrow> chat_resume os (np_len P) g h c s
           | Typing_Start _ \<Rightarrow> typing_resume (np_len P) h c s
           | Typing_Read _ \<Rightarrow> typing_resume (np_len P) h c s
           | Typing_Write _ _ \<Rightarrow> typing_resume (np_len P) h c s
           | _ \<Rightarrow> session_resume (np_stop P) (np_len P) h c s))"

text \<open>One round of the inner loop of \<open>context::run\<close> on worker \<open>i\<close>.\<close>

definition net_exec :: "net_prog \<Rightarrow> os_net \<Rightarrow> handle \<Rightarrow> nat \<Rightarrow> net_sys \<Rightarrow> net_sys res" where
  "net_exec P os g i s =
     (let io = on_worker i (ns_io s) in
      bindE (local_engine io) (\<lambda>e.
      bindE (schedule e) (\<lambda>(h, e).
      bindE (set_local_engine e io) (\<lambda>io.
      bindE (coro_resume P os g h (s\<lparr>ns_io := io\<rparr>)) (\<lambda>s.
      bindE (with_local_ctx (unregister_wait 1) (ns_io s)) (\<lambda>io. Inr (s\<lparr>ns_io := io\<rparr>)))))))"

text \<open>
  The kernel: a read or receive with at least one byte writes to the front of the buffer of the coroutine that made the
  request; a send takes its bytes from there; all other answers have no effect that is
  recorded. The answers are of type \<open>int\<close>. With \<open>full\<close> every send succeeds and sends what it was
  asked to, and no read from the standard input fails.
\<close>

definition req_at :: "nat \<Rightarrow> nat \<Rightarrow> net_sys \<Rightarrow> sqe" where
  "req_at i j s = up_kernel (m_upxy (eng_at i (ns_io s))) ! j"

definition has_req :: "nat \<Rightarrow> nat \<Rightarrow> net_sys \<Rightarrow> bool" where
  "has_req i j s \<longleftrightarrow> i < length (w_ctxs (io_world (ns_io s))) \<and> j < length (up_kernel (m_upxy (eng_at i (ns_io s))))"

fun is_input :: "sqe_op \<Rightarrow> nat \<Rightarrow> bool" where
  "is_input (Prep_Recv fd n fl) m = (m = n)"
| "is_input (Prep_Read fd n off) m = (m = n)"
| "is_input _ m = False"

inductive net_step :: "net_prog \<Rightarrow> os_net \<Rightarrow> bool \<Rightarrow> net_sys \<Rightarrow> net_sys \<Rightarrow> bool" for P os full where
  exec: "i < length (w_ctxs (io_world (ns_io s))) \<Longrightarrow> ns_co s g = None \<Longrightarrow> net_exec P os g i s = Inr t \<Longrightarrow>
    net_step P os full s t"
| poll: "i < length (w_ctxs (io_world (ns_io s))) \<Longrightarrow> poll_submit accepted (on_worker i (ns_io s)) = Inr io \<Longrightarrow>
    net_step P os full s (s\<lparr>ns_io := io\<rparr>)"
| received: "has_req i j s \<Longrightarrow> is_input (sqe_op (req_at i j s)) n \<Longrightarrow> h = sqe_data (req_at i j s) \<Longrightarrow>
    bytes \<noteq> [] \<Longrightarrow> length bytes \<le> n \<Longrightarrow> length bytes < 2 ^ 31 \<Longrightarrow>
    net_step P os full s (s\<lparr>ns_io := kernel_done i j (int (length bytes)) (ns_io s),
      ns_buf := (ns_buf s)(h := bytes @ drop (length bytes) (ns_buf s h)),
      ns_got := (ns_got s)(h := ns_got s h @ bytes)\<rparr>)"
| sent: "has_req i j s \<Longrightarrow> sqe_op (req_at i j s) = Prep_Send fd n fl \<Longrightarrow> h = sqe_data (req_at i j s) \<Longrightarrow>
    m \<le> n \<Longrightarrow> m \<le> length (ns_buf s h) \<Longrightarrow> (full \<longrightarrow> m = min n (length (ns_buf s h))) \<Longrightarrow>
    net_step P os full s (s\<lparr>ns_io := kernel_done i j (int m) (ns_io s),
      ns_sent := (ns_sent s)(h := ns_sent s h @ take m (ns_buf s h))\<rparr>)"
| answered: "has_req i j s \<Longrightarrow> (\<forall>n. is_input (sqe_op (req_at i j s)) n \<longrightarrow> res \<le> 0) \<Longrightarrow>
    (\<forall>fd n fl. sqe_op (req_at i j s) = Prep_Send fd n fl \<longrightarrow> res < 0 \<and> \<not> full) \<Longrightarrow>
    (\<forall>fd n off. sqe_op (req_at i j s) = Prep_Read fd n off \<longrightarrow> full \<longrightarrow> res = 0) \<Longrightarrow>
    net_step P os full s (s\<lparr>ns_io := kernel_done i j res (ns_io s)\<rparr>)"

text \<open>
  \<open>main\<close>: \<open>scheduler::init\<close>, the submission of the first coroutine, and the threads that \<open>scheduler::loop\<close> starts set up their
  rings.
\<close>

definition net_main :: "net_prog \<Rightarrow> int list \<Rightarrow> (nat \<Rightarrow> nat) \<Rightarrow> handle \<Rightarrow> world \<Rightarrow> (handle \<Rightarrow> io_info) \<Rightarrow> net_sys res" where
  "net_main P efds granted h w infos =
     bindE (init_impl efds w) (\<lambda>w.
     bindE (submit_to_scheduler h w) (\<lambda>w.
     bindE (foldE (context_init False 0 0 [] 0 granted) [0..<length efds] w) (\<lambda>w.
     Inr \<lparr>ns_io = \<lparr>io_world = w, io_infos = infos\<rparr>, ns_co = [h \<mapsto> np_start P], ns_buf = (\<lambda>_. []), ns_got = (\<lambda>_. []),
          ns_sent = (\<lambda>_. [])\<rparr>)))"

inductive net_reach :: "net_prog \<Rightarrow> os_net \<Rightarrow> bool \<Rightarrow> net_sys \<Rightarrow> bool" for P os full where
  main: "net_main P efds granted h w infos = Inr s \<Longrightarrow> net_reach P os full s"
| step: "net_reach P os full s \<Longrightarrow> net_step P os full s t \<Longrightarrow> net_reach P os full t"

definition tcp_echo_server :: net_prog where
  "tcp_echo_server = \<lparr>np_len = 10240, np_stop = False, np_start = Server_Start 8000\<rparr>"

definition tcp_echo_client :: net_prog where
  "tcp_echo_client = \<lparr>np_len = 10240, np_stop = False, np_start = Client_Start (Some ''localhost'') 8000\<rparr>"

definition stdin_client :: net_prog where
  "stdin_client = \<lparr>np_len = 10240, np_stop = False, np_start = Chat_Start (Some ''localhost'') 8000\<rparr>"

definition tinycoro_128_bench :: net_prog where
  "tinycoro_128_bench = \<lparr>np_len = 128 + 16, np_stop = True, np_start = Server_Start 8000\<rparr>"

definition tinycoro_1k_bench :: net_prog where
  "tinycoro_1k_bench = \<lparr>np_len = 1024 + 16, np_stop = True, np_start = Server_Start 8000\<rparr>"

definition tinycoro_16k_bench :: net_prog where
  "tinycoro_16k_bench = \<lparr>np_len = 16 * 1024 + 16, np_stop = True, np_start = Server_Start 8000\<rparr>"

section \<open>What holds of a coroutine\<close>

text \<open>The request a suspended coroutine has made, its callback, and the bytes it still has to pass on.\<close>

fun co_op :: "nat \<Rightarrow> coro \<Rightarrow> sqe_op option" where
  "co_op len (Server_Accept v) = Some (Prep_Accept (sv_listenfd v) 0)"
| "co_op len (Client_Connect k) = Some (Prep_Connect (cl_clientfd k))"
| "co_op len (Session_Read conn) = Some (Prep_Recv (tc_sockfd conn) len 0)"
| "co_op len (Session_Write conn n) = Some (Prep_Send (tc_sockfd conn) n 0)"
| "co_op len (Session_Close conn) = Some (Prep_Close (tc_original_fd conn))"
| "co_op len (Chat_Connect k) = Some (Prep_Connect (cl_clientfd k))"
| "co_op len (Chat_Read conn) = Some (Prep_Recv (tc_sockfd conn) len 0)"
| "co_op len (Chat_Close conn) = Some (Prep_Close (tc_original_fd conn))"
| "co_op len (Typing_Read conn) = Some (Prep_Read 0 len 0)"
| "co_op len (Typing_Write conn n) = Some (Prep_Send (tc_sockfd conn) n 0)"
| "co_op len _ = None"

fun co_conn :: "coro \<Rightarrow> tcp_connector option" where
  "co_conn (Session_Read conn) = Some conn"
| "co_conn (Session_Write conn n) = Some conn"
| "co_conn (Session_Close conn) = Some conn"
| "co_conn (Chat_Read conn) = Some conn"
| "co_conn (Chat_Close conn) = Some conn"
| "co_conn (Typing_Read conn) = Some conn"
| "co_conn (Typing_Write conn n) = Some conn"
| "co_conn _ = None"

text \<open>The descriptors are not registered ones.\<close>

definition co_plain :: "coro \<Rightarrow> bool" where
  "co_plain c \<longleftrightarrow> (\<forall>conn. co_conn c = Some conn \<longrightarrow> (\<exists>fd. conn = plain_conn fd))"

fun reads :: "coro \<Rightarrow> bool" where
  "reads (Session_Read conn) = True"
| "reads (Typing_Read conn) = True"
| "reads _ = False"

fun co_owes :: "coro \<Rightarrow> u8 list \<Rightarrow> u8 list" where
  "co_owes (Session_Write conn n) buf = take n buf"
| "co_owes (Typing_Write conn n) buf = take n buf"
| "co_owes _ buf = []"

definition co_due :: "coro \<Rightarrow> int \<Rightarrow> u8 list \<Rightarrow> u8 list" where
  "co_due c r buf = (if reads c \<and> 0 < r then take (nat r) buf else [])"

fun relays :: "coro \<Rightarrow> bool" where
  "relays (Chat_Start _ _) = False"
| "relays (Chat_Connect _) = False"
| "relays (Chat_Read _) = False"
| "relays (Chat_Close _) = False"
| "relays _ = True"

type_synonym co_data = "coro option \<times> u8 list \<times> u8 list \<times> u8 list"

definition co_data :: "net_sys \<Rightarrow> handle \<Rightarrow> co_data" where
  "co_data s h = (ns_co s h, ns_buf s h, ns_got s h, ns_sent s h)"

definition balance :: "bool \<Rightarrow> coro \<Rightarrow> u8 list \<Rightarrow> u8 list \<Rightarrow> u8 list \<Rightarrow> bool" where
  "balance full c due got sent \<longleftrightarrow> (full \<and> relays c \<longrightarrow> got = sent @ due)"

text \<open>The callback of a read stores the kernel's answer as it is.\<close>

definition cb_fits :: "coro \<Rightarrow> io_info \<Rightarrow> bool" where
  "cb_fits c v \<longleftrightarrow> (reads c \<longrightarrow> io_cb v \<in> {Read_Callback, Stdin_Callback})"

fun types :: "coro \<Rightarrow> bool" where
  "types (Typing_Read conn) = True"
| "types _ = False"

text \<open>What a read from the standard input answers.\<close>

definition co_sane :: "bool \<Rightarrow> coro \<Rightarrow> int \<Rightarrow> bool" where
  "co_sane full c r \<longleftrightarrow> (full \<and> types c \<longrightarrow> 0 \<le> r \<and> r < 2 ^ 31)"

definition sq_fits :: "bool \<Rightarrow> nat \<Rightarrow> io_info \<Rightarrow> co_data \<Rightarrow> sqe \<Rightarrow> bool" where
  "sq_fits full len v d q \<longleftrightarrow>
     (case d of (co, buf, got, sent) \<Rightarrow>
        \<exists>c. co = Some c \<and> io_handle v = sqe_data q \<and> cb_fits c v \<and> co_plain c \<and> co_op len c = Some (sqe_op q) \<and>
          balance full c (co_owes c buf) got sent)"

definition cq_fits :: "bool \<Rightarrow> io_info \<Rightarrow> co_data \<Rightarrow> cqe \<Rightarrow> bool" where
  "cq_fits full v d x \<longleftrightarrow>
     (case d of (co, buf, got, sent) \<Rightarrow>
        \<exists>c. co = Some c \<and> io_handle v = cqe_data x \<and> cb_fits c v \<and> co_plain c \<and> co_sane full c (cqe_res x) \<and>
          balance full c (co_due c (cqe_res x) buf) got sent)"

definition rd_fits :: "bool \<Rightarrow> io_info \<Rightarrow> co_data \<Rightarrow> bool" where
  "rd_fits full v d \<longleftrightarrow>
     (case d of (co, buf, got, sent) \<Rightarrow>
        \<exists>c. co = Some c \<and> co_plain c \<and> co_sane full c (io_result v) \<and> balance full c (co_due c (io_result v) buf) got sent)"

lemma co_due_cb:
  "cb_fits c v \<Longrightarrow> co_due c (cb_result v r) buf = co_due c r buf"
  "cb_fits c v \<Longrightarrow> co_sane full c (cb_result v r) = co_sane full c r"
  by (auto simp: cb_fits_def co_due_def cb_result_def co_sane_def elim: types.elims)

interpretation net: coroutine_io "sq_fits full len" "cq_fits full" "rd_fits full" for full len
proof
  show "io_handle v = cqe_data x" if "cq_fits full v d x" for v d x using that by (auto simp: cq_fits_def)
  show "rd_fits full (v\<lparr>io_result := cb_result v (cqe_res x)\<rparr>) d" if "cq_fits full v d x" for v d x
    using that by (fastforce simp: cq_fits_def rd_fits_def co_due_cb)
qed

section \<open>The invariant\<close>

definition no_chat :: "net_prog \<Rightarrow> bool" where
  "no_chat P \<longleftrightarrow> relays (np_start P)"

abbreviation flying :: "net_prog \<Rightarrow> bool \<Rightarrow> handle set \<Rightarrow> net_sys \<Rightarrow> bool" where
  "flying P full L s \<equiv> in_flight (sq_fits full (np_len P)) (cq_fits full) (rd_fits full) (co_data s) L (ns_io s)"

definition settled :: "net_prog \<Rightarrow> bool \<Rightarrow> net_sys \<Rightarrow> bool" where
  "settled P full s \<longleftrightarrow> (no_chat P \<longrightarrow> (\<forall>h c. ns_co s h = Some c \<longrightarrow> relays c) \<and>
     (full \<longrightarrow> (\<forall>h. ns_co s h = None \<longrightarrow> ns_got s h = ns_sent s h)))"

definition net_inv :: "net_prog \<Rightarrow> bool \<Rightarrow> net_sys \<Rightarrow> bool" where
  [inv_defs]: "net_inv P full s \<longleftrightarrow> flying P full (dom (ns_co s)) s \<and> settled P full s"

text \<open>The effect of a \<open>co_await\<close> that worker \<open>i\<close> executes on behalf of \<open>h\<close>.\<close>

lemma suspend_req:
  assumes "suspend_at h c s (await_req i op fl f h (ns_io s)) = Inr t" "worker_at i (ns_io s)"
    "flying P full L s" "h \<notin> L" "co_op (np_len P) c = Some op" "co_plain c" "cb_fits c (f (io_infos (ns_io s) h))"
    "balance full c (co_owes c (ns_buf s h)) (ns_got s h) (ns_sent s h)"
  shows "flying P full (insert h L) t" "ns_co t = (ns_co s)(h \<mapsto> c)" "ns_got t = ns_got s" "ns_sent t = ns_sent s"
    "worker_at i (ns_io t)"
proof -
  let ?q = "\<lparr>sqe_op = op, sqe_flags = fl, sqe_data = h\<rparr>" and ?io = "ns_io s"
  let ?f = "\<lambda>v. (f v)\<lparr>io_handle := h\<rparr>"
  have t: "t = s\<lparr>ns_io := set_info h ?f (set_eng i (add_req ?q (eng_at i ?io)) ?io), ns_co := (ns_co s)(h \<mapsto> c)\<rparr>"
    using assms(1) by (auto simp: suspend_at_def await_req_def base_await_suspend_def set_info_def split: if_splits)
  show "ns_co t = (ns_co s)(h \<mapsto> c)" "ns_got t = ns_got s" "ns_sent t = ns_sent s" "worker_at i (ns_io t)"
    using assms(2) by (simp_all add: t)
  let ?u = "s\<lparr>ns_io := set_info h ?f ?io, ns_co := (ns_co s)(h \<mapsto> c)\<rparr>"
  have i: "i < length (w_ctxs (io_world (ns_io ?u)))" using assms(2) by (simp add: worker_at_def)
  have u: "flying P full L ?u"
    by (rule in_flight_cong [OF assms(3)]) (use assms(4) in \<open>auto simp: co_data_def\<close>)
  have "sq_fits full (np_len P) (io_infos (ns_io ?u) h) (co_data ?u h) ?q"
    using assms(5-8) by (simp add: sq_fits_def co_data_def cb_fits_def)
  from net.request [OF u i assms(4) _ this]
  have "flying P full (insert h L) (?u\<lparr>ns_io := set_eng i (add_req ?q (eng_at i (ns_io ?u))) (ns_io ?u)\<rparr>)"
    by (simp add: co_data_def [abs_def])
  then show "flying P full (insert h L) t" by (simp add: t co_data_def [abs_def])
qed

text \<open>
  A coroutine \<open>h\<close> that worker \<open>i\<close> executes: its handle is nowhere, and \<open>r\<close> is what its awaiter holds.
\<close>

definition executing :: "net_prog \<Rightarrow> bool \<Rightarrow> nat \<Rightarrow> handle \<Rightarrow> coro \<Rightarrow> net_sys \<Rightarrow> bool" where
  "executing P full i h c s \<longleftrightarrow> worker_at i (ns_io s) \<and> flying P full (dom (ns_co s) - {h}) s \<and> settled P full s \<and>
     ns_co s h = Some c \<and> co_plain c"

definition executed :: "net_prog \<Rightarrow> bool \<Rightarrow> nat \<Rightarrow> net_sys \<Rightarrow> bool" where
  "executed P full i t \<longleftrightarrow> worker_at i (ns_io t) \<and> net_inv P full t"

lemma await_step:
  assumes "suspend_at h c' s (await_req i op fl f h (ns_io s)) = Inr t" "executing P full i h c s"
    "co_op (np_len P) c' = Some op" "co_plain c'" "relays c' = relays c" "cb_fits c' (f (io_infos (ns_io s) h))"
    "balance full c' (co_owes c' (ns_buf s h)) (ns_got s h) (ns_sent s h)"
  shows "executed P full i t"
proof -
  have ex: "worker_at i (ns_io s)" "flying P full (dom (ns_co s) - {h}) s" "settled P full s" "ns_co s h = Some c"
    using assms(2) by (simp_all add: executing_def)
  note t = suspend_req [OF assms(1) ex(1,2) _ assms(3,4,6,7), simplified]
  have "insert h (dom (ns_co s) - {h}) = dom (ns_co t)" using t(2) by auto
  then have "flying P full (dom (ns_co t)) t" using t(1) by simp
  moreover have "settled P full t" using ex(3,4) t(2-4) assms(5) by (auto simp: settled_def)
  ultimately show ?thesis using t(5) by (simp add: executed_def net_inv_def)
qed

lemma end_step:
  assumes "executing P full i h c s" "balance full c [] (ns_got s h) (ns_sent s h)"
  shows "executed P full i (co_ends h s)"
proof -
  have "flying P full (dom (ns_co (co_ends h s))) (co_ends h s)"
    by (rule in_flight_cong [where D = "co_data s" and s = "ns_io s"])
      (use assms in \<open>auto simp: executing_def co_ends_def co_data_def\<close>)
  then show ?thesis
    using assms by (auto simp: executing_def executed_def net_inv_def co_ends_def settled_def balance_def)
qed

lemma executing_clear_buf: "executing P full i h c s \<Longrightarrow> executing P full i h c (clear_buf len h s)"
  unfolding executing_def
  by (auto simp: clear_buf_def settled_def co_data_def elim!: in_flight_cong)

lemma suspend_pair: "bindE (bindE m (\<lambda>io. Inr (x, io))) (\<lambda>(x, io). suspend_at h (C x) s (Inr io)) = suspend_at h (C x) s m"
  by (cases m) (simp_all add: suspend_at_def)

lemma spawn_step:
  assumes "spawn g c' s = Inr t" "executing P full i h c s" "ns_co s g = None" "co_plain c'" "\<not> reads c'" "relays c'"
  shows "executing P full i h c t \<and> ns_buf t h = ns_buf s h \<and> ns_got t h = ns_got s h \<and> ns_sent t h = ns_sent s h"
proof -
  have ex: "worker_at i (ns_io s)" "flying P full (dom (ns_co s) - {h}) s" "settled P full s" "ns_co s h = Some c" "co_plain c"
    using assms(2) by (simp_all add: executing_def)
  obtain w where w: "submit_task_impl g (io_world (ns_io s)) = Inr w"
    "t = s\<lparr>ns_io := (ns_io s)\<lparr>io_world := w\<rparr>, ns_co := (ns_co s)(g \<mapsto> c'), ns_got := (ns_got s)(g := []), ns_sent := (ns_sent s)(g := [])\<rparr>"
    using assms(1) by (auto simp: spawn_def submit_to_scheduler_def)
  have g: "g \<noteq> h" using ex(4) assms(3) by auto
  let ?u = "t\<lparr>ns_io := ns_io s\<rparr>"
  have u: "flying P full (dom (ns_co s) - {h}) ?u"
    by (rule in_flight_cong [OF ex(2)]) (use assms(3) in \<open>auto simp: w(2) co_data_def\<close>)
  have "rd_fits full (io_infos (ns_io ?u) g) (co_data ?u g)"
    using assms(4-6) by (cases c') (simp_all add: rd_fits_def co_data_def w(2) balance_def co_due_def co_sane_def)
  from net.submitted [OF u _ _ this] w(1) assms(3)
  have "flying P full (insert g (dom (ns_co s) - {h})) t"
    by (auto simp: w(2) co_data_def [abs_def])
  moreover have "insert g (dom (ns_co s) - {h}) = dom (ns_co t) - {h}" using g by (auto simp: w(2))
  moreover have "settled P full t" using ex(3) assms(6) by (auto simp: settled_def w(2))
  moreover have "worker_at i (ns_io t)"
    using ex(1) w by (auto simp: worker_at_def elim!: submit_task_impl_inv)
  ultimately show ?thesis using ex(4,5) g by (simp add: executing_def w(2))
qed

section \<open>The coroutines keep it\<close>

lemma session_read_step:
  assumes "session_read (np_len P) h (plain_conn fd) s = Inr t" "executing P full i h c s" "relays c"
    "balance full c [] (ns_got s h) (ns_sent s h)"
  shows "executed P full i t"
proof -
  have "worker_at i (ns_io s)" using assms(2) by (simp add: executing_def)
  from await_step [OF _ assms(2), of "Session_Read (plain_conn fd)"] assms(1,3,4) connector_plain [OF this] awaiters_add_req [OF this]
  show ?thesis by (auto simp: session_read_def co_plain_def plain_conn_def cb_fits_def balance_def)
qed

lemma session_close_step:
  assumes "session_close h (plain_conn fd) s = Inr t" "executing P full i h c s" "relays c"
    "balance full c [] (ns_got s h) (ns_sent s h)"
  shows "executed P full i t"
proof -
  have w: "worker_at i (ns_io s)" using assms(2) by (simp add: executing_def)
  have "suspend_at h (Session_Close (plain_conn fd)) s (tcp_close_awaiter_new h fd (ns_io s)) = Inr t"
    using assms(1) unfolding session_close_def connector_plain [OF w] suspend_pair .
  from await_step [OF this [unfolded awaiters_add_req [OF w]] assms(2)] assms(3,4)
  show ?thesis by (auto simp: co_plain_def plain_conn_def cb_fits_def balance_def)
qed

lemma session_resume_step:
  assumes "session_resume stop (np_len P) h c s = Inr t" "executing P full i h d s" "co_plain c" "relays c" "relays d"
    "balance full c (co_due c (base_await_resume h (ns_io s)) (ns_buf s h)) (ns_got s h) (ns_sent s h)"
  shows "executed P full i t"
proof (cases c)
  case (Session_Start fd)
  have w: "worker_at i (ns_io s)" using assms(2) by (simp add: executing_def)
  have "session_read (np_len P) h (plain_conn fd) (clear_buf (np_len P) h s) = Inr t"
    using assms(1) connector_plain(1) [OF w, of 0 fd] by (simp add: session_resume_def Session_Start)
  from session_read_step [OF this executing_clear_buf [OF assms(2)] assms(5)] assms(4-6) Session_Start
  show ?thesis by (simp add: clear_buf_def balance_def co_due_def)
next
  case (Session_Read conn)
  have w: "worker_at i (ns_io s)" using assms(2) by (simp add: executing_def)
  let ?r = "base_await_resume h (ns_io s)"
  obtain fd where fd: "conn = plain_conn fd" using assms(3) Session_Read by (auto simp: co_plain_def)
  show ?thesis
  proof (cases "?r > 0")
    case True
    then have "suspend_at h (Session_Write (plain_conn fd) (nat ?r)) s (tcp_write_awaiter_new h fd (nat ?r) 0 0 (ns_io s)) = Inr t"
      using assms(1) connector_plain(4) [OF w] by (simp add: session_resume_def Session_Read fd Let_def)
    from await_step [OF this [unfolded awaiters_add_req [OF w]] assms(2)] assms(4-6) True
    show ?thesis by (simp add: Session_Read co_plain_def plain_conn_def cb_fits_def balance_def co_due_def)
  next
    case False
    then have "session_close h (plain_conn fd) s = Inr t" using assms(1) by (simp add: session_resume_def Session_Read fd)
    from session_close_step [OF this assms(2,5)] assms(4-6) False
    show ?thesis by (simp add: Session_Read balance_def co_due_def)
  qed
next
  case (Session_Write conn n)
  obtain fd where fd: "conn = plain_conn fd" using assms(3) Session_Write by (auto simp: co_plain_def)
  have "session_close h (plain_conn fd) s = Inr t \<or> session_read (np_len P) h (plain_conn fd) s = Inr t"
    using assms(1) by (auto simp: session_resume_def Session_Write fd split: if_splits)
  moreover have "balance full d [] (ns_got s h) (ns_sent s h)" using assms(4-6) by (simp add: Session_Write balance_def co_due_def)
  ultimately show ?thesis using session_close_step [OF _ assms(2,5)] session_read_step [OF _ assms(2,5)] by blast
next
  case (Session_Close conn)
  have w: "worker_at i (ns_io s)" using assms(2) by (simp add: executing_def)
  obtain fd where fd: "conn = plain_conn fd" using assms(3) Session_Close by (auto simp: co_plain_def)
  have "t = co_ends h s" using assms(1) connector_plain(2) [OF w] by (auto simp: session_resume_def Session_Close fd split: if_splits)
  moreover have "balance full d [] (ns_got s h) (ns_sent s h)" using assms(4-6) by (simp add: Session_Close balance_def co_due_def)
  ultimately show ?thesis using end_step [OF assms(2)] by simp
qed (use assms(1) in \<open>simp_all add: session_resume_def\<close>)

lemma server_resume_step:
  assumes "server_resume os g h c s = Inr t" "executing P full i h c s" "ns_co s g = None" "relays c"
    "balance full c [] (ns_got s h) (ns_sent s h)"
  shows "executed P full i t"
proof -
  have acc: "executed P full i t" if "server_accept h v u = Inr t" "executing P full i h c u" "ns_got u h = ns_got s h" "ns_sent u h = ns_sent s h" for v u
  proof -
    have w: "worker_at i (ns_io u)" using that(2) by (simp add: executing_def)
    have "suspend_at h (Server_Accept v) u (tcp_accept_awaiter_new h (sv_listenfd v) 0 (sv_sqe_flag v) (ns_io u)) = Inr t"
      using that(1) by (simp add: server_accept_def tcp_server_accept_def)
    from await_step [OF this [unfolded awaiters_add_req [OF w]] that(2)] assms(4,5) that(3,4)
    show ?thesis by (simp add: co_plain_def cb_fits_def balance_def)
  qed
  have w: "worker_at i (ns_io s)" using assms(2) by (simp add: executing_def)
  show ?thesis
  proof (cases c)
    case (Server_Start port)
    then obtain v where "server_accept h v s = Inr t" using assms(1) server_plain [OF w] by (fastforce simp: server_resume_def)
    with acc [OF _ assms(2)] show ?thesis by simp
  next
    case (Server_Accept v)
    show ?thesis
    proof (cases "base_await_resume h (ns_io s) > 0")
      case True
      then obtain u where "spawn g (Session_Start (base_await_resume h (ns_io s))) s = Inr u" "server_accept h v u = Inr t"
        using assms(1) by (auto simp: server_resume_def Server_Accept)
      with acc spawn_step [OF this(1) assms(2,3)] show ?thesis by (simp add: co_plain_def)
    next
      case False
      then show ?thesis using assms(1) end_step [OF assms(2,5)] by (simp add: server_resume_def Server_Accept)
    qed
  qed (use assms(1) in \<open>simp_all add: server_resume_def\<close>)
qed

lemma client_resume_step:
  assumes "client_resume os (np_len P) h c s = Inr t" "executing P full i h c s" "relays c"
    "balance full c [] (ns_got s h) (ns_sent s h)"
  shows "executed P full i t"
proof -
  have w: "worker_at i (ns_io s)" using assms(2) by (simp add: executing_def)
  show ?thesis
  proof (cases c)
    case (Client_Start addr port)
    then obtain k where "suspend_at h (Client_Connect k) s (tcp_connect_awaiter_new h (cl_clientfd k) (ns_io s)) = Inr t"
      using assms(1) by (auto simp: client_resume_def tcp_client_connect_def)
    from await_step [OF this [unfolded awaiters_add_req [OF w]] assms(2)] assms(3,4)
    show ?thesis by (simp add: co_plain_def cb_fits_def balance_def)
  next
    case (Client_Connect k)
    let ?r = "base_await_resume h (ns_io s)"
    have "session_resume False (np_len P) h (Session_Start ?r) s = Inr t"
      using assms(1) by (simp add: client_resume_def Client_Connect Let_def split: if_splits)
    from session_resume_step [OF this assms(2)] assms(3,4) show ?thesis by (simp add: co_plain_def balance_def co_due_def)
  qed (use assms(1) in \<open>simp_all add: client_resume_def\<close>)
qed

lemma typing_resume_step:
  assumes "typing_resume (np_len P) h c s = Inr t" "executing P full i h c s" "relays c"
    "balance full c (co_due c (base_await_resume h (ns_io s)) (ns_buf s h)) (ns_got s h) (ns_sent s h)"
    "co_sane full c (base_await_resume h (ns_io s))"
  shows "executed P full i t"
proof -
  have rd: "executed P full i t" if "typing_read (np_len P) h (plain_conn fd) u = Inr t" "executing P full i h c u"
    "balance full c [] (ns_got u h) (ns_sent u h)" for fd u
  proof -
    have w: "worker_at i (ns_io u)" using that(2) by (simp add: executing_def)
    have "suspend_at h (Typing_Read (plain_conn fd)) u (stdin_awaiter_new h (np_len P) 0 0 (ns_io u)) = Inr t"
      using that(1) by (simp add: typing_read_def)
    from await_step [OF this [unfolded awaiters_add_req [OF w]] that(2)] assms(3) that(3)
    show ?thesis by (simp add: co_plain_def plain_conn_def cb_fits_def balance_def)
  qed
  have w: "worker_at i (ns_io s)" and pl: "co_plain c" using assms(2) by (simp_all add: executing_def)
  show ?thesis
  proof (cases c)
    case (Typing_Start fd)
    have "typing_read (np_len P) h (plain_conn fd) (clear_buf (np_len P) h s) = Inr t"
      using assms(1) connector_plain(1) [OF w, of 0 fd] by (simp add: typing_resume_def Typing_Start)
    with rd executing_clear_buf [OF assms(2)] assms(4) show ?thesis by (simp add: Typing_Start clear_buf_def balance_def co_due_def)
  next
    case (Typing_Read conn)
    let ?r = "base_await_resume h (ns_io s)"
    let ?n = "unat (word_of_int ?r :: u64)"
    obtain fd where fd: "conn = plain_conn fd" using pl Typing_Read by (auto simp: co_plain_def)
    have "suspend_at h (Typing_Write (plain_conn fd) ?n) s (tcp_write_awaiter_new h fd ?n 0 0 (ns_io s)) = Inr t"
      using assms(1) connector_plain(4) [OF w] by (simp add: typing_resume_def Typing_Read fd Let_def)
    note step = await_step [OF this [unfolded awaiters_add_req [OF w]] assms(2)]
    have "take ?n (ns_buf s h) = co_due c ?r (ns_buf s h)" if full
    proof -
      have "0 \<le> ?r" "?r < 2 ^ 31" using assms(5) that by (simp_all add: co_sane_def Typing_Read)
      then have "?n = nat ?r" by (simp add: unat_eq_nat_uint uint_word_of_int)
      with \<open>0 \<le> ?r\<close> show ?thesis by (auto simp: Typing_Read co_due_def)
    qed
    with step assms(3,4) show ?thesis by (simp add: Typing_Read co_plain_def plain_conn_def cb_fits_def balance_def)
  next
    case (Typing_Write conn n)
    obtain fd where fd: "conn = plain_conn fd" using pl Typing_Write by (auto simp: co_plain_def)
    have "typing_read (np_len P) h (plain_conn fd) s = Inr t" using assms(1) by (simp add: typing_resume_def Typing_Write fd)
    with rd assms(2,4) show ?thesis by (simp add: Typing_Write balance_def co_due_def)
  qed (use assms(1) in \<open>simp_all add: typing_resume_def\<close>)
qed

lemma chat_resume_step:
  assumes "chat_resume os (np_len P) g h c s = Inr t" "executing P full i h c s" "ns_co s g = None" "\<not> relays c"
  shows "executed P full i t"
proof -
  have rd: "executed P full i t" if "chat_read (np_len P) h (plain_conn fd) u = Inr t" "executing P full i h c u" for fd u
  proof -
    have w: "worker_at i (ns_io u)" using that(2) by (simp add: executing_def)
    have "suspend_at h (Chat_Read (plain_conn fd)) u (tcp_read_awaiter_new h fd (np_len P) 0 0 (ns_io u)) = Inr t"
      using that(1) connector_plain(3) [OF w] by (simp add: chat_read_def)
    from await_step [OF this [unfolded awaiters_add_req [OF w]] that(2)] assms(4)
    show ?thesis by (simp add: co_plain_def plain_conn_def cb_fits_def balance_def)
  qed
  have w: "worker_at i (ns_io s)" and pl: "co_plain c" using assms(2) by (simp_all add: executing_def)
  let ?r = "base_await_resume h (ns_io s)"
  show ?thesis
  proof (cases c)
    case (Chat_Start addr port)
    then obtain k where "suspend_at h (Chat_Connect k) s (tcp_connect_awaiter_new h (cl_clientfd k) (ns_io s)) = Inr t"
      using assms(1) by (auto simp: chat_resume_def tcp_client_connect_def Let_def)
    from await_step [OF this [unfolded awaiters_add_req [OF w]] assms(2)] assms(4)
    show ?thesis by (simp add: co_plain_def cb_fits_def balance_def)
  next
    case (Chat_Connect k)
    then obtain u where u: "spawn g (Typing_Start ?r) s = Inr u"
      "bindE (tcp_connector_new False 0 ?r (ns_io u)) (\<lambda>(conn, io). chat_read (np_len P) h conn (clear_buf (np_len P) h (u\<lparr>ns_io := io\<rparr>))) = Inr t"
      using assms(1) by (auto simp: chat_resume_def Let_def split: if_splits)
    have ex: "executing P full i h c u" using spawn_step [OF u(1) assms(2,3)] by (simp add: co_plain_def)
    then have "worker_at i (ns_io u)" by (simp add: executing_def)
    then have "chat_read (np_len P) h (plain_conn ?r) (clear_buf (np_len P) h u) = Inr t" using u(2) connector_plain(1) by simp
    with rd executing_clear_buf [OF ex] show ?thesis by blast
  next
    case (Chat_Read conn)
    obtain fd where fd: "conn = plain_conn fd" using pl Chat_Read by (auto simp: co_plain_def)
    show ?thesis
    proof (cases "?r > 0")
      case True
      then have "chat_read (np_len P) h (plain_conn fd) s = Inr t" using assms(1) by (simp add: chat_resume_def Chat_Read fd)
      with rd assms(2) show ?thesis by blast
    next
      case False
      then have "suspend_at h (Chat_Close (plain_conn fd)) s (tcp_close_awaiter_new h fd (ns_io s)) = Inr t"
        using assms(1) by (auto simp: chat_resume_def Chat_Read fd connector_plain [OF w] Let_def suspend_at_def)
      from await_step [OF this [unfolded awaiters_add_req [OF w]] assms(2)] assms(4)
      show ?thesis by (simp add: co_plain_def plain_conn_def cb_fits_def balance_def)
    qed
  next
    case (Chat_Close conn)
    obtain fd where fd: "conn = plain_conn fd" using pl Chat_Close by (auto simp: co_plain_def)
    have "t = co_ends h s" using assms(1) connector_plain(2) [OF w] by (auto simp: chat_resume_def Chat_Close fd Let_def split: if_splits)
    with end_step [OF assms(2)] assms(4) show ?thesis by (simp add: balance_def)
  qed (use assms(1,4) in \<open>simp_all add: chat_resume_def Let_def\<close>)
qed

lemma coro_resume_step:
  assumes "coro_resume P os g h s = Inr t" "executing P full i h c s" "ns_co s g = None"
    "co_sane full c (base_await_resume h (ns_io s))"
    "balance full c (co_due c (base_await_resume h (ns_io s)) (ns_buf s h)) (ns_got s h) (ns_sent s h)"
  shows "executed P full i t"
proof -
  have c: "ns_co s h = Some c" "co_plain c" using assms(2) by (simp_all add: executing_def)
  have idle: "balance full c [] (ns_got s h) (ns_sent s h)" if "\<not> reads c" using assms(5) that by (simp add: co_due_def)
  show ?thesis
    using assms(1) idle session_resume_step [OF _ assms(2) c(2) _ _ assms(5)] server_resume_step [OF _ assms(2,3)]
      client_resume_step [OF _ assms(2)] chat_resume_step [OF _ assms(2,3)] typing_resume_step [OF _ assms(2) _ assms(5,4)]
    by (cases c) (simp_all add: coro_resume_def c(1))
qed

lemma net_exec_inv:
  assumes "net_exec P os g i s = Inr t" "i < length (w_ctxs (io_world (ns_io s)))" "ns_co s g = None" "net_inv P full s"
  shows "net_inv P full t"
proof -
  let ?io = "on_worker i (ns_io s)"
  have at: "worker_at i ?io" using assms(2) by simp
  have fly: "in_flight (sq_fits full (np_len P)) (cq_fits full) (rd_fits full) (co_data s) (dom (ns_co s)) ?io"
    using assms(4) in_flight_cong [of _ _ _ "co_data s" "dom (ns_co s)" "ns_io s" ?io "co_data s"] by (simp add: net_inv_def)
  obtain h q where hq: "ctx_queue (ctx_at i (ns_io s)) = h # q"
    using assms(1) at by (cases "ctx_queue (ctx_at i (ns_io s))") (auto simp: net_exec_def schedule_def tq_pop_def)
  let ?s = "s\<lparr>ns_io := set_eng i ((eng_at i ?io)\<lparr>m_task_queue := q\<rparr>) ?io\<rparr>"
  obtain u where u: "coro_resume P os g h ?s = Inr u" "bindE (with_local_ctx (unregister_wait 1) (ns_io u)) (\<lambda>io. Inr (u\<lparr>ns_io := io\<rparr>)) = Inr t"
    using assms(1) at hq by (auto simp: net_exec_def schedule_def tq_pop_def Let_def)
  have "i < length (w_ctxs (io_world ?io))" "ctx_queue (ctx_at i ?io) = h # q" using assms(2) hq by simp_all
  note popped = net.pop [OF fly this]
  obtain c where c: "ns_co s h = Some c" "co_plain c" "co_sane full c (io_result (io_infos (ns_io s) h))"
    "balance full c (co_due c (io_result (io_infos (ns_io s) h)) (ns_buf s h)) (ns_got s h) (ns_sent s h)"
    using popped(2) by (auto simp: rd_fits_def co_data_def)
  have "co_data ?s = co_data s" by (rule ext) (simp add: co_data_def)
  then have ex: "executing P full i h c ?s"
    using popped(3) at c(1,2) assms(4) by (simp add: executing_def net_inv_def settled_def)
  have "executed P full i u"
    by (rule coro_resume_step [OF u(1) ex]) (use assms(3) c in \<open>simp_all add: base_await_resume_def\<close>)
  then have iu: "worker_at i (ns_io u)" "net_inv P full u" by (simp_all add: executed_def)
  obtain d where d: "unregister_wait 1 (ctx_at i (ns_io u)) = Inr d" "t = u\<lparr>ns_io := set_ctx i d (ns_io u)\<rparr>"
    using u(2) iu(1) by auto
  have "eng_io (m_engine d) = eng_io (eng_at i (ns_io u)) \<and> ctx_queue d = ctx_queue (ctx_at i (ns_io u))"
    using d(1) by (auto simp: unregister_wait_def context_write_eventfd_def engine_write_eventfd_def write_eventfd_def eng_io_def split: if_splits)
  then have "flying P full (dom (ns_co u)) (u\<lparr>ns_io := set_ctx i d (ns_io u)\<rparr>)"
    using net.unchanged [of full "np_len P" "co_data u" "dom (ns_co u)" "ns_io u" i d] iu by (simp add: net_inv_def worker_at_def co_data_def [abs_def])
  then show ?thesis using iu(2) by (simp add: d(2) net_inv_def settled_def)
qed

section \<open>The kernel and the poll keep it\<close>

lemma has_req_fits:
  assumes "net_inv P full s" "has_req i j s"
  defines "q \<equiv> req_at i j s"
  shows "sq_fits full (np_len P) (io_infos (ns_io s) (sqe_data q)) (co_data s (sqe_data q)) q"
proof -
  have i: "i < length (w_ctxs (io_world (ns_io s)))" using assms(2) by (simp add: has_req_def)
  have fly: "flying P full (dom (ns_co s)) s" using assms(1) by (simp add: net_inv_def)
  have "q \<in> set (up_kernel (m_upxy (eng_at i (ns_io s))))" using assms(2) by (simp add: has_req_def req_at_def q_def)
  then show ?thesis using in_flight_places(1) [OF fly ctx_at_mem [OF i]] by (simp add: eng_fits_def)
qed

lemma kernel_inv:
  assumes "net_inv P full s" "has_req i j s" "h = sqe_data (req_at i j s)"
    "ns_co t = ns_co s" "\<And>g. g \<noteq> h \<Longrightarrow> ns_buf t g = ns_buf s g \<and> ns_got t g = ns_got s g \<and> ns_sent t g = ns_sent s g"
    "ns_io t = kernel_done i j res (ns_io s)" "cq_fits full (io_infos (ns_io s) h) (co_data t h) \<lparr>cqe_data = h, cqe_res = res\<rparr>"
  shows "net_inv P full t"
proof -
  have i: "i < length (w_ctxs (io_world (ns_io s)))" "j < length (up_kernel (m_upxy (eng_at i (ns_io s))))"
    using assms(2) by (simp_all add: has_req_def)
  have fly: "flying P full (dom (ns_co s)) s" using assms(1) by (simp add: net_inv_def)
  have "in_flight (sq_fits full (np_len P)) (cq_fits full) (rd_fits full) (co_data t) (dom (ns_co s)) (kernel_done i j res (ns_io s))"
    by (rule net.completed [OF fly i, where h = h]) (use assms(3-5,7) in \<open>simp_all add: req_at_def co_data_def\<close>)
  moreover have "ns_co s h \<noteq> None" using assms(4,7) by (auto simp: cq_fits_def co_data_def)
  then have "settled P full t" using assms(1,4,5) unfolding settled_def net_inv_def by metis
  ultimately show ?thesis using assms(4,6) by (simp add: net_inv_def)
qed

lemma net_step_inv: "net_step P os full s t \<Longrightarrow> net_inv P full s \<Longrightarrow> net_inv P full t"
proof (induction rule: net_step.induct)
  case (exec i s g t)
  then show ?case using net_exec_inv by blast
next
  case (poll i s accepted io)
  have fly: "in_flight (sq_fits full (np_len P)) (cq_fits full) (rd_fits full) (co_data s) (dom (ns_co s)) (on_worker i (ns_io s))"
    using poll.prems in_flight_cong [of _ _ _ "co_data s" "dom (ns_co s)" "ns_io s" "on_worker i (ns_io s)" "co_data s"] by (simp add: net_inv_def)
  obtain k n where "polled i k n (on_worker i (ns_io s)) io" using poll_submit_inv [OF poll.hyps(2), of i] poll.hyps(1) by auto
  with net.poll [OF fly, of i k n io] poll.hyps(1) have "in_flight (sq_fits full (np_len P)) (cq_fits full) (rd_fits full) (co_data s) (dom (ns_co s)) io"
    by simp
  then show ?case using poll.prems by (simp add: net_inv_def settled_def co_data_def [abs_def])
next
  case (received i j s n h bytes)
  obtain c where c: "ns_co s h = Some c" "io_handle (io_infos (ns_io s) h) = h" "cb_fits c (io_infos (ns_io s) h)" "co_plain c"
    "co_op (np_len P) c = Some (sqe_op (req_at i j s))" "balance full c (co_owes c (ns_buf s h)) (ns_got s h) (ns_sent s h)"
    using has_req_fits [OF received.prems received.hyps(1)] received.hyps(3) by (auto simp: sq_fits_def co_data_def)
  have "reads c \<and> co_owes c (ns_buf s h) = [] \<or> \<not> relays c \<and> \<not> types c"
    using received.hyps(2) by (cases c; cases "sqe_op (req_at i j s)") (use c(5) in auto)
  then show ?case
    by (intro kernel_inv [OF received.prems received.hyps(1,3)])
      (use c received.hyps(4,6) in \<open>auto simp: cq_fits_def co_data_def balance_def co_due_def co_sane_def elim: types.elims\<close>)
next
  case (sent i j s fd n fl h m)
  obtain c where c: "ns_co s h = Some c" "io_handle (io_infos (ns_io s) h) = h" "cb_fits c (io_infos (ns_io s) h)" "co_plain c"
    "co_op (np_len P) c = Some (sqe_op (req_at i j s))" "balance full c (co_owes c (ns_buf s h)) (ns_got s h) (ns_sent s h)"
    using has_req_fits [OF sent.prems sent.hyps(1)] sent.hyps(3) by (auto simp: sq_fits_def co_data_def)
  have "\<not> reads c \<and> co_owes c (ns_buf s h) = take n (ns_buf s h) \<and> \<not> types c" using c(5) sent.hyps(2) by (cases c) auto
  then show ?case
    by (intro kernel_inv [OF sent.prems sent.hyps(1,3)])
      (use c sent.hyps(6) in \<open>auto simp: cq_fits_def co_data_def balance_def co_due_def co_sane_def min_def\<close>)
next
  case (answered i j s res)
  let ?h = "sqe_data (req_at i j s)"
  obtain c where c: "ns_co s ?h = Some c" "io_handle (io_infos (ns_io s) ?h) = ?h" "cb_fits c (io_infos (ns_io s) ?h)" "co_plain c"
    "co_op (np_len P) c = Some (sqe_op (req_at i j s))" "balance full c (co_owes c (ns_buf s ?h)) (ns_got s ?h) (ns_sent s ?h)"
    using has_req_fits [OF answered.prems answered.hyps(1)] by (auto simp: sq_fits_def co_data_def)
  have "(reads c \<longrightarrow> res \<le> 0) \<and> (full \<longrightarrow> co_owes c (ns_buf s ?h) = []) \<and> (full \<and> types c \<longrightarrow> res = 0)"
  proof -
    obtain op where "sqe_op (req_at i j s) = op" by blast
    with c(5) answered.hyps(2-4) show ?thesis by (cases c) auto
  qed
  then show ?case
    by (intro kernel_inv [OF answered.prems answered.hyps(1) refl])
      (use c in \<open>auto simp: cq_fits_def co_data_def balance_def co_due_def co_sane_def\<close>)
qed

section \<open>The start\<close>

lemma make_contexts_empty:
  assumes "make_contexts efds w = Inr w'" "\<forall>c \<in> set (w_ctxs w). eng_tok (m_engine c) = {#}"
  shows "\<forall>c \<in> set (w_ctxs w'). eng_tok (m_engine c) = {#}"
  using assms
proof (induction efds arbitrary: w)
  case (Cons e efds)
  obtain c where c: "context_new (ginfo_context_id w) (ginfo_engine_id w) e = Inr c" using Cons.prems(1) by auto
  then have "eng_tok (m_engine c) = {#}"
    by (auto simp: context_new_def engine_new_def uring_new_def eng_tok_def split: if_splits)
  then show ?case using Cons.IH [of "w\<lparr>w_ctxs := w_ctxs w @ [c], ginfo_context_id := ginfo_context_id w + 1,
      ginfo_engine_id := ginfo_engine_id w + 1\<rparr>"] Cons.prems c by auto
qed auto

lemma init_impl_empty: "init_impl efds w = Inr w' \<Longrightarrow> c \<in> set (w_ctxs w') \<Longrightarrow> eng_tok (m_engine c) = {#}"
  using make_contexts_empty [of efds "(init_meta_info w)\<lparr>w_ctx_cnt := of_nat (length efds), w_ctxs := []\<rparr>"]
  by (auto simp: init_impl_def Let_def)

lemma flying_context_init:
  assumes "in_flight (sq_fits full len) (cq_fits full) (rd_fits full) D L \<lparr>io_world = w, io_infos = I\<rparr>"
    "context_init False 0 0 [] 0 granted i w = Inr w'"
  shows "in_flight (sq_fits full len) (cq_fits full) (rd_fits full) D L \<lparr>io_world = w', io_infos = I\<rparr>"
proof -
  let ?s = "\<lparr>io_world = w, io_infos = I\<rparr>" and ?c = "w_ctxs w ! i"
  obtain p where p: "i < length (w_ctxs w)" "up_sq p = up_sq (m_upxy (m_engine ?c))" "up_kernel p = up_kernel (m_upxy (m_engine ?c))"
    "up_cq p = up_cq (m_upxy (m_engine ?c))"
    "w' = w\<lparr>w_ctxs := (w_ctxs w)[i := ?c\<lparr>m_engine := (m_engine ?c)\<lparr>m_upxy := p\<rparr>\<rparr>], linfo_ctx := Some i\<rparr>"
    using context_init_Inr [OF assms(2)] by (auto simp: Let_def)
  have "in_flight (sq_fits full len) (cq_fits full) (rd_fits full) D L (set_ctx i (?c\<lparr>m_engine := (m_engine ?c)\<lparr>m_upxy := p\<rparr>\<rparr>) ?s)"
    by (rule net.unchanged [OF assms(1)]) (use p in \<open>simp_all add: ctx_at_def eng_io_def\<close>)
  then show ?thesis by (rule in_flight_cong) (simp_all add: p(5) set_ctx_def)
qed

lemma net_main_inv:
  assumes "net_main P efds granted h w infos = Inr s" "co_plain (np_start P)" "\<not> reads (np_start P)"
  shows "net_inv P full s"
proof -
  obtain w1 w2 w3 where w: "init_impl efds w = Inr w1" "submit_to_scheduler h w1 = Inr w2"
    "foldE (context_init False 0 0 [] 0 granted) [0..<length efds] w2 = Inr w3"
    "s = \<lparr>ns_io = \<lparr>io_world = w3, io_infos = infos\<rparr>, ns_co = [h \<mapsto> np_start P], ns_buf = (\<lambda>_. []), ns_got = (\<lambda>_. []), ns_sent = (\<lambda>_. [])\<rparr>"
    using assms(1) by (auto simp: net_main_def)
  let ?fly = "\<lambda>L w. in_flight (sq_fits full (np_len P)) (cq_fits full) (rd_fits full) (co_data s) L \<lparr>io_world = w, io_infos = infos\<rparr>"
  have "eng_fits sqf cqf rdf I D (m_engine c)" if "c \<in> set (w_ctxs w1)" for c sqf cqf rdf I and D :: "handle \<Rightarrow> co_data"
    using init_impl_empty [OF w(1) that] by (simp add: eng_tok_def eng_fits_def)
  moreover have "io_tok \<lparr>io_world = w1, io_infos = infos\<rparr> = {#}"
    using init_impl_empty [OF w(1)] by (simp add: io_tok_def cong: map_cong)
  ultimately have "?fly {} w1" by (simp add: in_flight_def)
  moreover have "rd_fits full (infos h) (co_data s h)"
    using assms(2,3) by (cases "np_start P") (simp_all add: rd_fits_def co_data_def w(4) co_due_def co_sane_def balance_def)
  ultimately have "?fly {h} w2"
    using net.submitted [of full "np_len P" "co_data s" "{}" "\<lparr>io_world = w1, io_infos = infos\<rparr>" h w2] w(2)
    by (simp add: submit_to_scheduler_def)
  then have "?fly {h} w3"
    using foldE_invariant [where P = "?fly {h}", OF _ w(3)] flying_context_init by blast
  then show ?thesis by (simp add: net_inv_def settled_def no_chat_def w(4))
qed

lemma net_reach_inv:
  assumes "net_reach P os full s" "co_plain (np_start P)" "\<not> reads (np_start P)"
  shows "net_inv P full s"
  using assms by (induction rule: net_reach.induct) (auto intro: net_main_inv net_step_inv)

definition socket_programs :: "net_prog list" where
  "socket_programs = [tcp_echo_server, tcp_echo_client, stdin_client, tinycoro_128_bench, tinycoro_1k_bench, tinycoro_16k_bench]"

lemma socket_program_inv: "P \<in> set socket_programs \<Longrightarrow> net_reach P os full s \<Longrightarrow> net_inv P full s"
  by (rule net_reach_inv)
    (auto simp: socket_programs_def tcp_echo_server_def tcp_echo_client_def stdin_client_def tinycoro_128_bench_def
      tinycoro_1k_bench_def tinycoro_16k_bench_def co_plain_def)

lemma eng_fits_owed:
  assumes "eng_fits (sq_fits True len) (cq_fits True) (rd_fits True) I (co_data s) e" "h \<in># eng_tok e"
    "ns_co s h = Some c" "relays c"
  shows "\<exists>owed. ns_got s h = ns_sent s h @ owed"
proof -
  consider (sq) q where "q \<in> set (up_sq (m_upxy e)) \<union> set (up_kernel (m_upxy e))" "sqe_data q = h"
    | (cq) x where "x \<in> set (up_cq (m_upxy e))" "cqe_data x = h" | (run) "h \<in> set (m_task_queue e)"
    using assms(2) by (auto simp: eng_tok_def)
  then show ?thesis
  proof cases
    case sq
    then have "sq_fits True len (I h) (co_data s h) q" using assms(1) by (auto simp: eng_fits_def)
    then show ?thesis using assms(3,4) by (auto simp: sq_fits_def co_data_def balance_def)
  next
    case cq
    then have "cq_fits True (I h) (co_data s h) x" using assms(1) by (auto simp: eng_fits_def)
    then show ?thesis using assms(3,4) by (auto simp: cq_fits_def co_data_def balance_def)
  next
    case run
    then have "rd_fits True (I h) (co_data s h)" using assms(1) by (auto simp: eng_fits_def)
    then show ?thesis using assms(3,4) by (auto simp: rd_fits_def co_data_def balance_def)
  qed
qed

lemma net_inv_owed:
  assumes "net_inv P True s" "ns_co s h = Some c" "relays c"
  shows "\<exists>owed. ns_got s h = ns_sent s h @ owed"
proof -
  have fly: "flying P True (dom (ns_co s)) s" using assms(1) by (simp add: net_inv_def)
  then have "h \<in># io_tok (ns_io s)" using assms(2) by (auto simp: in_flight_def)
  then obtain d where "d \<in> set (w_ctxs (io_world (ns_io s)))" "h \<in># eng_tok (m_engine d)"
    using in_sum_list_mset unfolding io_tok_def by fast
  with eng_fits_owed [OF in_flight_places(1) [OF fly]] assms(2,3) show ?thesis by blast
qed

section \<open>Properties\<close>

text \<open>
  C14. No connection is forgotten and none is served twice: in every state that a program over sockets reaches, whatever the number of workers and the order of
  executions, polls and completions, and whatever the kernel answers, the handle of each coroutine that has not ended is in exactly one place, as a
  runnable task, a prepared request, a request with the kernel or a completion not yet handled, and no other handle is anywhere.
\<close>

theorem socket_coroutines_in_one_place:
  assumes "P \<in> set socket_programs" and "net_reach P os full s"
  shows "io_tok (ns_io s) = mset_set (dom (ns_co s))"
  using socket_program_inv [OF assms] by (simp add: net_inv_def in_flight_def)

definition demo_os :: os_net where
  "demo_os = \<lparr>os_socket = 5, os_getfl = 2, os_setfl = 0, os_pton = (\<lambda>_. (0, None)), os_bind = 0, os_listen = 0\<rparr>"

lemma demo_net_start:
  assumes "P \<in> set socket_programs"
  obtains s where "net_reach P os full s" "ns_co s = [9 \<mapsto> np_start P]" "ns_got s 9 = []"
proof -
  obtain w1 where w1: "init_impl [3] demo_world = Inr w1" "w_room 1 w1" "length (w_ctxs w1) = 1"
    using init_impl_spec [of "[3]" 1 demo_world] by (auto simp: kQueCap_def)
  then obtain w2 where w2: "submit_to_scheduler 9 w1 = Inr w2" using sched.submit_returns by blast
  then have "length (w_ctxs w2) = 1" using w1(3) by (auto simp: submit_to_scheduler_def elim: submit_task_impl_inv)
  then obtain w3 where "context_init False 0 0 [] 0 (\<lambda>_. 16384) 0 w2 = Inr w3"
    by (simp add: context_init_def with_ctx_def engine_init_def uring_init_def Let_def)
  with w1 w2 have "\<exists>s. net_main P [3] (\<lambda>_. 16384) 9 demo_world (\<lambda>_. io_infos (demo_io demo_io_engine) 0) = Inr s \<and>
      ns_co s = [9 \<mapsto> np_start P] \<and> ns_got s 9 = []"
    by (simp add: net_main_def)
  then show thesis using that net_reach.main by blast
qed

theorem socket_coroutines_in_one_place_witness:
  "\<exists>s. net_reach tcp_echo_server demo_os False s \<and> io_tok (ns_io s) = {#9#}"
proof -
  have P: "tcp_echo_server \<in> set socket_programs" by (simp add: socket_programs_def)
  obtain s where s: "net_reach tcp_echo_server demo_os False s" "ns_co s = [9 \<mapsto> np_start tcp_echo_server]"
    using demo_net_start [OF P, of demo_os False] by blast
  from socket_coroutines_in_one_place [OF P s(1)] s show ?thesis by auto
qed

text \<open>
  C15. The servers and clients echo faithfully: with a kernel that sends completely, what a session has sent is always the beginning of what
  it has received, all of it when it waits for more input and when it has ended, for any number of
  connections at the same time; each has a buffer of its own. The same holds of the coroutine of \<open>stdin_client.cpp\<close> that passes on what is typed.
\<close>

theorem socket_programs_echo:
  assumes "P \<in> set socket_programs" and "net_reach P os True s"
  shows "(ns_co s h = None \<longrightarrow> P \<noteq> stdin_client \<longrightarrow> ns_sent s h = ns_got s h) \<and>
    (\<forall>c. ns_co s h = Some c \<longrightarrow> relays c \<longrightarrow> (\<exists>owed. ns_got s h = ns_sent s h @ owed)) \<and>
    (\<forall>i j n c. has_req i j s \<longrightarrow> sqe_data (req_at i j s) = h \<longrightarrow> is_input (sqe_op (req_at i j s)) n \<longrightarrow>
       ns_co s h = Some c \<longrightarrow> relays c \<longrightarrow> ns_sent s h = ns_got s h)"
proof (intro conjI allI impI)
  note inv = socket_program_inv [OF assms]
  show "ns_sent s h = ns_got s h" if "ns_co s h = None" "P \<noteq> stdin_client"
    using inv assms(1) that
    by (auto simp: net_inv_def settled_def no_chat_def socket_programs_def tcp_echo_server_def tcp_echo_client_def
        tinycoro_128_bench_def tinycoro_1k_bench_def tinycoro_16k_bench_def)
  show "\<exists>owed. ns_got s h = ns_sent s h @ owed" if "ns_co s h = Some c" "relays c" for c using net_inv_owed [OF inv that] .
  show "ns_sent s h = ns_got s h"
    if "has_req i j s" "sqe_data (req_at i j s) = h" "is_input (sqe_op (req_at i j s)) n" "ns_co s h = Some c" "relays c" for i j n c
  proof -
    have c: "co_op (np_len P) c = Some (sqe_op (req_at i j s))" "balance True c (co_owes c (ns_buf s h)) (ns_got s h) (ns_sent s h)"
      using has_req_fits [OF inv that(1)] that(2,4) by (auto simp: sq_fits_def co_data_def)
    obtain op where "sqe_op (req_at i j s) = op" by blast
    with c(1) that(3) have "co_owes c (ns_buf s h) = []" by (cases c) auto
    then show ?thesis using c(2) that(5) by (simp add: balance_def)
  qed
qed

theorem socket_programs_echo_witness:
  "\<exists>s. net_reach tinycoro_128_bench demo_os True s \<and> ns_co s 9 = Some (Server_Start 8000) \<and>
     (\<exists>owed. ns_got s 9 = ns_sent s 9 @ owed) \<and> ns_sent s 4 = ns_got s 4"
proof -
  have P: "tinycoro_128_bench \<in> set socket_programs" "tinycoro_128_bench \<noteq> stdin_client"
    by (simp_all add: socket_programs_def tinycoro_128_bench_def stdin_client_def)
  obtain s where s: "net_reach tinycoro_128_bench demo_os True s" "ns_co s = [9 \<mapsto> Server_Start 8000]"
    using demo_net_start [OF P(1), of demo_os True] by (auto simp: tinycoro_128_bench_def)
  from socket_programs_echo [OF P(1) s(1), of 9] socket_programs_echo [OF P(1) s(1), of 4] P(2) s show ?thesis by auto
qed

text \<open>
  Without the assumption on the kernel bytes get lost: after a write the session of the example reads again whatever
  the write answered, and the benchmarks do so after every positive answer, so that the rest of a short write is dropped.
\<close>

lemma session_ignores_short_write:
  "session_resume False len h (Session_Write conn n) s = session_read len h conn s"
  "0 < base_await_resume h (ns_io s) \<Longrightarrow> session_resume True len h (Session_Write conn n) s = session_read len h conn s"
  by (simp_all add: session_resume_def)

text \<open>
  When reading from the standard input fails, \<open>echo\<close> of \<open>stdin_client.cpp\<close> asks the kernel to send almost
  \<open>2 ^ 64\<close> bytes from its buffer; at the end of the input it sends nothing and reads again, for ever.
\<close>

lemma typing_failed_read:
  assumes "base_await_resume h (ns_io s) = - 5" "worker_at i (ns_io s)"
    "length (up_sq (m_upxy (eng_at i (ns_io s)))) < sq_entries (m_upxy (eng_at i (ns_io s)))"
  shows "\<exists>t. typing_resume len h (Typing_Read (plain_conn fd)) s = Inr t \<and> ns_co t h = Some (Typing_Write (plain_conn fd) (2 ^ 64 - 5))"
  using assms connector_plain(4) [OF assms(2)] awaiters_add_req(2) [OF assms(2)]
  by (simp add: typing_resume_def suspend_at_def await_req_def)

end
