(* ===== verification/Buffer_Channel.thy ===== *)
theory Buffer_Channel
  imports Channel_Example "HOL-Library.Sublist"
begin

text \<open>
  \<open>examples/buffer_channel.cpp\<close>: several producers send numbers over one buffered channel, several
  consumers receive until it is closed, and the producer that finishes last closes it, which an
  atomic counter tells it. The producers are the coroutines below \<open>np\<close>, the consumers the \<open>nc\<close>
  coroutines that follow; the capacity and what each producer sends are arguments.
\<close>

section \<open>Definitions\<close>

text \<open>A producer is in its loop, has taken the counter to zero and not yet closed the channel, or has returned.\<close>

datatype fan_phase = Looping | Closing | Gone

record fan_sys =
  fx_ch :: "int ch_sys"
  fx_number :: int
  fx_todo :: "handle \<Rightarrow> int list"
  fx_phase :: "handle \<Rightarrow> fan_phase"
  fx_busy :: "handle \<Rightarrow> bool"
  fx_got :: "handle \<Rightarrow> int list"
  fx_fin :: "handle \<Rightarrow> bool"

definition fan_init :: "nat \<Rightarrow> (handle \<Rightarrow> int list) \<Rightarrow> fan_sys" where
  "fan_init np vs = \<lparr>fx_ch = ch_sys_init demo_sas, fx_number = int np, fx_todo = vs, fx_phase = (\<lambda>_. Looping),
     fx_busy = (\<lambda>_. False), fx_got = (\<lambda>_. []), fx_fin = (\<lambda>_. False)\<rparr>"

abbreviation fx_pc :: "fan_sys \<Rightarrow> handle \<Rightarrow> ch_pc" where
  "fx_pc s \<equiv> cs_pc (fx_ch s)"

abbreviation fx_chan :: "fan_sys \<Rightarrow> (int, handle list) chan" where
  "fx_chan s \<equiv> cs_chan (fx_ch s)"

text \<open>Producer \<open>h\<close>: one \<open>co_await ch.send(...)\<close> per number, then the decrement, and \<open>close\<close> if it was the last.\<close>

inductive fan_producer_step :: "nat \<Rightarrow> handle \<Rightarrow> fan_sys \<Rightarrow> fan_sys \<Rightarrow> bool" for capacity h where
  send: "fx_pc s h = Ch_Idle \<Longrightarrow> \<not> fx_busy s h \<Longrightarrow> fx_phase s h = Looping \<Longrightarrow> fx_todo s h = v # vs \<Longrightarrow>
    fan_producer_step capacity h s (s\<lparr>fx_busy := (fx_busy s)(h := True),
      fx_ch := (fx_ch s)\<lparr>cs_chan := channel_send h v (fx_chan s), cs_pc := (fx_pc s)(h := Ch_Send_Check)\<rparr>\<rparr>)"
| send_ready: "fx_pc s h = Ch_Send_Check \<Longrightarrow> send_await_ready capacity log_submit h (fx_chan s) = Inr (ok, c) \<Longrightarrow>
    fan_producer_step capacity h s
      (s\<lparr>fx_ch := after_send h (fx_chan s) c (if ok then Ch_Idle else Ch_Send_Suspend) (fx_ch s)\<rparr>)"
| send_suspend: "fx_pc s h = Ch_Send_Suspend \<Longrightarrow> send_await_suspend capacity log_submit h h (fx_chan s) = Inr (susp, c) \<Longrightarrow>
    fan_producer_step capacity h s
      (s\<lparr>fx_ch := after_send h (fx_chan s) c (if susp then Ch_Send_Wait else Ch_Idle) (fx_ch s)\<rparr>)"
| send_resume: "fx_pc s h = Ch_Idle \<Longrightarrow> fx_busy s h \<Longrightarrow>
    fan_producer_step capacity h s (s\<lparr>fx_busy := (fx_busy s)(h := False), fx_todo := (fx_todo s)(h := tl (fx_todo s h))\<rparr>)"
| fetch_sub: "fx_pc s h = Ch_Idle \<Longrightarrow> \<not> fx_busy s h \<Longrightarrow> fx_phase s h = Looping \<Longrightarrow> fx_todo s h = [] \<Longrightarrow>
    fan_producer_step capacity h s (s\<lparr>fx_number := fx_number s - 1,
      fx_phase := (fx_phase s)(h := (if fx_number s = 1 then Closing else Gone))\<rparr>)"
| close: "fx_phase s h = Closing \<Longrightarrow> channel_close log_submit (fx_chan s) = Inr c \<Longrightarrow>
    fan_producer_step capacity h s (s\<lparr>fx_phase := (fx_phase s)(h := Gone), fx_ch := (fx_ch s)\<lparr>cs_chan := c,
      cs_pc := resume_woken (fx_chan s) c (fx_pc s)\<rparr>\<rparr>)"

text \<open>Consumer \<open>h\<close>: \<open>co_await ch.recv()\<close> until it answers nothing.\<close>

inductive fan_consumer_step :: "handle \<Rightarrow> fan_sys \<Rightarrow> fan_sys \<Rightarrow> bool" for h where
  recv: "fx_pc s h = Ch_Idle \<Longrightarrow> \<not> fx_busy s h \<Longrightarrow> \<not> fx_fin s h \<Longrightarrow>
    fan_consumer_step h s (s\<lparr>fx_busy := (fx_busy s)(h := True),
      fx_ch := (fx_ch s)\<lparr>cs_chan := channel_recv h (fx_chan s), cs_pc := (fx_pc s)(h := Ch_Recv_Check)\<rparr>\<rparr>)"
| recv_ready: "fx_pc s h = Ch_Recv_Check \<Longrightarrow> recv_await_ready log_submit h (fx_chan s) = Inr (ok, c) \<Longrightarrow>
    fan_consumer_step h s
      (s\<lparr>fx_ch := after_recv h (fx_chan s) c (if ok then Ch_Idle else Ch_Recv_Suspend) (fx_ch s)\<rparr>)"
| recv_suspend: "fx_pc s h = Ch_Recv_Suspend \<Longrightarrow> recv_await_suspend log_submit h h (fx_chan s) = Inr (susp, c) \<Longrightarrow>
    fan_consumer_step h s
      (s\<lparr>fx_ch := after_recv h (fx_chan s) c (if susp then Ch_Recv_Wait else Ch_Idle) (fx_ch s)\<rparr>)"
| recv_data: "fx_pc s h = Ch_Idle \<Longrightarrow> fx_busy s h \<Longrightarrow> recv_await_resume h (fx_chan s) = Some v \<Longrightarrow>
    fan_consumer_step h s (s\<lparr>fx_busy := (fx_busy s)(h := False), fx_got := (fx_got s)(h := fx_got s h @ [v])\<rparr>)"
| recv_end: "fx_pc s h = Ch_Idle \<Longrightarrow> fx_busy s h \<Longrightarrow> recv_await_resume h (fx_chan s) = None \<Longrightarrow>
    fan_consumer_step h s (s\<lparr>fx_busy := (fx_busy s)(h := False), fx_fin := (fx_fin s)(h := True)\<rparr>)"

definition fan_step :: "nat \<Rightarrow> nat \<Rightarrow> nat \<Rightarrow> fan_sys \<Rightarrow> fan_sys \<Rightarrow> bool" where
  "fan_step capacity np nc s t \<longleftrightarrow>
     (\<exists>h < np. fan_producer_step capacity h s t) \<or> (\<exists>h \<in> {np..<np + nc}. fan_consumer_step h s t)"

text \<open>
  The end: all coroutines have returned, and the consumers have together received exactly what was sent,
  each consumer what it got of each producer in the order in which that producer sent it. The producer of a number is \<open>owner\<close>.
\<close>

definition fan_end :: "nat \<Rightarrow> nat \<Rightarrow> (handle \<Rightarrow> int list) \<Rightarrow> (int \<Rightarrow> handle) \<Rightarrow> fan_sys \<Rightarrow> bool" where
  "fan_end np nc vs owner s \<longleftrightarrow> (\<forall>p < np. fx_phase s p = Gone) \<and> (\<forall>c \<in> {np..<np + nc}. fx_fin s c) \<and>
     (\<Sum>c \<in> {np..<np + nc}. mset (fx_got s c)) = (\<Sum>p < np. mset (vs p)) \<and>
     (\<forall>c \<in> {np..<np + nc}. \<forall>p < np. subseq (filter (\<lambda>v. owner v = p) (fx_got s c)) (vs p))"

text \<open>The program: capacity 5, two producers with four numbers each, two consumers.\<close>

definition buffer_channel_values :: "handle \<Rightarrow> int list" where
  "buffer_channel_values h = map (\<lambda>i. int h * 10 + i) [0, 1, 2, 3]"

definition buffer_channel_example :: "fan_sys \<Rightarrow> fan_sys \<Rightarrow> bool" where
  "buffer_channel_example = fan_step 5 2 2"

section \<open>What the operations of the channel do to the program\<close>

lemma send_effect:
  assumes "try_send_locked capacity log_submit h (cs_chan s) = Inr (ok, c)" "\<not> ch_closed (cs_chan s)"
    and "cs_pc s h \<in> {Ch_Send_Check, Ch_Send_Suspend}" and "ch_sys_inv capacity s"
    and "c' = (if ok then c else c\<lparr>ch_senders := q\<rparr>)" and "t = after_send h (cs_chan s) c' (if ok then Ch_Idle else x) s"
  obtains (handed) g where "ok" "cs_pc s g = Ch_Recv_Wait" "cs_pc t = (cs_pc s)(g := Ch_Idle, h := Ch_Idle)"
      "ch_ras (cs_chan t) = (ch_ras (cs_chan s))(g := \<lparr>ra_result = Some (sa_value (ch_sas (cs_chan s) h))\<rparr>)"
      "cs_accepted t = cs_accepted s @ [sa_value (ch_sas (cs_chan s) h)]"
      "cs_delivered t = cs_delivered s @ [sa_value (ch_sas (cs_chan s) h)]"
      "\<And>a. sa_value (ch_sas (cs_chan t) a) = sa_value (ch_sas (cs_chan s) a)" "\<not> ch_closed (cs_chan t)"
  | (stored) "ok" "cs_pc t = (cs_pc s)(h := Ch_Idle)" "ch_ras (cs_chan t) = ch_ras (cs_chan s)"
      "cs_accepted t = cs_accepted s @ [sa_value (ch_sas (cs_chan s) h)]" "cs_delivered t = cs_delivered s"
      "\<And>a. sa_value (ch_sas (cs_chan t) a) = sa_value (ch_sas (cs_chan s) a)" "\<not> ch_closed (cs_chan t)"
  | (full) "\<not> ok" "cs_pc t = (cs_pc s)(h := x)" "ch_ras (cs_chan t) = ch_ras (cs_chan s)"
      "cs_accepted t = cs_accepted s" "cs_delivered t = cs_delivered s"
      "\<And>a. sa_value (ch_sas (cs_chan t) a) = sa_value (ch_sas (cs_chan s) a)" "\<not> ch_closed (cs_chan t)"
proof -
  have res: "\<not> sa_result (ch_sas (cs_chan s) h)"
    using assms(3,4) by (auto simp: ch_sys_inv_def ch_results_ok_def aw_ok_def)
  from assms(1) show thesis
  proof (cases rule: try_send_cases)
    case (handed g aw rs w)
    have "queue_ok ((g, aw) # rs) (cs_pc s) Ch_Recv_Wait"
      using handed(2) assms(4) by (simp add: ch_sys_inv_def ch_queues_ok_def)
    note g = queue_ok_ConsD [OF this]
    have w: "w = ch_world (cs_chan s) @ [g]" using handed(4) by (simp add: log_submit_def)
    from g handed(1-3) handed(5) [unfolded w] assms(2,5,6) show ?thesis by (intro that(1) [of g]) (simp_all add: pipe_op_defs)
  next
    case stored
    with assms(2,5,6) show ?thesis by (intro that(2)) (simp_all add: pipe_op_defs)
  next
    case full
    with assms(2,5,6) res show ?thesis by (intro that(3)) (simp_all add: pipe_op_defs)
  qed (use assms(2) in simp)
qed

lemma recv_effect:
  assumes "try_recv_locked log_submit h (cs_chan s) = Inr (ok, c)"
    and "cs_pc s h \<in> {Ch_Recv_Check, Ch_Recv_Suspend}" and "ch_sys_inv capacity s"
    and "c' = (if ok then c else c\<lparr>ch_receivers := q\<rparr>)" and "t = after_recv h (cs_chan s) c' (if ok then Ch_Idle else x) s"
  obtains (taken) v where "ok" "cs_pc t = (cs_pc s)(h := Ch_Idle)"
      "ch_ras (cs_chan t) = (ch_ras (cs_chan s))(h := \<lparr>ra_result = Some v\<rparr>)" "ch_buffer (cs_chan s) \<noteq> []"
      "cs_accepted t = cs_accepted s" "cs_delivered t = cs_delivered s @ [v]"
      "ch_sas (cs_chan t) = ch_sas (cs_chan s)" "ch_closed (cs_chan t) = ch_closed (cs_chan s)"
  | (refill) v g where "ok" "cs_pc s g = Ch_Send_Wait" "cs_pc t = (cs_pc s)(g := Ch_Idle, h := Ch_Idle)"
      "ch_ras (cs_chan t) = (ch_ras (cs_chan s))(h := \<lparr>ra_result = Some v\<rparr>)" "ch_buffer (cs_chan s) \<noteq> []"
      "cs_accepted t = cs_accepted s @ [sa_value (ch_sas (cs_chan s) g)]" "cs_delivered t = cs_delivered s @ [v]"
      "\<And>a. sa_value (ch_sas (cs_chan t) a) = sa_value (ch_sas (cs_chan s) a)" "ch_closed (cs_chan t) = ch_closed (cs_chan s)"
  | (closed) "ok" "cs_pc t = (cs_pc s)(h := Ch_Idle)" "ch_ras (cs_chan t) = (ch_ras (cs_chan s))(h := \<lparr>ra_result = None\<rparr>)"
      "cs_accepted t = cs_accepted s" "cs_delivered t = cs_delivered s" "ch_sas (cs_chan t) = ch_sas (cs_chan s)"
      "ch_closed (cs_chan s)" "ch_closed (cs_chan t)" "ch_buffer (cs_chan s) = []" "ch_buffer (cs_chan t) = []"
  | (empty) "\<not> ok" "cs_pc t = (cs_pc s)(h := x)" "ch_ras (cs_chan t) = ch_ras (cs_chan s)"
      "cs_accepted t = cs_accepted s" "cs_delivered t = cs_delivered s" "ch_sas (cs_chan t) = ch_sas (cs_chan s)"
      "\<not> ch_closed (cs_chan s)" "\<not> ch_closed (cs_chan t)"
proof -
  have res: "ra_result (ch_ras (cs_chan s) h) = None"
    using assms(2,3) by (auto simp: ch_sys_inv_def ch_results_ok_def aw_ok_def)
  from assms(1) show thesis
  proof (cases rule: try_recv_cases)
    case (taken v buf)
    with assms(4,5) show ?thesis by (intro that(1) [of v]) (simp_all add: pipe_op_defs)
  next
    case (refill v buf g aw ps w)
    have "queue_ok ((g, aw) # ps) (cs_pc s) Ch_Send_Wait"
      using refill(2) assms(3) by (simp add: ch_sys_inv_def ch_queues_ok_def)
    note g = queue_ok_ConsD [OF this]
    have w: "w = ch_world (cs_chan s) @ [g]" using refill(4) by (simp add: log_submit_def)
    from g refill(1-3) refill(5) [unfolded w] assms(4,5) show ?thesis by (intro that(2) [of g v]) (simp_all add: pipe_op_defs)
  next
    case closed
    with assms(4,5) show ?thesis by (intro that(3)) (simp_all add: pipe_op_defs)
  next
    case empty
    with assms(4,5) res show ?thesis by (intro that(4)) (simp_all add: pipe_op_defs)
  qed
qed

lemma close_effect:
  assumes "channel_close log_submit (cs_chan s) = Inr c" and "ch_sys_inv capacity s"
  shows "ch_closed c" "ch_buffer c = ch_buffer (cs_chan s)" "\<And>a. sa_value (ch_sas c a) = sa_value (ch_sas (cs_chan s) a)"
    "ch_ras c = ch_ras (cs_chan s)"
    "resume_woken (cs_chan s) c (cs_pc s) = (\<lambda>g. if cs_pc s g \<in> {Ch_Send_Wait, Ch_Recv_Wait} then Ch_Idle else cs_pc s g)"
    "\<exists>g. cs_pc s g = Ch_Recv_Wait \<Longrightarrow> ch_buffer c = []"
proof -
  let ?c = "cs_chan s"
  have c: "c = (ch_closing ?c)\<lparr>ch_world := ch_world ?c @ map fst (ch_senders ?c @ ch_receivers ?c)\<rparr>"
    using assms(1) by (auto simp: channel_close_eq)
  have q: "queue_ok (ch_senders ?c) (cs_pc s) Ch_Send_Wait" "queue_ok (ch_receivers ?c) (cs_pc s) Ch_Recv_Wait"
    using assms(2) by (auto simp: ch_sys_inv_def ch_queues_ok_def)
  then show "resume_woken ?c c (cs_pc s) = (\<lambda>g. if cs_pc s g \<in> {Ch_Send_Wait, Ch_Recv_Wait} then Ch_Idle else cs_pc s g)"
    by (auto simp: resume_woken_def woken_def c queue_ok_def fun_eq_iff)
  have "ra_result (ch_ras ?c a) = None" if "a \<in> snd ` set (ch_receivers ?c)" for a
  proof -
    have "cs_pc s a = Ch_Recv_Wait" using that q(2) by (auto simp: queue_ok_def)
    then show ?thesis using assms(2) by (auto simp: ch_sys_inv_def ch_results_ok_def aw_ok_def)
  qed
  then show "ch_ras c = ch_ras ?c" by (auto simp: c ch_closing_def end_all_def refuse_all_def fun_eq_iff)
  show "ch_closed c" "ch_buffer c = ch_buffer ?c" "\<And>a. sa_value (ch_sas c a) = sa_value (ch_sas ?c a)"
    by (simp_all add: c ch_closing_def end_all_def refuse_all_def)
  show "ch_buffer c = []" if "\<exists>g. cs_pc s g = Ch_Recv_Wait"
  proof -
    have "ch_receivers ?c \<noteq> []" using that q(2) by (auto simp: queue_ok_def)
    then show ?thesis using assms(2) by (simp add: c ch_closing_def end_all_def refuse_all_def ch_sys_inv_def ch_inv_def)
  qed
qed

section \<open>Invariant\<close>

definition fan_roles :: "nat \<Rightarrow> nat \<Rightarrow> fan_sys \<Rightarrow> bool" where
  "fan_roles np nc s \<longleftrightarrow>
     (\<forall>h. fx_pc s h \<in> {Ch_Send_Check, Ch_Send_Suspend, Ch_Send_Wait} \<longrightarrow> h < np) \<and>
     (\<forall>h. fx_pc s h \<in> {Ch_Recv_Check, Ch_Recv_Suspend, Ch_Recv_Wait} \<longrightarrow> np \<le> h \<and> h < np + nc) \<and>
     (\<forall>h. fx_pc s h \<noteq> Ch_Idle \<longrightarrow> fx_busy s h) \<and> (\<forall>h. fx_fin s h \<longrightarrow> \<not> fx_busy s h \<and> np \<le> h) \<and>
     (\<forall>h < np. fx_phase s h \<noteq> Looping \<longrightarrow> \<not> fx_busy s h \<and> fx_todo s h = [])"

text \<open>The counter and who closes: the channel is closed exactly when all producers have returned.\<close>

definition fan_phases :: "nat \<Rightarrow> fan_sys \<Rightarrow> bool" where
  "fan_phases np s \<longleftrightarrow> fx_number s = int (card {h. h < np \<and> fx_phase s h = Looping}) \<and>
     (ch_closed (fx_chan s) \<longleftrightarrow> (\<forall>h < np. fx_phase s h = Gone)) \<and>
     (\<forall>h < np. fx_phase s h = Closing \<longrightarrow> (\<forall>g < np. g \<noteq> h \<longrightarrow> fx_phase s g = Gone))"

text \<open>What a producer still has to get accepted, and what has been given to a consumer that has not yet looked at it.\<close>

definition fan_rest :: "fan_sys \<Rightarrow> handle \<Rightarrow> int list" where
  "fan_rest s h = (if fx_busy s h \<and> fx_pc s h = Ch_Idle then tl (fx_todo s h) else fx_todo s h)"

definition fan_hand :: "fan_sys \<Rightarrow> handle \<Rightarrow> int list" where
  "fan_hand s h = (if fx_busy s h \<and> fx_pc s h = Ch_Idle then (case recv_await_resume h (fx_chan s) of None \<Rightarrow> [] | Some v \<Rightarrow> [v]) else [])"

definition fan_sends :: "nat \<Rightarrow> (handle \<Rightarrow> int list) \<Rightarrow> (int \<Rightarrow> handle) \<Rightarrow> fan_sys \<Rightarrow> bool" where
  "fan_sends np vs owner s \<longleftrightarrow> (\<forall>v \<in> set (cs_accepted (fx_ch s)). owner v < np) \<and>
     (\<forall>h < np. (fx_busy s h \<longrightarrow> fx_todo s h \<noteq> [] \<and> sa_value (ch_sas (fx_chan s) h) = hd (fx_todo s h)) \<and>
        vs h = filter (\<lambda>v. owner v = h) (cs_accepted (fx_ch s)) @ fan_rest s h)"

definition fan_recvs :: "nat \<Rightarrow> nat \<Rightarrow> fan_sys \<Rightarrow> bool" where
  "fan_recvs np nc s \<longleftrightarrow>
     (\<Sum>c \<in> {np..<np + nc}. mset (fx_got s c @ fan_hand s c)) = mset (cs_delivered (fx_ch s)) \<and>
     (\<forall>c \<in> {np..<np + nc}. subseq (fx_got s c @ fan_hand s c) (cs_delivered (fx_ch s)) \<and>
        (fx_fin s c \<or> (fx_busy s c \<and> fx_pc s c = Ch_Idle \<and> recv_await_resume c (fx_chan s) = None) \<longrightarrow>
           ch_closed (fx_chan s) \<and> ch_buffer (fx_chan s) = []))"

definition fan_inv :: "nat \<Rightarrow> nat \<Rightarrow> (handle \<Rightarrow> int list) \<Rightarrow> (int \<Rightarrow> handle) \<Rightarrow> fan_sys \<Rightarrow> bool" where
  "fan_inv np nc vs owner s \<longleftrightarrow> fan_roles np nc s \<and> fan_phases np s \<and> fan_sends np vs owner s \<and> fan_recvs np nc s"

definition fan_prog :: "nat \<Rightarrow> nat \<Rightarrow> (handle \<Rightarrow> int list) \<Rightarrow> (int \<Rightarrow> handle) \<Rightarrow> bool" where
  "fan_prog np nc vs owner \<longleftrightarrow> 0 < np \<and> 0 < nc \<and> (\<forall>h < np. \<forall>v \<in> set (vs h). owner v = h)"

lemma fan_simulates: "fan_step capacity np nc s t \<Longrightarrow> fx_ch t = fx_ch s \<or> ch_step capacity (fx_ch s) (fx_ch t)"
  unfolding fan_step_def
proof (elim disjE exE conjE bexE)
  fix h
  show "fan_producer_step capacity h s t \<Longrightarrow> fx_ch t = fx_ch s \<or> ch_step capacity (fx_ch s) (fx_ch t)"
  proof (induction rule: fan_producer_step.induct)
    case (send s v vs)
    from ch_step.send [OF this(1)] show ?case by simp
  next
    case (send_ready s ok c)
    from ch_step.send_ready [OF this] show ?case by simp
  next
    case (send_suspend s susp c)
    from ch_step.send_suspend [OF this] show ?case by simp
  next
    case (close s c)
    from ch_step.close [OF this(2)] show ?case by simp
  qed simp_all
  show "fan_consumer_step h s t \<Longrightarrow> fx_ch t = fx_ch s \<or> ch_step capacity (fx_ch s) (fx_ch t)"
  proof (induction rule: fan_consumer_step.induct)
    case (recv s)
    from ch_step.recv [OF this(1)] show ?case by simp
  next
    case (recv_ready s ok c)
    from ch_step.recv_ready [OF this] show ?case by simp
  next
    case (recv_suspend s susp c)
    from ch_step.recv_suspend [OF this] show ?case by simp
  qed simp_all
qed

text \<open>Exactly one consumer is given a value.\<close>

lemma sum_one_more:
  fixes f g :: "'a \<Rightarrow> 'b::comm_monoid_add"
  assumes "finite A" "a \<in> A" "g a = f a + x" "\<And>b. b \<in> A \<Longrightarrow> b \<noteq> a \<Longrightarrow> g b = f b"
  shows "sum g A = sum f A + x"
proof -
  have "sum g (A - {a}) = sum f (A - {a})" using assms(4) by (intro sum.cong) auto
  then show ?thesis using assms(1-3) by (simp add: sum.remove ac_simps)
qed

lemma fan_recvs_same:
  assumes "fan_recvs np nc s" "cs_delivered (fx_ch t) = cs_delivered (fx_ch s)"
    "\<And>c. np \<le> c \<Longrightarrow> c < np + nc \<Longrightarrow> fx_got t c @ fan_hand t c = fx_got s c @ fan_hand s c"
    "\<And>c. np \<le> c \<Longrightarrow> c < np + nc \<Longrightarrow>
       fx_fin t c \<or> (fx_busy t c \<and> fx_pc t c = Ch_Idle \<and> recv_await_resume c (fx_chan t) = None) \<Longrightarrow>
       ch_closed (fx_chan t) \<and> ch_buffer (fx_chan t) = []"
  shows "fan_recvs np nc t"
  using assms by (auto simp: fan_recvs_def)

lemma fan_recvs_given:
  assumes "fan_recvs np nc s" "cs_delivered (fx_ch t) = cs_delivered (fx_ch s) @ [v]" "np \<le> g" "g < np + nc"
    "fx_got t g @ fan_hand t g = fx_got s g @ fan_hand s g @ [v]"
    "\<And>c. np \<le> c \<Longrightarrow> c < np + nc \<Longrightarrow> c \<noteq> g \<Longrightarrow> fx_got t c @ fan_hand t c = fx_got s c @ fan_hand s c"
    "\<And>c. np \<le> c \<Longrightarrow> c < np + nc \<Longrightarrow>
       fx_fin t c \<or> (fx_busy t c \<and> fx_pc t c = Ch_Idle \<and> recv_await_resume c (fx_chan t) = None) \<Longrightarrow>
       ch_closed (fx_chan t) \<and> ch_buffer (fx_chan t) = []"
  shows "fan_recvs np nc t"
proof -
  let ?C = "{np..<np + nc}"
  have "(\<Sum>c \<in> ?C. mset (fx_got t c @ fan_hand t c)) = (\<Sum>c \<in> ?C. mset (fx_got s c @ fan_hand s c)) + {#v#}"
    using assms(3-6) by (intro sum_one_more [of _ g]) auto
  moreover have "subseq (fx_got t c @ fan_hand t c) (cs_delivered (fx_ch s) @ [v])" if "c \<in> ?C" for c
  proof -
    have sub: "subseq (fx_got s c @ fan_hand s c) (cs_delivered (fx_ch s))" using assms(1) that by (simp add: fan_recvs_def)
    show ?thesis
    proof (cases "c = g")
      case True
      have "subseq ((fx_got s g @ fan_hand s g) @ [v]) (cs_delivered (fx_ch s) @ [v])" using sub True by (simp only: subseq_append)
      then show ?thesis using assms(5) True by simp
    next
      case False
      then show ?thesis using sub assms(6) that by (simp add: subseq_rev_drop_many)
    qed
  qed
  ultimately show ?thesis using assms(1,2,7) by (auto simp: fan_recvs_def)
qed

lemma fan_sends_same:
  assumes "fan_sends np vs owner s" "cs_accepted (fx_ch t) = cs_accepted (fx_ch s)"
    "\<And>h. h < np \<Longrightarrow> fx_todo t h = fx_todo s h \<and> fan_rest t h = fan_rest s h"
    "\<And>h. h < np \<Longrightarrow> fx_busy t h \<Longrightarrow> fx_busy s h \<and> sa_value (ch_sas (fx_chan t) h) = sa_value (ch_sas (fx_chan s) h)"
  shows "fan_sends np vs owner t"
  using assms by (auto simp: fan_sends_def)

text \<open>The value that producer \<open>g\<close> offers is accepted.\<close>

lemma fan_sends_accepted:
  assumes "fan_sends np vs owner s" "fan_prog np nc vs owner" "g < np" "fx_busy s g" "fx_pc s g \<noteq> Ch_Idle" "fx_pc t g = Ch_Idle"
    "cs_accepted (fx_ch t) = cs_accepted (fx_ch s) @ [sa_value (ch_sas (fx_chan s) g)]"
    "fx_todo t = fx_todo s" "fx_busy t = fx_busy s" "\<And>h. h < np \<Longrightarrow> h \<noteq> g \<Longrightarrow> fx_pc t h = fx_pc s h"
    "\<And>h. sa_value (ch_sas (fx_chan t) h) = sa_value (ch_sas (fx_chan s) h)"
  shows "fan_sends np vs owner t"
proof -
  have todo: "fx_todo s g = sa_value (ch_sas (fx_chan s) g) # tl (fx_todo s g)"
    using assms(1,3,4) by (cases "fx_todo s g") (auto simp: fan_sends_def)
  have g: "vs g = filter (\<lambda>v. owner v = g) (cs_accepted (fx_ch s)) @ fx_todo s g"
    using assms(1,3,5) by (simp add: fan_sends_def fan_rest_def)
  have "sa_value (ch_sas (fx_chan s) g) \<in> set (vs g)" unfolding g using todo by (metis Un_iff list.set_intros(1) set_append)
  then have own: "owner (sa_value (ch_sas (fx_chan s) g)) = g" using assms(2,3) by (simp add: fan_prog_def)
  have "vs h = filter (\<lambda>v. owner v = h) (cs_accepted (fx_ch t)) @ fan_rest t h" if "h < np" for h
  proof (cases "h = g")
    case True
    then show ?thesis using g todo own assms(4,6,7,8,9) by (simp add: fan_rest_def)
  next
    case False
    then have "fan_rest t h = fan_rest s h" using assms(8-10) that by (simp add: fan_rest_def)
    then show ?thesis using False own assms(1,7) that by (simp add: fan_sends_def)
  qed
  then show ?thesis using assms(1,3,7-9,11) own by (auto simp: fan_sends_def)
qed

lemma fan_open:
  assumes "fan_inv np nc vs owner s" "fx_pc s h \<in> {Ch_Send_Check, Ch_Send_Suspend, Ch_Send_Wait}"
  shows "\<not> ch_closed (fx_chan s)" "h < np" "fx_busy s h" "fx_phase s h = Looping"
proof -
  have h: "h < np" "fx_busy s h" using assms by (auto simp: fan_inv_def fan_roles_def)
  then show "h < np" "fx_busy s h" "fx_phase s h = Looping" using assms by (auto simp: fan_inv_def fan_roles_def)
  then show "\<not> ch_closed (fx_chan s)" using assms(1) by (auto simp: fan_inv_def fan_phases_def)
qed

lemma fan_undecided:
  assumes "fan_recvs np nc s" "\<not> ch_closed (fx_chan s) \<or> ch_buffer (fx_chan s) \<noteq> []" "np \<le> c" "c < np + nc"
  shows "\<not> fx_fin s c" "ra_result (ch_ras (fx_chan s) c) = None \<Longrightarrow> fx_busy s c \<Longrightarrow> fx_pc s c \<noteq> Ch_Idle"
  using assms by (auto simp: fan_recvs_def recv_await_resume_def)

lemma fan_over:
  assumes "fan_recvs np nc s" "np \<le> c" "c < np + nc"
    "fx_fin s c \<or> (fx_busy s c \<and> fx_pc s c = Ch_Idle \<and> ra_result (ch_ras (fx_chan s) c) = None)"
  shows "ch_closed (fx_chan s)" "ch_buffer (fx_chan s) = []"
  using assms by (auto simp: fan_recvs_def recv_await_resume_def)

text \<open>A step that concerns coroutine \<open>h\<close> only and delivers nothing.\<close>

lemma fan_recvs_local:
  assumes "fan_recvs np nc s" "cs_delivered (fx_ch t) = cs_delivered (fx_ch s)"
    "ch_closed (fx_chan t) = ch_closed (fx_chan s)" "ch_buffer (fx_chan t) = ch_buffer (fx_chan s)"
    "\<And>c. c \<noteq> h \<Longrightarrow> fx_got t c = fx_got s c \<and> fx_busy t c = fx_busy s c \<and> fx_fin t c = fx_fin s c \<and> fx_pc t c = fx_pc s c \<and>
       ch_ras (fx_chan t) c = ch_ras (fx_chan s) c"
    "np \<le> h \<Longrightarrow> fx_got t h @ fan_hand t h = fx_got s h @ fan_hand s h"
    "np \<le> h \<Longrightarrow> fx_fin t h \<or> (fx_busy t h \<and> fx_pc t h = Ch_Idle \<and> ra_result (ch_ras (fx_chan t) h) = None) \<Longrightarrow>
       fx_fin s h \<or> (fx_busy s h \<and> fx_pc s h = Ch_Idle \<and> ra_result (ch_ras (fx_chan s) h) = None)"
  shows "fan_recvs np nc t"
proof (intro fan_recvs_same [OF assms(1,2)])
  fix c assume c: "np \<le> c" "c < np + nc"
  show "fx_got t c @ fan_hand t c = fx_got s c @ fan_hand s c"
    using assms(5) [of c] assms(6) c by (cases "c = h") (simp_all add: fan_hand_def recv_await_resume_def)
  assume "fx_fin t c \<or> fx_busy t c \<and> fx_pc t c = Ch_Idle \<and> recv_await_resume c (fx_chan t) = None"
  then have "fx_fin s c \<or> (fx_busy s c \<and> fx_pc s c = Ch_Idle \<and> ra_result (ch_ras (fx_chan s) c) = None)"
    using assms(5) [of c] assms(7) c by (cases "c = h") (simp_all add: recv_await_resume_def)
  from fan_over [OF assms(1) c this] show "ch_closed (fx_chan t) \<and> ch_buffer (fx_chan t) = []" using assms(3,4) by simp
qed

lemma fan_phasesD:
  assumes "fan_phases np s"
  shows "h < np \<Longrightarrow> fx_phase s h = Closing \<Longrightarrow> g < np \<Longrightarrow> g \<noteq> h \<Longrightarrow> fx_phase s g = Gone"
    "ch_closed (fx_chan s) \<Longrightarrow> g < np \<Longrightarrow> fx_phase s g = Gone"
    "fx_number s = int (card {h. h < np \<and> fx_phase s h = Looping})"
  using assms unfolding fan_phases_def by blast+

lemma fan_phases_same:
  assumes "fan_phases np s" "fx_number t = fx_number s" "fx_phase t = fx_phase s" "ch_closed (fx_chan t) = ch_closed (fx_chan s)"
  shows "fan_phases np t"
  using assms by (simp add: fan_phases_def)

lemma fan_try_send:
  assumes t: "try_send_locked capacity log_submit h (fx_chan s) = Inr (ok, c)"
    and pc: "fx_pc s h \<in> {Ch_Send_Check, Ch_Send_Suspend}" and x: "x \<in> {Ch_Send_Suspend, Ch_Send_Wait}"
    and lib: "ch_sys_inv capacity (fx_ch s)" and prog: "fan_prog np nc vs owner" and inv: "fan_inv np nc vs owner s"
    and c': "c' = (if ok then c else c\<lparr>ch_senders := q\<rparr>)"
    and u: "u = s\<lparr>fx_ch := after_send h (fx_chan s) c' (if ok then Ch_Idle else x) (fx_ch s)\<rparr>"
  shows "fan_inv np nc vs owner u"
proof -
  have roles: "fan_roles np nc s" and phases: "fan_phases np s" and sends: "fan_sends np vs owner s" and recvs: "fan_recvs np nc s"
    using inv by (simp_all add: fan_inv_def)
  have pc': "fx_pc s h \<in> {Ch_Send_Check, Ch_Send_Suspend, Ch_Send_Wait}" "fx_pc s h \<noteq> Ch_Idle" using pc by auto
  note op = fan_open [OF inv pc'(1)]
  have more: "fx_todo u = fx_todo s" "fx_busy u = fx_busy s" "fx_got u = fx_got s" "fx_fin u = fx_fin s" "fx_number u = fx_number s"
    "fx_phase u = fx_phase s" "fx_ch u = after_send h (fx_chan s) c' (if ok then Ch_Idle else x) (fx_ch s)" by (simp_all add: u)
  from t op(1) pc lib c' more(7) show ?thesis
  proof (cases rule: send_effect)
    case (handed g)
    have g: "np \<le> g" "g < np + nc" "fx_busy s g" "\<not> fx_fin s g" "g \<noteq> h" using handed(2) roles op by (auto simp: fan_roles_def)
    have hand: "fan_hand s g = []" "fan_hand u g = [sa_value (ch_sas (fx_chan s) h)]"
      using handed g by (simp_all add: fan_hand_def recv_await_resume_def more(1-6))
    have "fan_roles np nc u" using roles handed more(1-6) by (auto simp: fan_roles_def)
    moreover have "fan_sends np vs owner u"
      using handed more(1-6) op g by (intro fan_sends_accepted [OF sends prog op(2,3) pc'(2)]) auto
    moreover have "fan_recvs np nc u"
      using handed(3,4) fan_undecided [OF recvs] op(1,2) g hand more(1-6)
      by (intro fan_recvs_given [OF recvs handed(6) g(1,2)]) (auto simp: fan_hand_def recv_await_resume_def split: if_splits)
    moreover have "fan_phases np u" using fan_phases_same [OF phases more(5,6)] handed op(1) by simp
    ultimately show ?thesis by (simp add: fan_inv_def)
  next
    case stored
    have "fan_roles np nc u" using roles stored more(1-6) by (auto simp: fan_roles_def)
    moreover have "fan_sends np vs owner u"
      using stored more(1-6) op by (intro fan_sends_accepted [OF sends prog op(2,3) pc'(2)]) auto
    moreover have "fan_recvs np nc u"
      using stored fan_undecided [OF recvs] op more(1-6)
      by (intro fan_recvs_same [OF recvs]) (auto simp: fan_hand_def recv_await_resume_def split: if_splits)
    moreover have "fan_phases np u" using fan_phases_same [OF phases more(5,6)] stored op(1) by simp
    ultimately show ?thesis by (simp add: fan_inv_def)
  next
    case full
    have "fan_roles np nc u" using roles full more(1-6) x op by (auto simp: fan_roles_def)
    moreover have "fan_sends np vs owner u"
      using full more(1-6) op x pc by (intro fan_sends_same [OF sends]) (auto simp: fan_rest_def)
    moreover have "fan_recvs np nc u"
      using full fan_undecided [OF recvs] op more(1-6) x
      by (intro fan_recvs_same [OF recvs]) (auto simp: fan_hand_def recv_await_resume_def split: if_splits)
    moreover have "fan_phases np u" using fan_phases_same [OF phases more(5,6)] full op(1) by simp
    ultimately show ?thesis by (simp add: fan_inv_def)
  qed
qed

lemma fan_try_recv:
  assumes t: "try_recv_locked log_submit h (fx_chan s) = Inr (ok, c)"
    and pc: "fx_pc s h \<in> {Ch_Recv_Check, Ch_Recv_Suspend}" and x: "x \<in> {Ch_Recv_Suspend, Ch_Recv_Wait}"
    and lib: "ch_sys_inv capacity (fx_ch s)" and prog: "fan_prog np nc vs owner" and inv: "fan_inv np nc vs owner s"
    and c': "c' = (if ok then c else c\<lparr>ch_receivers := q\<rparr>)"
    and u: "u = s\<lparr>fx_ch := after_recv h (fx_chan s) c' (if ok then Ch_Idle else x) (fx_ch s)\<rparr>"
  shows "fan_inv np nc vs owner u"
proof -
  have roles: "fan_roles np nc s" and phases: "fan_phases np s" and sends: "fan_sends np vs owner s" and recvs: "fan_recvs np nc s"
    using inv by (simp_all add: fan_inv_def)
  have h: "np \<le> h" "h < np + nc" "fx_busy s h" "\<not> fx_fin s h" "fan_hand s h = []"
    using pc roles by (auto simp: fan_roles_def fan_hand_def)
  have more: "fx_todo u = fx_todo s" "fx_busy u = fx_busy s" "fx_got u = fx_got s" "fx_fin u = fx_fin s" "fx_number u = fx_number s"
    "fx_phase u = fx_phase s" "fx_ch u = after_recv h (fx_chan s) c' (if ok then Ch_Idle else x) (fx_ch s)" by (simp_all add: u)
  note some = fan_undecided [OF recvs]
  from t pc lib c' more(7) show ?thesis
  proof (cases rule: recv_effect)
    case (taken v)
    have "fan_roles np nc u" using roles taken more(1-6) by (auto simp: fan_roles_def)
    moreover have "fan_sends np vs owner u"
      using taken more(1-6) h by (intro fan_sends_same [OF sends]) (auto simp: fan_rest_def)
    moreover have "fan_recvs np nc u"
      using taken(2-4) some h more(1-6)
      by (intro fan_recvs_given [OF recvs taken(6) h(1,2)]) (auto simp: fan_hand_def recv_await_resume_def split: if_splits)
    moreover have "fan_phases np u" using fan_phases_same [OF phases more(5,6)] taken by simp
    ultimately show ?thesis by (simp add: fan_inv_def)
  next
    case (refill v g)
    have g': "fx_pc s g \<in> {Ch_Send_Check, Ch_Send_Suspend, Ch_Send_Wait}" "fx_pc s g \<noteq> Ch_Idle" using refill(2) by auto
    note op = fan_open [OF inv g'(1)]
    have "fan_roles np nc u" using roles refill more(1-6) by (auto simp: fan_roles_def)
    moreover have "fan_sends np vs owner u"
      using refill more(1-6) op h by (intro fan_sends_accepted [OF sends prog op(2,3) g'(2)]) auto
    moreover have "fan_recvs np nc u"
      using refill(3-5) some h op(2) more(1-6)
      by (intro fan_recvs_given [OF recvs refill(7) h(1,2)]) (auto simp: fan_hand_def recv_await_resume_def split: if_splits)
    moreover have "fan_phases np u" using fan_phases_same [OF phases more(5,6)] refill by simp
    ultimately show ?thesis by (simp add: fan_inv_def)
  next
    case closed
    have "fan_roles np nc u" using roles closed more(1-6) by (auto simp: fan_roles_def)
    moreover have "fan_sends np vs owner u"
      using closed more(1-6) h by (intro fan_sends_same [OF sends]) (auto simp: fan_rest_def)
    moreover have "fan_recvs np nc u"
      using closed recvs h more(1-6)
      by (intro fan_recvs_same [OF recvs]) (auto simp: fan_hand_def recv_await_resume_def)
    moreover have "fan_phases np u" using fan_phases_same [OF phases more(5,6)] closed by simp
    ultimately show ?thesis by (simp add: fan_inv_def)
  next
    case empty
    have "fan_roles np nc u" using roles empty more(1-6) x h by (auto simp: fan_roles_def)
    moreover have "fan_sends np vs owner u"
      using empty more(1-6) h by (intro fan_sends_same [OF sends]) (auto simp: fan_rest_def)
    moreover have "fan_recvs np nc u"
      using empty some h more(1-6) x
      by (intro fan_recvs_same [OF recvs]) (auto simp: fan_hand_def recv_await_resume_def split: if_splits)
    moreover have "fan_phases np u" using fan_phases_same [OF phases more(5,6)] empty by simp
    ultimately show ?thesis by (simp add: fan_inv_def)
  qed
qed

lemma fan_close:
  assumes lib: "ch_sys_inv capacity (fx_ch s)" and inv: "fan_inv np nc vs owner s" and h: "h < np" "fx_phase s h = Closing"
    and c: "channel_close log_submit (fx_chan s) = Inr c"
    and u: "u = s\<lparr>fx_phase := (fx_phase s)(h := Gone),
      fx_ch := (fx_ch s)\<lparr>cs_chan := c, cs_pc := resume_woken (fx_chan s) c (fx_pc s)\<rparr>\<rparr>"
  shows "fan_inv np nc vs owner u"
proof -
  have roles: "fan_roles np nc s" and phases: "fan_phases np s" and sends: "fan_sends np vs owner s" and recvs: "fan_recvs np nc s"
    using inv by (simp_all add: fan_inv_def)
  have gone: "fx_phase s g \<noteq> Looping" if "g < np" for g using fan_phasesD(1) [OF phases h that] h by (cases "g = h") simp_all
  have idle: "fx_pc s g \<noteq> Ch_Send_Wait" for g using fan_open(2,4) [OF inv, of g] gone [of g] by auto
  note e = close_effect [OF c lib]
  have pc: "fx_pc u = (\<lambda>g. if fx_pc s g = Ch_Recv_Wait then Ch_Idle else fx_pc s g)"
    using e(5) idle by (simp add: u fun_eq_iff)
  have more: "fx_todo u = fx_todo s" "fx_busy u = fx_busy s" "fx_got u = fx_got s" "fx_fin u = fx_fin s" "fx_number u = fx_number s"
    "fx_chan u = c" "cs_accepted (fx_ch u) = cs_accepted (fx_ch s)" "cs_delivered (fx_ch u) = cs_delivered (fx_ch s)"
    "fx_phase u = (fx_phase s)(h := Gone)" by (simp_all add: u)
  have none: "ra_result (ch_ras (fx_chan s) g) = None" if "fx_pc s g = Ch_Recv_Wait" for g
    using lib that by (auto simp: ch_sys_inv_def ch_results_ok_def aw_ok_def)
  have "fan_roles np nc u" using roles pc more h by (auto simp: fan_roles_def)
  moreover have "fan_phases np u"
  proof -
    have eq: "{g. g < np \<and> fx_phase u g = Looping} = {g. g < np \<and> fx_phase s g = Looping}" using h more(9) by auto
    show ?thesis unfolding fan_phases_def eq using phases h e(1) more(5,6,9) by (auto simp: fan_phases_def)
  qed
  moreover have "fan_sends np vs owner u"
    using more(1,2,6,7) e(3) pc roles by (intro fan_sends_same [OF sends]) (auto simp: fan_rest_def fan_roles_def)
  moreover have "fan_recvs np nc u"
  proof (intro fan_recvs_same [OF recvs])
    fix g assume g: "np \<le> g" "g < np + nc"
    have "fan_hand u g = fan_hand s g"
      using more(2,6) e(4) pc none [of g] by (auto simp: fan_hand_def recv_await_resume_def)
    then show "fx_got u g @ fan_hand u g = fx_got s g @ fan_hand s g" using more(3) by simp
    assume "fx_fin u g \<or> fx_busy u g \<and> fx_pc u g = Ch_Idle \<and> recv_await_resume g (fx_chan u) = None"
    then have "ch_buffer c = []"
      using e(2,4,6) more(2,4,6) pc fan_over(2) [OF recvs g]
      by (cases "fx_pc s g = Ch_Recv_Wait") (auto simp: recv_await_resume_def)
    then show "ch_closed (fx_chan u) \<and> ch_buffer (fx_chan u) = []" using e(1) more(6) by simp
  qed (simp add: more)
  ultimately show ?thesis by (simp add: fan_inv_def)
qed

lemma fan_fetch_sub:
  assumes inv: "fan_inv np nc vs owner s" and h: "h < np" "fx_phase s h = Looping" "\<not> fx_busy s h" "fx_todo s h = []"
    and u: "u = s\<lparr>fx_number := fx_number s - 1, fx_phase := (fx_phase s)(h := (if fx_number s = 1 then Closing else Gone))\<rparr>"
  shows "fan_inv np nc vs owner u"
proof -
  have phases: "fan_phases np s" and recvs: "fan_recvs np nc s" using inv by (simp_all add: fan_inv_def)
  let ?L = "{g. g < np \<and> fx_phase s g = Looping}"
  have eq: "{g. g < np \<and> fx_phase u g = Looping} = ?L - {h}" using h(1) u by auto
  have fin: "finite ?L" "h \<in> ?L" using h by auto
  then have "card ?L = Suc (card (?L - {h}))" by (rule card.remove)
  then have card: "int (card (?L - {h})) = fx_number s - 1" using fan_phasesD(3) [OF phases] by linarith
  have noclose: "fx_phase s g \<noteq> Closing" if "g < np" for g
    using fan_phasesD(1) [OF phases that] h(1,2) by (cases "g = h") auto
  have gone: "fx_phase s g = Gone \<longleftrightarrow> fx_phase s g \<noteq> Looping" if "g < np" for g
    using noclose [OF that] by (cases "fx_phase s g") simp_all
  have "fx_number s = 1 \<longleftrightarrow> card (?L - {h}) = 0" using card by linarith
  then have "fx_number s = 1 \<longleftrightarrow> ?L - {h} = {}" using fin(1) by simp
  then have "fx_number s = 1 \<longleftrightarrow> (\<forall>g < np. g \<noteq> h \<longrightarrow> fx_phase s g = Gone)" using gone by blast
  moreover have "\<not> ch_closed (fx_chan s)" using fan_phasesD(2) [OF phases _ h(1)] h(2) by auto
  ultimately have "fan_phases np u"
    unfolding fan_phases_def eq using card h noclose u by (auto split: if_splits)
  moreover have "fan_roles np nc u" using inv h u by (auto simp: fan_inv_def fan_roles_def)
  moreover have "fan_sends np vs owner u" using inv u by (auto simp: fan_inv_def fan_sends_def fan_rest_def)
  moreover have "fan_recvs np nc u" using inv u by (intro fan_recvs_local [OF recvs, where h = h]) (simp_all add: fan_inv_def fan_hand_def)
  ultimately show ?thesis by (simp add: fan_inv_def)
qed

lemma fan_producer_inv:
  assumes lib: "ch_sys_inv capacity (fx_ch s)" and prog: "fan_prog np nc vs owner" and inv: "fan_inv np nc vs owner s"
    and step: "fan_producer_step capacity h s t" and h: "h < np"
  shows "fan_inv np nc vs owner t"
proof -
  have recvs: "fan_recvs np nc s" using inv by (simp add: fan_inv_def)
  from step show ?thesis
  proof cases
    case (send v vs')
    have "fan_roles np nc t" using inv send h by (auto simp: fan_inv_def fan_roles_def)
    moreover have "fan_phases np t" using inv send by (simp add: fan_inv_def fan_phases_def channel_send_def)
    moreover have "fan_sends np vs owner t" using inv send by (auto simp: fan_inv_def fan_sends_def fan_rest_def channel_send_def)
    moreover have "fan_recvs np nc t" using inv send h
      by (intro fan_recvs_local [OF recvs, where h = h]) (simp_all add: fan_inv_def fan_hand_def channel_send_def recv_await_resume_def)
    ultimately show ?thesis by (simp add: fan_inv_def)
  next
    case (send_ready ok c)
    have "try_send_locked capacity log_submit h (fx_chan s) = Inr (ok, c)" using send_ready(3) by (simp add: send_await_ready_def)
    from fan_try_send [OF this _ _ lib prog inv, of Ch_Send_Suspend c "ch_senders c"] send_ready show ?thesis by simp
  next
    case (send_suspend susp c)
    from send_suspend_try [OF send_suspend(3)] obtain u where
      u: "try_send_locked capacity log_submit h (fx_chan s) = Inr (\<not> susp, u)"
        "c = (if \<not> susp then u else u\<lparr>ch_senders := ch_senders u @ [(h, h)]\<rparr>)" .
    from fan_try_send [OF u(1) _ _ lib prog inv u(2), of Ch_Send_Wait] send_suspend show ?thesis by (cases susp) simp_all
  next
    case send_resume
    have "fan_roles np nc t" using inv send_resume h by (auto simp: fan_inv_def fan_roles_def)
    moreover have "fan_phases np t" using inv send_resume by (simp add: fan_inv_def fan_phases_def)
    moreover have "fan_sends np vs owner t" using inv send_resume by (auto simp: fan_inv_def fan_sends_def fan_rest_def)
    moreover have "fan_recvs np nc t" using inv send_resume h
      by (intro fan_recvs_local [OF recvs, where h = h]) (simp_all add: fan_inv_def fan_hand_def recv_await_resume_def)
    ultimately show ?thesis by (simp add: fan_inv_def)
  next
    case fetch_sub
    with fan_fetch_sub [OF inv h] show ?thesis by simp
  next
    case (close c)
    with fan_close [OF lib inv h] show ?thesis by simp
  qed
qed

lemma fan_consumer_inv:
  assumes lib: "ch_sys_inv capacity (fx_ch s)" and prog: "fan_prog np nc vs owner" and inv: "fan_inv np nc vs owner s"
    and step: "fan_consumer_step h s t" and h: "np \<le> h" "h < np + nc"
  shows "fan_inv np nc vs owner t"
proof -
  have recvs: "fan_recvs np nc s" using inv by (simp add: fan_inv_def)
  from step show ?thesis
  proof cases
    case recv
    have "fan_roles np nc t" using inv recv h by (auto simp: fan_inv_def fan_roles_def)
    moreover have "fan_phases np t" using inv recv by (simp add: fan_inv_def fan_phases_def channel_recv_def)
    moreover have "fan_sends np vs owner t" using inv recv h by (auto simp: fan_inv_def fan_sends_def fan_rest_def channel_recv_def)
    moreover have "fan_recvs np nc t" using inv recv h
      by (intro fan_recvs_local [OF recvs, where h = h]) (simp_all add: fan_inv_def fan_hand_def channel_recv_def recv_await_resume_def)
    ultimately show ?thesis by (simp add: fan_inv_def)
  next
    case (recv_ready ok c)
    have "try_recv_locked log_submit h (fx_chan s) = Inr (ok, c)" using recv_ready(3) by (simp add: recv_await_ready_def)
    from fan_try_recv [OF this _ _ lib prog inv, of Ch_Recv_Suspend c "ch_receivers c"] recv_ready show ?thesis by simp
  next
    case (recv_suspend susp c)
    from recv_suspend_try [OF recv_suspend(3)] obtain u where
      u: "try_recv_locked log_submit h (fx_chan s) = Inr (\<not> susp, u)"
        "c = (if \<not> susp then u else u\<lparr>ch_receivers := ch_receivers u @ [(h, h)]\<rparr>)" .
    from fan_try_recv [OF u(1) _ _ lib prog inv u(2), of Ch_Recv_Wait] recv_suspend show ?thesis by (cases susp) simp_all
  next
    case (recv_data v)
    have "fan_roles np nc t" using inv recv_data h by (auto simp: fan_inv_def fan_roles_def)
    moreover have "fan_phases np t" using inv recv_data by (simp add: fan_inv_def fan_phases_def)
    moreover have "fan_sends np vs owner t" using inv recv_data h by (auto simp: fan_inv_def fan_sends_def fan_rest_def)
    moreover have "fan_recvs np nc t" using inv recv_data h
      by (intro fan_recvs_local [OF recvs, where h = h]) (simp_all add: fan_inv_def fan_hand_def recv_await_resume_def)
    ultimately show ?thesis by (simp add: fan_inv_def)
  next
    case recv_end
    have "fan_roles np nc t" using inv recv_end h by (auto simp: fan_inv_def fan_roles_def)
    moreover have "fan_phases np t" using inv recv_end by (simp add: fan_inv_def fan_phases_def)
    moreover have "fan_sends np vs owner t" using inv recv_end h by (auto simp: fan_inv_def fan_sends_def fan_rest_def)
    moreover have "fan_recvs np nc t" using inv recv_end h
      by (intro fan_recvs_local [OF recvs, where h = h]) (simp_all add: fan_inv_def fan_hand_def recv_await_resume_def)
    ultimately show ?thesis by (simp add: fan_inv_def)
  qed
qed

lemma fan_inv_step:
  assumes "fan_prog np nc vs owner" "ch_sys_inv capacity (fx_ch s)" "fan_inv np nc vs owner s" "fan_step capacity np nc s t"
  shows "fan_inv np nc vs owner t"
  using assms(4) fan_producer_inv [OF assms(2,1,3)] fan_consumer_inv [OF assms(2,1,3)] by (auto simp: fan_step_def)

section \<open>Measure\<close>

definition fan_producer_rank :: "fan_sys \<Rightarrow> handle \<Rightarrow> nat" where
  "fan_producer_rank s h = 5 * length (fx_todo s h) - ch_stage (fx_pc s h) (fx_busy s h) +
     (case fx_phase s h of Looping \<Rightarrow> 2 | Closing \<Rightarrow> 1 | Gone \<Rightarrow> 0)"

definition fan_consumer_rank :: "nat \<Rightarrow> fan_sys \<Rightarrow> handle \<Rightarrow> nat" where
  "fan_consumer_rank n s h = (if fx_fin s h then 0 else 5 * (Suc n - length (fx_got s h)) - ch_stage (fx_pc s h) (fx_busy s h))"

definition fan_handle_rank :: "nat \<Rightarrow> nat \<Rightarrow> fan_sys \<Rightarrow> handle \<Rightarrow> nat" where
  "fan_handle_rank np n s h = (if h < np then fan_producer_rank s h else fan_consumer_rank n s h)"

definition fan_rank :: "nat \<Rightarrow> nat \<Rightarrow> nat \<Rightarrow> fan_sys \<Rightarrow> nat" where
  "fan_rank np nc n s = (\<Sum>h < np + nc. fan_handle_rank np n s h)"

definition fan_total :: "nat \<Rightarrow> (handle \<Rightarrow> int list) \<Rightarrow> nat" where
  "fan_total np vs = (\<Sum>p < np. length (vs p))"

text \<open>All that has been accepted, producer by producer.\<close>

lemma by_owner:
  fixes n :: nat
  assumes "\<forall>v \<in> set xs. owner v < n"
  shows "mset xs = (\<Sum>p < n. mset (filter (\<lambda>v. owner v = p) xs)) \<and> length xs = (\<Sum>p < n. length (filter (\<lambda>v. owner v = p) xs))"
  using assms
proof (induction xs)
  case (Cons v xs)
  have "(\<Sum>p < n. mset (filter (\<lambda>v. owner v = p) (v # xs))) = (\<Sum>p < n. mset (filter (\<lambda>v. owner v = p) xs)) + {#v#}"
    using Cons.prems by (intro sum_one_more [of _ "owner v"]) auto
  moreover have "(\<Sum>p < n. length (filter (\<lambda>v. owner v = p) (v # xs))) = (\<Sum>p < n. length (filter (\<lambda>v. owner v = p) xs)) + 1"
    using Cons.prems by (intro sum_one_more [of _ "owner v"]) auto
  ultimately show ?case using Cons by simp
qed simp

lemma fan_accepted:
  assumes "fan_sends np vs owner s"
  shows "length (cs_accepted (fx_ch s)) \<le> fan_total np vs"
    "(\<And>p. p < np \<Longrightarrow> fan_rest s p = []) \<Longrightarrow> mset (cs_accepted (fx_ch s)) = (\<Sum>p < np. mset (vs p))"
proof -
  let ?f = "\<lambda>p. filter (\<lambda>v. owner v = p) (cs_accepted (fx_ch s))"
  have vs: "vs p = ?f p @ fan_rest s p" if "p < np" for p using assms that by (simp add: fan_sends_def)
  have own: "\<forall>v \<in> set (cs_accepted (fx_ch s)). owner v < np" using assms by (simp add: fan_sends_def)
  note acc = conjunct1 [OF by_owner [OF own]]
  have "length (cs_accepted (fx_ch s)) = (\<Sum>p < np. length (?f p))" using by_owner [OF own] by blast
  also have "\<dots> \<le> fan_total np vs" unfolding fan_total_def using vs by (intro sum_mono) simp
  finally show "length (cs_accepted (fx_ch s)) \<le> fan_total np vs" .
  assume "\<And>p. p < np \<Longrightarrow> fan_rest s p = []"
  then show "mset (cs_accepted (fx_ch s)) = (\<Sum>p < np. mset (vs p))" unfolding acc using vs by (intro sum.cong) auto
qed

lemma fan_got_le:
  assumes "ch_sys_inv capacity (fx_ch s)" "fan_inv np nc vs owner s" "np \<le> c" "c < np + nc"
  shows "length (fx_got s c) \<le> fan_total np vs"
proof -
  have "subseq (fx_got s c @ fan_hand s c) (cs_delivered (fx_ch s))"
    using assms(2-4) by (simp add: fan_inv_def fan_recvs_def)
  from list_emb_length [OF this] have "length (fx_got s c) \<le> length (cs_delivered (fx_ch s))" by simp
  also have "\<dots> \<le> length (cs_accepted (fx_ch s))" using assms(1) by (simp add: ch_sys_inv_def ch_logs_ok_def)
  also have "\<dots> \<le> fan_total np vs" using fan_accepted(1) assms(2) by (auto simp: fan_inv_def)
  finally show ?thesis .
qed

text \<open>For a coroutine that does not step nothing changes but that it may be woken.\<close>

definition fan_bystander :: "fan_sys \<Rightarrow> fan_sys \<Rightarrow> handle \<Rightarrow> bool" where
  "fan_bystander s t g \<longleftrightarrow> fx_todo t g = fx_todo s g \<and> fx_phase t g = fx_phase s g \<and> fx_got t g = fx_got s g \<and>
     fx_fin t g = fx_fin s g \<and> ch_stage (fx_pc s g) (fx_busy s g) \<le> ch_stage (fx_pc t g) (fx_busy t g)"

lemma fan_bystander_rank: "fan_bystander s t g \<Longrightarrow> fan_handle_rank np n t g \<le> fan_handle_rank np n s g"
  by (auto simp: fan_bystander_def fan_handle_rank_def fan_producer_rank_def fan_consumer_rank_def intro: diff_le_mono2 add_mono)

lemma fan_producer_rank_less:
  assumes "fan_inv np nc vs owner s" "fan_producer_step capacity h s t" "h < np"
  shows "fan_producer_rank t h < fan_producer_rank s h" "g \<noteq> h \<Longrightarrow> fan_bystander s t g"
proof -
  have roles: "fan_roles np nc s" and sends: "fan_sends np vs owner s" using assms(1) by (simp_all add: fan_inv_def)
  have busy: "fx_pc s g \<noteq> Ch_Idle \<longrightarrow> fx_busy s g" for g using roles by (auto simp: fan_roles_def)
  have len: "fx_busy s h \<Longrightarrow> 1 \<le> length (fx_todo s h)"
    using sends assms(3) by (cases "fx_todo s h") (auto simp: fan_sends_def)
  have still: "fx_phase s h \<noteq> Looping \<Longrightarrow> fx_pc s h = Ch_Idle \<and> \<not> fx_busy s h \<and> fx_todo s h = []"
    using roles assms(3) busy [of h] by (auto simp: fan_roles_def)
  have res: "ch_stage (fx_pc s g) (fx_busy s g) \<le> ch_stage (resume_woken c c' (fx_pc s) g) (fx_busy s g)" for g c c'
    by (rule ch_stage_resume [OF busy])
  from assms(2) have "fan_producer_rank t h < fan_producer_rank s h \<and> (g \<noteq> h \<longrightarrow> fan_bystander s t g)"
  proof cases
    case (send v vs')
    then show ?thesis by (simp add: fan_producer_rank_def fan_bystander_def)
  next
    case (send_ready ok c)
    then show ?thesis using len busy [of h] res by (auto simp: fan_producer_rank_def fan_bystander_def after_send_def)
  next
    case (send_suspend susp c)
    then show ?thesis using len busy [of h] res by (auto simp: fan_producer_rank_def fan_bystander_def after_send_def)
  next
    case send_resume
    then show ?thesis using len by (auto simp: fan_producer_rank_def fan_bystander_def)
  next
    case fetch_sub
    then show ?thesis by (simp add: fan_producer_rank_def fan_bystander_def)
  next
    case (close c)
    moreover have "resume_woken (fx_chan s) c (fx_pc s) h = Ch_Idle" using still close(2) by (simp add: resume_woken_def)
    ultimately show ?thesis using still res [of g "fx_chan s" c] by (simp add: fan_producer_rank_def fan_bystander_def)
  qed
  then show "fan_producer_rank t h < fan_producer_rank s h" "g \<noteq> h \<Longrightarrow> fan_bystander s t g" by blast+
qed

lemma fan_consumer_rank_less:
  assumes "fan_inv np nc vs owner s" "fan_consumer_step h s t" "length (fx_got s h) \<le> n"
  shows "fan_consumer_rank n t h < fan_consumer_rank n s h" "g \<noteq> h \<Longrightarrow> fan_bystander s t g"
proof -
  have roles: "fan_roles np nc s" using assms(1) by (simp add: fan_inv_def)
  have busy: "fx_pc s g \<noteq> Ch_Idle \<longrightarrow> fx_busy s g" for g using roles by (auto simp: fan_roles_def)
  have fin: "fx_busy s h \<Longrightarrow> \<not> fx_fin s h" using roles by (auto simp: fan_roles_def)
  have res: "ch_stage (fx_pc s g) (fx_busy s g) \<le> ch_stage (resume_woken c c' (fx_pc s) g) (fx_busy s g)" for g c c'
    by (rule ch_stage_resume [OF busy])
  obtain d where d: "Suc n - length (fx_got s h) = Suc d" using assms(3) by (metis Suc_diff_le)
  from assms(2) have "fan_consumer_rank n t h < fan_consumer_rank n s h \<and> (g \<noteq> h \<longrightarrow> fan_bystander s t g)"
  proof cases
    case recv
    then show ?thesis using d by (simp add: fan_consumer_rank_def fan_bystander_def)
  next
    case (recv_ready ok c)
    then show ?thesis using fin busy [of h] res d by (auto simp: fan_consumer_rank_def fan_bystander_def after_recv_def)
  next
    case (recv_suspend susp c)
    then show ?thesis using fin busy [of h] res d by (auto simp: fan_consumer_rank_def fan_bystander_def after_recv_def)
  next
    case (recv_data v)
    then show ?thesis using fin d by (auto simp: fan_consumer_rank_def fan_bystander_def)
  next
    case recv_end
    then show ?thesis using fin d by (auto simp: fan_consumer_rank_def fan_bystander_def)
  qed
  then show "fan_consumer_rank n t h < fan_consumer_rank n s h" "g \<noteq> h \<Longrightarrow> fan_bystander s t g" by blast+
qed

lemma fan_rank_less:
  assumes "ch_sys_inv capacity (fx_ch s)" "fan_inv np nc vs owner s" "fan_step capacity np nc s t"
  shows "fan_rank np nc (fan_total np vs) t < fan_rank np nc (fan_total np vs) s"
proof -
  let ?n = "fan_total np vs"
  have "\<exists>h < np + nc. fan_handle_rank np ?n t h < fan_handle_rank np ?n s h \<and> (\<forall>g. g \<noteq> h \<longrightarrow> fan_bystander s t g)"
    using assms(3) unfolding fan_step_def
  proof (elim disjE exE conjE bexE)
    fix h assume "h < np" "fan_producer_step capacity h s t"
    with fan_producer_rank_less [OF assms(2)] show ?thesis by (intro exI [of _ h]) (auto simp: fan_handle_rank_def)
  next
    fix h assume h: "h \<in> {np..<np + nc}" "fan_consumer_step h s t"
    then have "length (fx_got s h) \<le> ?n" using fan_got_le [OF assms(1,2)] by simp
    from fan_consumer_rank_less [OF assms(2) h(2) this] h(1) show ?thesis
      by (intro exI [of _ h]) (auto simp: fan_handle_rank_def)
  qed
  then obtain h where h: "h < np + nc" "fan_handle_rank np ?n t h < fan_handle_rank np ?n s h"
    "\<And>g. g \<noteq> h \<Longrightarrow> fan_bystander s t g" by blast
  have "fan_handle_rank np ?n t g \<le> fan_handle_rank np ?n s g" for g
    using fan_bystander_rank [OF h(3)] h(2) by (cases "g = h") auto
  then show ?thesis unfolding fan_rank_def using h(1,2) by (intro sum_less_one [where h = h])
qed

section \<open>Progress\<close>

lemma fan_consumer_progress:
  assumes "fx_pc s h \<in> {Ch_Idle, Ch_Recv_Check, Ch_Recv_Suspend}" "\<not> fx_fin s h"
  shows "\<exists>t. fan_consumer_step h s t"
proof (cases "fx_pc s h")
  case Ch_Idle
  then show ?thesis
    using fan_consumer_step.recv [of s h] fan_consumer_step.recv_data [of s h] fan_consumer_step.recv_end [of s h] assms(2)
    by (cases "fx_busy s h"; cases "recv_await_resume h (fx_chan s)") auto
next
  case Ch_Recv_Check
  obtain ok c where "try_recv_locked log_submit h (fx_chan s) = Inr (ok, c)"
    using logged.recv_returns [where s = "fx_chan s" and a = h and h = 0] by (auto simp: recv_await_suspend_def)
  with fan_consumer_step.recv_ready [OF Ch_Recv_Check, of ok c] show ?thesis by (auto simp: recv_await_ready_def)
next
  case Ch_Recv_Suspend
  obtain susp c where "recv_await_suspend log_submit h h (fx_chan s) = Inr (susp, c)" using logged.recv_returns by blast
  with fan_consumer_step.recv_suspend [OF Ch_Recv_Suspend] show ?thesis by blast
qed (use assms(1) in auto)

lemma fan_producer_progress:
  assumes "fx_pc s h \<in> {Ch_Idle, Ch_Send_Check, Ch_Send_Suspend}" "fx_phase s h \<noteq> Gone"
  shows "\<exists>t. fan_producer_step capacity h s t"
proof (cases "fx_pc s h")
  case Ch_Idle
  obtain c where "channel_close log_submit (fx_chan s) = Inr c" using logged.close_releases [of "fx_chan s"] by blast
  then show ?thesis
    using fan_producer_step.send [OF Ch_Idle] fan_producer_step.send_resume [OF Ch_Idle] fan_producer_step.fetch_sub [OF Ch_Idle]
      fan_producer_step.close [of s h c] assms(2)
    by (cases "fx_busy s h"; cases "fx_phase s h"; cases "fx_todo s h") blast+
next
  case Ch_Send_Check
  obtain ok c where "try_send_locked capacity log_submit h (fx_chan s) = Inr (ok, c)"
    using logged.send_returns [where s = "fx_chan s" and capacity = capacity and a = h and h = 0] by (auto simp: send_await_suspend_def)
  with fan_producer_step.send_ready [OF Ch_Send_Check, of capacity ok c] show ?thesis by (auto simp: send_await_ready_def)
next
  case Ch_Send_Suspend
  obtain susp c where "send_await_suspend capacity log_submit h h (fx_chan s) = Inr (susp, c)"
    using logged.send_returns by blast
  with fan_producer_step.send_suspend [OF Ch_Send_Suspend] show ?thesis by blast
qed (use assms(1) in auto)

text \<open>If some sender waits then the buffer is full and no receiver waits; after the close nobody does.\<close>

lemma fan_no_receiver:
  assumes "ch_sys_inv capacity (fx_ch s)" "ch_closed (fx_chan s) \<or> fx_pc s p = Ch_Send_Wait"
  shows "fx_pc s g \<noteq> Ch_Recv_Wait"
  using assms by (fastforce simp: ch_sys_inv_def ch_inv_def ch_queues_ok_def queue_ok_def)

lemma fan_pcs:
  assumes "fan_roles np nc s"
  shows "h < np \<Longrightarrow> fx_pc s h \<in> {Ch_Idle, Ch_Send_Check, Ch_Send_Suspend, Ch_Send_Wait}"
    "np \<le> h \<Longrightarrow> fx_pc s h \<in> {Ch_Idle, Ch_Recv_Check, Ch_Recv_Suspend, Ch_Recv_Wait}"
  using assms unfolding fan_roles_def by (cases "fx_pc s h"; auto)+

lemma fan_finished:
  assumes lib: "ch_sys_inv capacity (fx_ch s)" and inv: "fan_inv np nc vs owner s" and prog: "fan_prog np nc vs owner"
    and fin: "\<And>c. np \<le> c \<Longrightarrow> c < np + nc \<Longrightarrow> fx_fin s c"
  shows "fan_end np nc vs owner s"
proof -
  have roles: "fan_roles np nc s" and phases: "fan_phases np s" and sends: "fan_sends np vs owner s" and recvs: "fan_recvs np nc s"
    using inv by (simp_all add: fan_inv_def)
  have "np \<le> np \<and> np < np + nc" using prog by (simp add: fan_prog_def)
  then have closed: "ch_closed (fx_chan s)" "ch_buffer (fx_chan s) = []" using fan_over [OF recvs] fin by blast+
  have gone: "fx_phase s p = Gone" if "p < np" for p using fan_phasesD(2) [OF phases closed(1) that] .
  have rest: "fan_rest s p = []" if "p < np" for p using gone [OF that] roles that by (simp add: fan_rest_def fan_roles_def)
  have hand: "fan_hand s c = []" if "np \<le> c" "c < np + nc" for c
    using fin [OF that] roles by (simp add: fan_hand_def fan_roles_def)
  have logs: "cs_accepted (fx_ch s) = cs_delivered (fx_ch s)" using lib closed(2) by (simp add: ch_sys_inv_def ch_logs_ok_def)
  have "(\<Sum>c \<in> {np..<np + nc}. mset (fx_got s c)) = (\<Sum>c \<in> {np..<np + nc}. mset (fx_got s c @ fan_hand s c))"
    using hand by (intro sum.cong) auto
  also have "\<dots> = mset (cs_accepted (fx_ch s))" using recvs logs by (simp add: fan_recvs_def)
  also have "\<dots> = (\<Sum>p < np. mset (vs p))" using fan_accepted(2) [OF sends rest] by blast
  finally have "(\<Sum>c \<in> {np..<np + nc}. mset (fx_got s c)) = (\<Sum>p < np. mset (vs p))" .
  moreover have "subseq (filter (\<lambda>v. owner v = p) (fx_got s c)) (vs p)" if "c \<in> {np..<np + nc}" "p < np" for c p
  proof -
    have "subseq (fx_got s c @ fan_hand s c) (cs_delivered (fx_ch s))" using recvs that(1) by (simp add: fan_recvs_def)
    then have "subseq (fx_got s c) (cs_accepted (fx_ch s))" using that(1) hand [of c] logs by simp
    from subseq_filter [OF this] show ?thesis using sends rest [OF that(2)] that(2) by (simp add: fan_sends_def)
  qed
  ultimately show ?thesis using gone fin by (simp add: fan_end_def)
qed

lemma fan_progress:
  assumes cap: "0 < capacity" and lib: "ch_sys_inv capacity (fx_ch s)" and inv: "fan_inv np nc vs owner s"
    and prog: "fan_prog np nc vs owner" and unfinished: "\<not> fan_end np nc vs owner s"
  shows "\<exists>t. fan_step capacity np nc s t"
proof (cases "\<exists>p < np. fx_phase s p \<noteq> Gone \<and> fx_pc s p \<noteq> Ch_Send_Wait")
  case True
  then obtain p where p: "p < np" "fx_phase s p \<noteq> Gone" "fx_pc s p \<noteq> Ch_Send_Wait" by blast
  have "fx_pc s p \<in> {Ch_Idle, Ch_Send_Check, Ch_Send_Suspend}" using fan_pcs(1) [OF _ p(1)] p(3) inv by (auto simp: fan_inv_def)
  from fan_producer_progress [OF this p(2), of capacity] p(1) show ?thesis by (auto simp: fan_step_def)
next
  case False
  obtain c where c: "np \<le> c" "c < np + nc" "\<not> fx_fin s c" using fan_finished [OF lib inv prog] unfinished by blast
  have "ch_closed (fx_chan s) \<or> (\<exists>p. fx_pc s p = Ch_Send_Wait)"
    using False inv unfolding fan_inv_def fan_phases_def by blast
  then have "fx_pc s c \<noteq> Ch_Recv_Wait" using fan_no_receiver [OF lib] by blast
  then have "fx_pc s c \<in> {Ch_Idle, Ch_Recv_Check, Ch_Recv_Suspend}" using fan_pcs(2) [OF _ c(1)] inv by (auto simp: fan_inv_def)
  from fan_consumer_progress [OF this c(3)] c(1,2) show ?thesis unfolding fan_step_def by (metis atLeastLessThan_iff)
qed

lemma fan_init_ok:
  assumes "0 < capacity" "fan_prog np nc vs owner"
  shows "ch_sys_inv capacity (fx_ch (fan_init np vs))" "fan_inv np nc vs owner (fan_init np vs)"
  using assms
  by (auto simp: fan_init_def fan_inv_def fan_roles_def fan_phases_def fan_sends_def fan_recvs_def fan_rest_def fan_hand_def
      ch_sys_init_def channel_new_def ch_sys_inv_def ch_inv_def ch_queues_ok_def queue_ok_def ch_results_ok_def aw_ok_def
      ch_logs_ok_def fan_prog_def)

lemma buffer_channel_prog: "fan_prog 2 2 buffer_channel_values (\<lambda>v. nat (v div 10))"
  by (auto simp: fan_prog_def buffer_channel_values_def less_Suc_eq numeral_2_eq_2)

interpretation fan: terminating_client "ch_sys_inv 5" "ch_step 5" fx_ch "fan_step 5 2 2" "fan_init 2 buffer_channel_values"
    "fan_inv 2 2 buffer_channel_values (\<lambda>v. nat (v div 10))" "fan_rank 2 2 (fan_total 2 buffer_channel_values)"
    "fan_end 2 2 buffer_channel_values (\<lambda>v. nat (v div 10))"
  by unfold_locales
    (erule ch_step_inv [rotated 2], assumption, simp, rule fan_init_ok [OF _ buffer_channel_prog], simp, erule fan_simulates,
      rule fan_init_ok [OF _ buffer_channel_prog, of 5], simp, rule fan_inv_step [OF buffer_channel_prog, of 5], assumption+,
      erule (2) fan_rank_less, rule fan_progress [OF _ _ _ buffer_channel_prog], simp, assumption+)

section \<open>Properties\<close>

text \<open>
  C17. \<open>buffer_channel.cpp\<close> keeps its promise: whatever the schedule, it takes at most 134 steps, no coroutine is ever stuck, and at
  the end all have returned, the channel having been closed once, by the producer that finished last; the two
  consumers have together received every number exactly once, and each of them those of one producer in the order in which they
  were sent.
\<close>

theorem buffer_channel_delivers:
  "ends_with buffer_channel_example (fan_init 2 buffer_channel_values) 134
     (fan_end 2 2 buffer_channel_values (\<lambda>v. nat (v div 10)))"
proof -
  have "fan_rank 2 2 (fan_total 2 buffer_channel_values) (fan_init 2 buffer_channel_values) = 134"
    by (simp add: fan_rank_def fan_handle_rank_def fan_producer_rank_def fan_consumer_rank_def fan_total_def fan_init_def
        ch_sys_init_def buffer_channel_values_def numeral_eq_Suc lessThan_Suc)
  then show ?thesis using fan.client_ends by (simp add: buffer_channel_example_def)
qed

end
