(* ===== verification/Cv_Queue.thy ===== *)
theory Cv_Queue
  imports Cv_Example
begin

text \<open>
  \<open>examples/cv_notify_one.cpp\<close>: a producer puts ten times ten numbers into a queue and a consumer
  takes out all that it finds, until it has seen a hundred; both use one mutex and one condition
  variable with \<open>notify_one\<close>. The consumer is coroutine 0 and holds its guard throughout, the producer is
  coroutine 1 and takes the mutex anew in every round. As in \<open>Cv_Example\<close>, with several workers another coroutine can
  run between the unlock and the push of \<open>await_suspend\<close> (\<open>gap\<close>).
\<close>

section \<open>Definitions\<close>

record cq_sys =
  cq_ms :: mutexes
  cq_cv :: "int list condvar"
  cq_log :: "handle list"
  cq_pc :: "handle \<Rightarrow> cvx_pc"
  cq_que :: "int list"
  cq_got :: "int list"
  cq_round :: nat




definition cq_batch :: "nat \<Rightarrow> int list" where
  "cq_batch i = map (\<lambda>j. int (i * 10 + j)) [0..<10]"








section \<open>Invariant\<close>











lemma cq_batch_length [simp]: "length (cq_batch n) = 10" "cq_batch n \<noteq> []"
  by (simp_all add: cq_batch_def)
























section \<open>Every run on one worker ends\<close>









section \<open>Several workers\<close>




text \<open>
  The consumer finds the queue empty and unlocks the mutex; before it pushes itself, the producer locks, fills the queue
  and notifies nobody. Then the producer finds the queue full and waits as well.
\<close>

definition cq_at :: "bool \<Rightarrow> int list condvar \<Rightarrow> int list \<Rightarrow> nat \<Rightarrow> (handle \<Rightarrow> cvx_pc) \<Rightarrow> cq_sys" where
  "cq_at locked cv que rnd pc = \<lparr>cq_ms = (\<lambda>_. mutex_new)(0 := \<lparr>mx_locked = locked, mx_waiters = []\<rparr>), cq_cv = cv, cq_log = [],
     cq_pc = pc, cq_que = que, cq_got = [], cq_round = rnd\<rparr>"

lemma cq_at_sel [simp]:
  "cq_ms (cq_at l cv que rnd pc) 0 = \<lparr>mx_locked = l, mx_waiters = []\<rparr>" "cq_cv (cq_at l cv que rnd pc) = cv" "cq_log (cq_at l cv que rnd pc) = []"
  "cq_pc (cq_at l cv que rnd pc) = pc" "cq_que (cq_at l cv que rnd pc) = que" "cq_got (cq_at l cv que rnd pc) = []" "cq_round (cq_at l cv que rnd pc) = rnd"
  by (simp_all add: cq_at_def)

lemma cq_at_upd [simp]:
  "(cq_at l cv que rnd pc)\<lparr>cq_pc := pc'\<rparr> = cq_at l cv que rnd pc'"
  "(cq_at l cv que rnd pc)\<lparr>cq_ms := (cq_ms (cq_at l cv que rnd pc))(0 := \<lparr>mx_locked = l', mx_waiters = []\<rparr>)\<rparr> = cq_at l' cv que rnd pc"
  "(cq_at l cv que rnd pc)\<lparr>cq_cv := cv'\<rparr> = cq_at l cv' que rnd pc"
  "(cq_at l cv que rnd pc)\<lparr>cq_que := que'\<rparr> = cq_at l cv que' rnd pc"
  "(cq_at l cv que rnd pc)\<lparr>cq_round := rnd'\<rparr> = cq_at l cv que rnd' pc"
  "(cq_at l cv que rnd pc)\<lparr>cq_log := []\<rparr> = cq_at l cv que rnd pc"
  by (simp_all add: cq_at_def)









section \<open>Properties\<close>


end
