(* ===== verification/Coro_Stl.thy ===== *)
theory Coro_Stl
  imports Thread_Pool Scheduler
begin

text \<open>
  The benchmark programs that run blocking calls in coroutines of the library:
  \<open>coro_stl_future\<close> of \<open>lab4a_bench.cpp\<close>, \<open>coro_stl_latch\<close> of \<open>lab4b_bench.cpp\<close> and \<open>lab4c_bench.cpp\<close>,
  \<open>coro_stl_mutex\<close> and \<open>coro_spinlock\<close> of \<open>lab4d_bench.cpp\<close>. Such a coroutine awaits nothing: once the engine has resumed it, it runs
  to its end on the thread of the context, and a call that blocks, blocks the context. The
  workers are thus taken as threads that run their own queue, as those of the thread pool are (\<open>context::run\<close> does not occur); what
  differs, and what is compared, is who fills the queues and how.
\<close>

section \<open>Blocking coroutines on the scheduler\<close>

text \<open>The coroutine with handle \<open>h\<close> makes the calls \<open>ts ! h\<close>.\<close>

definition worker_queues :: "std_op list list \<Rightarrow> world \<Rightarrow> std_op list list list" where
  "worker_queues ts w = map (\<lambda>c. map ((!) ts) (ctx_queue c)) (w_ctxs w)"

text \<open>\<open>scheduler::init\<close>, the submission of all coroutines, and the start of the workers by \<open>scheduler::loop\<close>.\<close>

definition sched_run :: "int list \<Rightarrow> std_op list list \<Rightarrow> std_objs \<Rightarrow> world \<Rightarrow> pool_sys res" where
  "sched_run efds ts objs w =
     bindE (init_impl efds w) (\<lambda>w.
     bindE (foldE submit_to_scheduler [0..<length ts] w) (\<lambda>w.
     Inr (pool_start objs \<lparr>tp_num = length (w_ctxs w), tp_cur = unat (dsp_cur (w_dispatcher w)) mod length (w_ctxs w),
       tp_ques = worker_queues ts w\<rparr>)))"

definition stl_set :: "nat \<Rightarrow> std_op list" where "stl_set loop_num = [Loop_Add loop_num, Promise_Set]"
definition stl_wait :: "nat \<Rightarrow> std_op list" where "stl_wait loop_num = [Future_Wait, Loop_Add loop_num]"

definition coro_stl_future :: "nat \<Rightarrow> nat \<Rightarrow> std_op list list" where
  "coro_stl_future thread_num loop_num = replicate (thread_num - 1) (stl_wait loop_num) @ [stl_set loop_num]"

definition stl_countdown :: "nat \<Rightarrow> std_op list" where "stl_countdown loop_num = [Loop_Add loop_num, Latch_Count_Down]"
definition stl_latch_wait :: "nat \<Rightarrow> std_op list" where "stl_latch_wait loop_num = [Latch_Wait, Loop_Add loop_num]"

definition coro_stl_latch :: "nat \<Rightarrow> nat \<Rightarrow> std_op list list" where
  "coro_stl_latch thread_num loop_num =
     (let countdown_num = thread_num div 2; wait_num = thread_num - countdown_num
      in replicate countdown_num (stl_countdown loop_num) @ replicate wait_num (stl_latch_wait loop_num))"

text \<open>The tasks of \<open>lab4c_bench.cpp\<close> on \<open>std::latch\<close>, called \<open>done\<close> and \<open>wait\<close> there.\<close>

definition stl_done :: "nat \<Rightarrow> std_op list" where "stl_done loop_num = [Loop_Add loop_num, Latch_Count_Down]"
definition stl_done_wait :: "nat \<Rightarrow> std_op list" where "stl_done_wait loop_num = [Latch_Wait, Loop_Add loop_num]"

definition coro_stl_done :: "nat \<Rightarrow> nat \<Rightarrow> std_op list list" where
  "coro_stl_done thread_num loop_num =
     (let done_num = thread_num div 2; wait_num = thread_num - done_num
      in replicate done_num (stl_done loop_num) @ replicate wait_num (stl_done_wait loop_num))"

text \<open>\<open>lab4d_bench.cpp\<close>: a thread that spins is like one that blocks, in that it goes on when the lock is free.\<close>

definition stl_add :: "nat \<Rightarrow> std_op list" where "stl_add loop_num = [Mutex_Lock, Loop_Add loop_num, Mutex_Unlock]"
definition spin_add :: "nat \<Rightarrow> std_op list" where "spin_add loop_num = [Mutex_Lock, Loop_Add loop_num, Mutex_Unlock]"

definition coro_stl_mutex :: "nat \<Rightarrow> nat \<Rightarrow> std_op list list" where
  "coro_stl_mutex thread_num loop_num = replicate thread_num (stl_add loop_num)"

definition coro_spinlock :: "nat \<Rightarrow> nat \<Rightarrow> std_op list list" where
  "coro_spinlock thread_num loop_num = replicate thread_num (spin_add loop_num)"

section \<open>The scheduler deals out like the pool\<close>

lemma submit_many_cur:
  assumes "w_room (length hs) w" and "foldE submit_to_scheduler hs w = Inr w'"
  shows "dsp_cur (w_dispatcher w') = dsp_cur (w_dispatcher w) + of_nat (length hs)"
  using assms
proof (induction hs arbitrary: w)
  case (Cons h hs)
  have room: "w_room (Suc (length hs)) w" using Cons.prems(1) by simp
  obtain w1 where w1: "submit_to_scheduler h w = Inr w1" "w_room (length hs) w1" using submit_to_scheduler_room [OF room] by blast
  then have "dsp_cur (w_dispatcher w1) = dsp_cur (w_dispatcher w) + 1" using submit_to_scheduler_target [OF room, of h] by auto
  moreover have "dsp_cur (w_dispatcher w') = dsp_cur (w_dispatcher w1) + of_nat (length hs)"
    using Cons.IH [OF w1(2)] Cons.prems(2) w1(1) by simp
  ultimately show ?case by simp
qed simp

lemma dealt_nths: "dealt n i ts = map ((!) ts) (nths [0..<length ts] {j. j mod n = i})"
proof -
  have "{j. j < length ts \<and> [0..<length ts] ! j mod n = i} = {j. j mod n = i} \<inter> {..<length ts}" by auto
  then have "filter (\<lambda>j. j mod n = i) [0..<length ts] = nths [0..<length ts] ({j. j mod n = i} \<inter> {..<length ts})"
    by (simp add: filter_eq_nths)
  also have "\<dots> = nths [0..<length ts] {j. j mod n = i}"
    unfolding nths_def by (intro arg_cong [of _ _ "map fst"] filter_cong) (auto dest: set_zip_rightD)
  finally show ?thesis by (simp add: dealt_def)
qed

lemma sched_run_eq:
  assumes "\<forall>e \<in> set efds. 0 \<le> e" "efds \<noteq> []" "length efds < 2 ^ 64" "length ts \<le> kQueCap"
  shows "sched_run efds ts objs w = pool_run (length efds) ts objs"
proof -
  let ?hs = "[0..<length ts]"
  obtain w1 where w1: "init_impl efds w = Inr w1" "w_room (length ?hs) w1" "length (w_ctxs w1) = length efds"
    "dsp_cur (w_dispatcher w1) = 0" "\<forall>c \<in> set (w_ctxs w1). ctx_queue c = []"
    using init_impl_spec [OF assms(1-3), of "length ?hs" w] assms(4) by auto
  have small: "length ts < 2 ^ 64" using assms(4) by (simp add: kQueCap_def)
  then have "unat (dsp_cur (w_dispatcher w1)) + length ?hs < 2 ^ 64" using w1(4) by simp
  from submit_many [OF w1(2) this] obtain w2 where w2: "foldE submit_to_scheduler ?hs w1 = Inr w2" "length (w_ctxs w2) = length efds"
    "\<And>i. i < length efds \<Longrightarrow> ctx_queue (w_ctxs w2 ! i) = nths ?hs {j. j mod length efds = i}"
    using w1 by auto
  have "unat (dsp_cur (w_dispatcher w2)) = length ts"
    using submit_many_cur [OF w1(2) w2(1)] w1(4) small by (simp add: unat_of_nat_u64)
  moreover have "worker_queues ts w2 = map (\<lambda>i. dealt (length efds) i ts) [0..<length efds]"
    using w2(2,3) by (intro nth_equalityI) (simp_all add: worker_queues_def dealt_nths)
  ultimately show ?thesis
    using w1(1) w2(1,2) pool_dealt [of "length efds" ts] assms(2) by (simp add: sched_run_def pool_run_def)
qed

section \<open>Properties\<close>

text \<open>
  C26. The scheduler and the thread pool deal out alike: blocking coroutines submitted to a freshly initialised
  scheduler end up in the same queues, in the same order, as the same tasks submitted to a thread pool with as many
  threads as there are contexts, so that whatever is shown of a program on the pool holds on the scheduler.
\<close>

theorem scheduler_runs_like_pool:
  assumes "\<forall>e \<in> set efds. 0 \<le> e" and "efds \<noteq> []" and "length efds < 2 ^ 64" and "length ts \<le> kQueCap"
  shows "sched_run efds ts objs w = pool_run (length efds) ts objs"
  using sched_run_eq [OF assms] .

theorem scheduler_runs_like_pool_witness:
  "sched_run [3, 4] (coro_stl_mutex 2 7) (new_objs 0) demo_world = pool_run 2 (coro_stl_mutex 2 7) (new_objs 0)"
proof -
  have len: "length [3, 4 :: int] = 2" by simp
  show ?thesis
    using scheduler_runs_like_pool [of "[3, 4]" "coro_stl_mutex 2 7" "new_objs 0" demo_world] unfolding len
    by (simp add: coro_stl_mutex_def kQueCap_def)
qed

text \<open>
  The benchmarks with blocking coroutines end, whatever the schedule, with as many coroutines as contexts: every coroutine has a worker of its own,
  so that none blocks the one it waits for, no call fails and every coroutine is run exactly once.
\<close>

theorem coro_stl_benches_end:
  assumes "\<forall>e \<in> set efds. 0 \<le> e" and "length efds = Suc n" and "Suc n \<le> kQueCap"
  shows "pool_ends (coro_stl_future (Suc n) k) (5 * Suc n + 1) (sched_run efds (coro_stl_future (Suc n) k) (new_objs 0) w) \<and>
    pool_ends (coro_stl_latch (Suc n) k) (5 * Suc n + 1) (sched_run efds (coro_stl_latch (Suc n) k) (new_objs (Suc n div 2)) w) \<and>
    pool_ends (coro_stl_done (Suc n) k) (5 * Suc n + 1) (sched_run efds (coro_stl_done (Suc n) k) (new_objs (Suc n div 2)) w) \<and>
    pool_ends (coro_stl_mutex (Suc n) k) (6 * Suc n + 1) (sched_run efds (coro_stl_mutex (Suc n) k) (new_objs 0) w) \<and>
    pool_ends (coro_spinlock (Suc n) k) (6 * Suc n + 1) (sched_run efds (coro_spinlock (Suc n) k) (new_objs 0) w)"
proof -
  have eq: "sched_run efds ts objs w = pool_run (Suc n) ts objs" if "length ts = Suc n" for ts objs
    using sched_run_eq [OF assms(1), of ts objs w] assms(2,3) that by (force simp: kQueCap_def)
  have same: "coro_stl_future (Suc n) k = threadpool_stl_future (Suc n) k" "coro_stl_latch (Suc n) k = threadpool_stl_latch (Suc n) k"
    "coro_stl_done (Suc n) k = threadpool_stl_latch (Suc n) k" "coro_stl_mutex (Suc n) k = threadpool_stl_mutex (Suc n) k"
    "coro_spinlock (Suc n) k = threadpool_stl_mutex (Suc n) k"
    by (simp_all add: coro_stl_future_def threadpool_stl_future_def stl_set_def set_tp_def stl_wait_def wait_tp_def
        coro_stl_latch_def coro_stl_done_def threadpool_stl_latch_def stl_countdown_def stl_done_def countdown_tp_def
        stl_latch_wait_def stl_done_wait_def latch_wait_tp_def coro_stl_mutex_def coro_spinlock_def threadpool_stl_mutex_def
        stl_add_def spin_add_def add_tp_def Let_def)
  have len: "length (threadpool_stl_future (Suc n) k) = Suc n" "length (threadpool_stl_latch (Suc n) k) = Suc n"
    "length (threadpool_stl_mutex (Suc n) k) = Suc n"
    by (simp_all add: threadpool_stl_future_def threadpool_stl_latch_def threadpool_stl_mutex_def Let_def)
  show ?thesis unfolding same eq [OF len(1)] eq [OF len(2)] eq [OF len(3)] using future_ends latch_ends mutex_ends by blast
qed

theorem coro_stl_benches_end_witness:
  "pool_ends (coro_stl_future 2 9) 11 (sched_run [3, 4] (coro_stl_future 2 9) (new_objs 0) demo_world)"
  using coro_stl_benches_end [of "[3, 4]" 1 9 demo_world] by (simp add: kQueCap_def numeral_2_eq_2)

end
