(* ===== verification/Concepts.thy ===== *)
theory Concepts
  imports Prelude
begin

text \<open>
  The compile-time part of the library: the concepts and traits under \<open>coro/concepts/\<close> and the
  constraints of \<open>parallel/parallel.hpp\<close>, as predicates and functions on C++ types, and the
  declared types of the library's own awaiters. What a program declares beside the library
  is the environment \<open>cxx_env\<close>. An expression that does not compile has no type (\<open>None\<close>).
\<close>

section \<open>Types and declarations\<close>

text \<open>The classes of the library whose members the concepts ask for.\<close>

datatype lib_class =
    L_Task | L_Task_Awaitable_L | L_Task_Awaitable_R | L_Promise | L_Final_Awaiter | L_Suspend_Always
  | L_Event_Awaiter | L_Latch_Awaiter | L_Wait_Group_Awaiter | L_Lock_Awaiter | L_Guard_Awaiter | L_Lock_Guard | L_Mutex
  | L_Cv_Awaiter | L_Send_Awaiter | L_Recv_Awaiter | L_Io_Awaiter | L_Timer | L_Timer_Awaiter | L_When_All_Awaiter | L_Spinlock

datatype cxx_type =
    Ty_Void | Ty_Bool | Ty_Int | Ty_Handle
  | Ty_Ptr cxx_type | Ty_Const cxx_type | Ty_LRef cxx_type | Ty_RRef cxx_type
  | Ty_Vector cxx_type | Ty_Array cxx_type nat | Ty_Optional cxx_type
  | Ty_Fun cxx_type "cxx_type list" | Ty_Std_Function cxx_type "cxx_type list"
  | Ty_Member_Fun string cxx_type "cxx_type list" bool bool
  | Ty_Lib lib_class "cxx_type list" | Ty_Class string

datatype category = Lvalue | Rvalue

datatype member_name =
    M_Await_Ready | M_Await_Suspend | M_Await_Resume | M_Co_Await | M_Next | M_Lock | M_Unlock
  | M_Get_Return_Object | M_Initial_Suspend | M_Final_Suspend | M_Return_Void | M_Return_Value cxx_type
  | M_Yield_Value "cxx_type option"

text \<open>Classes outside the library are named; \<open>user_member\<close> gives the type of a member call on an object of such a class.\<close>

record cxx_env =
  user_member :: "string \<Rightarrow> bool \<Rightarrow> category \<Rightarrow> member_name \<Rightarrow> cxx_type option"
  free_co_await :: "cxx_type \<Rightarrow> category \<Rightarrow> cxx_type option"
  call_operator :: "string \<Rightarrow> cxx_type option"
  user_range :: "string \<Rightarrow> cxx_type option"
  user_sized :: "string \<Rightarrow> bool"
  user_pod :: "string \<Rightarrow> bool"
  user_movable :: "string \<Rightarrow> bool"
  user_to_handle :: "string \<Rightarrow> bool"

fun strip_ref :: "cxx_type \<Rightarrow> cxx_type" where
  "strip_ref (Ty_LRef t) = t"
| "strip_ref (Ty_RRef t) = t"
| "strip_ref t = t"

fun strip_const :: "cxx_type \<Rightarrow> cxx_type" where
  "strip_const (Ty_Const t) = t"
| "strip_const t = t"

definition decay :: "cxx_type \<Rightarrow> cxx_type" where
  "decay t = strip_const (strip_ref t)"

fun is_ref :: "cxx_type \<Rightarrow> bool" where
  "is_ref (Ty_LRef t) = True"
| "is_ref (Ty_RRef t) = True"
| "is_ref t = False"

fun is_const :: "cxx_type \<Rightarrow> bool" where
  "is_const (Ty_Const t) = True"
| "is_const t = False"

text \<open>Scalars are standard layout and trivial; \<open>void\<close>, references, functions and the library's classes are not both.\<close>

fun pod_type :: "cxx_env \<Rightarrow> cxx_type \<Rightarrow> bool" where
  "pod_type E Ty_Bool = True"
| "pod_type E Ty_Int = True"
| "pod_type E Ty_Handle = False"
| "pod_type E (Ty_Ptr t) = True"
| "pod_type E (Ty_Const t) = pod_type E t"
| "pod_type E (Ty_Array t n) = pod_type E t"
| "pod_type E (Ty_Class c) = user_pod E c"
| "pod_type E t = False"

fun move_constructible :: "cxx_env \<Rightarrow> cxx_type \<Rightarrow> bool" where
  "move_constructible E Ty_Void = False"
| "move_constructible E (Ty_Fun r as) = False"
| "move_constructible E (Ty_Class c) = user_movable E c"
| "move_constructible E (Ty_Lib c as) = (c \<noteq> L_Promise \<and> c \<noteq> L_Mutex \<and> c \<noteq> L_Spinlock)"
| "move_constructible E (Ty_Const t) = move_constructible E t"
| "move_constructible E (Ty_Array t n) = move_constructible E t"
| "move_constructible E (Ty_Optional t) = move_constructible E t"
| "move_constructible E t = True"

section \<open>The declarations of the library\<close>

text \<open>
  \<open>result\<close> of the promise (\<open>container.hpp\<close>; \<open>task.hpp\<close> for \<open>void\<close>), called on an lvalue and on an rvalue. Plain
  data is answered by value, anything else by reference into the frame. A call that returns a constant value of a type that is no class
  has the type without the \<open>const\<close>, which is what \<open>decltype(auto)\<close> sees.
\<close>

fun returned_value :: "cxx_type \<Rightarrow> cxx_type" where
  "returned_value (Ty_Const (Ty_Class c)) = Ty_Const (Ty_Class c)"
| "returned_value (Ty_Const t) = t"
| "returned_value t = t"

definition result_type :: "cxx_env \<Rightarrow> category \<Rightarrow> cxx_type \<Rightarrow> cxx_type" where
  "result_type E cat t =
     (if t = Ty_Void then Ty_Void
      else if pod_type E t then returned_value t
      else if is_ref t then t
      else if cat = Lvalue then Ty_LRef (Ty_Const t)
      else if move_constructible E t then Ty_RRef t
      else Ty_RRef (Ty_Const t))"

text \<open>The promise; \<open>return_value\<close> is asked for with an argument of the promised type, which is copied.\<close>

definition promise_member :: "cxx_type \<Rightarrow> member_name \<Rightarrow> cxx_type option" where
  "promise_member t m =
     (case m of
        M_Get_Return_Object \<Rightarrow> Some (Ty_Lib L_Task [t])
      | M_Initial_Suspend \<Rightarrow> Some (Ty_Lib L_Suspend_Always [])
      | M_Final_Suspend \<Rightarrow> Some (Ty_Lib L_Final_Awaiter [])
      | M_Return_Void \<Rightarrow> if t = Ty_Void then Some Ty_Void else None
      | M_Return_Value v \<Rightarrow> if t \<noteq> Ty_Void \<and> v = t then Some Ty_Void else None
      | _ \<Rightarrow> None)"

text \<open>An awaiter that declares the three functions with these result types.\<close>

definition awaiter_members :: "cxx_type \<Rightarrow> cxx_type \<Rightarrow> member_name \<Rightarrow> cxx_type option" where
  "awaiter_members susp res m =
     (case m of M_Await_Ready \<Rightarrow> Some Ty_Bool | M_Await_Suspend \<Rightarrow> Some susp | M_Await_Resume \<Rightarrow> Some res | _ \<Rightarrow> None)"

definition lock_members :: "member_name \<Rightarrow> cxx_type option" where
  "lock_members m = (case m of M_Lock \<Rightarrow> Some Ty_Void | M_Unlock \<Rightarrow> Some Ty_Void | _ \<Rightarrow> None)"

text \<open>\<open>lock\<close> of the coroutine mutex answers an awaiter, that of the spinlock nothing.\<close>

definition mutex_members :: "member_name \<Rightarrow> cxx_type option" where
  "mutex_members m = (case m of M_Lock \<Rightarrow> Some (Ty_Lib L_Lock_Awaiter []) | M_Unlock \<Rightarrow> Some Ty_Void | _ \<Rightarrow> None)"

definition co_await_member :: "cxx_type \<Rightarrow> member_name \<Rightarrow> cxx_type option" where
  "co_await_member t m = (if m = M_Co_Await then Some t else None)"

fun lib_member :: "cxx_env \<Rightarrow> lib_class \<Rightarrow> cxx_type list \<Rightarrow> category \<Rightarrow> member_name \<Rightarrow> cxx_type option" where
  "lib_member E L_Task [t] Lvalue = co_await_member (Ty_Lib L_Task_Awaitable_L [t])"
| "lib_member E L_Task [t] Rvalue = co_await_member (Ty_Lib L_Task_Awaitable_R [t])"
| "lib_member E L_Task_Awaitable_L [t] cat = awaiter_members Ty_Handle (result_type E Lvalue t)"
| "lib_member E L_Task_Awaitable_R [t] cat = awaiter_members Ty_Handle (result_type E Rvalue t)"
| "lib_member E L_Promise [t] cat = promise_member t"
| "lib_member E L_Final_Awaiter [] cat = awaiter_members Ty_Handle Ty_Void"
| "lib_member E L_Suspend_Always [] cat = awaiter_members Ty_Void Ty_Void"
| "lib_member E L_Event_Awaiter [t] cat = awaiter_members Ty_Void t"
| "lib_member E L_Latch_Awaiter [] cat = awaiter_members Ty_Void Ty_Void"
| "lib_member E L_Wait_Group_Awaiter [] cat = awaiter_members Ty_Void Ty_Void"
| "lib_member E L_Lock_Awaiter [] cat = awaiter_members Ty_Void Ty_Void"
| "lib_member E L_Guard_Awaiter [] cat = awaiter_members Ty_Void (Ty_Lib L_Lock_Guard [])"
| "lib_member E L_Mutex [] cat = mutex_members"
| "lib_member E L_Spinlock [] cat = lock_members"
| "lib_member E L_Cv_Awaiter [] cat = awaiter_members Ty_Void Ty_Void"
| "lib_member E L_Send_Awaiter [t] cat = awaiter_members Ty_Bool Ty_Bool"
| "lib_member E L_Recv_Awaiter [t] cat = awaiter_members Ty_Bool (Ty_Optional t)"
| "lib_member E L_Io_Awaiter [] cat = awaiter_members Ty_Void Ty_Int"
| "lib_member E L_Timer [] cat = co_await_member (Ty_Lib L_Timer_Awaiter [])"
| "lib_member E L_Timer_Awaiter [] cat = awaiter_members Ty_Void Ty_Int"
| "lib_member E L_When_All_Awaiter [t] cat =
     awaiter_members Ty_Void (if t = Ty_Void then Ty_Void else if t = Ty_Vector Ty_Int then t else Ty_Array t 1)"
| "lib_member E c as cat = (\<lambda>_. None)"

text \<open>Which members may be called on a constant object.\<close>

fun const_member :: "lib_class \<Rightarrow> member_name \<Rightarrow> bool" where
  "const_member L_Task m = (m = M_Co_Await)"
| "const_member L_Task_Awaitable_L m = (m = M_Await_Ready)"
| "const_member L_Task_Awaitable_R m = (m = M_Await_Ready)"
| "const_member L_Suspend_Always m = True"
| "const_member c m = False"

definition member_call :: "cxx_env \<Rightarrow> cxx_type \<Rightarrow> category \<Rightarrow> member_name \<Rightarrow> cxx_type option" where
  "member_call E t cat m =
     (case strip_ref t of
        Ty_Lib c as \<Rightarrow> lib_member E c as cat m
      | Ty_Const (Ty_Lib c as) \<Rightarrow> if const_member c m then lib_member E c as cat m else None
      | Ty_Class c \<Rightarrow> user_member E c False cat m
      | Ty_Const (Ty_Class c) \<Rightarrow> user_member E c True cat m
      | _ \<Rightarrow> None)"

section \<open>Concepts\<close>

definition in_types :: "cxx_type \<Rightarrow> cxx_type list \<Rightarrow> bool" where
  "in_types t ts = list_ex ((=) t) ts"

definition list_type :: "cxx_env \<Rightarrow> cxx_type \<Rightarrow> bool" where
  "list_type E t \<longleftrightarrow> member_call E t Lvalue M_Next = Some (Ty_Ptr t)"

definition void_pod_type :: "cxx_env \<Rightarrow> cxx_type \<Rightarrow> bool" where
  "void_pod_type E t \<longleftrightarrow> pod_type E t \<or> t = Ty_Void"

definition all_same_type :: "cxx_type \<Rightarrow> cxx_type list \<Rightarrow> bool" where
  "all_same_type t ts = list_ex ((=) t) ts"

definition all_void_type :: "cxx_type list \<Rightarrow> bool" where
  "all_void_type ts = list_ex ((=) Ty_Void) ts"

definition all_noref_pod :: "cxx_env \<Rightarrow> cxx_type list \<Rightarrow> bool" where
  "all_noref_pod E ts = list_ex (pod_type E) ts"

definition conventional_type :: "cxx_type \<Rightarrow> bool" where
  "conventional_type t \<longleftrightarrow> t \<noteq> Ty_Void \<and> \<not> is_ref t \<and> \<not> is_const t"

text \<open>In a concept the parameter \<open>t\<close> is an lvalue.\<close>

definition awaiter :: "cxx_env \<Rightarrow> cxx_type \<Rightarrow> bool" where
  "awaiter E t \<longleftrightarrow>
     member_call E t Lvalue M_Await_Ready = Some Ty_Bool \<and>
     (case member_call E t Lvalue M_Await_Suspend of Some r \<Rightarrow> in_types r [Ty_Void, Ty_Bool, Ty_Handle] | None \<Rightarrow> False) \<and>
     member_call E t Lvalue M_Await_Resume \<noteq> None"

definition global_call :: "cxx_env \<Rightarrow> cxx_type \<Rightarrow> category \<Rightarrow> cxx_type option" where
  "global_call E t cat = free_co_await E (strip_ref t) cat"

definition answers :: "(cxx_type \<Rightarrow> bool) \<Rightarrow> cxx_type option \<Rightarrow> bool" where
  "answers P r = (case r of Some t \<Rightarrow> P t | None \<Rightarrow> False)"

definition member_co_await_awaitable :: "cxx_env \<Rightarrow> cxx_type \<Rightarrow> bool" where
  "member_co_await_awaitable E t = answers (awaiter E) (member_call E t Lvalue M_Co_Await)"

definition global_co_await_awaitable :: "cxx_env \<Rightarrow> cxx_type \<Rightarrow> bool" where
  "global_co_await_awaitable E t = answers (awaiter E) (global_call E t Lvalue)"

definition awaitable :: "cxx_env \<Rightarrow> cxx_type \<Rightarrow> bool" where
  "awaitable E t \<longleftrightarrow> member_co_await_awaitable E t \<or> global_co_await_awaitable E t \<or> awaiter E t"

definition awaiter_void :: "cxx_env \<Rightarrow> cxx_type \<Rightarrow> bool" where
  "awaiter_void E t \<longleftrightarrow> awaiter E t \<and> member_call E t Lvalue M_Await_Resume = Some Ty_Void"

definition member_co_await_awaitable_void :: "cxx_env \<Rightarrow> cxx_type \<Rightarrow> bool" where
  "member_co_await_awaitable_void E t = answers (awaiter_void E) (member_call E t Lvalue M_Co_Await)"

definition global_co_await_awaitable_void :: "cxx_env \<Rightarrow> cxx_type \<Rightarrow> bool" where
  "global_co_await_awaitable_void E t = answers (awaiter_void E) (global_call E t Lvalue)"

definition awaitable_void :: "cxx_env \<Rightarrow> cxx_type \<Rightarrow> bool" where
  "awaitable_void E t \<longleftrightarrow> member_co_await_awaitable_void E t \<or> global_co_await_awaitable_void E t \<or> awaiter_void E t"

definition list_awaiter :: "cxx_env \<Rightarrow> cxx_type \<Rightarrow> bool" where
  "list_awaiter E t \<longleftrightarrow> awaiter E t \<and> list_type E t"

text \<open>\<open>get_awaiter\<close> with the template argument \<open>t\<close>, which is a reference if the argument is an lvalue: its result type is deduced, and decays.\<close>

fun forward_category :: "cxx_type \<Rightarrow> category" where
  "forward_category (Ty_LRef t) = Lvalue"
| "forward_category t = Rvalue"

definition get_awaiter :: "cxx_env \<Rightarrow> cxx_type \<Rightarrow> cxx_type option" where
  "get_awaiter E t =
     (if member_co_await_awaitable E t then map_option decay (member_call E t (forward_category t) M_Co_Await)
      else if global_co_await_awaitable E t then map_option decay (global_call E t (forward_category t))
      else if awaiter E t then Some (decay t)
      else None)"

text \<open>The members \<open>awaiter_type\<close> and \<open>awaiter_return_type\<close>; both are asked of \<open>declval\<close>, an rvalue unless its type is an lvalue reference.\<close>

definition awaitable_traits :: "cxx_env \<Rightarrow> cxx_type \<Rightarrow> (cxx_type \<times> cxx_type) option" where
  "awaitable_traits E t =
     (if awaitable E t
      then (case get_awaiter E t of
              Some a \<Rightarrow> map_option (\<lambda>r. (a, r)) (member_call E a Rvalue M_Await_Resume)
            | None \<Rightarrow> None)
      else None)"

definition lockype :: "cxx_env \<Rightarrow> cxx_type \<Rightarrow> bool" where
  "lockype E t \<longleftrightarrow> member_call E t Lvalue M_Lock = Some Ty_Void \<and> member_call E t Lvalue M_Unlock = Some Ty_Void"

fun to_handle :: "cxx_env \<Rightarrow> cxx_type \<Rightarrow> bool" where
  "to_handle E Ty_Handle = True"
| "to_handle E (Ty_Class c) = user_to_handle E c"
| "to_handle E t = False"

definition promise_concept :: "cxx_env \<Rightarrow> cxx_type \<Rightarrow> cxx_type \<Rightarrow> bool" where
  "promise_concept E t r \<longleftrightarrow>
     answers (to_handle E) (member_call E t Lvalue M_Get_Return_Object) \<and>
     answers (awaiter E) (member_call E t Lvalue M_Initial_Suspend) \<and>
     answers (awaiter E) (member_call E t Lvalue M_Final_Suspend) \<and>
     answers (awaitable E) (member_call E t Lvalue (M_Yield_Value None)) \<and>
     (member_call E t Lvalue M_Return_Void = Some Ty_Void \<or>
      member_call E t Lvalue (M_Return_Value r) = Some Ty_Void \<or>
      member_call E t Lvalue (M_Yield_Value (Some r)) \<noteq> None)"

text \<open>\<open>std::ranges::range\<close> with \<open>range_value_t\<close>, and \<open>sized_range\<close>.\<close>

fun range_value :: "cxx_env \<Rightarrow> cxx_type \<Rightarrow> cxx_type option" where
  "range_value E (Ty_LRef t) = range_value E t"
| "range_value E (Ty_RRef t) = range_value E t"
| "range_value E (Ty_Const t) = range_value E t"
| "range_value E (Ty_Vector t) = Some t"
| "range_value E (Ty_Array t n) = Some t"
| "range_value E (Ty_Class c) = user_range E c"
| "range_value E t = None"

fun sized_range :: "cxx_env \<Rightarrow> cxx_type \<Rightarrow> bool" where
  "sized_range E (Ty_LRef t) = sized_range E t"
| "sized_range E (Ty_RRef t) = sized_range E t"
| "sized_range E (Ty_Const t) = sized_range E t"
| "sized_range E (Ty_Vector t) = True"
| "sized_range E (Ty_Array t n) = True"
| "sized_range E (Ty_Class c) = (user_range E c \<noteq> None \<and> user_sized E c)"
| "sized_range E t = False"

definition range_of :: "cxx_env \<Rightarrow> cxx_type \<Rightarrow> cxx_type \<Rightarrow> bool" where
  "range_of E t v \<longleftrightarrow> range_value E t = Some v"

definition sized_range_of :: "cxx_env \<Rightarrow> cxx_type \<Rightarrow> cxx_type \<Rightarrow> bool" where
  "sized_range_of E t v \<longleftrightarrow> sized_range E t \<and> range_value E t = Some v"

section \<open>Function traits\<close>

text \<open>\<open>return_type\<close> and the argument types; \<open>None\<close> where no specialisation fits. A class is looked up by its call operator.\<close>

fun function_traits_base :: "cxx_type \<Rightarrow> (cxx_type \<times> cxx_type list) option" where
  "function_traits_base (Ty_Fun r as) = Some (r, as)"
| "function_traits_base (Ty_Ptr (Ty_Fun r as)) = Some (r, as)"
| "function_traits_base (Ty_Std_Function r as) = Some (r, as)"
| "function_traits_base (Ty_Member_Fun c r as cst vol) = Some (r, as)"
| "function_traits_base t = None"

fun function_traits :: "cxx_env \<Rightarrow> cxx_type \<Rightarrow> (cxx_type \<times> cxx_type list) option" where
  "function_traits E (Ty_Class c) = (case call_operator E c of Some m \<Rightarrow> function_traits_base m | None \<Rightarrow> None)"
| "function_traits E t = function_traits_base t"

definition arity :: "cxx_env \<Rightarrow> cxx_type \<Rightarrow> nat option" where
  "arity E f = map_option (length o snd) (function_traits E f)"

definition args_type :: "cxx_env \<Rightarrow> cxx_type \<Rightarrow> nat \<Rightarrow> cxx_type option" where
  "args_type E f i = (case function_traits E f of Some (r, as) \<Rightarrow> if i < length as then Some (as ! i) else None | None \<Rightarrow> None)"

definition function_type :: "cxx_env \<Rightarrow> cxx_type \<Rightarrow> cxx_type option" where
  "function_type E f = map_option (\<lambda>(r, as). Ty_Fun r as) (function_traits E f)"

definition stl_function_type :: "cxx_env \<Rightarrow> cxx_type \<Rightarrow> cxx_type option" where
  "stl_function_type E f = map_option (\<lambda>(r, as). Ty_Std_Function r as) (function_traits E f)"

definition pointer_type :: "cxx_env \<Rightarrow> cxx_type \<Rightarrow> cxx_type option" where
  "pointer_type E f = map_option (\<lambda>(r, as). Ty_Ptr (Ty_Fun r as)) (function_traits E f)"

definition tuple_type :: "cxx_env \<Rightarrow> cxx_type \<Rightarrow> cxx_type list option" where
  "tuple_type E f = map_option (\<lambda>(r, as). map decay as) (function_traits E f)"

text \<open>
  \<open>to_function\<close> has two overloads. The compiler forms both for a call, the first with the plain type and the
  second with the deduced one, which is a reference type if the argument \<open>t\<close> is an lvalue; the second is the better match.
\<close>

definition to_function_type :: "cxx_env \<Rightarrow> cxx_type \<Rightarrow> cxx_type option" where
  "to_function_type E t =
     (case (stl_function_type E (decay t), stl_function_type E t) of (Some _, Some f) \<Rightarrow> Some f | _ \<Rightarrow> None)"

definition to_function_pointer :: "cxx_env \<Rightarrow> cxx_type \<Rightarrow> cxx_type option" where
  "to_function_pointer E t = pointer_type E (decay t)"

section \<open>The constraints of parallel.hpp\<close>

definition parallel_tasks_void_type :: "cxx_env \<Rightarrow> cxx_type \<Rightarrow> bool" where
  "parallel_tasks_void_type E t = answers (awaitable_void E) (range_value E t)"

definition parallel_tasks_novoid_type :: "cxx_env \<Rightarrow> cxx_type \<Rightarrow> bool" where
  "parallel_tasks_novoid_type E t = answers (awaitable E) (range_value E t)"

definition reduce_operator_input :: "cxx_env \<Rightarrow> cxx_type \<Rightarrow> bool" where
  "reduce_operator_input E t \<longleftrightarrow> range_value E t \<noteq> None"

definition make_parallel_reduce_func :: "cxx_env \<Rightarrow> cxx_type \<Rightarrow> cxx_type option" where
  "make_parallel_reduce_func E f =
     (if arity E f = Some 1
      then (case (function_traits E f, args_type E f 0) of
              (Some (r, _), Some a) \<Rightarrow> Some (Ty_Std_Function r [a])
            | _ \<Rightarrow> None)
      else None)"

text \<open>
  The type of \<open>co_await when_all(tasks)\<close> on a range, and the parameters it can be passed to as an lvalue. Conversions by the
  constructor of another class, such as \<open>std::span\<close>, are left out.
\<close>

definition when_all_range_answer :: "cxx_env \<Rightarrow> cxx_type option" where
  "when_all_range_answer E = member_call E (Ty_Lib L_When_All_Awaiter [Ty_Vector Ty_Int]) Rvalue M_Await_Resume"

fun passes_to :: "cxx_type \<Rightarrow> cxx_type \<Rightarrow> bool" where
  "passes_to t (Ty_LRef (Ty_Const p)) = (p = t)"
| "passes_to t (Ty_LRef p) = (p = t)"
| "passes_to t (Ty_RRef p) = False"
| "passes_to t p = (p = t)"

definition parallel_func_type :: "cxx_env \<Rightarrow> cxx_type \<Rightarrow> cxx_type \<Rightarrow> cxx_type option" where
  "parallel_func_type E tasks reduce =
     (case reduce of
        Ty_Std_Function r [inp] \<Rightarrow>
          (if parallel_tasks_novoid_type E tasks \<and> reduce_operator_input E inp \<and>
              map_option snd (Option.bind (range_value E tasks) (awaitable_traits E)) = range_value E inp \<and>
              answers (\<lambda>t. passes_to t inp) (when_all_range_answer E)
           then Some (Ty_Lib L_Task [r]) else None)
      | _ \<Rightarrow> None)"

section \<open>Facts\<close>

definition no_free_operators :: "cxx_env \<Rightarrow> bool" where
  "no_free_operators E \<longleftrightarrow> (\<forall>c as cat. free_co_await E (Ty_Lib c as) cat = None)"

text \<open>The contract of an awaitable: it can be awaited, by an awaiter, and the expression has type \<open>r\<close>.\<close>

definition awaits_to :: "cxx_env \<Rightarrow> cxx_type \<Rightarrow> cxx_type \<Rightarrow> bool" where
  "awaits_to E t r \<longleftrightarrow> awaitable E t \<and> (\<exists>a. awaitable_traits E t = Some (a, r) \<and> awaiter E a)"

lemma awaiter_class:
  assumes "\<And>cat. lib_member E c as cat = awaiter_members susp r" "in_types susp [Ty_Void, Ty_Bool, Ty_Handle]"
  shows "awaiter E (Ty_Lib c as)"
  using assms by (simp add: awaiter_def member_call_def awaiter_members_def)

text \<open>A class that is its own awaiter.\<close>

lemma awaits_to_self:
  assumes "no_free_operators E" "\<And>cat. lib_member E c as cat = awaiter_members susp r" "in_types susp [Ty_Void, Ty_Bool, Ty_Handle]"
  shows "awaits_to E (Ty_Lib c as) r"
proof -
  have aw: "awaiter E (Ty_Lib c as)" using awaiter_class assms(2,3) .
  have "\<not> member_co_await_awaitable E (Ty_Lib c as)"
    using assms(2) by (simp add: member_co_await_awaitable_def answers_def member_call_def awaiter_members_def)
  moreover have "\<not> global_co_await_awaitable E (Ty_Lib c as)"
    using assms(1) by (simp add: global_co_await_awaitable_def answers_def global_call_def no_free_operators_def)
  ultimately have "get_awaiter E (Ty_Lib c as) = Some (Ty_Lib c as)" using aw by (simp add: get_awaiter_def decay_def)
  then show ?thesis using aw assms(2) by (simp add: awaits_to_def awaitable_traits_def awaitable_def member_call_def awaiter_members_def)
qed

text \<open>A class with a member \<open>operator co_await\<close>, whose result may depend on the value category.\<close>

lemma awaits_to_member:
  assumes "lib_member E c as Lvalue = co_await_member (Ty_Lib cl al)" "lib_member E c as Rvalue = co_await_member (Ty_Lib cr ar)"
    "\<And>cat. lib_member E cl al cat = awaiter_members susp rl" "\<And>cat. lib_member E cr ar cat = awaiter_members susp r"
    "in_types susp [Ty_Void, Ty_Bool, Ty_Handle]"
  shows "awaits_to E (Ty_Lib c as) r" "awaits_to E (Ty_LRef (Ty_Lib c as)) rl"
proof -
  have aw: "awaiter E (Ty_Lib cl al)" "awaiter E (Ty_Lib cr ar)" using awaiter_class assms(3-5) by blast+
  have m: "member_co_await_awaitable E (Ty_Lib c as)" "member_co_await_awaitable E (Ty_LRef (Ty_Lib c as))"
    using assms(1) aw(1) by (simp_all add: member_co_await_awaitable_def answers_def member_call_def co_await_member_def)
  have "get_awaiter E (Ty_Lib c as) = Some (Ty_Lib cr ar)" "get_awaiter E (Ty_LRef (Ty_Lib c as)) = Some (Ty_Lib cl al)"
    using m assms(1,2) by (simp_all add: get_awaiter_def decay_def member_call_def co_await_member_def)
  then show "awaits_to E (Ty_Lib c as) r" "awaits_to E (Ty_LRef (Ty_Lib c as)) rl"
    using m aw assms(3,4) by (simp_all add: awaits_to_def awaitable_traits_def awaitable_def member_call_def awaiter_members_def)
qed

lemma task_awaits_to:
  "awaits_to E (Ty_Lib L_Task [t]) (result_type E Rvalue t)" "awaits_to E (Ty_LRef (Ty_Lib L_Task [t])) (result_type E Lvalue t)"
  using awaits_to_member [of E L_Task "[t]" L_Task_Awaitable_L "[t]" L_Task_Awaitable_R "[t]" Ty_Handle "result_type E Lvalue t" "result_type E Rvalue t"]
  by (simp_all add: in_types_def)

lemma timer_awaits_to: "awaits_to E (Ty_Lib L_Timer []) Ty_Int"
  using awaits_to_member(1) [of E L_Timer "[]" L_Timer_Awaiter "[]" L_Timer_Awaiter "[]" Ty_Void Ty_Int Ty_Int] by (simp add: in_types_def)

text \<open>What \<open>parallel_func\<close> asks of a vector of tasks and of a reduction over a vector.\<close>

lemma returned_value_int: "returned_value t = Ty_Int \<longleftrightarrow> t = Ty_Int \<or> t = Ty_Const Ty_Int"
  by (cases t rule: returned_value.cases) auto

lemma result_type_int: "result_type E Rvalue t = Ty_Int \<longleftrightarrow> t = Ty_Int \<or> t = Ty_Const Ty_Int"
  by (auto simp: result_type_def returned_value_int)

lemma parallel_func_vector:
  assumes "inp \<in> {Ty_Vector u, Ty_LRef (Ty_Vector u), Ty_LRef (Ty_Const (Ty_Vector u))}"
  shows "parallel_func_type E (Ty_LRef (Ty_Vector (Ty_Lib L_Task [t]))) (Ty_Std_Function r [inp]) =
    (if (t = Ty_Int \<or> t = Ty_Const Ty_Int) \<and> u = Ty_Int then Some (Ty_Lib L_Task [r]) else None)"
proof -
  have inp: "range_value E inp = Some u" "passes_to (Ty_Vector Ty_Int) inp \<longleftrightarrow> u = Ty_Int" using assms by auto
  obtain a where task: "awaitable E (Ty_Lib L_Task [t])" "awaitable_traits E (Ty_Lib L_Task [t]) = Some (a, result_type E Rvalue t)"
    using task_awaits_to(1) [of E t] unfolding awaits_to_def by blast
  have "when_all_range_answer E = Some (Ty_Vector Ty_Int)" by (simp add: when_all_range_answer_def member_call_def awaiter_members_def)
  with inp task have "parallel_func_type E (Ty_LRef (Ty_Vector (Ty_Lib L_Task [t]))) (Ty_Std_Function r [inp]) =
    (if result_type E Rvalue t = u \<and> u = Ty_Int then Some (Ty_Lib L_Task [r]) else None)"
    by (simp add: parallel_func_type_def parallel_tasks_novoid_type_def reduce_operator_input_def answers_def)
  then show ?thesis using result_type_int [of E t] by auto
qed

text \<open>Every way to write a function has the traits of the plain function type; and the traits of what they make of it are the same again.\<close>

lemma function_traits_stable:
  assumes "function_traits E f = Some (r, as)"
  shows "stl_function_type E f = Some (Ty_Std_Function r as)" "function_traits E (Ty_Std_Function r as) = Some (r, as)"
    "pointer_type E f = Some (Ty_Ptr (Ty_Fun r as))" "function_traits E (Ty_Ptr (Ty_Fun r as)) = Some (r, as)"
    "arity E f = Some (length as)" "i < length as \<Longrightarrow> args_type E f i = Some (as ! i)" "length as \<le> i \<Longrightarrow> args_type E f i = None"
  using assms by (simp_all add: stl_function_type_def pointer_type_def arity_def args_type_def)

text \<open>\<open>to_function\<close> makes the function object of a temporary; with an lvalue it does not compile.\<close>

lemma to_function_rvalue: "\<not> is_ref f \<Longrightarrow> \<not> is_const f \<Longrightarrow> to_function_type E f = stl_function_type E f"
  by (cases f) (auto simp: to_function_type_def decay_def split: option.splits)

lemma to_function_lvalue: "to_function_type E (Ty_LRef f) = None"
  by (simp add: to_function_type_def stl_function_type_def split: option.splits)

lemma make_parallel_reduce_func_eq:
  assumes "function_traits E f = Some (r, as)"
  shows "make_parallel_reduce_func E f = (case as of [a] \<Rightarrow> Some (Ty_Std_Function r [a]) | _ \<Rightarrow> None)"
  using function_traits_stable(5,6) [OF assms] assms by (auto simp: make_parallel_reduce_func_def split: list.splits)

text \<open>The concepts whose names begin with \<open>all\<close> ask for one, not for all.\<close>

lemma all_same_type_any: "all_same_type Ty_Int [Ty_Bool, Ty_Int]" "all_void_type [Ty_Void, Ty_Int]" "\<not> all_same_type Ty_Int []"
  by (simp_all add: all_same_type_def all_void_type_def)

text \<open>The library's promise is not a \<open>promise\<close> in the sense of \<open>concepts/promise.hpp\<close>, which asks for a handle as the return object.\<close>

lemma library_promise_is_no_promise: "\<not> promise_concept E (Ty_Lib L_Promise [t]) r"
  by (simp add: promise_concept_def member_call_def promise_member_def answers_def)

lemma lockypes: "lockype E (Ty_Lib L_Spinlock [])" "\<not> lockype E (Ty_Lib L_Mutex [])"
  by (simp_all add: lockype_def member_call_def lock_members_def mutex_members_def)

lemma task_awaitable_void: 
  assumes "no_free_operators E"
  shows "awaitable_void E (Ty_Lib L_Task [t]) \<longleftrightarrow> t = Ty_Void"
proof -
  have "pod_type E t \<Longrightarrow> returned_value t \<noteq> Ty_Void" by (cases t rule: returned_value.cases) auto
  then have "result_type E Lvalue t = Ty_Void \<longleftrightarrow> t = Ty_Void" by (auto simp: result_type_def)
  then show ?thesis using assms
    by (auto simp: awaitable_void_def member_co_await_awaitable_void_def global_co_await_awaitable_void_def awaiter_void_def answers_def
        awaiter_def member_call_def global_call_def no_free_operators_def co_await_member_def awaiter_members_def in_types_def)
qed

definition plain_env :: cxx_env where
  "plain_env = \<lparr>user_member = (\<lambda>_ _ _ _. None), free_co_await = (\<lambda>_ _. None),
     call_operator = (\<lambda>c. if c = ''sum'' then Some (Ty_Member_Fun c Ty_Int [Ty_LRef (Ty_Vector Ty_Int)] True False) else None),
     user_range = (\<lambda>_. None), user_sized = (\<lambda>_. False), user_pod = (\<lambda>_. False), user_movable = (\<lambda>_. True), user_to_handle = (\<lambda>_. False)\<rparr>"

section \<open>Properties\<close>

text \<open>
  The objects of the library that are made to be awaited, apart from the other answers of \<open>when_all\<close>, satisfy the concept \<open>awaitable\<close>; \<open>get_awaiter\<close> answers
  something that satisfies \<open>awaiter\<close>, and \<open>awaitable_traits\<close> names the type of the result: what a task was declared with if that is plain data, and a
  reference into the frame of the task otherwise; nothing for a wait, a guard for \<open>lock_guard\<close>, \<open>bool\<close> for a
  send and an optional value for a receive, \<open>int\<close> for I/O and timers.
\<close>

lemma library_awaitables_typed:
  assumes "no_free_operators E"
  shows "awaits_to E (Ty_Lib L_Task [t]) (result_type E Rvalue t) \<and> awaits_to E (Ty_LRef (Ty_Lib L_Task [t])) (result_type E Lvalue t) \<and>
    awaits_to E (Ty_Lib L_Event_Awaiter [t]) t \<and> awaits_to E (Ty_Lib L_Latch_Awaiter []) Ty_Void \<and>
    awaits_to E (Ty_Lib L_Wait_Group_Awaiter []) Ty_Void \<and> awaits_to E (Ty_Lib L_Lock_Awaiter []) Ty_Void \<and>
    awaits_to E (Ty_Lib L_Guard_Awaiter []) (Ty_Lib L_Lock_Guard []) \<and> awaits_to E (Ty_Lib L_Cv_Awaiter []) Ty_Void \<and>
    awaits_to E (Ty_Lib L_Send_Awaiter [t]) Ty_Bool \<and> awaits_to E (Ty_Lib L_Recv_Awaiter [t]) (Ty_Optional t) \<and>
    awaits_to E (Ty_Lib L_Io_Awaiter []) Ty_Int \<and> awaits_to E (Ty_Lib L_Timer []) Ty_Int \<and>
    awaits_to E (Ty_Lib L_When_All_Awaiter [Ty_Int]) (Ty_Array Ty_Int 1)"
  by (intro conjI task_awaits_to timer_awaits_to; rule awaits_to_self [OF assms], simp, simp add: in_types_def)


text \<open>The call in \<open>parallel_calc.cpp\<close>, whose reduction is a lambda over \<open>std::vector<int>&\<close>.\<close>

lemma parallel_calc_compiles:
  "Option.bind (make_parallel_reduce_func plain_env (Ty_Class ''sum'')) (parallel_func_type plain_env (Ty_LRef (Ty_Vector (Ty_Lib L_Task [Ty_Int])))) =
     Some (Ty_Lib L_Task [Ty_Int])"
  by (simp add: make_parallel_reduce_func_eq plain_env_def parallel_func_vector)

end
