(* ===== verification/Memory.thy ===== *)
theory Memory
  imports Scheduler Task
begin

text \<open>
  Where coroutine frames live: \<open>coro/allocator/memory.hpp\<close>, the \<open>operator new\<close> and \<open>operator delete\<close>
  of \<open>promise_base\<close> in \<open>coro/task.hpp\<close>, and the pointer \<open>ginfo.mem_alloc\<close>, which \<open>scheduler::init\<close> sets. The
  heap is the map from the addresses of the allocated blocks to their sizes. Which address \<open>malloc\<close>
  chooses is a function \<open>place\<close> of the heap and the size; none if there is no room.
\<close>

section \<open>The allocator\<close>

type_synonym heap = "nat \<Rightarrow> nat option"
type_synonym placement = "heap \<Rightarrow> nat \<Rightarrow> nat option"

definition malloc :: "placement \<Rightarrow> nat \<Rightarrow> heap \<Rightarrow> nat \<times> heap" where
  "malloc place sz hp = (case place hp sz of None \<Rightarrow> (0, hp) | Some a \<Rightarrow> (a, hp(a \<mapsto> sz)))"

definition free :: "nat \<Rightarrow> heap \<Rightarrow> heap res" where
  "free p hp = (if p = 0 then Inr hp else if hp p = None then Inl Use_After_Free else Inr (hp(p := None)))"

text \<open>The template is specialised for the configured strategy; the primary template allocates nothing.\<close>

definition allocate :: "placement \<Rightarrow> memory_allocator \<Rightarrow> nat \<Rightarrow> heap \<Rightarrow> nat \<times> heap" where
  "allocate place strategy sz hp = (if strategy = kMemoryAllocator then malloc place sz hp else (0, hp))"

definition release :: "memory_allocator \<Rightarrow> nat \<Rightarrow> heap \<Rightarrow> heap res" where
  "release strategy p hp = (if strategy = kMemoryAllocator then free p hp else Inr hp)"

section \<open>Frames\<close>

definition promise_operator_new :: "placement \<Rightarrow> nat \<Rightarrow> world \<Rightarrow> heap \<Rightarrow> (nat \<times> heap) res" where
  "promise_operator_new place sz w hp =
     (case ginfo_mem_alloc w of None \<Rightarrow> Inl Null_Deref | Some a \<Rightarrow> Inr (allocate place a sz hp))"

definition promise_operator_delete :: "nat \<Rightarrow> world \<Rightarrow> heap \<Rightarrow> heap res" where
  "promise_operator_delete p w hp =
     (case ginfo_mem_alloc w of None \<Rightarrow> Inl Null_Deref | Some a \<Rightarrow> release a p hp)"

text \<open>
  The call of a coroutine function: the frame is allocated, the promise constructed in it and the
  task made. Nothing tests the address, so that a null pointer is written to.
\<close>

definition coroutine_create :: "placement \<Rightarrow> nat \<Rightarrow> 'a result_kind \<Rightarrow> world \<Rightarrow> 'a frames \<times> heap \<Rightarrow> (task \<times> 'a frames \<times> heap) res" where
  "coroutine_create place sz K w s =
     (case s of (fs, hp) \<Rightarrow>
        bindE (promise_operator_new place sz w hp) (\<lambda>(p, hp).
        if p = 0 then Inl Null_Deref else Inr (get_return_object p, fs(p \<mapsto> promise_new K), hp)))"

text \<open>
  The program of \<open>Task\<close> over this heap: a task is created through the allocator, and a step that destroys a
  frame gives its block back.
\<close>

inductive frame_step :: "placement \<Rightarrow> nat \<Rightarrow> world \<Rightarrow> 'a task_sys \<times> heap \<Rightarrow> 'a task_sys \<times> heap \<Rightarrow> bool" for place sz w where
  create: "ts_tasks s x = None \<Longrightarrow> coroutine_create place sz K w (ts_frames s, hp) = Inr (t, fs, hp') \<Longrightarrow>
    frame_step place sz w (s, hp) (s\<lparr>ts_tasks := (ts_tasks s)(x \<mapsto> t), ts_frames := fs\<rparr>, hp')"
| keep: "task_step s t \<Longrightarrow> dom (ts_frames t) = dom (ts_frames s) \<Longrightarrow> frame_step place sz w (s, hp) (t, hp)"
| destroy: "task_step s t \<Longrightarrow> ts_frames s h \<noteq> None \<Longrightarrow> dom (ts_frames t) = dom (ts_frames s) - {h} \<Longrightarrow>
    promise_operator_delete h w hp = Inr hp' \<Longrightarrow> frame_step place sz w (s, hp) (t, hp')"

inductive frame_reach :: "placement \<Rightarrow> nat \<Rightarrow> world \<Rightarrow> 'a task_sys \<times> heap \<Rightarrow> bool" for place sz w where
  init: "frame_reach place sz w (task_sys_init, \<lambda>_. None)"
| step: "frame_reach place sz w s \<Longrightarrow> frame_step place sz w s t \<Longrightarrow> frame_reach place sz w t"

section \<open>Facts\<close>

text \<open>What the C library promises: the block is new and its address is not null.\<close>

definition fresh_place :: "placement \<Rightarrow> bool" where
  "fresh_place place \<longleftrightarrow> (\<forall>hp n a. place hp n = Some a \<longrightarrow> a \<noteq> 0 \<and> hp a = None)"

lemma init_sets_allocator: "init_impl efds w = Inr w' \<Longrightarrow> ginfo_mem_alloc w' = Some kMemoryAllocator"
  by (auto simp: init_impl_def Let_def)

lemma create_before_init: "ginfo_mem_alloc w = None \<Longrightarrow> coroutine_create place sz K w s = Inl Null_Deref"
  by (cases s) (simp add: coroutine_create_def promise_operator_new_def)

lemma create_out_of_memory:
  assumes "place hp sz = None"
  shows "coroutine_create place sz K w (fs, hp) = Inl Null_Deref"
  using assms by (simp add: coroutine_create_def promise_operator_new_def allocate_def malloc_def split: option.splits)

lemma create_fresh:
  assumes "fresh_place place" "coroutine_create place sz K w (fs, hp) = Inr (t, fs', hp')" "dom hp = dom fs"
  shows "\<exists>h. t = get_return_object h \<and> h \<noteq> 0 \<and> fs h = None \<and> fs' = fs(h \<mapsto> promise_new K) \<and> hp' = hp(h \<mapsto> sz)"
proof -
  from assms(2) obtain h where h: "place hp sz = Some h" "t = get_return_object h" "fs' = fs(h \<mapsto> promise_new K)" "hp' = hp(h \<mapsto> sz)"
    by (auto simp: coroutine_create_def promise_operator_new_def allocate_def malloc_def split: option.splits if_splits)
  have "h \<noteq> 0" "hp h = None" using assms(1) h(1) unfolding fresh_place_def by blast+
  moreover from this(2) have "fs h = None" using assms(3) by (metis domIff)
  ultimately show ?thesis using h by blast
qed

lemma delete_live:
  assumes "ginfo_mem_alloc w = Some kMemoryAllocator" "hp h = Some n" "h \<noteq> 0"
  shows "promise_operator_delete h w hp = Inr (hp(h := None))"
  using assms by (simp add: promise_operator_delete_def release_def free_def)

text \<open>Raw handles refer to frames that are not detached: nobody destroys them.\<close>

definition raw_alive :: "'a task_sys \<Rightarrow> bool" where
  "raw_alive s \<longleftrightarrow> (\<forall>h \<in> ts_raw s. \<exists>f. ts_frames s h = Some f \<and> \<not> fr_detached f)"

lemma raw_alive_step:
  assumes "task_step s t" "task_inv s" "raw_alive s"
  shows "raw_alive t"
proof -
  have own: "h \<notin> ts_raw s" "\<exists>f. ts_frames s h = Some f \<and> \<not> fr_detached f" if "ts_tasks s x = Some (Some h)" for x h
    using assms(2) that by (auto simp: task_inv_def)
  from assms(1,3) own show ?thesis
  proof cases
    case (release x t hdl t')
    then show ?thesis using assms(3) own by (cases hdl) (auto simp: raw_alive_def task_handle_rvalue_def)
  next
    case (clean_up h f fs)
    then show ?thesis using assms(3) by (fastforce simp: raw_alive_def task_defs split: if_splits)
  qed (auto simp: raw_alive_def task_defs get_return_object_def promise_new_def split: option.splits if_splits)
qed

lemma raw_alive_reach: "task_reach s \<Longrightarrow> raw_alive s"
proof (induction rule: task_reach.induct)
  case init
  show ?case by (simp add: raw_alive_def task_sys_init_def)
next
  case (step s t)
  then show ?case using raw_alive_step task_reach_inv by blast
qed

text \<open>A step of the program keeps the frames, destroys one, or makes one.\<close>

lemma task_step_frames:
  assumes "task_step s t"
  shows "dom (ts_frames t) = dom (ts_frames s) \<or> (\<exists>h. ts_frames s h \<noteq> None \<and> dom (ts_frames t) = dom (ts_frames s) - {h}) \<or>
    (\<exists>h. ts_frames s h = None \<and> dom (ts_frames t) = insert h (dom (ts_frames s)))"
  using assms by cases (auto simp: task_defs split: option.splits if_splits)

definition frame_inv :: "'a task_sys \<times> heap \<Rightarrow> bool" where
  "frame_inv = (\<lambda>(s, hp). task_reach s \<and> dom hp = dom (ts_frames s) \<and> hp 0 = None)"

lemma frame_step_inv:
  assumes "fresh_place place" "ginfo_mem_alloc w = Some kMemoryAllocator" "frame_step place sz w s t" "frame_inv s"
  shows "frame_inv t"
  using assms(3)
proof cases
  case (create s x K hp t fs hp')
  then have inv: "task_reach s" "dom hp = dom (ts_frames s)" "hp 0 = None" using assms(4) by (simp_all add: frame_inv_def)
  obtain h where h: "t = get_return_object h" "h \<noteq> 0" "ts_frames s h = None" "fs = (ts_frames s)(h \<mapsto> promise_new K)" "hp' = hp(h \<mapsto> sz)"
    using create_fresh [OF assms(1) create(4) inv(2)] by blast
  have "h \<notin> ts_raw s" using raw_alive_reach [OF inv(1)] h(3) by (auto simp: raw_alive_def)
  from task_reach.step [OF inv(1) task_step.create [of s x h K, OF create(3) h(3) this]] show ?thesis
    using create(2) h inv by (simp add: frame_inv_def)
next
  case (keep s t hp)
  then show ?thesis using assms(4) by (auto simp: frame_inv_def intro: task_reach.step)
next
  case (destroy s t h hp hp')
  then have inv: "task_reach s" "dom hp = dom (ts_frames s)" "hp 0 = None" using assms(4) by (simp_all add: frame_inv_def)
  obtain n where n: "hp h = Some n" using inv(2) destroy(4) by (metis domD domI not_None_eq)
  have "h \<noteq> 0" using n inv(3) by (metis option.distinct(1))
  then have "hp' = hp(h := None)" using delete_live [of w hp h n] assms(2) n destroy(6) by simp
  then show ?thesis using destroy inv task_reach.step by (auto simp: frame_inv_def)
qed

lemma frame_reach_inv:
  assumes "fresh_place place" "ginfo_mem_alloc w = Some kMemoryAllocator" "frame_reach place sz w s"
  shows "frame_inv s"
  using assms(3)
proof (induction rule: frame_reach.induct)
  case init
  show ?case by (simp add: frame_inv_def task_reach.init) (simp add: task_sys_init_def)
qed (rule frame_step_inv [OF assms(1,2)])

text \<open>Every step of the program that makes no frame can be taken over the heap: giving back never fails.\<close>

lemma frame_step_exists:
  assumes "ginfo_mem_alloc w = Some kMemoryAllocator" "frame_inv (s, hp)" "task_step s t" "dom (ts_frames t) \<subseteq> dom (ts_frames s)"
  shows "\<exists>hp'. frame_step place sz w (s, hp) (t, hp')"
proof -
  have inv: "dom hp = dom (ts_frames s)" "hp 0 = None" using assms(2) by (simp_all add: frame_inv_def)
  consider "dom (ts_frames t) = dom (ts_frames s)" | h where "ts_frames s h \<noteq> None" "dom (ts_frames t) = dom (ts_frames s) - {h}"
    using task_step_frames [OF assms(3)] assms(4) by blast
  then show ?thesis
  proof cases
    case 1
    from frame_step.keep [OF assms(3) 1] show ?thesis by blast
  next
    case (2 h)
    then obtain n where n: "hp h = Some n" using inv(1) by (metis domD domI not_None_eq)
    moreover have "h \<noteq> 0" using n inv(2) by (metis option.distinct(1))
    ultimately show ?thesis using frame_step.destroy [OF assms(3) 2] delete_live [OF assms(1)] by blast
  qed
qed

section \<open>Properties\<close>

text \<open>
  C12. Frames and blocks correspond once the scheduler has been initialised: in every run of a program that creates tasks
  through the allocator, the heap holds exactly one block for every live frame; the run is one of the program without a heap, so that
  its frames have one owner; and whatever a task does to its frame next, giving the block
  back succeeds, so that no block is freed twice and the block of a destroyed frame is given back. At the start of the program, before
  \<open>scheduler::init\<close>, no coroutine can be created: the allocator is a null pointer.
\<close>

theorem frames_in_allocator:
  assumes "fresh_place place" and "init_impl efds w0 = Inr w" and "frame_reach place sz w (s, hp)"
  shows "dom hp = dom (ts_frames s) \<and> task_reach s \<and>
    (\<forall>t. task_step s t \<and> dom (ts_frames t) \<subseteq> dom (ts_frames s) \<longrightarrow> (\<exists>hp'. frame_step place sz w (s, hp) (t, hp'))) \<and>
    coroutine_create place sz K world_start fh = Inl Null_Deref"
proof -
  have w: "ginfo_mem_alloc w = Some kMemoryAllocator" by (rule init_sets_allocator [OF assms(2)])
  have inv: "frame_inv (s, hp)" by (rule frame_reach_inv [OF assms(1) w assms(3)])
  have "\<exists>hp'. frame_step place sz w (s, hp) (t, hp')" if "task_step s t" "dom (ts_frames t) \<subseteq> dom (ts_frames s)" for t
    by (rule frame_step_exists [OF w inv that])
  moreover have "coroutine_create place sz K world_start fh = Inl Null_Deref"
    by (rule create_before_init) (simp add: world_start_def)
  ultimately show ?thesis using inv by (simp add: frame_inv_def)
qed

text \<open>A bump allocator with room for a hundred addresses, and a program that has created one task.\<close>

definition bump :: placement where
  "bump hp n = find (\<lambda>a. hp a = None) [1..<101]"

lemma bump_fresh: "fresh_place bump"
  by (auto simp: fresh_place_def bump_def find_Some_iff)

theorem frames_in_allocator_witness:
  "\<exists>w hp. init_impl [3] demo_world = Inr w \<and>
     frame_reach bump 64 w (task_sys_init\<lparr>ts_tasks := [7 \<mapsto> Some 1], ts_frames := [1 \<mapsto> (promise_new (Plain 0) :: int frame)]\<rparr>, hp) \<and> dom hp = {1}"
proof -
  obtain w where w: "init_impl [3] demo_world = Inr w" using init_impl_spec [of "[3]" 1 demo_world] by (auto simp: kQueCap_def)
  let ?s = "task_sys_init\<lparr>ts_tasks := [7 \<mapsto> Some 1], ts_frames := [1 \<mapsto> (promise_new (Plain 0) :: int frame)]\<rparr>"
  let ?hp = "[1 \<mapsto> 64] :: heap"
  have "bump (\<lambda>_. None) 64 = Some 1" by (simp add: bump_def upt_conv_Cons)
  then have "coroutine_create bump 64 (Plain 0) w (\<lambda>_. None, \<lambda>_. None) = Inr (Some 1, [1 \<mapsto> (promise_new (Plain 0) :: int frame)], ?hp)"
    using init_sets_allocator [OF w]
    by (simp add: coroutine_create_def promise_operator_new_def allocate_def malloc_def get_return_object_def)
  then have "frame_step bump 64 w (task_sys_init, \<lambda>_. None) (?s, ?hp)"
    using frame_step.create [of task_sys_init 7 bump 64 "Plain 0" w "\<lambda>_. None" "Some 1" "[1 \<mapsto> promise_new (Plain 0)]" ?hp] by (simp add: task_sys_init_def)
  from frame_reach.step [OF frame_reach.init this] have reach: "frame_reach bump 64 w (?s, ?hp)" .
  from frames_in_allocator [OF bump_fresh w reach] have "dom ?hp = dom (ts_frames ?s)" by (rule conjunct1)
  then have "dom ?hp = {1}" by simp
  with w reach show ?thesis by blast
qed

end
