(* ===== verification/Logging.thy ===== *)
theory Logging
  imports Prelude
begin

text \<open>
  \<open>coro/log.hpp\<close>: the six log functions, which write to the default logger of spdlog and, if \<open>LOGTOFILE\<close> is defined,
  to a file logger that the first call constructs. Of spdlog the model has the threshold and the sink of a logger; a message
  is its level and its text after formatting. The configuration (\<open>config.h.in\<close>) is a record, since it is chosen when the
  program is built.
\<close>

section \<open>Levels and loggers\<close>

datatype log_level = Lv_Trace | Lv_Debug | Lv_Info | Lv_Warn | Lv_Err | Lv_Critical | Lv_Off

fun level_num :: "log_level \<Rightarrow> nat" where
  "level_num Lv_Trace = 0"
| "level_num Lv_Debug = 1"
| "level_num Lv_Info = 2"
| "level_num Lv_Warn = 3"
| "level_num Lv_Err = 4"
| "level_num Lv_Critical = 5"
| "level_num Lv_Off = 6"

instantiation log_level :: linorder
begin

definition less_eq_log_level :: "log_level \<Rightarrow> log_level \<Rightarrow> bool" where
  "less_eq_log_level a b \<longleftrightarrow> level_num a \<le> level_num b"

definition less_log_level :: "log_level \<Rightarrow> log_level \<Rightarrow> bool" where
  "less_log_level a b \<longleftrightarrow> level_num a < level_num b"

instance
proof
  fix a b :: log_level
  show "a \<le> b \<Longrightarrow> b \<le> a \<Longrightarrow> a = b" by (cases a; cases b) (simp_all add: less_eq_log_level_def)
qed (auto simp: less_eq_log_level_def less_log_level_def)

end

type_synonym log_line = "log_level \<times> string"

record spd_logger =
  sl_level :: log_level
  sl_flush_level :: log_level
  sl_lines :: "log_line list"

definition default_logger :: spd_logger where
  "default_logger = \<lparr>sl_level = Lv_Info, sl_flush_level = Lv_Off, sl_lines = []\<rparr>"

definition should_log :: "spd_logger \<Rightarrow> log_level \<Rightarrow> bool" where
  "should_log lg lv \<longleftrightarrow> sl_level lg \<le> lv"

definition spd_log :: "log_level \<Rightarrow> string \<Rightarrow> spd_logger \<Rightarrow> spd_logger" where
  "spd_log lv msg lg = (if should_log lg lv then lg\<lparr>sl_lines := sl_lines lg @ [(lv, msg)]\<rparr> else lg)"

section \<open>The library's functions\<close>

record log_config =
  LOG_LEVEL :: log_level
  LOGTOFILE :: bool

definition default_config :: log_config where
  "default_config = \<lparr>LOG_LEVEL = Lv_Info, LOGTOFILE = False\<rparr>"

text \<open>\<open>lg_file\<close> is the static object in \<open>get_logger\<close>, none before the first call.\<close>

record log_state =
  lg_console :: spd_logger
  lg_file :: "spd_logger option"

definition log_start :: log_state where
  "log_start = \<lparr>lg_console = default_logger, lg_file = None\<rparr>"

text \<open>
  The constructor opens the file (\<open>opens\<close> says whether that works) and truncates it; spdlog throws if it cannot, in a
  function that is \<open>noexcept\<close>.
\<close>

definition logger_new :: "log_config \<Rightarrow> bool \<Rightarrow> spd_logger res" where
  "logger_new cfg opens =
     (if \<not> opens then Inl Terminate else Inr (default_logger\<lparr>sl_lines := [], sl_level := LOG_LEVEL cfg\<rparr>))"

definition logger_destruct :: "log_config \<Rightarrow> spd_logger \<Rightarrow> spd_logger" where
  "logger_destruct cfg lg = lg\<lparr>sl_flush_level := LOG_LEVEL cfg\<rparr>"

definition get_logger :: "log_config \<Rightarrow> bool \<Rightarrow> log_state \<Rightarrow> log_state res" where
  "get_logger cfg opens s =
     (case lg_file s of
        Some _ \<Rightarrow> Inr s
      | None \<Rightarrow> bindE (logger_new cfg opens) (\<lambda>lg. Inr (s\<lparr>lg_file := Some lg\<rparr>)))"

text \<open>What the six functions share: the test at compile time, the line for the file, the line for the console.\<close>

definition log_at :: "log_level \<Rightarrow> log_config \<Rightarrow> bool \<Rightarrow> string \<Rightarrow> log_state \<Rightarrow> log_state res" where
  "log_at lv cfg opens msg s =
     (if LOG_LEVEL cfg \<le> lv
      then bindE (if LOGTOFILE cfg
                  then bindE (get_logger cfg opens s) (\<lambda>s. Inr (s\<lparr>lg_file := map_option (spd_log lv msg) (lg_file s)\<rparr>))
                  else Inr s)
             (\<lambda>s. Inr (s\<lparr>lg_console := spd_log lv msg (lg_console s)\<rparr>))
      else Inr s)"

definition log_trace :: "log_config \<Rightarrow> bool \<Rightarrow> string \<Rightarrow> log_state \<Rightarrow> log_state res" where
  "log_trace = log_at Lv_Trace"

definition log_debug :: "log_config \<Rightarrow> bool \<Rightarrow> string \<Rightarrow> log_state \<Rightarrow> log_state res" where
  "log_debug = log_at Lv_Debug"

definition log_info :: "log_config \<Rightarrow> bool \<Rightarrow> string \<Rightarrow> log_state \<Rightarrow> log_state res" where
  "log_info = log_at Lv_Info"

definition log_warn :: "log_config \<Rightarrow> bool \<Rightarrow> string \<Rightarrow> log_state \<Rightarrow> log_state res" where
  "log_warn = log_at Lv_Warn"

definition log_error :: "log_config \<Rightarrow> bool \<Rightarrow> string \<Rightarrow> log_state \<Rightarrow> log_state res" where
  "log_error = log_at Lv_Err"

definition log_critical :: "log_config \<Rightarrow> bool \<Rightarrow> string \<Rightarrow> log_state \<Rightarrow> log_state res" where
  "log_critical = log_at Lv_Critical"

text \<open>The calls a program makes; a call of level \<open>Lv_Off\<close> does not exist.\<close>

fun log_call :: "log_config \<Rightarrow> bool \<Rightarrow> log_line \<Rightarrow> log_state \<Rightarrow> log_state res" where
  "log_call cfg opens (Lv_Trace, msg) s = log_trace cfg opens msg s"
| "log_call cfg opens (Lv_Debug, msg) s = log_debug cfg opens msg s"
| "log_call cfg opens (Lv_Info, msg) s = log_info cfg opens msg s"
| "log_call cfg opens (Lv_Warn, msg) s = log_warn cfg opens msg s"
| "log_call cfg opens (Lv_Err, msg) s = log_error cfg opens msg s"
| "log_call cfg opens (Lv_Critical, msg) s = log_critical cfg opens msg s"
| "log_call cfg opens (Lv_Off, msg) s = Inr s"

section \<open>Facts\<close>

lemmas log_defs = log_trace_def log_debug_def log_info_def log_warn_def log_error_def log_critical_def

text \<open>The lines of \<open>calls\<close> from level \<open>lv\<close> on.\<close>

definition lines_from :: "log_level \<Rightarrow> log_line list \<Rightarrow> log_line list" where
  "lines_from lv calls = filter (\<lambda>(l, _). lv \<le> l \<and> l \<noteq> Lv_Off) calls"

lemma log_call_eq: "log_call cfg opens (lv, msg) s = (if lv = Lv_Off then Inr s else log_at lv cfg opens msg s)"
  by (cases lv) (simp_all add: log_defs)

text \<open>The state after \<open>calls\<close>, written without the state.\<close>

definition logged :: "log_config \<Rightarrow> log_line list \<Rightarrow> log_state" where
  "logged cfg calls =
     \<lparr>lg_console = default_logger\<lparr>sl_lines := lines_from (max (LOG_LEVEL cfg) Lv_Info) calls\<rparr>,
      lg_file = (if LOGTOFILE cfg \<and> lines_from (LOG_LEVEL cfg) calls \<noteq> []
                 then Some (default_logger\<lparr>sl_level := LOG_LEVEL cfg, sl_lines := lines_from (LOG_LEVEL cfg) calls\<rparr>) else None)\<rparr>"

lemma log_call_logged:
  assumes "LOGTOFILE cfg \<longrightarrow> opens \<or> lines_from (LOG_LEVEL cfg) calls \<noteq> []"
  shows "log_call cfg opens c (logged cfg calls) = Inr (logged cfg (calls @ [c]))"
  using assms by (cases c)
    (auto simp: log_call_eq log_at_def logged_def lines_from_def get_logger_def logger_new_def spd_log_def should_log_def default_logger_def)

lemma log_run:
  "foldE (log_call cfg opens) calls (logged cfg []) =
     (if LOGTOFILE cfg \<and> \<not> opens \<and> lines_from (LOG_LEVEL cfg) calls \<noteq> [] then Inl Terminate else Inr (logged cfg calls))"
proof (induction calls rule: rev_induct)
  case (snoc c calls)
  show ?case
  proof (cases "LOGTOFILE cfg \<and> \<not> opens")
    case False
    then show ?thesis using snoc log_call_logged [of cfg opens calls c] by (auto simp: foldE_append)
  next
    case True
    show ?thesis
    proof (cases "lines_from (LOG_LEVEL cfg) calls = []")
      case none: True
      have "log_call cfg opens c (logged cfg calls) =
        (if lines_from (LOG_LEVEL cfg) [c] \<noteq> [] then Inl Terminate else Inr (logged cfg (calls @ [c])))"
        using True none by (cases c)
          (auto simp: log_call_eq log_at_def logged_def lines_from_def get_logger_def logger_new_def)
      then show ?thesis using snoc True none by (simp add: foldE_append lines_from_def)
    next
      case False
      then show ?thesis using snoc True by (simp add: foldE_append lines_from_def)
    qed
  qed
qed (simp add: lines_from_def)

section \<open>Properties\<close>

text \<open>
  C34. Whatever a program logs: the file, if it is configured, gets exactly the lines from the configured level on, in order; the console gets those of
  them that are at least of level \<open>info\<close>, because the level of spdlog's default logger is not changed. The one failure
  is a log file that cannot be opened, which ends the program with the first line that is due.
\<close>

theorem log_lines_exact:
  "foldE (log_call cfg opens) calls log_start =
     (if LOGTOFILE cfg \<and> \<not> opens \<and> lines_from (LOG_LEVEL cfg) calls \<noteq> [] then Inl Terminate
      else Inr \<lparr>lg_console = default_logger\<lparr>sl_lines := lines_from (max (LOG_LEVEL cfg) Lv_Info) calls\<rparr>,
        lg_file = (if LOGTOFILE cfg \<and> lines_from (LOG_LEVEL cfg) calls \<noteq> []
          then Some (default_logger\<lparr>sl_level := LOG_LEVEL cfg, sl_lines := lines_from (LOG_LEVEL cfg) calls\<rparr>) else None)\<rparr>)"
proof -
  have "log_start = logged cfg []" by (simp add: log_start_def logged_def lines_from_def default_logger_def)
  then show ?thesis using log_run [of cfg opens calls] unfolding logged_def by simp
qed

end
