(* ===== verification/Io_Requests.thy ===== *)
theory Io_Requests
  imports Io
begin

text \<open>
  Every kind of request of \<open>io_awaiter.hpp\<close> and \<open>timer.hpp\<close> from start to end, and \<open>examples/timer.cpp\<close>,
  which awaits a timer.
\<close>

section \<open>Requests\<close>

datatype io_request =
    Rq_Noop
  | Rq_Stdin nat int int
  | Rq_Accept int int int
  | Rq_Read int nat int int
  | Rq_Write int nat int int
  | Rq_Close int
  | Rq_Connect int
  | Rq_Timer timer

text \<open>The awaiter that a coroutine constructs for the request, at the address \<open>a\<close>.\<close>

fun request_new :: "nat \<Rightarrow> io_request \<Rightarrow> io_state \<Rightarrow> io_state res" where
  "request_new a Rq_Noop = noop_awaiter_new a"
| "request_new a (Rq_Stdin len io_flag fl) = stdin_awaiter_new a len io_flag fl"
| "request_new a (Rq_Accept fd io_flag fl) = tcp_accept_awaiter_new a fd io_flag fl"
| "request_new a (Rq_Read fd len io_flag fl) = tcp_read_awaiter_new a fd len io_flag fl"
| "request_new a (Rq_Write fd len io_flag fl) = tcp_write_awaiter_new a fd len io_flag fl"
| "request_new a (Rq_Close fd) = tcp_close_awaiter_new a fd"
| "request_new a (Rq_Connect fd) = tcp_connect_awaiter_new a fd"
| "request_new a (Rq_Timer t) = timer_co_await a t"

text \<open>
  What the \<open>co_await\<close> expression answers when the kernel answered \<open>res\<close>: a connect that succeeded answers its
  descriptor (an \<open>int\<close>, of 32 bits), and a timer that ran out answers zero.
\<close>

fun request_answer :: "io_request \<Rightarrow> int \<Rightarrow> int" where
  "request_answer (Rq_Connect fd) res = (if res = 0 then signed_take_bit 31 fd else res)"
| "request_answer (Rq_Timer t) res = (if res = - ETIME then 0 else res)"
| "request_answer rq res = res"

text \<open>
  \<open>timer_func\<close> of \<open>timer.cpp\<close> up to its suspension, and the number it logs when it is resumed. What the memory of the
  temporary \<open>timer\<close> held is \<open>junk\<close>.
\<close>

definition timer_func_timer :: "u64 \<times> u64 \<Rightarrow> timer" where
  "timer_func_timer junk = add_mseconds 500 (add_seconds 3 (timer_new junk 0))"

definition timer_func :: "u64 \<times> u64 \<Rightarrow> nat \<Rightarrow> handle \<Rightarrow> io_state \<Rightarrow> io_state res" where
  "timer_func junk a h s = bindE (timer_co_await a (timer_func_timer junk) s) (\<lambda>s. Inr (base_await_suspend a h s))"

section \<open>Facts\<close>

lemma request_prepares: "\<exists>f op fl. prepares (request_new a rq) a f op fl \<and> (\<forall>i. cb_result (f i) res = request_answer rq res)"
proof (cases rq)
  case Rq_Noop
  then show ?thesis using awaiters_prepare(1) [of a] by (fastforce simp: cb_result_def)
next
  case (Rq_Stdin len io_flag fl)
  then show ?thesis using awaiters_prepare(2) [of a len io_flag fl] by (fastforce simp: cb_result_def)
next
  case (Rq_Accept fd io_flag fl)
  then show ?thesis using awaiters_prepare(3) [of a fd io_flag fl] by (fastforce simp: cb_result_def)
next
  case (Rq_Read fd len io_flag fl)
  then show ?thesis using awaiters_prepare(4) [of a fd len io_flag fl] by (fastforce simp: cb_result_def)
next
  case (Rq_Write fd len io_flag fl)
  then show ?thesis using awaiters_prepare(5) [of a fd len io_flag fl] by (fastforce simp: cb_result_def)
next
  case (Rq_Close fd)
  then show ?thesis using awaiters_prepare(6) [of a fd] by (fastforce simp: cb_result_def)
next
  case (Rq_Connect fd)
  then show ?thesis using awaiters_prepare(7) [of a fd] by (fastforce simp: cb_result_def int_of_data_word)
next
  case (Rq_Timer t)
  have "prepares (timer_co_await a t) a (\<lambda>i. i\<lparr>io_type := Io_Timer, io_cb := Timer_Callback\<rparr>) (Prep_Timeout (sint (tm_sec t), sint (tm_nsec t)) 1 0) 0"
    using awaiters_prepare(8) [of a "(sint (tm_sec t), sint (tm_nsec t))" 1 0] by (simp add: timer_co_await_def prepares_def)
  then show ?thesis using Rq_Timer by (fastforce simp: cb_result_def)
qed

section \<open>Properties\<close>

text \<open>
  C20. A request of any kind on an idle engine, from start to end: the awaiter is constructed and the coroutine \<open>h\<close> suspends; one poll hands the
  request to the kernel; the kernel completes it with \<open>res\<close>; the next poll makes \<open>h\<close>, and nothing else, pending; \<open>h\<close> reads what
  the kind of request makes of \<open>res\<close>, and the engine has no input or output left.
\<close>

theorem io_request_roundtrip:
  assumes "local_engine s = Inr e" and "io_idle_engine e" and "w_room_local 2 (io_world s)" and "0 < accepted"
  shows "\<exists>s1 s2 s3 s4 e4. request_new a rq s = Inr s1 \<and>
    poll_submit accepted (base_await_suspend a h s1) = Inr s2 \<and> kernel_step res s2 = Inr s3 \<and>
    poll_submit accepted s3 = Inr s4 \<and> local_engine s4 = Inr e4 \<and> empty_io e4 \<and>
    w_pending (io_world s4) = add_mset h (w_pending (io_world s)) \<and> base_await_resume a s4 = request_answer rq res"
proof -
  obtain f op fl where p: "prepares (request_new a rq) a f op fl" "\<And>i. cb_result (f i) res = request_answer rq res"
    using request_prepares [of a rq res] by blast
  from request_roundtrip [OF assms p(1), of h res] show ?thesis unfolding p(2) .
qed

theorem io_request_roundtrip_witness:
  "\<exists>s1 s2 s3 s4. request_new 40 (Rq_Timer (timer_func_timer (0, 0))) (demo_io (m_engine (w_ctxs demo_world ! 0))) = Inr s1 \<and>
    poll_submit 1 (base_await_suspend 40 7 s1) = Inr s2 \<and> kernel_step (- 62) s2 = Inr s3 \<and>
    poll_submit 1 s3 = Inr s4 \<and> base_await_resume 40 s4 = 0"
proof -
  let ?s = "demo_io (m_engine (w_ctxs demo_world ! 0))"
  have idle: "io_idle_engine (m_engine (w_ctxs demo_world ! 0))" by (simp add: io_idle_engine_def demo_world_def)
  have room: "w_room_local 2 (io_world ?s)" using demo_world_room(2) [of 2] by (simp add: demo_io_def demo_world_def)
  have "request_answer (Rq_Timer (timer_func_timer (0, 0))) (- 62) = 0" by (simp add: ETIME_def)
  with io_request_roundtrip [OF demo_io_engine idle room, of 1 40 "Rq_Timer (timer_func_timer (0, 0))" 7 "- 62"]
  show ?thesis by auto
qed

text \<open>
  \<open>timer.cpp\<close> waits for the three and a half seconds it asks for exactly if the memory of the temporary timer happened to
  hold zeros: the constructor does not set it.
\<close>

theorem timer_example_waits:
  "(tm_sec (timer_func_timer junk) = 3 \<and> tm_nsec (timer_func_timer junk) = 500000000) = (junk = (0, 0))"
  by (cases junk) (simp add: timer_func_timer_def timer_new_def add_seconds_def add_mseconds_def)

end
