(* ===== verification/Demos.thy ===== *)
theory Demos
  imports Client
begin

text \<open>
  The demonstrations under \<open>C++20_coroutine/\<close> and \<open>io_uring/example/\<close>: \<open>ucontext_test.cpp\<close> and \<open>ucontext.cpp\<close>, which switch contexts
  by hand; \<open>awaiter_test.cpp\<close>, which shows when the members of an awaiter are called; \<open>threadAndCo.cpp\<close>, whose coroutine
  changes its thread; and \<open>event_fd.cpp\<close>, which reads the completions of a ring from an eventfd.
\<close>

section \<open>Contexts: ucontext_test.cpp\<close>

text \<open>
  The statements of the functions, and the machine: what is left to do of the running function, the saved contexts, the
  output, and the stacks that were freed. A function that runs off its end has no \<open>uc_link\<close> and ends the thread.
\<close>

datatype uop = Say string | Swapcontext nat nat | Setcontext nat | Free_Stack nat

record uctx =
  uc_cont :: "uop list"
  uc_saved :: "nat \<Rightarrow> uop list option"
  uc_out :: "string list"
  uc_freed :: "nat list"

fun uop_step :: "uop \<Rightarrow> uctx \<Rightarrow> uctx option" where
  "uop_step (Say x) s = Some (s\<lparr>uc_out := uc_out s @ [x]\<rparr>)"
| "uop_step (Swapcontext a b) s =
     map_option (\<lambda>k. s\<lparr>uc_saved := (uc_saved s)(a \<mapsto> uc_cont s), uc_cont := k\<rparr>) (uc_saved s b)"
| "uop_step (Setcontext b) s = map_option (\<lambda>k. s\<lparr>uc_cont := k\<rparr>) (uc_saved s b)"
| "uop_step (Free_Stack i) s = (if i \<in> set (uc_freed s) then None else Some (s\<lparr>uc_freed := uc_freed s @ [i]\<rparr>))"

fun uctx_run :: "nat \<Rightarrow> uctx \<Rightarrow> uctx option" where
  "uctx_run 0 s = (if uc_cont s = [] then Some s else None)"
| "uctx_run (Suc n) s =
     (case uc_cont s of [] \<Rightarrow> Some s | i # k \<Rightarrow> Option.bind (uop_step i (s\<lparr>uc_cont := k\<rparr>)) (uctx_run n))"

definition coroutine1 :: "uop list" where
  "coroutine1 =
     [Say ''Hi,this is coroutine1'', Say ''Now I will switch to corotine2'', Swapcontext 1 2,
      Say ''Welcome back to coroutine1'', Say ''Now I will switch to coroutine2 again'', Swapcontext 1 2,
      Setcontext 0]"

definition coroutine2 :: "uop list" where
  "coroutine2 =
     [Say ''Hi,this is coroutine2'', Say ''Now I will switch to corotine1'', Swapcontext 2 1,
      Say ''Welcome back to coroutine2'', Say ''Now I will switch to coroutine1 again'', Swapcontext 2 1]"

definition ucontext_test_main :: uctx where
  "ucontext_test_main =
     \<lparr>uc_cont =
        [Say ''Hi,this is coroutine0'', Say ''Now I will switch to coroutine1'', Swapcontext 0 1,
         Say ''Welcome back to coroutine0'', Free_Stack 0, Free_Stack 1, Free_Stack 2, Say ''finish all jobs''],
      uc_saved = [1 \<mapsto> coroutine1, 2 \<mapsto> coroutine2], uc_out = [], uc_freed = []\<rparr>"

section \<open>Contexts: ucontext.cpp\<close>

text \<open>
  \<open>getcontext\<close> records the place after it; \<open>setcontext\<close> goes back there. The variable \<open>idx\<close> is not volatile: if the
  compiler keeps it in a register, its value goes back as well (\<open>in_register\<close>). \<open>n\<close> bounds the number of passes.
\<close>

fun ucontext_passes :: "bool \<Rightarrow> nat \<Rightarrow> int \<Rightarrow> int option" where
  "ucontext_passes in_register 0 idx = None"
| "ucontext_passes in_register (Suc n) idx =
     (let saved = idx; idx = idx + 1 in
      if idx = 1 then ucontext_passes in_register n (if in_register then saved else idx) else Some idx)"

section \<open>Awaiters: awaiter_test.cpp\<close>

text \<open>
  A coroutine is the list of what its body has left to do. \<open>Aw_Run i\<close> is the expression \<open>co_await run(i)\<close> up to the
  call; what follows the call is \<open>Aw_Event i\<close>: the member \<open>operator co_await\<close> of the temporary task, whose awaiter hands the
  caller back to itself, and the end of the two temporaries.
\<close>

datatype aw_op = Aw_Out "string \<times> nat" | Aw_Run nat | Aw_Event nat | Aw_Suspend

text \<open>
  \<open>aw_frames\<close> has the frames, by the number of the task; \<open>aw_stack\<close> the running coroutines, innermost first, with main
  below; \<open>aw_global\<close> is \<open>global_handle\<close>.
\<close>

record aw_sys =
  aw_frames :: "nat \<Rightarrow> aw_op list option"
  aw_stack :: "nat list"
  aw_global :: "nat option"
  aw_out :: "(string \<times> nat) list"

definition aw_say :: "string \<Rightarrow> nat \<Rightarrow> aw_sys \<Rightarrow> aw_sys" where
  "aw_say x i s = s\<lparr>aw_out := aw_out s @ [(x, i)]\<rparr>"

definition aw_run_body :: "nat \<Rightarrow> aw_op list" where
  "aw_run_body i =
     [Aw_Out (''start'', i)] @
     (if i = 0 then [Aw_Run (i + 1)] else [Aw_Out (''will suspend'', i), Aw_Suspend]) @
     [Aw_Out (''will suspend'', i), Aw_Suspend, Aw_Out (''end'', i)]"

text \<open>The call \<open>run(i)\<close>: the promise makes the task and notes the handle, and the body starts at once (\<open>suspend_never\<close>).\<close>

definition aw_task_new :: "nat \<Rightarrow> aw_sys \<Rightarrow> aw_sys" where
  "aw_task_new i s = aw_say ''construct task'' i (s\<lparr>aw_global := Some i, aw_frames := (aw_frames s)(i \<mapsto> aw_run_body i)\<rparr>)"

definition aw_call :: "nat \<Rightarrow> aw_sys \<Rightarrow> aw_sys" where
  "aw_call i s = (let s = aw_task_new i s in s\<lparr>aw_stack := i # aw_stack s\<rparr>)"

text \<open>The destructor prints; it does not destroy the frame.\<close>

definition aw_task_destruct :: "nat \<Rightarrow> aw_sys \<Rightarrow> aw_sys" where
  "aw_task_destruct i = aw_say ''deconstruct task'' i"

text \<open>\<open>Event\<close>: constructor, \<open>await_ready\<close>, \<open>await_suspend\<close> (the coroutine that goes on), \<open>await_resume\<close>, destructor.\<close>

definition aw_event_await_suspend :: "nat \<Rightarrow> nat" where
  "aw_event_await_suspend caller = caller"

definition aw_event :: "nat \<Rightarrow> nat \<Rightarrow> aw_sys \<Rightarrow> aw_sys" where
  "aw_event caller i s =
     (let s = aw_say ''event construct'' 0 s;
          s = s\<lparr>aw_stack := aw_event_await_suspend caller # tl (aw_stack s)\<rparr>;
          s = aw_say ''await resume called'' 0 s;
          s = aw_say ''event deconstruct'' 0 s
      in aw_task_destruct i s)"

text \<open>One step of the innermost coroutine; a suspended one gives control to whoever called or resumed it.\<close>

definition aw_step :: "aw_sys \<Rightarrow> aw_sys option" where
  "aw_step s =
     (case aw_stack s of
        [] \<Rightarrow> None
      | h # st \<Rightarrow>
          (case aw_frames s h of
             None \<Rightarrow> None
           | Some [] \<Rightarrow> Some (s\<lparr>aw_stack := st\<rparr>)
           | Some (i # k) \<Rightarrow>
               let s = s\<lparr>aw_frames := (aw_frames s)(h \<mapsto> k)\<rparr> in
               (case i of
                  Aw_Out x \<Rightarrow> Some (s\<lparr>aw_out := aw_out s @ [x]\<rparr>)
                | Aw_Run j \<Rightarrow> Some (aw_call j (s\<lparr>aw_frames := (aw_frames s)(h \<mapsto> Aw_Event j # k)\<rparr>))
                | Aw_Event j \<Rightarrow> Some (aw_event h j s)
                | Aw_Suspend \<Rightarrow> Some (s\<lparr>aw_stack := st\<rparr>))))"

text \<open>Until control is back in main.\<close>

fun aw_drive :: "nat \<Rightarrow> aw_sys \<Rightarrow> aw_sys option" where
  "aw_drive 0 s = (if aw_stack s = [] then Some s else None)"
| "aw_drive (Suc n) s = (if aw_stack s = [] then Some s else Option.bind (aw_step s) (aw_drive n))"

definition aw_resume :: "nat \<Rightarrow> aw_sys \<Rightarrow> aw_sys option" where
  "aw_resume n s = Option.bind (aw_global s) (\<lambda>h. aw_drive n (s\<lparr>aw_stack := [h]\<rparr>))"

definition awaiter_test_main :: "nat \<Rightarrow> aw_sys option" where
  "awaiter_test_main n =
     Option.bind (aw_drive n (aw_call 0 \<lparr>aw_frames = (\<lambda>_. None), aw_stack = [], aw_global = None, aw_out = []\<rparr>)) (\<lambda>s.
     Option.bind (aw_resume n (aw_say ''back to main'' 0 s)) (\<lambda>s.
     Some (aw_task_destruct 0 (aw_say ''run finish'' 0 s))))"

section \<open>Two threads: threadAndCo.cpp\<close>

datatype tc_line = Tc_Start nat | Tc_Old nat | Tc_New nat | Tc_Resumed nat

text \<open>
  What main's thread (0) has left, what the new thread (1) has left once it is started, the lines, and whether the
  coroutine's frame is alive. \<open>Tc_Spawn\<close> is the assignment to \<open>out\<close>; \<open>Tc_Join\<close> the destructor of \<open>out\<close> in main.
\<close>

datatype tc_op = Tc_Say tc_line | Tc_Spawn | Tc_Join | Tc_Frame_End

record tc_sys =
  tc_main :: "tc_op list"
  tc_thread :: "tc_op list option"
  tc_out :: "tc_line list"
  tc_alive :: bool

text \<open>
  \<open>await_suspend\<close>: with a thread in \<open>out\<close> it throws, which ends the coroutine, since \<open>unhandled_exception\<close> does
  nothing and \<open>final_suspend\<close> does not suspend.
\<close>

definition switch_await_suspend :: "bool \<Rightarrow> tc_op list" where
  "switch_await_suspend joinable =
     Tc_Say (Tc_Old 0) # (if joinable then [Tc_Frame_End] else [Tc_Spawn, Tc_Say (Tc_New 1)])"

definition resuming_on_new_thread :: "bool \<Rightarrow> tc_op list" where
  "resuming_on_new_thread joinable = Tc_Say (Tc_Start 0) # switch_await_suspend joinable"

definition after_switch :: "tc_op list" where
  "after_switch = [Tc_Say (Tc_Resumed 1), Tc_Frame_End]"

definition thread_demo_init :: "bool \<Rightarrow> tc_sys" where
  "thread_demo_init joinable = \<lparr>tc_main = resuming_on_new_thread joinable @ [Tc_Join],
     tc_thread = (if joinable then Some [] else None), tc_out = [], tc_alive = True\<rparr>"

inductive thread_demo_step :: "tc_sys \<Rightarrow> tc_sys \<Rightarrow> bool" where
  say: "tc_main s = Tc_Say l # k \<Longrightarrow> thread_demo_step s (s\<lparr>tc_main := k, tc_out := tc_out s @ [l]\<rparr>)"
| spawn: "tc_main s = Tc_Spawn # k \<Longrightarrow> thread_demo_step s (s\<lparr>tc_main := k, tc_thread := Some after_switch\<rparr>)"
| main_end: "tc_main s = Tc_Frame_End # k \<Longrightarrow> thread_demo_step s (s\<lparr>tc_main := k, tc_alive := False\<rparr>)"
| join: "tc_main s = Tc_Join # k \<Longrightarrow> tc_thread s = Some [] \<Longrightarrow> thread_demo_step s (s\<lparr>tc_main := k\<rparr>)"
| thread_say: "tc_thread s = Some (Tc_Say l # k) \<Longrightarrow> thread_demo_step s (s\<lparr>tc_thread := Some k, tc_out := tc_out s @ [l]\<rparr>)"
| thread_end: "tc_thread s = Some (Tc_Frame_End # k) \<Longrightarrow> thread_demo_step s (s\<lparr>tc_thread := Some k, tc_alive := False\<rparr>)"

text \<open>At the end both threads are done, the frame is gone, and the two last lines may come in either order.\<close>

definition thread_demo_end :: "bool \<Rightarrow> tc_sys \<Rightarrow> bool" where
  "thread_demo_end joinable s \<longleftrightarrow> tc_main s = [] \<and> tc_thread s = Some [] \<and> \<not> tc_alive s \<and>
     tc_out s \<in> (if joinable then {[Tc_Start 0, Tc_Old 0]}
       else {[Tc_Start 0, Tc_Old 0, Tc_New 1, Tc_Resumed 1], [Tc_Start 0, Tc_Old 0, Tc_Resumed 1, Tc_New 1]})"

section \<open>An eventfd: event_fd.cpp\<close>

record efd_sys =
  ef_submitted :: nat
  ef_kernel :: nat
  ef_cq :: nat
  ef_count :: nat
  ef_events :: "nat option"

text \<open>The setup; either call answers zero on success.\<close>

definition event_fd_setup :: "int \<Rightarrow> int \<Rightarrow> efd_sys res" where
  "event_fd_setup queue_init register_eventfd =
     (if queue_init \<noteq> 0 then Inl Exit_Failure
      else if register_eventfd \<noteq> 0 then Inl Exit_Failure
      else Inr \<lparr>ef_submitted = 0, ef_kernel = 0, ef_cq = 0, ef_count = 0, ef_events = None\<rparr>)"

text \<open>
  The loop submits ten requests; the kernel completes some of those it holds and signals the eventfd, at least once and
  at most once for each; the read waits for the counter to be positive and empties it.
\<close>

inductive event_fd_step :: "efd_sys \<Rightarrow> efd_sys \<Rightarrow> bool" where
  submit: "ef_events s = None \<Longrightarrow> ef_submitted s < 10 \<Longrightarrow> event_fd_step s (s\<lparr>ef_submitted := ef_submitted s + 1, ef_kernel := ef_kernel s + 1\<rparr>)"
| kernel: "ef_events s = None \<Longrightarrow> k \<le> ef_kernel s \<Longrightarrow> 1 \<le> j \<Longrightarrow> j \<le> k \<Longrightarrow>
    event_fd_step s (s\<lparr>ef_kernel := ef_kernel s - k, ef_cq := ef_cq s + k, ef_count := ef_count s + j\<rparr>)"
| read: "ef_events s = None \<Longrightarrow> ef_submitted s = 10 \<Longrightarrow> 0 < ef_count s \<Longrightarrow>
    event_fd_step s (s\<lparr>ef_events := Some (ef_count s), ef_count := 0\<rparr>)"

definition event_fd_end :: "efd_sys \<Rightarrow> bool" where
  "event_fd_end s \<longleftrightarrow> (\<exists>n \<in> {1..10}. ef_events s = Some n)"

section \<open>Facts\<close>

lemma ucontext_test_runs:
  "\<exists>s. uctx_run 25 ucontext_test_main = Some s \<and> uc_freed s = [0, 1, 2] \<and>
     uc_out s = [''Hi,this is coroutine0'', ''Now I will switch to coroutine1'',
       ''Hi,this is coroutine1'', ''Now I will switch to corotine2'',
       ''Hi,this is coroutine2'', ''Now I will switch to corotine1'',
       ''Welcome back to coroutine1'', ''Now I will switch to coroutine2 again'',
       ''Welcome back to coroutine2'', ''Now I will switch to coroutine1 again'',
       ''Welcome back to coroutine0'', ''finish all jobs'']"
  by (simp add: ucontext_test_main_def coroutine1_def coroutine2_def numeral_eq_Suc)

lemma ucontext_ends: "ucontext_passes False 2 0 = Some 2"
  by (simp add: numeral_eq_Suc)

lemma ucontext_register_loops: "ucontext_passes True n 0 = None"
  by (induction n) simp_all

text \<open>
  The program resumes task 1, the last one made, and not task 0; \<open>run(1)\<close> is a temporary that is gone by then while its
  frame lives on. Neither coroutine gets to its end, and both frames are left behind.
\<close>

lemma awaiter_test_runs:
  "\<exists>s. awaiter_test_main 20 = Some s \<and> aw_frames s 0 = Some [Aw_Out (''end'', 0)] \<and> aw_frames s 1 = Some [Aw_Out (''end'', 1)] \<and>
     aw_out s = [(''construct task'', 0), (''start'', 0), (''construct task'', 1), (''start'', 1), (''will suspend'', 1),
       (''event construct'', 0), (''await resume called'', 0), (''event deconstruct'', 0), (''deconstruct task'', 1),
       (''will suspend'', 0), (''back to main'', 0), (''will suspend'', 1), (''run finish'', 0), (''deconstruct task'', 0)]"
  by (simp add: awaiter_test_main_def aw_call_def aw_task_new_def aw_task_destruct_def aw_say_def aw_resume_def aw_step_def aw_event_def
      aw_event_await_suspend_def aw_run_body_def numeral_eq_Suc Let_def)

text \<open>Both programs as clients that end, with the state as its own component.\<close>

fun tc_weight :: "tc_op \<Rightarrow> nat" where
  "tc_weight Tc_Spawn = 3"
| "tc_weight i = 1"

definition thread_demo_rank :: "tc_sys \<Rightarrow> nat" where
  "thread_demo_rank s = sum_list (map tc_weight (tc_main s)) + sum_list (map tc_weight (case tc_thread s of Some k \<Rightarrow> k | None \<Rightarrow> []))"

text \<open>The states that \<open>threadAndCo.cpp\<close> can be in.\<close>

definition thread_demo_states :: "bool \<Rightarrow> tc_sys set" where
  "thread_demo_states joinable =
     (let st = (\<lambda>m t l a. \<lparr>tc_main = m, tc_thread = t, tc_out = l, tc_alive = a\<rparr>); s0 = Tc_Start 0; o0 = Tc_Old 0; n1 = Tc_New 1; r1 = Tc_Resumed 1 in
      if joinable
      then {st (resuming_on_new_thread True @ [Tc_Join]) (Some []) [] True, st [Tc_Say o0, Tc_Frame_End, Tc_Join] (Some []) [s0] True,
        st [Tc_Frame_End, Tc_Join] (Some []) [s0, o0] True, st [Tc_Join] (Some []) [s0, o0] False, st [] (Some []) [s0, o0] False}
      else {st (resuming_on_new_thread False @ [Tc_Join]) None [] True, st [Tc_Say o0, Tc_Spawn, Tc_Say n1, Tc_Join] None [s0] True,
        st [Tc_Spawn, Tc_Say n1, Tc_Join] None [s0, o0] True,
        st [Tc_Say n1, Tc_Join] (Some after_switch) [s0, o0] True, st [Tc_Say n1, Tc_Join] (Some [Tc_Frame_End]) [s0, o0, r1] True,
        st [Tc_Say n1, Tc_Join] (Some []) [s0, o0, r1] False, st [Tc_Join] (Some after_switch) [s0, o0, n1] True,
        st [Tc_Join] (Some [Tc_Frame_End]) [s0, o0, n1, r1] True, st [Tc_Join] (Some [Tc_Frame_End]) [s0, o0, r1, n1] True,
        st [Tc_Join] (Some []) [s0, o0, n1, r1] False, st [Tc_Join] (Some []) [s0, o0, r1, n1] False,
        st [] (Some []) [s0, o0, n1, r1] False, st [] (Some []) [s0, o0, r1, n1] False})"

lemmas thread_demo_defs = thread_demo_states_def resuming_on_new_thread_def switch_await_suspend_def after_switch_def Let_def

lemma thread_demo_states_step: "s \<in> thread_demo_states j \<Longrightarrow> thread_demo_step s t \<Longrightarrow> t \<in> thread_demo_states j"
  by (erule thread_demo_step.cases) (cases j; auto simp: thread_demo_defs)+

lemma thread_demo_rank_less: "thread_demo_step s t \<Longrightarrow> s \<in> thread_demo_states j \<Longrightarrow> thread_demo_rank t < thread_demo_rank s"
  by (erule thread_demo_step.cases) (cases j; auto simp: thread_demo_defs thread_demo_rank_def)+

definition thread_demo_can :: "tc_sys \<Rightarrow> bool" where
  "thread_demo_can s \<longleftrightarrow> (case tc_main s of i # k \<Rightarrow> i \<noteq> Tc_Join \<or> tc_thread s = Some [] | [] \<Rightarrow> False) \<or>
     (case tc_thread s of Some (i # k) \<Rightarrow> i \<noteq> Tc_Spawn \<and> i \<noteq> Tc_Join | _ \<Rightarrow> False)"

lemma thread_demo_canD: "thread_demo_can s \<Longrightarrow> \<exists>t. thread_demo_step s t"
  unfolding thread_demo_can_def
  by (auto split: list.splits option.splits; metis thread_demo_step.intros tc_op.exhaust)

lemma thread_demo_progress:
  assumes "s \<in> thread_demo_states j" "\<not> thread_demo_end j s"
  shows "\<exists>t. thread_demo_step s t"
  by (rule thread_demo_canD) (use assms in \<open>cases j; auto simp: thread_demo_defs thread_demo_end_def thread_demo_can_def\<close>)

lemma thread_demo_init_state: "thread_demo_init j \<in> thread_demo_states j"
  by (simp add: thread_demo_init_def thread_demo_states_def Let_def)

interpretation thread_demo: terminating_client "\<lambda>s. s \<in> thread_demo_states j" thread_demo_step id thread_demo_step "thread_demo_init j" "\<lambda>_. True"
  thread_demo_rank "thread_demo_end j" for j
  by unfold_locales (auto simp: thread_demo_init_state intro: thread_demo_states_step thread_demo_rank_less thread_demo_progress)

definition event_fd_inv :: "efd_sys \<Rightarrow> bool" where
  "event_fd_inv s \<longleftrightarrow> ef_submitted s \<le> 10 \<and> ef_kernel s + ef_cq s = ef_submitted s \<and> ef_count s \<le> ef_cq s \<and>
     (if ef_events s = None then (0 < ef_cq s \<longrightarrow> 0 < ef_count s) else event_fd_end s)"

definition event_fd_rank :: "efd_sys \<Rightarrow> nat" where
  "event_fd_rank s = 2 * (10 - ef_submitted s) + ef_kernel s + (if ef_events s = None then 1 else 0)"

lemma event_fd_inv_step: "event_fd_step s t \<Longrightarrow> event_fd_inv s \<Longrightarrow> event_fd_inv t"
  by (induction rule: event_fd_step.induct) (auto simp: event_fd_inv_def event_fd_end_def)

lemma event_fd_rank_less: "event_fd_step s t \<Longrightarrow> event_fd_inv s \<Longrightarrow> event_fd_rank t < event_fd_rank s"
  by (induction rule: event_fd_step.induct) (auto simp: event_fd_inv_def event_fd_rank_def)

lemma event_fd_progress:
  assumes "event_fd_inv s" "\<not> event_fd_end s"
  shows "\<exists>t. event_fd_step s t"
proof -
  have none: "ef_events s = None" using assms by (auto simp: event_fd_inv_def split: if_splits)
  consider "ef_submitted s < 10" | "ef_submitted s = 10" "0 < ef_count s" | "ef_submitted s = 10" "0 < ef_kernel s"
    using assms(1) none by (fastforce simp: event_fd_inv_def)
  then show ?thesis
  proof cases
    case 3
    then show ?thesis using event_fd_step.kernel [OF none, of 1 1] by auto
  qed (use none event_fd_step.submit event_fd_step.read in blast)+
qed

definition event_fd_init :: efd_sys where
  "event_fd_init = \<lparr>ef_submitted = 0, ef_kernel = 0, ef_cq = 0, ef_count = 0, ef_events = None\<rparr>"

lemma event_fd_init_inv: "event_fd_inv event_fd_init"
  by (simp add: event_fd_init_def event_fd_inv_def)

interpretation event_fd: terminating_client event_fd_inv event_fd_step id event_fd_step event_fd_init "\<lambda>_. True" event_fd_rank event_fd_end
  by unfold_locales (auto simp: event_fd_init_inv intro: event_fd_inv_step event_fd_rank_less event_fd_progress)

section \<open>Properties\<close>

text \<open>
  The demonstrations do what they are meant to show. \<open>threadAndCo.cpp\<close>: the coroutine starts on main's thread and, whatever the
  interleaving, goes on and ends on the new one, which main waits for; with a thread already in \<open>out\<close> it ends
  without being resumed. \<open>event_fd.cpp\<close>: however the kernel completes the ten requests, the read ends and answers between one and ten.
\<close>

theorem thread_and_eventfd_demos_end:
  "ends_with thread_demo_step (thread_demo_init joinable) 9 (thread_demo_end joinable) \<and>
   (event_fd_setup queue_init register_eventfd = Inl Exit_Failure \<or>
    (\<exists>s. event_fd_setup queue_init register_eventfd = Inr s \<and> ends_with event_fd_step s 21 event_fd_end))"
proof
  have "thread_demo_rank (thread_demo_init joinable) \<le> 9"
    by (simp add: thread_demo_rank_def thread_demo_init_def resuming_on_new_thread_def switch_await_suspend_def)
  with thread_demo.client_ends show "ends_with thread_demo_step (thread_demo_init joinable) 9 (thread_demo_end joinable)"
    by (rule ends_with_mono)
  have "event_fd_rank event_fd_init = 21" by (simp add: event_fd_rank_def event_fd_init_def)
  with event_fd.client_ends have "ends_with event_fd_step event_fd_init 21 event_fd_end" by simp
  then show "event_fd_setup queue_init register_eventfd = Inl Exit_Failure \<or>
    (\<exists>s. event_fd_setup queue_init register_eventfd = Inr s \<and> ends_with event_fd_step s 21 event_fd_end)"
    by (simp add: event_fd_setup_def event_fd_init_def)
qed

end
