(* ===== verification/Cv_Bench.thy ===== *)
theory Cv_Bench
  imports Cv_Example Std_Monitor
begin

text \<open>
  The programs of \<open>benchtests/lab5b_bench.cpp\<close> on the library's condition variable, \<open>coro_cv_notifyall\<close> and \<open>coro_cv_notifyone\<close>.
  Their coroutines discard the guard that \<open>co_await mtx.lock_guard()\<close> answers, which unlocks the mutex at once, and they do not
  await what \<open>cv.wait\<close> answers, so that the call only makes an awaiter. What is left of a round is to take and to give
  back the mutex, to change \<open>gid\<close> (in the second program), and to notify. Since \<open>gid\<close> is changed after the mutex was given back, several workers race on it; the steps are those of a
  worker that runs one coroutine at a time, with a change of \<open>gid\<close> and its notification as one step. The positions are those of \<open>Cv_Example\<close>: \<open>Cx_Owner\<close> is
  the moment in which the discarded guard exists.
\<close>

section \<open>Definitions\<close>

record nb_sys =
  nb_ms :: mutexes
  nb_cv :: "nat condvar"
  nb_log :: "handle list"
  nb_pc :: "handle \<Rightarrow> cvx_pc"
  nb_left :: "handle \<Rightarrow> nat"
  nb_gid :: nat

type_synonym nb_notify = "nat \<Rightarrow> nat condvar \<times> mutexes \<times> handle list \<Rightarrow> (nat condvar \<times> mutexes \<times> handle list) res"

definition nb_init :: "nat \<Rightarrow> nat \<Rightarrow> nb_sys" where
  "nb_init n rounds = \<lparr>nb_ms = (\<lambda>_. mutex_new), nb_cv = [], nb_log = [],
     nb_pc = (\<lambda>_. Cx_Idle), nb_left = (\<lambda>h. if h < n then rounds else 0), nb_gid = 0\<rparr>"

text \<open>\<open>n\<close> coroutines; a round changes \<open>gid\<close> by \<open>upd\<close> and ends with \<open>notify\<close>.\<close>

inductive nb_step :: "nat \<Rightarrow> (nat \<Rightarrow> nat) \<Rightarrow> nb_notify \<Rightarrow> nb_sys \<Rightarrow> nb_sys \<Rightarrow> bool" for n upd notify where
  call: "h < n \<Longrightarrow> nb_pc s h = Cx_Idle \<Longrightarrow> 0 < nb_left s h \<Longrightarrow> nb_step n upd notify s (s\<lparr>nb_pc := (nb_pc s)(h := Cx_Check)\<rparr>)"
| ready: "nb_pc s h = Cx_Check \<Longrightarrow> guard_await_ready (nb_ms s 0) = (got, m') \<Longrightarrow>
    nb_step n upd notify s (s\<lparr>nb_ms := (nb_ms s)(0 := m'), nb_pc := (nb_pc s)(h := if got then Cx_Owner else Cx_Suspend)\<rparr>)"
| suspend: "nb_pc s h = Cx_Suspend \<Longrightarrow> guard_await_suspend log_submit h (nb_ms s 0) (nb_log s) = Inr (m', log') \<Longrightarrow>
    nb_step n upd notify s (s\<lparr>nb_ms := (nb_ms s)(0 := m'), nb_log := log',
      nb_pc := cx_handover (submitted (nb_log s) log') ((nb_pc s)(h := Cx_Lock_Wait))\<rparr>)"
| discard: "nb_pc s h = Cx_Owner \<Longrightarrow>
    lock_guard_destroy log_submit (lock_guard_new 0) (nb_ms s) (nb_log s) = Inr (ms', log') \<Longrightarrow>
    nb_step n upd notify s (s\<lparr>nb_ms := ms', nb_log := log', nb_pc := cx_handover (submitted (nb_log s) log') ((nb_pc s)(h := Cx_Unlocked))\<rparr>)"
| work: "nb_pc s h = Cx_Unlocked \<Longrightarrow> notify (upd (nb_gid s)) (nb_cv s, nb_ms s, nb_log s) = Inr (cv', ms', log') \<Longrightarrow>
    nb_step n upd notify s (s\<lparr>nb_gid := upd (nb_gid s), nb_left := (nb_left s)(h := nb_left s h - 1), nb_cv := cv', nb_ms := ms', nb_log := log',
      nb_pc := cx_handover (submitted (nb_log s) log') ((nb_pc s)(h := if 1 < nb_left s h then Cx_Idle else Cx_Done))\<rparr>)"

text \<open>\<open>notify_all\<close> with \<open>thread_num\<close> coroutines, one round each, which leave \<open>gid\<close> alone; \<open>notify_one\<close> with two coroutines.\<close>

definition coro_cv_notifyall :: "nat \<Rightarrow> nb_sys \<Rightarrow> nb_sys \<Rightarrow> bool" where
  "coro_cv_notifyall thread_num = nb_step thread_num (\<lambda>gid. gid) (cv_notify_all log_submit)"

definition coro_cv_notifyone :: "nb_sys \<Rightarrow> nb_sys \<Rightarrow> bool" where
  "coro_cv_notifyone = nb_step 2 (\<lambda>gid. (gid + 1) mod 2) (cv_notify_one log_submit)"

definition nb_end :: "nat \<Rightarrow> nb_sys \<Rightarrow> bool" where
  "nb_end n s \<longleftrightarrow> (\<forall>h < n. nb_pc s h = Cx_Done) \<and> nb_cv s = [] \<and> nb_gid s = 0 \<and> \<not> mx_locked (nb_ms s 0)"

section \<open>Invariant\<close>

text \<open>Nobody ever waits on the condition variable, so that a notification does nothing.\<close>

definition quiet :: "nb_notify \<Rightarrow> bool" where
  "quiet notify \<longleftrightarrow> (\<forall>g ms lg. notify g ([], ms, lg) = Inr ([], ms, lg))"

lemma quiet_notify: "quiet (cv_notify_all log_submit)" "quiet (cv_notify_one log_submit)"
  by (simp_all add: quiet_def cv_notify_all_def cv_notify_one_def)

definition nb_places :: "nat \<Rightarrow> nb_sys \<Rightarrow> bool" where
  "nb_places n s \<longleftrightarrow> (\<forall>h. nb_pc s h \<in> {Cx_Idle, Cx_Check, Cx_Suspend, Cx_Lock_Wait, Cx_Owner, Cx_Unlocked, Cx_Done}) \<and>
     (\<forall>h. n \<le> h \<longrightarrow> nb_pc s h = Cx_Idle) \<and> (\<forall>h < n. nb_pc s h = Cx_Done \<longleftrightarrow> nb_left s h = 0)"

definition nb_rounds :: "nat \<Rightarrow> nat \<Rightarrow> (nat \<Rightarrow> nat) \<Rightarrow> nb_sys \<Rightarrow> bool" where
  "nb_rounds n rounds upd s \<longleftrightarrow> (\<exists>k. nb_gid s = (upd ^^ k) 0 \<and> k + (\<Sum>h < n. nb_left s h) = n * rounds)"

definition nb_inv :: "nat \<Rightarrow> nat \<Rightarrow> (nat \<Rightarrow> nat) \<Rightarrow> nb_sys \<Rightarrow> bool" where
  "nb_inv n rounds upd s \<longleftrightarrow> cx_mutex_ok (nb_pc s) (nb_ms s 0) \<and> nb_cv s = [] \<and> nb_places n s \<and> nb_rounds n rounds upd s"

lemma nb_handle: "nb_places n s \<Longrightarrow> nb_pc s h \<noteq> Cx_Idle \<Longrightarrow> h < n"
  by (metis nb_places_def not_le)

lemma nb_places_move:
  assumes "nb_places n s" "h < n" "nb_pc s h \<notin> {Cx_Done}" "p \<in> {Cx_Check, Cx_Suspend, Cx_Lock_Wait, Cx_Owner, Cx_Unlocked}"
    "nb_pc t = cx_handover ws ((nb_pc s)(h := p))" "nb_left t = nb_left s"
  shows "nb_places n t"
proof -
  have same: "nb_pc t g = Cx_Idle \<longleftrightarrow> ((nb_pc s)(h := p)) g = Cx_Idle" "nb_pc t g = Cx_Done \<longleftrightarrow> ((nb_pc s)(h := p)) g = Cx_Done" for g
    unfolding assms(5) cx_handover_iff by simp_all
  have "nb_pc t g \<in> {Cx_Idle, Cx_Check, Cx_Suspend, Cx_Lock_Wait, Cx_Owner, Cx_Unlocked, Cx_Done}" for g
  proof -
    have all: "((nb_pc s)(h := p)) g \<in> {Cx_Idle, Cx_Check, Cx_Suspend, Cx_Lock_Wait, Cx_Owner, Cx_Unlocked, Cx_Done}" for g
      using assms(1,4) by (auto simp: nb_places_def)
    have "cx_granted q \<in> {Cx_Idle, Cx_Check, Cx_Suspend, Cx_Lock_Wait, Cx_Owner, Cx_Unlocked, Cx_Done}"
      if "q \<in> {Cx_Idle, Cx_Check, Cx_Suspend, Cx_Lock_Wait, Cx_Owner, Cx_Unlocked, Cx_Done}" for q
      using that by auto
    then show ?thesis unfolding assms(5) cx_handover_def using all [of g] by simp
  qed
  moreover have "nb_pc t g = Cx_Idle" if "n \<le> g" for g using that assms(1,2) by (auto simp: same nb_places_def)
  moreover have "nb_pc t g = Cx_Done \<longleftrightarrow> nb_left t g = 0" if "g < n" for g
    using that assms(1-4,6) by (auto simp: same nb_places_def)
  ultimately show ?thesis by (simp add: nb_places_def)
qed

lemma nb_rounds_same: "nb_rounds n rounds upd s \<Longrightarrow> nb_gid t = nb_gid s \<Longrightarrow> nb_left t = nb_left s \<Longrightarrow> nb_rounds n rounds upd t"
  by (simp add: nb_rounds_def)

lemma nb_rounds_work:
  assumes "nb_rounds n rounds upd s" "h < n" "0 < nb_left s h" "nb_gid t = upd (nb_gid s)" "nb_left t = (nb_left s)(h := nb_left s h - 1)"
  shows "nb_rounds n rounds upd t"
proof -
  obtain k where k: "nb_gid s = (upd ^^ k) 0" "k + (\<Sum>h < n. nb_left s h) = n * rounds" using assms(1) by (auto simp: nb_rounds_def)
  have "(\<Sum>i < n. nb_left t i) + nb_left s h = (\<Sum>i < n. nb_left s i) + nb_left t h"
    by (rule sum_update) (use assms(2,5) in auto)
  then have "Suc k + (\<Sum>h < n. nb_left t h) = n * rounds" using k(2) assms(3,5) by simp
  moreover have "nb_gid t = (upd ^^ Suc k) 0" using k(1) assms(4) by simp
  ultimately show ?thesis unfolding nb_rounds_def by blast
qed

lemma nb_inv_step:
  assumes "quiet notify" "nb_step n upd notify s t" "nb_inv n rounds upd s"
  shows "nb_inv n rounds upd t"
proof -
  have mx: "cx_mutex_ok (nb_pc s) (nb_ms s 0)" and cv: "nb_cv s = []" and pl: "nb_places n s" and rd: "nb_rounds n rounds upd s"
    using assms(3) by (simp_all add: nb_inv_def)
  from assms(2) show ?thesis
  proof cases
    case (call h)
    have "nb_places n t" by (rule nb_places_move [OF pl call(2), of Cx_Check t "[]"]) (use call in \<open>simp_all\<close>)
    moreover have "cx_mutex_ok (nb_pc t) (nb_ms t 0)"
      using cx_mutex_move [OF mx, of h Cx_Check] call by (simp add: cx_holds_def cx_queued_def)
    ultimately show ?thesis using call cv nb_rounds_same [OF rd, of t] by (simp add: nb_inv_def)
  next
    case (ready h got m')
    have h: "h < n" using nb_handle [OF pl, of h] ready by simp
    have "nb_places n t"
      by (rule nb_places_move [OF pl h, of "if got then Cx_Owner else Cx_Suspend" t "[]"]) (use ready in \<open>simp_all\<close>)
    moreover have "cx_mutex_ok (nb_pc t) (nb_ms t 0)" using cx_mutex_try [OF mx, of got m' h] ready by (simp add: cx_holds_def cx_queued_def)
    ultimately show ?thesis using ready cv nb_rounds_same [OF rd, of t] by (simp add: nb_inv_def)
  next
    case (suspend h m' log')
    have h: "h < n" using nb_handle [OF pl, of h] suspend by simp
    have "nb_places n t"
      by (rule nb_places_move [OF pl h, of Cx_Lock_Wait t "submitted (nb_log s) log'"])
        (use suspend in \<open>simp_all\<close>)
    moreover have "cx_mutex_ok (nb_pc t) (nb_ms t 0)" using cx_mutex_suspend [OF mx, of h "nb_log s" m' log'] suspend by simp
    ultimately show ?thesis using suspend cv nb_rounds_same [OF rd, of t] by (simp add: nb_inv_def)
  next
    case (discard h ms' log')
    have h: "h < n" using nb_handle [OF pl, of h] discard by simp
    have "nb_places n t"
      by (rule nb_places_move [OF pl h, of Cx_Unlocked t "submitted (nb_log s) log'"]) (use discard in simp_all)
    moreover obtain m' where "mutex_unlock log_submit (nb_ms s 0) (nb_log s) = Inr (m', log')" "ms' 0 = m'"
      using cx_guard_unlock [OF discard(3)] by blast
    then have "cx_mutex_ok (nb_pc t) (nb_ms t 0)"
      using cx_mutex_unlock [OF mx, of h Cx_Unlocked] discard by (simp add: cx_holds_def cx_queued_def)
    ultimately show ?thesis using discard cv nb_rounds_same [OF rd, of t] by (simp add: nb_inv_def)
  next
    case (work h cv' ms' log')
    have h: "h < n" using nb_handle [OF pl, of h] work by simp
    have left: "0 < nb_left s h" using pl h work(2) by (auto simp: nb_places_def)
    have same: "cv' = []" "ms' = nb_ms s" "log' = nb_log s" using assms(1) work(3) cv by (auto simp: quiet_def)
    have "nb_places n t" using pl h left work same by (auto simp: nb_places_def)
    moreover have "cx_mutex_ok (nb_pc t) (nb_ms t 0)"
      using cx_mutex_move [OF mx, of h "if 1 < nb_left s h then Cx_Idle else Cx_Done"] work same by (simp add: cx_holds_def cx_queued_def)
    moreover have "nb_rounds n rounds upd t" using nb_rounds_work [OF rd h left, of t] work by simp
    ultimately show ?thesis using work same by (simp add: nb_inv_def)
  qed
qed

section \<open>The programs end\<close>

definition nb_rank :: "nat \<Rightarrow> nb_sys \<Rightarrow> nat" where
  "nb_rank n s = (\<Sum>h < n. 10 * nb_left s h + cx_rank1 (nb_pc s h))"

lemma nb_rank_move:
  assumes "h < n" "nb_pc t = cx_handover ws ((nb_pc s)(h := p))" "nb_left t = nb_left s" "cx_rank1 p < cx_rank1 (nb_pc s h)"
  shows "nb_rank n t < nb_rank n s"
  unfolding nb_rank_def
proof (rule sum_less_one [OF assms(1)])
  show "10 * nb_left t h + cx_rank1 (nb_pc t h) < 10 * nb_left s h + cx_rank1 (nb_pc s h)"
    using cx_handover_rank [of ws "(nb_pc s)(h := p)" h] assms(4) unfolding assms(2,3) by simp
  show "10 * nb_left t g + cx_rank1 (nb_pc t g) \<le> 10 * nb_left s g + cx_rank1 (nb_pc s g)" for g
    using cx_handover_rank [of ws "(nb_pc s)(h := p)" g] assms(4) unfolding assms(2,3) by (cases "g = h") simp_all
qed

lemma nb_rank_less:
  assumes "quiet notify" "nb_inv n rounds upd s" "nb_step n upd notify s t"
  shows "nb_rank n t < nb_rank n s"
proof -
  have pl: "nb_places n s" using assms(2) by (simp add: nb_inv_def)
  from assms(3) show ?thesis
  proof cases
    case (call h)
    then show ?thesis using nb_rank_move [of h n t "[]" s Cx_Check] by simp
  next
    case (ready h got m')
    moreover have "h < n" using nb_handle [OF pl, of h] ready by simp
    ultimately show ?thesis using nb_rank_move [of h n t "[]" s "if got then Cx_Owner else Cx_Suspend"]
      by (cases got) simp_all
  next
    case (suspend h m' log')
    moreover have "h < n" using nb_handle [OF pl, of h] suspend by simp
    ultimately show ?thesis using nb_rank_move [of h n t "submitted (nb_log s) log'" s Cx_Lock_Wait] by simp
  next
    case (discard h ms' log')
    moreover have "h < n" using nb_handle [OF pl, of h] discard by simp
    ultimately show ?thesis using nb_rank_move [of h n t "submitted (nb_log s) log'" s Cx_Unlocked] by simp
  next
    case (work h cv' ms' log')
    have h: "h < n" using nb_handle [OF pl, of h] work by simp
    then have "0 < nb_left s h" using pl work(2) by (auto simp: nb_places_def)
    moreover have "log' = nb_log s" using assms(1,2) work(3) by (auto simp: quiet_def nb_inv_def)
    ultimately show ?thesis unfolding nb_rank_def by (intro sum_less_one [OF h]) (use work in auto)
  qed
qed

lemma nb_one_steps:
  assumes "quiet notify" "nb_inv n rounds upd s" "h < n" "nb_pc s h \<notin> {Cx_Done, Cx_Lock_Wait}"
  shows "\<exists>t. nb_step n upd notify s t"
proof -
  have pl: "nb_places n s" and cv: "nb_cv s = []" using assms(2) by (simp_all add: nb_inv_def)
  obtain m' lg' where un: "mutex_unlock log_submit (nb_ms s 0) (nb_log s) = Inr (m', lg')" using cx_unlock_returns by blast
  have "nb_pc s h \<in> {Cx_Idle, Cx_Check, Cx_Suspend, Cx_Owner, Cx_Unlocked}" using pl assms(4) by (auto simp: nb_places_def)
  then consider "nb_pc s h = Cx_Idle" | "nb_pc s h = Cx_Check" | "nb_pc s h = Cx_Suspend" | "nb_pc s h = Cx_Owner" | "nb_pc s h = Cx_Unlocked"
    by blast
  then show ?thesis
  proof cases
    case 1
    then have "0 < nb_left s h" using pl assms(3) by (auto simp: nb_places_def)
    from nb_step.call [OF assms(3) 1 this] show ?thesis by blast
  next
    case 2
    obtain got m' where "guard_await_ready (nb_ms s 0) = (got, m')" by (cases "guard_await_ready (nb_ms s 0)")
    from nb_step.ready [OF 2 this] show ?thesis by blast
  next
    case 3
    obtain m' lg' where "guard_await_suspend log_submit h (nb_ms s 0) (nb_log s) = Inr (m', lg')"
      by (cases "mx_locked (nb_ms s 0)") (simp_all add: guard_await_suspend_def log_submit_def)
    from nb_step.suspend [OF 3 this] show ?thesis by blast
  next
    case 4
    have "lock_guard_destroy log_submit (lock_guard_new 0) (nb_ms s) (nb_log s) = Inr ((nb_ms s)(0 := m'), lg')"
      using un by (simp add: lock_guard_destroy_def lock_guard_new_def)
    from nb_step.discard [OF 4 this] show ?thesis by blast
  next
    case 5
    have "notify (upd (nb_gid s)) (nb_cv s, nb_ms s, nb_log s) = Inr ([], nb_ms s, nb_log s)" using assms(1) cv by (simp add: quiet_def)
    from nb_step.work [of s h notify upd, OF 5 this] show ?thesis by blast
  qed
qed

text \<open>Where the mutex is held its owner can go on; where it is free nobody waits for it.\<close>

lemma nb_progress:
  assumes "quiet notify" "(upd ^^ (n * rounds)) 0 = 0" "nb_inv n rounds upd s" "\<not> nb_end n s"
  shows "\<exists>t. nb_step n upd notify s t"
proof -
  have mx: "cx_mutex_ok (nb_pc s) (nb_ms s 0)" and pl: "nb_places n s" and cv: "nb_cv s = []" using assms(3) by (simp_all add: nb_inv_def)
  show ?thesis
  proof (cases "\<exists>h. cx_holds (nb_pc s h)")
    case True
    then obtain h where h: "cx_holds (nb_pc s h)" ..
    then have "h < n" using nb_handle [OF pl, of h] by (auto simp: cx_holds_def)
    moreover have "nb_pc s h \<notin> {Cx_Done, Cx_Lock_Wait}" using h by (auto simp: cx_holds_def)
    ultimately show ?thesis using nb_one_steps [OF assms(1,3)] by blast
  next
    case False
    have free: "\<not> mx_locked (nb_ms s 0)" and queue: "\<And>h. \<not> cx_queued (nb_pc s h)" using mx False by (auto simp: cx_mutex_ok_def)
    have "\<exists>h < n. nb_pc s h \<noteq> Cx_Done"
    proof (rule ccontr)
      assume "\<not> ?thesis"
      then have all: "\<forall>h < n. nb_pc s h = Cx_Done" by blast
      then have "(\<Sum>h < n. nb_left s h) = 0" using pl by (simp add: nb_places_def)
      then have "nb_gid s = 0" using assms(2,3) by (auto simp: nb_inv_def nb_rounds_def)
      with all cv free assms(4) show False by (simp add: nb_end_def)
    qed
    then show ?thesis using nb_one_steps [OF assms(1,3)] queue by (auto simp: cx_queued_def)
  qed
qed

lemma nb_init_inv: "0 < rounds \<Longrightarrow> nb_inv n rounds upd (nb_init n rounds)"
  by (auto simp: nb_inv_def nb_init_def nb_places_def nb_rounds_def cx_mutex_ok_def mutex_new_def cx_holds_def cx_queued_def intro!: exI [of _ 0])

lemma nb_rank_init: "nb_rank n (nb_init n rounds) = n * (10 * rounds + 10)"
  by (simp add: nb_rank_def nb_init_def)

text \<open>The two programs, each on the invariant and the measure above.\<close>

lemma gid_turns: "((\<lambda>gid. (gid + 1) mod 2) ^^ k) 0 = k mod (2 :: nat)"
  by (induction k) (simp_all add: mod_Suc_eq)

lemma gid_kept: "((\<lambda>gid. gid) ^^ k) x = x"
  by (induction k) simp_all

lemma nb_client:
  assumes "quiet notify" "0 < rounds" "(upd ^^ (n * rounds)) 0 = 0"
  shows "terminating_client (nb_inv n rounds upd) (nb_step n upd notify) (\<lambda>s. s) (nb_step n upd notify) (nb_init n rounds)
    (\<lambda>_. True) (nb_rank n) (nb_end n)"
proof (unfold_locales, goal_cases)
  case (1 l l') then show ?case using nb_inv_step [OF assms(1)] by blast
next
  case 2 show ?case using assms(2) by (rule nb_init_inv)
next
  case (6 s t) then show ?case using nb_rank_less [OF assms(1)] by blast
next
  case (7 s) then show ?case using nb_progress [OF assms(1,3)] by blast
qed simp_all

interpretation notifyall: terminating_client "nb_inv n 1 (\<lambda>gid. gid)" "coro_cv_notifyall n" "\<lambda>s. s" "coro_cv_notifyall n" "nb_init n 1"
  "\<lambda>_. True" "nb_rank n" "nb_end n" for n
  unfolding coro_cv_notifyall_def by (rule nb_client [OF quiet_notify(1)]) (simp_all add: gid_kept)

interpretation notifyone: terminating_client "nb_inv 2 notifyone_run_cnt (\<lambda>gid. (gid + 1) mod 2)" coro_cv_notifyone "\<lambda>s. s" coro_cv_notifyone
  "nb_init 2 notifyone_run_cnt" "\<lambda>_. True" "nb_rank 2" "nb_end 2"
  unfolding coro_cv_notifyone_def
  by (rule nb_client [OF quiet_notify(2)]) (simp_all only: gid_turns, simp_all add: notifyone_run_cnt_def)

text \<open>No coroutine of either program ever waits on the condition variable.\<close>

lemma nb_never_waits:
  "run_of (coro_cv_notifyall n) (nb_init n 1) k s \<Longrightarrow> nb_cv s = []"
  "run_of coro_cv_notifyone (nb_init 2 notifyone_run_cnt) k s \<Longrightarrow> nb_cv s = []"
  using notifyall.run_inv notifyone.run_inv by (auto simp: nb_inv_def)

text \<open>
  The programs of \<open>lab5b_bench.cpp\<close> on the library's condition variable end under every schedule, with every coroutine done,
  an empty queue of the condition variable, the mutex free and \<open>gid\<close> at 0, after at most 20 steps a coroutine or 10 steps a round.
\<close>

theorem coro_cv_benches_end:
  "ends_with (coro_cv_notifyall thread_num) (nb_init thread_num 1) (20 * thread_num) (nb_end thread_num) \<and>
   ends_with coro_cv_notifyone (nb_init 2 notifyone_run_cnt) (20 * (notifyone_run_cnt + 1)) (nb_end 2)"
  using notifyall.client_ends [of thread_num] notifyone.client_ends by (simp add: nb_rank_init algebra_simps)

end
