(* ===== verification/Spec2Isabelle.thy ===== *)
theory Spec2Isabelle
  imports Event Wait_Group Cond_Var Channel Scheduler Tcp Worker Spinlock Utils
    Sched_Loop Cv_Example Bench_Programs Thread_Pool Std_Monitor Ring_Echo Epoll_Echo Generator
    When_All Socket_Programs Buffer_Channel Cv_Queue Coro_Stl
    Concepts Memory Logging Io_Requests Demos Cv_Bench
begin

text \<open>
  \<^bold>\<open>A verification of tinyCoroLab, a C++20 coroutine runtime over io_uring.\<close>

  \<^bold>\<open>The program.\<close> A program written with the library creates \<^emph>\<open>tasks\<close> (\<open>task.hpp\<close>), coroutines
  that start suspended, and submits their handles to the \<^emph>\<open>scheduler\<close> (\<open>scheduler.hpp\<close>,
  \<open>src/scheduler.cpp\<close>), which deals them out in turn (\<open>dispatcher.hpp\<close>) to its \<^emph>\<open>contexts\<close>
  (\<open>context.hpp\<close>, \<open>src/context.cpp\<close>). A context is one worker thread around one \<^emph>\<open>engine\<close>
  (\<open>engine.hpp\<close>, \<open>src/engine.cpp\<close>): a lock-free queue of handles (\<open>atomic_queue.h\<close>) and a
  \<^emph>\<open>ring\<close> with an eventfd (\<open>uring_proxy.hpp\<close>). Its loop runs what is queued and then sleeps on
  the eventfd until a submission or a completed I/O request writes to it. Coroutines suspend in
  \<^emph>\<open>awaiters\<close>: of I/O requests (\<open>io/*.hpp\<close>, \<open>src/io/*\<close>, \<open>timer.hpp\<close>), whose completion
  callbacks resubmit the coroutine, and of the synchronisation components under \<open>comp/\<close>
  (event, latch, wait group, mutex, condition variable, channel), each a small state under a
  \<^emph>\<open>spinlock\<close> (\<open>spinlock.hpp\<close>) with a list of waiting handles that some later call resubmits.

  \<^bold>\<open>Data.\<close> A coroutine handle is a number (\<^typ>\<open>handle\<close>); a C++ object is a record; machine
  integers are words where they can wrap (the indices of the queue, the counters of engine,
  latch and wait group). What C++ leaves undefined, throws or blocks on for ever is a value of
  \<^typ>\<open>fault\<close>, and operations that can do so return a sum (theory Prelude).

  \<^bold>\<open>The theories\<close>, from the bottom:
  \<^item> Prelude: the error type, the binding of results, word lemmas.
  \<^item> Atomic_Queue: \<open>AtomicQueueB2\<close> of the vendored header, with the shuffled slot index and the
    32-bit head and tail. Push and pop refine the list of the elements at every position of the
    counters; the index shuffle is a permutation.
  \<^item> Marked_Buffer, Uring_Proxy, Engine, Context: the operations of these classes. Marked_Buffer
    shows that a lent index is not lent again.
  \<^item> Resumption: the locale of what the synchronisation components need of a submission
    function, interpreted (Runtime) by \<open>submit_to_scheduler\<close> and \<open>submit_to_context\<close>.
  \<^item> Runtime, Scheduler: contexts, the thread-local and global state, the dispatcher. Scheduling
    is round-robin and balanced.
  \<^item> Wait_Gate: the contract that event and latch share, proved once and interpreted in both.
  \<^item> Event, Latch, Wait_Group, Mutex, Cond_Var, Channel: the state and operations of each, their
    behaviour on every branch, and a step relation that interleaves any number of coroutines
    (atomic accesses outside the spinlock are steps of their own). A suspended coroutine goes on in these
    relations only if the operation that woke it has submitted its handle (\<open>submitted\<close>, theory Resumption). Shown are: no lost and no
    early wake-up, mutual exclusion and first-come hand-over, FIFO delivery, refinement of an
    abstract channel; and, where the code has a flaw, the execution that shows it.
  \<^item> Container, Task: results, promises, frames. A promise keeps its result in the general container, in
    that for plain data or, for \<open>void\<close>, as an exception pointer. Frames have one owner; awaiting goes down and
    comes back with the value. The two containers interpret one locale.
  \<^item> Memory (\<open>allocator/memory.hpp\<close>, the operators new and delete of the promise): the heap under
    the frames. Once the scheduler is initialised its blocks are exactly the live frames; at the start of the
    program, before it is, a coroutine function dereferences a null pointer.
  \<^item> Concepts (\<open>concepts/*.hpp\<close>, the constraints of \<open>parallel.hpp\<close>): C++ types as data, and the
    concepts and traits as functions on them. On a vector of tasks and a reduction over a vector,
    \<open>parallel_func\<close> compiles for \<open>int\<close> only.
  \<^item> Io, Io_Requests, Tcp: the awaiters, the callbacks, the poll and the connections. Requests and
    completions match, for every kind of request; registered descriptors are given back.
  \<^item> Run_Loop, Worker: \<open>context::run\<close>, once as a function with \<open>init\<close>, \<open>deinit\<close> and \<open>start\<close> on a stand-alone context, with fuel
    and a stand-in for the bodies, and once step by step against concurrent submitters and the kernel.
  \<^item> Nested_Calls: coroutines that await coroutines, as a machine that moves between frames. Awaiting
    a task is a call, except that an exception does not get out of a task whose result is plain data; a task that nobody awaits
    flows off the end of its final awaiter; and the engine reads a destroyed frame when it resumes an inner coroutine
    (\<open>stack_call.cpp\<close> is the example). When_All: \<open>when_all.hpp\<close>, \<open>parallel.hpp\<close> and the programs
    on them, which never get past the placeholder.
  \<^item> Sched_Loop: \<open>scheduler::loop\<close> over any number of workers, with the start, the scan for
    idleness read by read, the stop and the join. When it returns every task has been run, unless
    it was submitted to a worker that had already left.
  \<^item> Spinlock, Utils, Logging: the lock itself, the string helpers, and what is logged where.
  \<^item> Client: programs that use the library, as a locale. A client's steps project to steps of a
    component, whose invariant carries over; with a measure and progress every run ends in a
    final state (\<open>ends_with\<close>). The following theories interpret it.
  \<^item> Counter_Example, Sync_Examples, Channel_Example, Cv_Example (\<open>examples/\<close>): the programs on the
    mutex, the latch, the wait group, the event, the channel and the condition variable end
    under every schedule with the result they promise; the last one on one worker only, and on
    several workers it can hang. Bench_Programs: the same for the benchmarks of the components.
    Buffer_Channel: several producers and consumers on one channel, the last producer of which
    closes it. Cv_Queue: producer and consumer around \<open>notify_one\<close>, with the same contrast
    between one and several workers. Cv_Bench: the benchmarks on the condition variable, which
    never wait.
  \<^item> Worker_Io: workers with their engines and rings, and the places at which a suspended
    coroutine can be; a locale of coroutines that do I/O, each of which is in one place.
    Socket_Programs interprets it for the echo servers and clients of \<open>examples/\<close> and
    \<open>benchmark/tinycoro_model/\<close>: no connection is forgotten, and every session sends back
    what it received if the kernel sends completely.
  \<^item> Thread_Pool, Std_Monitor (\<open>benchtests/\<close>): the thread pool and the benchmark programs on
    standard primitives, where a blocked task blocks its thread. What a program on the pool, or
    around a monitor, has to show is a locale each, interpreted by the programs.
    Coro_Stl: the same blocking calls in coroutines of the library; the scheduler deals them out
    as the pool does, so that the results on the pool carry over.
  \<^item> Ring_Echo (\<open>io_uring/example/echo_server.cpp\<close>), Epoll_Echo
    (\<open>benchmark/base_model/epoll_server_bench.cpp\<close>), Generator
    (\<open>C++20_coroutine/promise_test.cpp\<close>): the stand-alone programs. The ring server has one
    request per connection and echoes correctly for a single client, and not for two; the
    generator yields the sequence its body describes. Demos: the smaller demonstrations beside
    them.

  \<^bold>\<open>Bounds and fuel.\<close> \<open>context_run\<close> takes fuel; two more than the number of queued tasks is
  enough for tasks that finish when resumed (\<open>standalone_context_drains\<close>). The queue has the configured capacity
  (\<open>kQueCap\<close>, 16384); operations on a full queue, where the code spins, give the fault
  \<open>Would_Block\<close>, and theorems about submissions assume room. The worker's counters are exact as long
  as fewer than $2^{30}$ threads submit at once. Counters of I/O requests are assumed below
  $2^{63}$, which the ring's size guarantees in practice. The generator's \<open>main\<close> takes fuel, one
  more than the number of yields; the machines of Demos take fuel that their lemmas state to be enough. The bounds in \<open>ends_with\<close> are the initial values of the measures.

  \<^bold>\<open>Parameters.\<close> The kernel side of the ring is a step that moves submitted entries to
  completions with any result; how many entries a submit takes is an argument. The socket calls
  are a record of functions. What the body of a coroutine does when it is resumed is an argument
  of the run loop. Spurious wake-ups of a standard condition variable are finitely many, their
  number a part of the initial state.

  \<^bold>\<open>Types.\<close> In Concepts the members of the classes a program adds are a parameter (\<open>cxx_env\<close>). In Memory
  the address that \<open>malloc\<close> chooses is a parameter, new and not null. In Logging the build
  configuration and whether the log file opens are parameters.

  \<^bold>\<open>Not modelled.\<close> Weak memory: atomic accesses are sequentially consistent. What a worker does after its loop: the step
  relations of Worker and Sched_Loop end when it leaves \<open>run\<close>. The following \<open>deinit\<close> (a function in Run_Loop) closes the
  eventfd, and a submission or a stop whose write to the eventfd comes later than that writes to a closed descriptor; such late submissions are
  counted there as late, without the failing write. Coro_Stl: its workers are threads of the pool by definition, what is compared is how the tasks
  are dealt out. Socket_Programs: the log lines of the sessions, one of which reads its buffer without a terminator. Concepts: conversions by constructors
  of classes other than those named. The macros for
  attributes, the conversions from \<open>std::chrono\<close> in \<open>timer.hpp\<close> (they do not instantiate), the random
  and sleeping helpers of \<open>utils.hpp\<close>, patterns and formatting of log lines, the timing
  harness of the benchmarks, three programs of \<open>lab5b_bench.cpp\<close> on \<open>std::condition_variable\<close> (their
  mutex is unlocked twice or a variable is read after its end, which leaves nothing to prove), and the
  unit tests.
\<close>

end
